(* ===== verification/Prelude.thy ===== *)
theory Prelude
  imports Main "HOL-Library.Word"
begin

unbundle bit_operations_syntax

section \<open>Shared vocabulary of the development\<close>

text \<open>
  What every component of the model uses: the result type of operations that can go wrong,
  its sequencing operator, reachability for step relations indexed by threads, and small
  facts on lists and fixed-width integers.  A result is a sum: \<open>Inl\<close> carries the fault
  (undefined behaviour, a failed assertion, a loop that does not end), \<open>Inr\<close> the value.
  A name may not end in an underscore here, so the member \<open>x_\<close> of a class is the record
  field \<open>x_m\<close>.
\<close>

named_theorems mem_simps "evaluation rules of the memory model"
named_theorems pool_simps "evaluation rules of the storage and pool operations"
named_theorems net_simps "evaluation rules of the datagram components"
named_theorems srv_simps "evaluation rules of the stream server components"

datatype fault =
    NullDeref        \<comment> \<open>an access through a null pointer\<close>
  | BadAccess        \<comment> \<open>an access outside a live block, or of bytes that hold no such value\<close>
  | BadFree          \<comment> \<open>\<open>free\<close> of something \<open>malloc\<close> did not return\<close>
  | BadIterator      \<comment> \<open>an erased iterator is used\<close>
  | AssertFailed     \<comment> \<open>\<open>assert\<close> or \<open>_ASSERT\<close>\<close>
  | NoReturn         \<comment> \<open>the loop does not end\<close>
  | Uncaught         \<comment> \<open>an exception leaves the body of a thread\<close>
  | DataRace         \<comment> \<open>two threads are in one container, and one of them changes it\<close>

type_synonym 'a res = "fault + 'a"

type_synonym u16 = "16 word"
type_synonym u32 = "32 word"
type_synonym u64 = "64 word"
type_synonym byte = "8 word"

text \<open>Sequencing: the first fault ends the computation.\<close>

definition rbind :: "'e + 'a \<Rightarrow> ('a \<Rightarrow> 'e + 'b) \<Rightarrow> 'e + 'b" where
  "rbind r f = (case r of Inl e \<Rightarrow> Inl e | Inr x \<Rightarrow> f x)"

lemma rbind_Inl [simp]: "rbind (Inl e) f = Inl e"
  by (simp add: rbind_def)

lemma rbind_Inr [simp]: "rbind (Inr x) f = f x"
  by (simp add: rbind_def)

lemma rbind_eq_Inr: "rbind r f = Inr y \<longleftrightarrow> (\<exists>x. r = Inr x \<and> f x = Inr y)"
  by (cases r) auto

lemma rbind_InrE [elim!]:
  assumes "rbind r f = Inr y"
  obtains x where "r = Inr x" and "f x = Inr y"
  using assms by (auto simp: rbind_eq_Inr)

lemma rbind_cong [fundef_cong]:
  "r = r' \<Longrightarrow> (\<And>x. r' = Inr x \<Longrightarrow> f x = g x) \<Longrightarrow> rbind r f = rbind r' g"
  by (cases r') auto

lemma rbind_assoc: "rbind (rbind r f) g = rbind r (\<lambda>x. rbind (f x) g)"
  by (cases r) auto

text \<open>\<open>assert\<close> in a sequence.\<close>

definition check :: "bool \<Rightarrow> unit res" where
  "check b = (if b then Inr () else Inl AssertFailed)"

lemma check_simps [simp]: "check True = Inr ()" "check False = Inl AssertFailed"
  by (simp_all add: check_def)

lemma check_eq_Inr [simp]: "check b = Inr u \<longleftrightarrow> b"
  by (simp add: check_def)

subsection \<open>Thread-indexed step relations\<close>

text \<open>
  A component used by several threads is a relation \<open>step s t s'\<close>: thread \<open>t\<close> takes one
  atomic step.  \<open>reach\<close> is what any interleaving can reach, \<open>run_without t\<close> what the
  threads other than \<open>t\<close> can do.
\<close>

inductive reach :: "('s \<Rightarrow> nat \<Rightarrow> 's \<Rightarrow> bool) \<Rightarrow> 's \<Rightarrow> 's \<Rightarrow> bool"
  for step :: "'s \<Rightarrow> nat \<Rightarrow> 's \<Rightarrow> bool" and s0 :: 's where
  reach_refl: "reach step s0 s0"
| reach_step: "reach step s0 s \<Longrightarrow> step s t s' \<Longrightarrow> reach step s0 s'"

inductive run_without :: "('s \<Rightarrow> nat \<Rightarrow> 's \<Rightarrow> bool) \<Rightarrow> nat \<Rightarrow> 's \<Rightarrow> 's \<Rightarrow> bool"
  for step :: "'s \<Rightarrow> nat \<Rightarrow> 's \<Rightarrow> bool" and t :: nat and s0 :: 's where
  without_refl: "run_without step t s0 s0"
| without_step: "run_without step t s0 s \<Longrightarrow> step s u s' \<Longrightarrow> u \<noteq> t \<Longrightarrow> run_without step t s0 s'"

lemma reach_induct_inv:
  assumes "reach step s0 s" and "I s0"
    and "\<And>s t s'. I s \<Longrightarrow> step s t s' \<Longrightarrow> I s'"
  shows "I s"
  using assms(1) by (induction rule: reach.induct) (auto intro: assms(2,3))

lemma reach_trans: "reach step b c \<Longrightarrow> reach step a b \<Longrightarrow> reach step a c"
  by (induction rule: reach.induct) (auto intro: reach.intros)

lemma reach_without: "run_without step t a b \<Longrightarrow> reach step a b"
  by (induction rule: run_without.induct) (auto intro: reach.intros)

text \<open>One thread on its own: a list of the states it passes through.\<close>

lemma reach_one: "step s t s' \<Longrightarrow> reach step s s'"
  by (rule reach_step [OF reach_refl])

subsection \<open>Lists and words\<close>

lemma list_all_upt_iff [simp]: "list_all P [0..<n] \<longleftrightarrow> (\<forall>i<n. P i)"
  by (auto simp: list_all_iff)

lemma distinct_last_butlast: "distinct (xs @ [x]) \<Longrightarrow> x \<notin> set xs"
  by simp

lemma insert_Un_Diff:
  "S \<inter> C = {} \<Longrightarrow> t \<noteq> p \<Longrightarrow> p \<notin> S \<Longrightarrow> (insert p S \<union> C) - (S \<union> {t}) = insert p (C - {t})"
  by blast

lemma UN_split: "(\<Union>g. f g) = f h \<union> (\<Union>g\<in>-{h}. f g)"
  by (auto intro: UN_I [of h])

text \<open>Sizes are read with \<open>unat\<close>; keep them so when they become offsets.\<close>

declare of_nat_unat [simp del]

lemma unat_mult_lem': "unat a * unat b < 2 ^ 64 \<Longrightarrow> unat (a * b :: u64) = unat a * unat b"
  by (simp add: unat_word_ariths)

lemma unat_add_lem': "unat a + unat b < 2 ^ 64 \<Longrightarrow> unat (a + b :: u64) = unat a + unat b"
  by (simp add: unat_word_ariths)

lemma unat_double: "2 * unat a < 2 ^ 64 \<Longrightarrow> unat (push_bit 1 a :: u64) = 2 * unat a"
  by (simp add: push_bit_eq_mult unat_word_ariths)

subsection \<open>Byte arrays\<close>

text \<open>
  \<open>memcpy\<close> and \<open>memmove\<close> on arrays that are not part of the pools' memory: both ranges must
  lie inside their arrays.
\<close>

definition copy_range :: "'b list \<Rightarrow> nat \<Rightarrow> 'b list \<Rightarrow> nat \<Rightarrow> nat \<Rightarrow> 'b list res" where
  "copy_range dst d src s n =
     (if d + n \<le> length dst \<and> s + n \<le> length src
      then Inr (take d dst @ take n (drop s src) @ drop (d + n) dst) else Inl BadAccess)"

lemma copy_range_ok:
  "d + n \<le> length dst \<Longrightarrow> s + n \<le> length src \<Longrightarrow>
   copy_range dst d src s n = Inr (take d dst @ take n (drop s src) @ drop (d + n) dst)"
  by (simp add: copy_range_def)

lemma copy_range_length: "copy_range dst d src s n = Inr r \<Longrightarrow> length r = length dst"
  by (auto simp: copy_range_def split: if_splits)

end
