(* ===== verification/Mutex.thy ===== *)
theory Mutex
  imports Prelude
begin

section \<open>The interface of a mutual exclusion lock\<close>

text \<open>
  What the users of a lock rely on: at most one thread holds it, and what one thread does
  never makes another thread gain or lose it.  A client is a \<open>guarded\<close> system: besides
  the lock's own steps, a thread may step the protected data, but only while it holds the
  lock.  The client's lemma is that the data are stable for the holder, so a section between
  acquisition and release can be read as one atomic step; the models of the thread pool
  and of the client list use it that way.
\<close>

inductive guarded ::
  "('s \<Rightarrow> nat \<Rightarrow> 's \<Rightarrow> bool) \<Rightarrow> ('s \<Rightarrow> nat \<Rightarrow> bool) \<Rightarrow> ('d \<Rightarrow> nat \<Rightarrow> 'd \<Rightarrow> bool) \<Rightarrow>
   's \<times> 'd \<Rightarrow> nat \<Rightarrow> 's \<times> 'd \<Rightarrow> bool"
  for lstep :: "'s \<Rightarrow> nat \<Rightarrow> 's \<Rightarrow> bool" and holds :: "'s \<Rightarrow> nat \<Rightarrow> bool"
    and dstep :: "'d \<Rightarrow> nat \<Rightarrow> 'd \<Rightarrow> bool" where
  guarded_lock: "lstep s t s' \<Longrightarrow> guarded lstep holds dstep (s, d) t (s', d)"
| guarded_data: "holds s t \<Longrightarrow> dstep d t d' \<Longrightarrow> guarded lstep holds dstep (s, d) t (s, d')"

inductive_cases guardedE: "guarded lstep holds dstep (s, d) t (s', d')"

lemma guarded_reach_lock:
  assumes "reach (guarded lstep holds dstep) x y"
  shows "reach lstep (fst x) (fst y)"
  using assms
proof (induction rule: reach.induct)
  case reach_refl
  then show ?case by (rule reach.reach_refl)
next
  case (reach_step s t s')
  from reach_step.hyps(2) show ?case
    by cases (use reach_step.IH in \<open>auto intro: reach.reach_step\<close>)
qed

locale mutex =
  fixes init :: 's
    and step :: "'s \<Rightarrow> nat \<Rightarrow> 's \<Rightarrow> bool"
    and holds :: "'s \<Rightarrow> nat \<Rightarrow> bool"
  assumes exclusive: "reach step init s \<Longrightarrow> holds s i \<Longrightarrow> holds s j \<Longrightarrow> i = j"
    and others_keep: "reach step init s \<Longrightarrow> step s i s' \<Longrightarrow> i \<noteq> j \<Longrightarrow> holds s' j = holds s j"
begin

lemma held_while_others_run:
  assumes "run_without step t s s'" and "reach step init s" and "holds s t"
  shows "holds s' t \<and> (\<forall>u. holds s' u \<longrightarrow> u = t)"
  using assms
proof (induction rule: run_without.induct)
  case without_refl
  then show ?case by (blast dest: exclusive)
next
  case (without_step s1 u s2)
  then have h: "holds s1 t" by blast
  have r: "reach step init s1"
    using without_step.hyps(1) without_step.prems(1) by (blast intro: reach_without reach_trans)
  have "holds s2 t" using others_keep [OF r without_step.hyps(2,3)] h by simp
  moreover have "reach step init s2" using r without_step.hyps(2) by (rule reach.reach_step)
  ultimately show ?case by (blast dest: exclusive)
qed

lemma guarded_stable:
  assumes "run_without (guarded step holds dstep) t (s, d) y"
    and "reach step init s" and "holds s t"
  shows "snd y = d \<and> holds (fst y) t"
  using assms
proof (induction rule: run_without.induct)
  case without_refl
  then show ?case by simp
next
  case (without_step x u y)
  have IH: "snd x = d" "holds (fst x) t" using without_step.IH without_step.prems by auto
  have "reach (guarded step holds dstep) (s, d) x"
    using without_step.hyps(1) by (rule reach_without)
  then have r: "reach step init (fst x)"
    using without_step.prems(1) by (auto dest: guarded_reach_lock intro: reach_trans)
  from without_step.hyps(2) show ?case
  proof cases
    case (guarded_lock s1 s2 e)
    then show ?thesis using IH r without_step.hyps(3) others_keep [of s1 u s2 t] by auto
  next
    case (guarded_data s1 e e')
    then show ?thesis using IH r without_step.hyps(3) exclusive [of s1 u t] by auto
  qed
qed

end

end
