(* ===== verification/Spinlock.thy ===== *)
theory Spinlock
  imports Mutex
begin

section \<open>The reader/writer spin lock (lock/Spinlock.cpp)\<close>

text \<open>
  Two atomic counters, \<open>lock_\<close> and \<open>reader_\<close> (here \<open>lock_m\<close> and \<open>reader_m\<close>), both 32-bit (\<open>long\<close> on
  Windows) and initially 0.  First the member functions as one thread that runs alone sees
  them: the two loops are \<open>partial_function\<close>s, so a call that spins for ever is
  \<open>None\<close>.  Then the same functions cut at their atomic accesses, as a step relation over
  any number of threads: one step is one access of \<open>lock_m\<close> or \<open>reader_m\<close> (or the
  return from \<open>Sleep\<close>), and \<open>pcs\<close> says where in a member function each thread is.
\<close>

record spinlock =
  lock_m :: u32
  reader_m :: u32

definition Spinlock :: spinlock where
  "Spinlock = \<lparr>lock_m = 0, reader_m = 0\<rparr>"

subsection \<open>The member functions, run by one thread\<close>

partial_function (option) drain :: "spinlock \<Rightarrow> spinlock option" where
  "drain s = (if reader_m s \<noteq> 0 then drain s else Some s)"

partial_function (option) Lock :: "spinlock \<Rightarrow> spinlock option" where
  "Lock s = (if lock_m s = 0 then drain (s\<lparr>lock_m := 1\<rparr>) else Lock (s\<lparr>lock_m := 1\<rparr>))"

definition Unlock :: "spinlock \<Rightarrow> spinlock" where
  "Unlock s = s\<lparr>lock_m := 0\<rparr>"

partial_function (option) ReadLock :: "spinlock \<Rightarrow> spinlock option" where
  "ReadLock s = (if lock_m s = 0 then Some (s\<lparr>reader_m := reader_m s + 1\<rparr>) else ReadLock s)"

definition ReadUnlock :: "spinlock \<Rightarrow> spinlock" where
  "ReadUnlock s = s\<lparr>reader_m := reader_m s - 1\<rparr>"

text \<open>The holders: the constructor takes the lock, the destructor gives it back.\<close>

definition ExclusiveLockHolder :: "spinlock \<Rightarrow> spinlock option" where
  "ExclusiveLockHolder s = Lock s"

definition ExclusiveLockHolder_dtor :: "spinlock \<Rightarrow> spinlock" where
  "ExclusiveLockHolder_dtor s = Unlock s"

definition SharedLockHolder :: "spinlock \<Rightarrow> spinlock option" where
  "SharedLockHolder s = ReadLock s"

definition SharedLockHolder_dtor :: "spinlock \<Rightarrow> spinlock" where
  "SharedLockHolder_dtor s = ReadUnlock s"

lemma drain_Some: "drain s = Some r \<Longrightarrow> reader_m s = 0 \<and> r = s"
  by (rule drain.raw_induct [where P = "\<lambda>s r. reader_m s = 0 \<and> r = s"]) (auto split: if_splits)

lemma drain_eq: "drain s = (if reader_m s = 0 then Some s else None)"
proof (cases "reader_m s = 0")
  case True
  then show ?thesis by (simp add: drain.simps)
next
  case False
  then show ?thesis using drain_Some [of s] by (cases "drain s") auto
qed

lemma Lock_Some:
  assumes ret: "Lock s = Some r"
  shows "lock_m s = 0"
proof (rule Lock.raw_induct [where P = "\<lambda>s r. lock_m s = 0", OF _ ret])
  fix f s r
  assume IH: "\<And>s r. f s = Some r \<Longrightarrow> lock_m s = 0"
    and eq: "(if lock_m s = 0 then drain (s\<lparr>lock_m := 1\<rparr>) else f (s\<lparr>lock_m := 1\<rparr>)) = Some r"
  show "lock_m s = 0"
    using IH [of "s\<lparr>lock_m := 1\<rparr>" r] eq by (auto split: if_splits)
qed

lemma Lock_eq: "Lock s = (if lock_m s = 0 \<and> reader_m s = 0 then Some (s\<lparr>lock_m := 1\<rparr>) else None)"
proof (cases "lock_m s = 0")
  case True
  then show ?thesis by (simp add: Lock.simps [of s] drain_eq)
next
  case False
  then show ?thesis using Lock_Some [of s] by (cases "Lock s") auto
qed

lemma ReadLock_Some: "ReadLock s = Some r \<Longrightarrow> lock_m s = 0 \<and> r = s\<lparr>reader_m := reader_m s + 1\<rparr>"
  by (rule ReadLock.raw_induct
      [where P = "\<lambda>s r. lock_m s = 0 \<and> r = s\<lparr>reader_m := reader_m s + 1\<rparr>"]) (auto split: if_splits)

lemma ReadLock_eq:
  "ReadLock s = (if lock_m s = 0 then Some (s\<lparr>reader_m := reader_m s + 1\<rparr>) else None)"
proof (cases "lock_m s = 0")
  case True
  then show ?thesis by (simp add: ReadLock.simps)
next
  case False
  then show ?thesis using ReadLock_Some [of s] by (cases "ReadLock s") auto
qed

lemma Unlock_Lock: "Lock s = Some s' \<Longrightarrow> Unlock s' = s"
  by (auto simp: Lock_eq Unlock_def split: if_splits)

lemma ReadUnlock_ReadLock: "ReadLock s = Some s' \<Longrightarrow> ReadUnlock s' = s"
  by (auto simp: ReadLock_eq ReadUnlock_def split: if_splits)

subsection \<open>The member functions, run by many threads\<close>

datatype pc =
    Out       \<comment> \<open>in no member function, holding nothing\<close>
  | WTry      \<comment> \<open>\<open>Lock\<close>: before the exchange\<close>
  | WSleep    \<comment> \<open>\<open>Lock\<close>: in \<open>Sleep(1)\<close>\<close>
  | WDrain    \<comment> \<open>\<open>Lock\<close>: in the loop on \<open>reader_m\<close>\<close>
  | WIn       \<comment> \<open>\<open>Lock\<close> has returned\<close>
  | RTry      \<comment> \<open>\<open>ReadLock\<close>: before reading \<open>lock_m\<close>\<close>
  | RSleep    \<comment> \<open>\<open>ReadLock\<close>: in \<open>Sleep(1)\<close>\<close>
  | RInc      \<comment> \<open>\<open>ReadLock\<close>: \<open>lock_m\<close> was 0, before \<open>++reader_m\<close>\<close>
  | RIn       \<comment> \<open>\<open>ReadLock\<close> has returned\<close>

record lock_sys =
  lk :: spinlock
  pcs :: "nat \<Rightarrow> pc"

definition lock_init :: lock_sys where
  "lock_init = \<lparr>lk = Spinlock, pcs = (\<lambda>_. Out)\<rparr>"

definition at :: "lock_sys \<Rightarrow> nat \<Rightarrow> pc \<Rightarrow> spinlock \<Rightarrow> lock_sys" where
  "at s t c l = s\<lparr>pcs := (pcs s)(t := c), lk := l\<rparr>"

text \<open>Only who holds the lock releases it: the usage that \<open>Spinlock.h\<close> expects, which the code cannot enforce.\<close>

inductive lock_step :: "lock_sys \<Rightarrow> nat \<Rightarrow> lock_sys \<Rightarrow> bool" where
  Lock_call: "pcs s t = Out \<Longrightarrow> lock_step s t (at s t WTry (lk s))"
| Lock_exchange: "pcs s t = WTry \<Longrightarrow>
    lock_step s t (at s t (if lock_m (lk s) = 0 then WDrain else WSleep) ((lk s)\<lparr>lock_m := 1\<rparr>))"
| Lock_sleep: "pcs s t = WSleep \<Longrightarrow> lock_step s t (at s t WTry (lk s))"
| Lock_drain: "pcs s t = WDrain \<Longrightarrow>
    lock_step s t (at s t (if reader_m (lk s) \<noteq> 0 then WDrain else WIn) (lk s))"
| Unlock_call: "pcs s t = WIn \<Longrightarrow> lock_step s t (at s t Out (Unlock (lk s)))"
| ReadLock_call: "pcs s t = Out \<Longrightarrow> lock_step s t (at s t RTry (lk s))"
| ReadLock_load: "pcs s t = RTry \<Longrightarrow>
    lock_step s t (at s t (if lock_m (lk s) = 0 then RInc else RSleep) (lk s))"
| ReadLock_sleep: "pcs s t = RSleep \<Longrightarrow> lock_step s t (at s t RTry (lk s))"
| ReadLock_inc: "pcs s t = RInc \<Longrightarrow>
    lock_step s t (at s t RIn ((lk s)\<lparr>reader_m := reader_m (lk s) + 1\<rparr>))"
| ReadUnlock_call: "pcs s t = RIn \<Longrightarrow> lock_step s t (at s t Out (ReadUnlock (lk s)))"

inductive_cases lock_stepE: "lock_step s t s'"

abbreviation claims_write :: "lock_sys \<Rightarrow> nat \<Rightarrow> bool" where
  "claims_write s t \<equiv> pcs s t = WDrain \<or> pcs s t = WIn"

definition holds_write :: "lock_sys \<Rightarrow> nat \<Rightarrow> bool" where
  "holds_write s t \<longleftrightarrow> pcs s t = WIn"

definition reading :: "lock_sys \<Rightarrow> nat set" where
  "reading s = {t. pcs s t = RIn}"

definition passed_test :: "lock_sys \<Rightarrow> nat set" where
  "passed_test s = {t. pcs s t = RInc \<or> pcs s t = RIn}"

lemma at_sel [simp]:
  "pcs (at s t c l) = (pcs s)(t := c)" "lk (at s t c l) = l"
  by (simp_all add: at_def)

lemma reading_at: "reading (at s t c l) = (if c = RIn then insert t (reading s) else reading s - {t})"
  by (auto simp: reading_def)

lemma lock_sel [simp]:
  "lock_m (Unlock l) = 0" "reader_m (Unlock l) = reader_m l"
  "lock_m (ReadUnlock l) = lock_m l" "reader_m (ReadUnlock l) = reader_m l - 1"
  by (simp_all add: Unlock_def ReadUnlock_def)

subsection \<open>The invariant\<close>

definition writers :: "lock_sys \<Rightarrow> nat set" where
  "writers s = {t. claims_write s t}"

definition writers_inv :: "lock_sys \<Rightarrow> bool" where
  "writers_inv s \<longleftrightarrow>
     (lock_m (lk s) = 0 \<and> writers s = {}) \<or> (lock_m (lk s) \<noteq> 0 \<and> (\<exists>t. writers s = {t}))"

definition readers_inv :: "lock_sys \<Rightarrow> bool" where
  "readers_inv s \<longleftrightarrow> finite (reading s) \<and> reader_m (lk s) = of_nat (card (reading s))"

lemma writers_at:
  "writers (at s t c l) = (if c = WDrain \<or> c = WIn then insert t (writers s) else writers s - {t})"
  by (auto simp: writers_def)

lemma writers_mem: "t \<in> writers s \<longleftrightarrow> claims_write s t"
  by (simp add: writers_def)

lemma writers_inv_claim:
  "writers_inv s \<Longrightarrow> claims_write s t \<Longrightarrow> writers s = {t} \<and> lock_m (lk s) \<noteq> 0"
  unfolding writers_inv_def by (metis empty_iff singletonD writers_mem)

lemma writers_unique: "writers_inv s \<Longrightarrow> claims_write s i \<Longrightarrow> claims_write s j \<Longrightarrow> i = j"
  unfolding writers_inv_def by (metis empty_iff singletonD writers_mem)

lemma writers_inv_step:
  assumes inv: "writers_inv s" and step: "lock_step s t s'"
  shows "writers_inv s'"
proof -
  have keep: "writers_inv (at s t c l)"
    if "\<not> claims_write s t" "c \<noteq> WDrain" "c \<noteq> WIn" "lock_m l = lock_m (lk s)" for c l
    using inv that by (auto simp: writers_inv_def writers_at writers_mem [symmetric])
  from step show ?thesis
  proof cases
    case Lock_exchange
    then have t: "t \<notin> writers s" by (simp add: writers_def)
    show ?thesis
    proof (cases "lock_m (lk s) = 0")
      case True
      with inv Lock_exchange show ?thesis by (simp add: writers_inv_def writers_at)
    next
      case False
      with inv obtain u where u: "writers s = {u}" unfolding writers_inv_def by blast
      with t have "writers s' = {u}" using False Lock_exchange by (auto simp: writers_at)
      moreover have "lock_m (lk s') \<noteq> 0" using Lock_exchange by simp
      ultimately show ?thesis unfolding writers_inv_def by blast
    qed
  next
    case Lock_drain
    then have "writers s = {t} \<and> lock_m (lk s) \<noteq> 0" using writers_inv_claim [OF inv] by blast
    with Lock_drain show ?thesis by (simp add: writers_inv_def writers_at)
  next
    case Unlock_call
    then have "writers s = {t}" using writers_inv_claim [OF inv] by simp
    with Unlock_call show ?thesis by (simp add: writers_inv_def writers_at)
  qed (use keep in auto)
qed

lemma card_reading_insert:
  "readers_inv s \<Longrightarrow> pcs s t = RInc \<Longrightarrow> card (insert t (reading s)) = Suc (card (reading s))"
  by (subst card_insert_disjoint) (auto simp: readers_inv_def reading_def)

lemma card_reading_remove:
  "readers_inv s \<Longrightarrow> pcs s t = RIn \<Longrightarrow> card (reading s) = Suc (card (reading s - {t}))"
  by (rule card.remove) (auto simp: readers_inv_def reading_def)

lemma readers_inv_other:
  "readers_inv s \<Longrightarrow> pcs s t \<noteq> RIn \<Longrightarrow> c \<noteq> RIn \<Longrightarrow> reader_m l = reader_m (lk s) \<Longrightarrow> readers_inv (at s t c l)"
  by (auto simp: readers_inv_def reading_at) (auto simp: reading_def)

lemma readers_inv_step:
  assumes inv: "readers_inv s" and step: "lock_step s t s'"
  shows "readers_inv s'"
  using step
proof cases
  case ReadLock_inc
  with inv card_reading_insert [OF inv] show ?thesis
    by (simp add: readers_inv_def reading_at algebra_simps)
next
  case ReadUnlock_call
  with inv card_reading_remove [OF inv] show ?thesis
    by (simp add: readers_inv_def reading_at)
qed (use inv in \<open>auto intro: readers_inv_other\<close>)

lemma lock_reach_inv: "reach lock_step lock_init s \<Longrightarrow> writers_inv s \<and> readers_inv s"
proof (induction rule: reach.induct)
  case reach_refl
  show ?case
    by (simp add: writers_inv_def writers_def readers_inv_def reading_def lock_init_def Spinlock_def)
next
  case (reach_step s t s')
  then show ?case by (blast intro: writers_inv_step readers_inv_step)
qed

interpretation wl: mutex lock_init lock_step holds_write
proof
  fix s i j
  assume "reach lock_step lock_init s" "holds_write s i" "holds_write s j"
  then show "i = j"
    unfolding holds_write_def by (blast dest: lock_reach_inv writers_unique)
next
  fix s i s' j
  assume "reach lock_step lock_init s" and st: "lock_step s i s'" and "i \<noteq> j"
  then show "holds_write s' j = holds_write s j"
    by (auto simp: holds_write_def elim!: lock_stepE)
qed

subsection \<open>What the lock promises\<close>

text \<open>While a thread claims the lock for writing, a reader can only leave.\<close>

lemma passed_test_at:
  "passed_test (at s t c l) =
     (if c = RInc \<or> c = RIn then insert t (passed_test s) else passed_test s - {t})"
  by (auto simp: passed_test_def)

lemma passed_test_step:
  assumes "writers_inv s" and "claims_write s t" and "lock_step s u s'"
  shows "passed_test s' \<subseteq> passed_test s"
proof -
  have "lock_m (lk s) \<noteq> 0"
    using writers_inv_claim [OF assms(1,2)] by simp
  with assms(3) show ?thesis
    by cases (auto simp: passed_test_at, auto simp: passed_test_def)
qed

lemma claims_write_kept:
  "lock_step s u s' \<Longrightarrow> u \<noteq> t \<Longrightarrow> claims_write s' t = claims_write s t"
  by (auto elim!: lock_stepE)

lemma passed_test_run:
  assumes "run_without lock_step t s s'" and "reach lock_step lock_init s" and "claims_write s t"
  shows "passed_test s' \<subseteq> passed_test s \<and> claims_write s' t"
  using assms
proof (induction rule: run_without.induct)
  case without_refl
  then show ?case by simp
next
  case (without_step x u y)
  then have x: "passed_test x \<subseteq> passed_test s" "claims_write x t" by blast+
  have "reach lock_step lock_init x"
    using without_step.hyps(1) without_step.prems(1) by (blast intro: reach_without reach_trans)
  then have "writers_inv x" by (simp add: lock_reach_inv)
  with x without_step.hyps(2,3) show ?case
    by (blast dest: passed_test_step claims_write_kept)
qed

text \<open>The loop on \<open>reader_\<close> ends only when no reader is inside.\<close>

lemma reader_zero_iff:
  "readers_inv s \<Longrightarrow> card (reading s) < 2 ^ 32 \<Longrightarrow> reader_m (lk s) = 0 \<longleftrightarrow> reading s = {}"
  by (auto simp: readers_inv_def word_of_nat_eq_0_iff dvd_imp_le nat_dvd_not_less)

text \<open>
  C16. Writers exclude each other: in every state that any interleaving of any number of threads
  calling \<open>Lock\<close>, \<open>Unlock\<close>, \<open>ReadLock\<close> and \<open>ReadUnlock\<close> can reach, two threads
  that hold the lock for writing are one thread.
\<close>

theorem writer_exclusion:
  assumes "reach lock_step lock_init s" and "holds_write s i" and "holds_write s j"
  shows "i = j"
  using assms by (rule wl.exclusive)

text \<open>
  Runs to show that hypotheses can hold: every thread that is inside a member function has one
  next step, so a schedule names the thread, and what it calls when it is outside.
\<close>

fun move :: "lock_sys \<Rightarrow> nat \<times> bool \<Rightarrow> lock_sys" where
  "move s (t, wr) = (case pcs s t of
     Out \<Rightarrow> at s t (if wr then WTry else RTry) (lk s)
   | WTry \<Rightarrow> at s t (if lock_m (lk s) = 0 then WDrain else WSleep) ((lk s)\<lparr>lock_m := 1\<rparr>)
   | WSleep \<Rightarrow> at s t WTry (lk s)
   | WDrain \<Rightarrow> at s t (if reader_m (lk s) \<noteq> 0 then WDrain else WIn) (lk s)
   | WIn \<Rightarrow> at s t Out (Unlock (lk s))
   | RTry \<Rightarrow> at s t (if lock_m (lk s) = 0 then RInc else RSleep) (lk s)
   | RSleep \<Rightarrow> at s t RTry (lk s)
   | RInc \<Rightarrow> at s t RIn ((lk s)\<lparr>reader_m := reader_m (lk s) + 1\<rparr>)
   | RIn \<Rightarrow> at s t Out (ReadUnlock (lk s)))"

lemma move_step: "lock_step s t (move s (t, wr))"
  by (cases "pcs s t"; cases wr) (simp_all add: lock_step.intros split del: if_split)

lemma reach_moves: "reach lock_step s0 s \<Longrightarrow> reach lock_step s0 (foldl move s ms)"
proof (induction ms arbitrary: s)
  case (Cons m ms)
  then show ?case by (cases m) (auto intro: reach_step move_step simp del: move.simps)
qed simp

abbreviation after :: "(nat \<times> bool) list \<Rightarrow> lock_sys" where
  "after ms \<equiv> foldl move lock_init ms"

lemmas reach_after = reach_moves [OF reach_refl, of lock_init]

theorem writer_exclusion_witness:
  "\<exists>s. reach lock_step lock_init s \<and> holds_write s 0 \<and> (\<forall>j. holds_write s j \<longrightarrow> 0 = j)"
proof -
  let ?s = "after [(0, True), (0, True), (0, True)]"
  have h: "holds_write ?s 0" by (simp add: holds_write_def lock_init_def Spinlock_def)
  then show ?thesis using reach_after writer_exclusion [OF reach_after h] by blast
qed

text \<open>
  What the two counters mean, in every reachable state: \<open>lock_\<close> is nonzero exactly while a
  thread is between the successful exchange of \<open>Lock\<close> and the return from \<open>Unlock\<close>, and
  \<open>reader_\<close> is the number of threads (modulo its 32 bits) that hold the lock for reading.
\<close>

theorem lock_counters:
  assumes "reach lock_step lock_init s"
  shows "(lock_m (lk s) \<noteq> 0 \<longleftrightarrow> (\<exists>t. pcs s t = WDrain \<or> pcs s t = WIn)) \<and>
     finite (reading s) \<and> reader_m (lk s) = of_nat (card (reading s))"
proof -
  have w: "writers_inv s" and r: "readers_inv s" using lock_reach_inv [OF assms] by simp_all
  have "lock_m (lk s) \<noteq> 0 \<longleftrightarrow> (\<exists>t. t \<in> writers s)"
    using w unfolding writers_inv_def by blast
  then show ?thesis using r unfolding writers_mem readers_inv_def by blast
qed

theorem lock_counters_witness:
  "reader_m (lk (after [(4, False), (4, False), (4, False)])) = 1 \<and>
   finite (reading (after [(4, False), (4, False), (4, False)]))"
proof -
  let ?s = "after [(4, False), (4, False), (4, False)]"
  have "reader_m (lk ?s) = 1" by (simp add: lock_init_def Spinlock_def)
  moreover have "finite (reading ?s)" using lock_counters [OF reach_after] by blast
  ultimately show ?thesis by blast
qed

text \<open>
  A claimed lock keeps readers out: while a thread is in \<open>Lock\<close> past its exchange, or holds
  the lock for writing, whatever the other threads do no further reader passes the test of
  \<open>lock_\<close>; the readers that had passed it can only leave.
\<close>

theorem readers_only_leave:
  assumes "reach lock_step lock_init s" and "pcs s t = WDrain \<or> pcs s t = WIn"
    and "run_without lock_step t s s'"
  shows "{u. pcs s' u = RInc \<or> pcs s' u = RIn} \<subseteq> {u. pcs s u = RInc \<or> pcs s u = RIn}"
  using passed_test_run [OF assms(3,1,2)] unfolding passed_test_def by blast

theorem readers_only_leave_witness:
  "\<exists>s s'. reach lock_step lock_init s \<and> pcs s 0 = WIn \<and> run_without lock_step 0 s s' \<and>
     pcs s' 1 = RSleep \<and>
     {u. pcs s' u = RInc \<or> pcs s' u = RIn} \<subseteq> {u. pcs s u = RInc \<or> pcs s u = RIn}"
proof -
  let ?s = "after [(0, True), (0, True), (0, True)]"
  let ?s1 = "move ?s (1, False)" and ?s2 = "move (move ?s (1, False)) (1, False)"
  have w: "pcs ?s 0 = WIn" by (simp add: lock_init_def Spinlock_def)
  have "lock_step ?s 1 ?s1" "lock_step ?s1 1 ?s2" by (rule move_step)+
  then have r: "run_without lock_step 0 ?s ?s2"
    by (meson one_neq_zero without_refl without_step)
  have "pcs ?s2 1 = RSleep" by (simp add: lock_init_def Spinlock_def)
  with w r readers_only_leave [OF reach_after _ r] reach_after show ?thesis by blast
qed

text \<open>
  \<open>Lock\<close> returns only when the readers are gone: the step that ends its loop on \<open>reader_\<close>
  finds no thread holding the lock for reading, provided fewer than \<open>2 ^ 32\<close> threads do.
\<close>

theorem drain_waits_for_readers:
  assumes "reach lock_step lock_init s" and "lock_step s t s'"
    and "pcs s t = WDrain" and "pcs s' t = WIn" and "card (reading s) < 2 ^ 32"
  shows "reading s = {} \<and> reading s' = {}"
proof -
  have z: "reader_m (lk s) = 0" and s': "s' = at s t WIn (lk s)"
    using assms(2-4) by (auto elim!: lock_stepE split: if_splits)
  have "reading s = {}"
    using reader_zero_iff [OF _ assms(5)] lock_reach_inv [OF assms(1)] z by simp
  then show ?thesis by (simp add: s' reading_at)
qed

theorem drain_waits_for_readers_witness:
  "\<exists>s s'. lock_step s 0 s' \<and> pcs s 0 = WDrain \<and> pcs s' 0 = WIn \<and> reading s' = {}"
proof -
  let ?s = "after [(0, True), (0, True)]"
  have p: "pcs ?s 0 = WDrain" "pcs (move ?s (0, True)) 0 = WIn" "reading ?s = {}"
    by (simp_all add: lock_init_def Spinlock_def reading_def)
  have "lock_step ?s 0 (move ?s (0, True))" by (rule move_step)
  with p drain_waits_for_readers [OF reach_after this p(1,2)] show ?thesis by fastforce
qed

text \<open>
  Readers and writers do not exclude each other: \<open>ReadLock\<close> tests \<open>lock_\<close> and increments
  \<open>reader_\<close> in two steps, and a writer that takes the lock in between finds \<open>reader_\<close> still 0.
  A state is reachable in which thread 0 holds the lock for writing and thread 1 for reading.
\<close>

theorem reader_writer_overlap:
  "\<exists>s. reach lock_step lock_init s \<and> holds_write s 0 \<and> pcs s 1 = RIn"
proof -
  let ?s = "after [(1, False), (1, False), (0, True), (0, True), (0, True), (1, False)]"
  have "holds_write ?s 0" "pcs ?s 1 = RIn" by (simp_all add: holds_write_def lock_init_def Spinlock_def)
  then show ?thesis using reach_after by blast
qed

text \<open>
  A thread alone: \<open>Lock\<close> returns exactly when the lock is free and no reader is counted, and
  then has set \<open>lock_\<close> and nothing else; otherwise it spins for ever.  \<open>Unlock\<close> undoes it.
\<close>

theorem Lock_returns:
  "Lock s = (if lock_m s = 0 \<and> reader_m s = 0 then Some (s\<lparr>lock_m := 1\<rparr>) else None) \<and>
   (lock_m s = 0 \<and> reader_m s = 0 \<longleftrightarrow> map_option Unlock (Lock s) = Some s)"
  by (auto simp: Lock_eq Unlock_def)

text \<open>
  Data guarded by the lock are stable for its holder: in a system in which every thread
  changes the guarded data only while it holds the lock for writing, nothing the other threads
  do between two steps of the holder changes them, or takes the lock away.
\<close>

theorem guarded_data_stable:
  assumes "reach lock_step lock_init s" and "holds_write s t"
    and "run_without (guarded lock_step holds_write dstep) t (s, d) (s', d')"
  shows "d' = d \<and> holds_write s' t"
  using wl.guarded_stable [OF assms(3,1,2)] by simp

theorem guarded_data_stable_witness:
  "\<exists>s s'. run_without (guarded lock_step holds_write (\<lambda>_ _ _. True)) 0 (s, 5 :: nat) (s', 5) \<and>
     holds_write s 0 \<and> pcs s' 1 = WTry \<and> holds_write s' 0"
proof -
  let ?s = "after [(0, True), (0, True), (0, True)]"
  have h: "holds_write ?s 0" by (simp add: holds_write_def lock_init_def Spinlock_def)
  have p: "pcs (move ?s (1, True)) 1 = WTry" by (simp add: lock_init_def Spinlock_def)
  have "lock_step ?s 1 (move ?s (1, True))" by (rule move_step)
  then have "run_without (guarded lock_step holds_write (\<lambda>_ _ _. True)) 0 (?s, 5 :: nat)
      (move ?s (1, True), 5)"
    by (meson guarded_lock one_neq_zero without_refl without_step)
  with guarded_data_stable [OF reach_after h this] h p show ?thesis by blast
qed

end
