(* ===== verification/Memory.thy ===== *)
theory Memory
  imports Prelude
begin

section \<open>The memory of the C++ abstract machine\<close>

text \<open>
  The allocator is made of pointers stored inside the chunks it hands out, so its model needs
  memory.  A pointer is null or a block and a byte offset; a block is what one call of
  \<open>::malloc\<close> returned.  A byte cell is undefined, holds a data byte, or holds byte
  number \<open>i\<close> of a stored pointer.  Reading a pointer succeeds only where the eight cells
  are the eight bytes of one stored pointer, so an overlapping store destroys it; every access is
  checked against the live blocks.  Sizes are those of the x64 build (\<open>sizeof(void*) = 8\<close>).

  Whether \<open>::malloc\<close> can satisfy a request is not the program's choice: the parameter
  \<open>grant k n\<close> says whether the request for \<open>n\<close> bytes that would create block \<open>k\<close> is
  granted.  Nothing is assumed of it; but no request of \<open>2 ^ 47\<close> bytes or more is granted,
  since that is the size of the whole x64 user address space.
\<close>

datatype ptr = Null | Ptr nat int

datatype cell = Undef | Byte byte | Frag ptr nat

record mem =
  blocks :: "nat \<Rightarrow> nat option"        \<comment> \<open>size of every live block\<close>
  nextb :: nat                          \<comment> \<open>every block number from here on is unused\<close>
  cells :: "nat \<Rightarrow> int \<Rightarrow> cell"

definition empty_mem :: mem where
  "empty_mem = \<lparr>blocks = (\<lambda>_. None), nextb = 0, cells = (\<lambda>_ _. Undef)\<rparr>"

text \<open>Pointer arithmetic on \<open>char*\<close>.  Adding to a null pointer leaves it unusable.\<close>

fun padd :: "ptr \<Rightarrow> int \<Rightarrow> ptr" where
  "padd Null n = Null"
| "padd (Ptr b o') n = Ptr b (o' + n)"

definition valid :: "mem \<Rightarrow> nat \<Rightarrow> int \<Rightarrow> nat \<Rightarrow> bool" where
  "valid m b i n = (case blocks m b of None \<Rightarrow> False | Some sz \<Rightarrow> 0 \<le> i \<and> i + int n \<le> int sz)"

fun load_cells :: "mem \<Rightarrow> ptr \<Rightarrow> nat \<Rightarrow> cell list res" where
  "load_cells m Null n = Inl NullDeref"
| "load_cells m (Ptr b i) n =
     (if valid m b i n then Inr (map (\<lambda>k. cells m b (i + int k)) [0..<n]) else Inl BadAccess)"

fun store_cells :: "mem \<Rightarrow> ptr \<Rightarrow> cell list \<Rightarrow> mem res" where
  "store_cells m Null cs = Inl NullDeref"
| "store_cells m (Ptr b i) cs =
     (if valid m b i (length cs)
      then Inr (m\<lparr>cells := (cells m)(b := (\<lambda>x. if i \<le> x \<and> x < i + int (length cs)
                                            then cs ! nat (x - i) else cells m b x))\<rparr>)
      else Inl BadAccess)"

subsection \<open>Values in memory: pointers and two-byte integers (little endian)\<close>

definition ptr_cells :: "ptr \<Rightarrow> cell list" where
  "ptr_cells p = map (Frag p) [0..<8]"

definition decode_ptr :: "cell list \<Rightarrow> ptr res" where
  "decode_ptr cs = (case cs of
     Frag p _ # _ \<Rightarrow> if cs = ptr_cells p then Inr p else Inl BadAccess
   | _ \<Rightarrow> Inl BadAccess)"

definition load_ptr :: "mem \<Rightarrow> ptr \<Rightarrow> ptr res" where
  "load_ptr m p = rbind (load_cells m p 8) decode_ptr"

definition store_ptr :: "mem \<Rightarrow> ptr \<Rightarrow> ptr \<Rightarrow> mem res" where
  "store_ptr m p v = store_cells m p (ptr_cells v)"

definition short_bytes :: "u16 \<Rightarrow> byte list" where
  "short_bytes w = [ucast w, ucast (drop_bit 8 w)]"

definition short_of_bytes :: "byte \<Rightarrow> byte \<Rightarrow> u16" where
  "short_of_bytes lo hi = ucast lo OR push_bit 8 (ucast hi)"

definition decode_short :: "cell list \<Rightarrow> u16 res" where
  "decode_short cs = (case cs of
     [Byte lo, Byte hi] \<Rightarrow> Inr (short_of_bytes lo hi)
   | _ \<Rightarrow> Inl BadAccess)"

definition load_short :: "mem \<Rightarrow> ptr \<Rightarrow> u16 res" where
  "load_short m p = rbind (load_cells m p 2) decode_short"

definition store_short :: "mem \<Rightarrow> ptr \<Rightarrow> u16 \<Rightarrow> mem res" where
  "store_short m p w = store_cells m p (map Byte (short_bytes w))"

subsection \<open>\<open>::malloc\<close> and \<open>::free\<close>\<close>

definition address_space :: nat where
  "address_space = 2 ^ 47"

definition sys_malloc :: "(nat \<Rightarrow> nat \<Rightarrow> bool) \<Rightarrow> nat \<Rightarrow> mem \<Rightarrow> ptr \<times> mem" where
  "sys_malloc grant n m =
     (if n < address_space \<and> grant (nextb m) n
      then (Ptr (nextb m) 0,
            m\<lparr>blocks := (blocks m)(nextb m \<mapsto> n),
              cells := (cells m)(nextb m := (\<lambda>_. Undef)),
              nextb := Suc (nextb m)\<rparr>)
      else (Null, m))"

fun sys_free :: "mem \<Rightarrow> ptr \<Rightarrow> mem res" where
  "sys_free m Null = Inr m"
| "sys_free m (Ptr b i) =
     (if i = 0 \<and> blocks m b \<noteq> None then Inr (m\<lparr>blocks := (blocks m)(b := None)\<rparr>) else Inl BadFree)"

definition mem_ok :: "mem \<Rightarrow> bool" where
  "mem_ok m \<longleftrightarrow> (\<forall>b. blocks m b \<noteq> None \<longrightarrow> b < nextb m)"

subsection \<open>Facts\<close>

lemma valid_mono: "valid m b i n \<Longrightarrow> 0 \<le> d \<Longrightarrow> d + int k \<le> int n \<Longrightarrow> valid m b (i + d) k"
  by (auto simp: valid_def split: option.splits)

lemma valid_blocks: "blocks m = blocks m' \<Longrightarrow> valid m = valid m'"
  by (intro ext) (simp add: valid_def)

lemma length_ptr_cells [simp]: "length (ptr_cells p) = 8"
  by (simp add: ptr_cells_def)

lemma length_short_bytes [simp]: "length (short_bytes w) = 2"
  by (simp add: short_bytes_def)

lemma decode_ptr_cells [simp]: "decode_ptr (ptr_cells p) = Inr p"
proof -
  have "ptr_cells p = Frag p 0 # map (Frag p) [1..<8]"
    by (simp add: ptr_cells_def upt_rec)
  then show ?thesis by (simp add: decode_ptr_def)
qed

lemma short_of_short_bytes [simp]:
  "short_of_bytes (ucast w) (ucast (drop_bit 8 w)) = w"
  unfolding short_of_bytes_def
  by (rule bit_word_eqI) (auto simp: bit_simps)

lemma decode_short_bytes [simp]: "decode_short (map Byte (short_bytes w)) = Inr w"
  by (simp add: decode_short_def short_bytes_def)

text \<open>A store keeps the block table, and succeeds exactly on a valid range.\<close>

lemma store_cells_frame:
  "store_cells m p cs = Inr m' \<Longrightarrow> blocks m' = blocks m \<and> nextb m' = nextb m"
  by (cases p) (auto split: if_splits)

lemma store_cells_ok: "valid m b i (length cs) \<Longrightarrow> \<exists>m'. store_cells m (Ptr b i) cs = Inr m'"
  by simp

lemma store_cells_valid: "store_cells m (Ptr b i) cs = Inr m' \<Longrightarrow> valid m b i (length cs)"
  by (auto split: if_splits)

lemma load_store_same:
  assumes "store_cells m p cs = Inr m'"
  shows "load_cells m' p (length cs) = Inr cs"
proof (cases p)
  case Null
  with assms show ?thesis by simp
next
  case (Ptr b i)
  with assms have v: "valid m b i (length cs)"
    and m': "m' = m\<lparr>cells := (cells m)(b := (\<lambda>x. if i \<le> x \<and> x < i + int (length cs)
                                            then cs ! nat (x - i) else cells m b x))\<rparr>"
    by (auto split: if_splits)
  have "valid m' b i (length cs)" using v m' by (simp add: valid_def)
  moreover have "map (\<lambda>k. cells m' b (i + int k)) [0..<length cs] = cs"
    by (rule nth_equalityI) (simp_all add: m')
  ultimately show ?thesis using Ptr by simp
qed

definition disjoint_range :: "nat \<Rightarrow> int \<Rightarrow> nat \<Rightarrow> nat \<Rightarrow> int \<Rightarrow> nat \<Rightarrow> bool" where
  "disjoint_range b i n b' i' n' \<longleftrightarrow> b \<noteq> b' \<or> i + int n \<le> i' \<or> i' + int n' \<le> i"

lemma load_store_other:
  assumes "store_cells m (Ptr b i) cs = Inr m'"
    and "disjoint_range b i (length cs) b' i' n"
  shows "load_cells m' (Ptr b' i') n = load_cells m (Ptr b' i') n"
proof -
  from assms(1) have m': "m' = m\<lparr>cells := (cells m)(b := (\<lambda>x. if i \<le> x \<and> x < i + int (length cs)
                                            then cs ! nat (x - i) else cells m b x))\<rparr>"
    by (auto split: if_splits)
  have "cells m' b' (i' + int k) = cells m b' (i' + int k)" if "k < n" for k
    using assms(2) that by (auto simp: m' disjoint_range_def)
  then show ?thesis by (simp add: m' valid_def cong: map_cong)
qed

lemma load_store_ptr_same [mem_simps]: "store_ptr m p v = Inr m' \<Longrightarrow> load_ptr m' p = Inr v"
  using load_store_same [of m p "ptr_cells v" m'] by (simp add: store_ptr_def load_ptr_def)

lemma load_store_short_same [mem_simps]: "store_short m p w = Inr m' \<Longrightarrow> load_short m' p = Inr w"
  using load_store_same [of m p "map Byte (short_bytes w)" m']
  by (simp add: store_short_def load_short_def)

lemma load_ptr_cong_cells:
  "load_cells m' p 8 = load_cells m p 8 \<Longrightarrow> load_ptr m' p = load_ptr m p"
  by (simp add: load_ptr_def)

lemma load_store_ptr_other:
  "store_ptr m (Ptr b i) v = Inr m' \<Longrightarrow> disjoint_range b i 8 b' i' 8 \<Longrightarrow>
   load_ptr m' (Ptr b' i') = load_ptr m (Ptr b' i')"
  unfolding store_ptr_def by (rule load_ptr_cong_cells, erule load_store_other) simp

lemma store_ptr_ok: "valid m b i 8 \<Longrightarrow> \<exists>m'. store_ptr m (Ptr b i) v = Inr m'"
  by (simp add: store_ptr_def)

lemma store_ptr_frame: "store_ptr m p v = Inr m' \<Longrightarrow> blocks m' = blocks m \<and> nextb m' = nextb m"
  by (auto simp: store_ptr_def dest: store_cells_frame)

lemma load_ptr_Null [mem_simps]: "load_ptr m Null = Inl NullDeref"
  by (simp add: load_ptr_def)

lemma store_ptr_Null [mem_simps]: "store_ptr m Null v = Inl NullDeref"
  by (simp add: store_ptr_def)

lemma store_short_Null [mem_simps]: "store_short m Null v = Inl NullDeref"
  by (simp add: store_short_def)

lemma load_ptr_valid: "load_ptr m (Ptr b i) = Inr q \<Longrightarrow> valid m b i 8"
  by (auto simp: load_ptr_def split: if_splits)

lemma load_cells_frame:
  assumes "blocks m' b = blocks m b" and "cells m' b = cells m b"
  shows "load_cells m' (Ptr b i) n = load_cells m (Ptr b i) n"
  using assms by (simp add: valid_def)

lemma load_ptr_frame:
  "blocks m' b = blocks m b \<Longrightarrow> cells m' b = cells m b \<Longrightarrow> load_ptr m' (Ptr b i) = load_ptr m (Ptr b i)"
  by (rule load_ptr_cong_cells, rule load_cells_frame)

lemma mem_ok_empty: "mem_ok empty_mem"
  by (simp add: mem_ok_def empty_mem_def)

lemma mem_ok_fresh: "mem_ok m \<Longrightarrow> blocks m (nextb m) = None"
  by (auto simp: mem_ok_def)

subsection \<open>What a change of memory leaves alone\<close>

text \<open>\<open>changed_only m m' b lo hi\<close>: between \<open>m\<close> and \<open>m'\<close> only bytes \<open>lo..<hi\<close> of block \<open>b\<close> differ.\<close>

definition changed_only :: "mem \<Rightarrow> mem \<Rightarrow> nat \<Rightarrow> int \<Rightarrow> int \<Rightarrow> bool" where
  "changed_only m m' b lo hi \<longleftrightarrow> blocks m' = blocks m \<and> nextb m' = nextb m \<and>
     (\<forall>b' i. b' \<noteq> b \<or> i < lo \<or> hi \<le> i \<longrightarrow> cells m' b' i = cells m b' i)"

lemma changed_only_refl [simp]: "changed_only m m b lo hi"
  by (simp add: changed_only_def)

lemma changed_only_trans:
  "changed_only m1 m2 b lo hi \<Longrightarrow> changed_only m2 m3 b lo hi \<Longrightarrow> changed_only m1 m3 b lo hi"
  by (simp add: changed_only_def)

lemma changed_only_mono:
  "changed_only m m' b lo hi \<Longrightarrow> lo' \<le> lo \<Longrightarrow> hi \<le> hi' \<Longrightarrow> changed_only m m' b lo' hi'"
  by (auto simp: changed_only_def)

lemma store_cells_changed:
  "store_cells m (Ptr b i) cs = Inr m' \<Longrightarrow> changed_only m m' b i (i + int (length cs))"
  by (auto simp: changed_only_def split: if_splits)

lemma store_ptr_changed: "store_ptr m (Ptr b i) v = Inr m' \<Longrightarrow> changed_only m m' b i (i + 8)"
  unfolding store_ptr_def by (drule store_cells_changed) simp

lemma store_short_changed: "store_short m (Ptr b i) v = Inr m' \<Longrightarrow> changed_only m m' b i (i + 2)"
  unfolding store_short_def by (drule store_cells_changed) simp

lemma changed_only_load:
  assumes "changed_only m m' b lo hi" and "b' \<noteq> b \<or> i + int n \<le> lo \<or> hi \<le> i"
  shows "load_cells m' (Ptr b' i) n = load_cells m (Ptr b' i) n"
proof -
  have "cells m' b' (i + int k) = cells m b' (i + int k)" if "k < n" for k
    using assms that by (auto simp: changed_only_def)
  then show ?thesis using assms(1) by (simp add: valid_def changed_only_def cong: map_cong)
qed

lemma changed_only_load_ptr:
  "changed_only m m' b lo hi \<Longrightarrow> b' \<noteq> b \<or> i + 8 \<le> lo \<or> hi \<le> i \<Longrightarrow>
   load_ptr m' (Ptr b' i) = load_ptr m (Ptr b' i)"
  by (rule load_ptr_cong_cells, rule changed_only_load) auto

lemma changed_only_load_short:
  "changed_only m m' b lo hi \<Longrightarrow> b' \<noteq> b \<or> i + 2 \<le> lo \<or> hi \<le> i \<Longrightarrow>
   load_short m' (Ptr b' i) = load_short m (Ptr b' i)"
  unfolding load_short_def by (subst changed_only_load) auto

lemma changed_only_valid: "changed_only m m' b lo hi \<Longrightarrow> valid m' = valid m"
  by (rule valid_blocks) (simp add: changed_only_def)

text \<open>\<open>keeps m m' B\<close>: blocks that existed and are not in \<open>B\<close> are as they were.\<close>

definition keeps :: "mem \<Rightarrow> mem \<Rightarrow> nat set \<Rightarrow> bool" where
  "keeps m m' B \<longleftrightarrow> nextb m \<le> nextb m' \<and>
     (\<forall>b. b < nextb m \<longrightarrow> b \<notin> B \<longrightarrow> blocks m' b = blocks m b \<and> cells m' b = cells m b)"

lemma keeps_refl [simp]: "keeps m m B"
  by (simp add: keeps_def)

lemma keeps_trans: "keeps m1 m2 B \<Longrightarrow> keeps m2 m3 C \<Longrightarrow> B \<subseteq> D \<Longrightarrow> C \<subseteq> D \<Longrightarrow> keeps m1 m3 D"
  unfolding keeps_def by (metis less_le_trans order_trans subsetD)

lemma changed_only_keeps: "changed_only m m' b lo hi \<Longrightarrow> b \<in> B \<or> nextb m \<le> b \<Longrightarrow> keeps m m' B"
  by (auto simp: keeps_def changed_only_def fun_eq_iff)

lemma keeps_load_ptr:
  "keeps m m' B \<Longrightarrow> b < nextb m \<Longrightarrow> b \<notin> B \<Longrightarrow> load_ptr m' (Ptr b i) = load_ptr m (Ptr b i)"
  by (rule load_ptr_cong_cells, rule load_cells_frame) (auto simp: keeps_def)

end
