(* ===== verification/SegregatedStorage.thy ===== *)
theory SegregatedStorage
  imports Memory Spinlock
begin

section \<open>The free list (memory_pool/include/segregated_storage.hpp)\<close>

text \<open>
  A \<open>segregated_storage\<close> is a list of free chunks threaded through the chunks themselves:
  the first eight bytes of a free chunk hold the address of the next.  \<open>head_\<close> is the chunk
  handed out next; \<open>tail_\<close> is the last one, which is never handed out: the list counts as
  empty when \<open>head_\<close> and \<open>tail_\<close> meet, so that other threads can always append behind
  \<open>tail_\<close>.  \<open>lock_tail_\<close> serialises those appends.
\<close>

record segregated_storage =
  head_m :: ptr
  tail_m :: ptr
  lock_tail_m :: spinlock

definition segregated_storage_ctor :: segregated_storage where
  "segregated_storage_ctor = \<lparr>head_m = Null, tail_m = Null, lock_tail_m = Spinlock\<rparr>"

definition next_of :: "mem \<Rightarrow> ptr \<Rightarrow> ptr res" where
  "next_of m p = load_ptr m p"

definition set_next_of :: "mem \<Rightarrow> ptr \<Rightarrow> ptr \<Rightarrow> mem res" where
  "set_next_of m p v = store_ptr m p v"

definition seg_malloc ::
  "'a segregated_storage_scheme \<Rightarrow> mem \<Rightarrow> (ptr \<times> 'a segregated_storage_scheme) res" where
  "seg_malloc s m = (let ret = head_m s in
     rbind (next_of m (head_m s)) (\<lambda>n. Inr (ret, s\<lparr>head_m := n\<rparr>)))"

definition seg_free ::
  "'a segregated_storage_scheme \<Rightarrow> ptr \<Rightarrow> mem \<Rightarrow> ('a segregated_storage_scheme \<times> mem) res" where
  "seg_free s chunk m =
     rbind (set_next_of m chunk (head_m s)) (\<lambda>m'. Inr (s\<lparr>head_m := chunk\<rparr>, m'))"

definition seg_free_append ::
  "'a segregated_storage_scheme \<Rightarrow> ptr \<Rightarrow> mem \<Rightarrow> ('a segregated_storage_scheme \<times> mem) res" where
  "seg_free_append s chunk m =
     rbind (check (tail_m s \<noteq> Null)) (\<lambda>_.
     case Lock (lock_tail_m s) of
       None \<Rightarrow> Inl NoReturn
     | Some l \<Rightarrow>
         rbind (set_next_of m (tail_m s) chunk) (\<lambda>m'.
         Inr (s\<lparr>tail_m := chunk, lock_tail_m := Unlock l\<rparr>, m')))"

definition seg_empty :: "'a segregated_storage_scheme \<Rightarrow> bool" where
  "seg_empty s \<longleftrightarrow> head_m s = tail_m s"

text \<open>
  The loop of \<open>segregate\<close> walks down from \<open>last - partition_sz\<close> and stops when it meets
  \<open>block\<close>.  Nothing bounds it from below but the block itself: past it the store fails.
  With \<open>partition_sz = 0\<close> it would write the same cell for ever.
\<close>

function segregate_loop :: "mem \<Rightarrow> ptr \<Rightarrow> ptr \<Rightarrow> ptr \<Rightarrow> u64 \<Rightarrow> mem res" where
  "segregate_loop m block it last' partition_sz =
     rbind (set_next_of m it last') (\<lambda>m'.
     if it = block then Inr m'
     else if partition_sz = 0 then Inl NoReturn
     else segregate_loop m' block (padd it (- int (unat partition_sz))) it partition_sz)"
  by pat_completeness auto
termination
proof (relation "measure (\<lambda>(m, block, it, last', psz). case it of Null \<Rightarrow> 0 | Ptr b i \<Rightarrow> nat (i + 1))")
  fix m block it last' and partition_sz :: u64 and m'
  assume st: "set_next_of m it last' = Inr m'" and "it \<noteq> block" and psz: "partition_sz \<noteq> 0"
  then obtain b i where it: "it = Ptr b i" by (cases it) (auto simp: set_next_of_def store_ptr_Null)
  have "0 \<le> i"
    using st by (auto simp: it set_next_of_def store_ptr_def valid_def split: if_splits option.splits)
  moreover have "0 < unat partition_sz" using psz by (simp add: unat_gt_0)
  ultimately show "((m', block, padd it (- int (unat partition_sz)), it, partition_sz),
      m, block, it, last', partition_sz)
     \<in> measure (\<lambda>(m, block, it, last', psz). case it of Null \<Rightarrow> 0 | Ptr b i \<Rightarrow> nat (i + 1))"
    by (simp add: it)
qed simp

declare segregate_loop.simps [simp del]

definition segregate ::
  "'a segregated_storage_scheme \<Rightarrow> ptr \<Rightarrow> u64 \<Rightarrow> u64 \<Rightarrow> mem \<Rightarrow>
   (ptr \<times> 'a segregated_storage_scheme \<times> mem) res" where
  "segregate s block sz partition_sz m =
     (let last' = padd (padd block (int (unat sz))) (- int (unat partition_sz)) in
      rbind (if tail_m s = Null
             then rbind (set_next_of m last' Null) (\<lambda>m'. Inr (s\<lparr>tail_m := last'\<rparr>, m'))
             else rbind (set_next_of m last' (tail_m s)) (\<lambda>m'. Inr (s, m')))
        (\<lambda>(s', m').
      rbind (segregate_loop m' block (padd last' (- int (unat partition_sz))) last' partition_sz)
        (\<lambda>m''. Inr (block, s', m''))))"

definition add_block ::
  "'a segregated_storage_scheme \<Rightarrow> ptr \<Rightarrow> u64 \<Rightarrow> u64 \<Rightarrow> mem \<Rightarrow>
   ('a segregated_storage_scheme \<times> mem) res" where
  "add_block s block sz partition_sz m =
     rbind (segregate s block sz partition_sz m) (\<lambda>(h, s', m'). Inr (s'\<lparr>head_m := h\<rparr>, m'))"

subsection \<open>Chains of chunks\<close>

text \<open>
  \<open>chain m p xs q\<close>: following the stored pointers from \<open>p\<close> visits \<open>xs\<close> and arrives
  at \<open>q\<close>.  The free list of a storage is the chain from \<open>head_\<close> to \<open>tail_\<close>.
\<close>

fun chain :: "mem \<Rightarrow> ptr \<Rightarrow> ptr list \<Rightarrow> ptr \<Rightarrow> bool" where
  "chain m p [] q = (p = q)"
| "chain m p (x # xs) q =
     (p = x \<and> (case load_ptr m x of Inl e \<Rightarrow> False | Inr n \<Rightarrow> chain m n xs q))"

lemma chain_append:
  "chain m p (xs @ [x]) q \<longleftrightarrow> chain m p xs x \<and> load_ptr m x = Inr q"
  by (induction xs arbitrary: p) (auto split: sum.splits)

lemma chain_app: "chain m p (xs @ ys) q \<longleftrightarrow> (\<exists>r. chain m p xs r \<and> chain m r ys q)"
  by (induction xs arbitrary: p) (auto split: sum.splits)

lemma chain_suffix: "chain m p (xs @ ys) q \<Longrightarrow> chain m (hd (ys @ [q])) ys q"
  by (cases ys) (auto simp: chain_app)

lemma chain_frame:
  "(\<And>x. x \<in> set xs \<Longrightarrow> load_ptr m' x = load_ptr m x) \<Longrightarrow> chain m' p xs q = chain m p xs q"
  by (induction xs arbitrary: p) (auto split: sum.splits)

lemma chain_Cons_iff: "chain m p (x # xs) q \<longleftrightarrow> p = x \<and> (\<exists>n. load_ptr m x = Inr n \<and> chain m n xs q)"
  by (auto split: sum.splits)

text \<open>Chunk \<open>k\<close> of a block cut into parts of \<open>a\<close> bytes that start at offset \<open>base\<close>.\<close>

definition chunk :: "nat \<Rightarrow> int \<Rightarrow> nat \<Rightarrow> nat \<Rightarrow> ptr" where
  "chunk b base a k = Ptr b (base + int k * int a)"

lemma chunk_inj: "0 < a \<Longrightarrow> chunk b base a k = chunk b' base a l \<longleftrightarrow> b = b' \<and> k = l"
  by (auto simp: chunk_def)

lemma chunk_0 [simp]: "chunk b base a 0 = Ptr b base"
  by (simp add: chunk_def)

lemma chunk_room: "8 \<le> a \<Longrightarrow> base + int k * int a + 8 \<le> base + int (Suc k) * int a"
  by (simp add: algebra_simps)

lemma padd_chunk_back: "padd (chunk b base a (Suc k)) (- int a) = chunk b base a k"
  by (simp add: chunk_def algebra_simps)

text \<open>The loop links the chunks below its starting point, and touches nothing else.\<close>

lemma segregate_loop_ok:
  assumes "\<forall>i\<le>k. valid m b (base + int i * int (unat psz)) 8" and "8 \<le> unat psz"
  shows "\<exists>m'. segregate_loop m (Ptr b base) (chunk b base (unat psz) k) lst psz = Inr m' \<and>
     chain m' (Ptr b base) (map (chunk b base (unat psz)) [0..<Suc k]) lst \<and>
     changed_only m m' b base (base + int k * int (unat psz) + 8)"
  using assms(1)
proof (induction k arbitrary: m lst)
  case 0
  obtain m' where m': "store_ptr m (Ptr b base) lst = Inr m'"
    using 0 store_ptr_ok by fastforce
  then have "segregate_loop m (Ptr b base) (chunk b base (unat psz) 0) lst psz = Inr m'"
    by (subst segregate_loop.simps) (simp add: set_next_of_def)
  with m' show ?case
    using load_store_ptr_same [OF m'] store_ptr_changed [OF m'] by (simp add: chunk_def)
next
  case (Suc k)
  let ?a = "unat psz" and ?x = "chunk b base (unat psz) (Suc k)"
  have psz: "psz \<noteq> 0" "0 < ?a" using assms(2) by auto
  have "valid m b (base + int (Suc k) * int ?a) 8" using Suc.prems by blast
  then obtain m1 where m1: "store_ptr m ?x lst = Inr m1"
    unfolding chunk_def using store_ptr_ok by blast
  have ch1: "changed_only m m1 b (base + int (Suc k) * int ?a) (base + int (Suc k) * int ?a + 8)"
    using store_ptr_changed m1 by (simp add: chunk_def)
  have "valid m1 = valid m" using ch1 by (rule changed_only_valid)
  with Suc.prems have "\<forall>i\<le>k. valid m1 b (base + int i * int ?a) 8" by simp
  from Suc.IH [OF this] obtain m' where
    run: "segregate_loop m1 (Ptr b base) (chunk b base ?a k) ?x psz = Inr m'"
    and ch: "chain m' (Ptr b base) (map (chunk b base ?a) [0..<Suc k]) ?x"
    and co: "changed_only m1 m' b base (base + int k * int ?a + 8)" by blast
  have "?x \<noteq> chunk b base ?a 0" using psz(2) by (subst chunk_inj) auto
  then have "?x \<noteq> Ptr b base" by simp
  then have "segregate_loop m (Ptr b base) ?x lst psz = Inr m'"
    using m1 run psz(1) by (subst segregate_loop.simps) (simp add: set_next_of_def padd_chunk_back)
  moreover have "load_ptr m' ?x = Inr lst"
  proof -
    have "base + int k * int ?a + 8 \<le> base + int (Suc k) * int ?a"
      using assms(2) by (rule chunk_room)
    then have "load_ptr m' ?x = load_ptr m1 ?x"
      unfolding chunk_def using changed_only_load_ptr [OF co] by blast
    then show ?thesis using load_store_ptr_same [OF m1] by simp
  qed
  then have "chain m' (Ptr b base) (map (chunk b base ?a) [0..<Suc (Suc k)]) lst"
    using ch chain_append [of m' "Ptr b base" "map (chunk b base ?a) [0..<Suc k]" ?x lst] by simp
  moreover have "changed_only m m' b base (base + int (Suc k) * int ?a + 8)"
  proof (rule changed_only_trans [of m m1])
    show "changed_only m m1 b base (base + int (Suc k) * int ?a + 8)"
      using ch1 by (rule changed_only_mono) auto
    show "changed_only m1 m' b base (base + int (Suc k) * int ?a + 8)"
      using co by (rule changed_only_mono) (auto simp: algebra_simps)
  qed
  ultimately show ?case by blast
qed

text \<open>
  Cutting a block of \<open>n\<close> parts: all of it becomes a chain from its first part; the chain ends
  in its last part (which becomes \<open>tail_\<close>) in a fresh storage, in the old \<open>tail_\<close> otherwise.
\<close>

lemma segregate_ok:
  assumes a: "8 \<le> unat psz" and n: "2 \<le> n" and sz: "unat sz = n * unat psz"
    and v: "\<forall>i<n. valid m b (base + int i * int (unat psz)) 8"
  shows "\<exists>m'. segregate s (Ptr b base) sz psz m =
       Inr (Ptr b base, if tail_m s = Null then s\<lparr>tail_m := chunk b base (unat psz) (n - 1)\<rparr> else s, m') \<and>
     changed_only m m' b base (base + int n * int (unat psz)) \<and>
     chain m' (Ptr b base) (map (chunk b base (unat psz)) [0..<n - 1]) (chunk b base (unat psz) (n - 1)) \<and>
     load_ptr m' (chunk b base (unat psz) (n - 1)) = Inr (tail_m s)"
proof -
  obtain k where k: "n = Suc (Suc k)" using n by (metis add_2_eq_Suc le_Suc_ex)
  let ?a = "unat psz" and ?last = "chunk b base (unat psz) (Suc k)"
  have last: "padd (padd (Ptr b base) (int (unat sz))) (- int ?a) = ?last"
    unfolding sz k by (simp add: chunk_def algebra_simps)
  have "valid m b (base + int (Suc k) * int ?a) 8" using v k by blast
  then obtain m1 where m1: "store_ptr m ?last (tail_m s) = Inr m1"
    unfolding chunk_def using store_ptr_ok by blast
  have ch1: "changed_only m m1 b (base + int (Suc k) * int ?a) (base + int (Suc k) * int ?a + 8)"
    using store_ptr_changed m1 by (simp add: chunk_def)
  have "valid m1 = valid m" using ch1 by (rule changed_only_valid)
  then have "\<forall>i\<le>k. valid m1 b (base + int i * int ?a) 8" using v k by simp
  from segregate_loop_ok [OF this a, of ?last] obtain m' where
    run: "segregate_loop m1 (Ptr b base) (chunk b base ?a k) ?last psz = Inr m'"
    and ch: "chain m' (Ptr b base) (map (chunk b base ?a) [0..<Suc k]) ?last"
    and co: "changed_only m1 m' b base (base + int k * int ?a + 8)" by blast
  have below: "base + int k * int ?a + 8 \<le> base + int (Suc k) * int ?a"
    and below': "base + int (Suc k) * int ?a + 8 \<le> base + int n * int ?a"
    unfolding k by (rule chunk_room [OF a])+
  have "load_ptr m' ?last = load_ptr m1 ?last"
    unfolding chunk_def using changed_only_load_ptr [OF co] below by blast
  then have ld: "load_ptr m' ?last = Inr (tail_m s)" using load_store_ptr_same [OF m1] by simp
  have "changed_only m m' b base (base + int n * int ?a)"
  proof (rule changed_only_trans [of m m1])
    show "changed_only m m1 b base (base + int n * int ?a)"
      using ch1 by (rule changed_only_mono) (use below' in auto)
    show "changed_only m1 m' b base (base + int n * int ?a)"
      using co by (rule changed_only_mono) (use below below' in auto)
  qed
  moreover have "segregate s (Ptr b base) sz psz m =
      Inr (Ptr b base, if tail_m s = Null then s\<lparr>tail_m := ?last\<rparr> else s, m')"
    unfolding segregate_def Let_def last set_next_of_def padd_chunk_back
    using m1 run by (cases "tail_m s = Null") simp_all
  ultimately show ?thesis using ch ld k by simp
qed

end
