(* ===== verification/Pool.thy ===== *)
theory Pool
  imports SegregatedStorage
begin

section \<open>The pool (memory_pool/include/pool.hpp)\<close>

text \<open>
  A \<open>Pool\<close> inherits its free list from \<open>segregated_storage\<close> (the record is extended the
  same way) and grows it with blocks from \<open>::malloc\<close>: an eight-byte header, which links the
  blocks from \<open>first_\<close>, and \<open>next_size_\<close> chunks of \<open>alloc_size_\<close> bytes.  Sizes are
  64-bit words and wrap as \<open>size_t\<close> does.  \<open>ReleaseMemory\<close> has no body in the source and is
  not modelled.
\<close>

record pool = segregated_storage +
  next_size_m :: u64
  alloc_size_m :: u64
  first_m :: ptr

definition Pool_ctor :: "u64 \<Rightarrow> pool" where
  "Pool_ctor requested_size =
     \<lparr>head_m = Null, tail_m = Null, lock_tail_m = Spinlock,
      next_size_m = 64, alloc_size_m = max requested_size 8, first_m = Null\<rparr>"

definition Empty :: "pool \<Rightarrow> bool" where
  "Empty P = seg_empty P"

definition resize_and_malloc :: "(nat \<Rightarrow> nat \<Rightarrow> bool) \<Rightarrow> pool \<Rightarrow> mem \<Rightarrow> (ptr \<times> pool \<times> mem) res" where
  "resize_and_malloc grant P m =
     (let total_size = next_size_m P * alloc_size_m P;
          (p, m1) = sys_malloc grant (unat (total_size + 8)) m
      in if p = Null then Inr (Null, P, m1)
         else rbind (add_block P (padd p 8) total_size (alloc_size_m P) m1) (\<lambda>(P2, m2).
              rbind (set_next_of m2 p (first_m P2)) (\<lambda>m3.
              let P3 = P2\<lparr>first_m := p, next_size_m := push_bit 1 (next_size_m P2)\<rparr> in
              rbind (seg_malloc P3 m3) (\<lambda>(r, P4). Inr (r, P4, m3)))))"

definition Malloc :: "(nat \<Rightarrow> nat \<Rightarrow> bool) \<Rightarrow> pool \<Rightarrow> mem \<Rightarrow> (ptr \<times> pool \<times> mem) res" where
  "Malloc grant P m =
     (if \<not> Empty P then rbind (seg_malloc P m) (\<lambda>(r, P'). Inr (r, P', m))
      else resize_and_malloc grant P m)"

definition Free :: "pool \<Rightarrow> ptr \<Rightarrow> mem \<Rightarrow> (pool \<times> mem) res" where
  "Free P c m = seg_free P c m"

definition FreeAppend :: "pool \<Rightarrow> ptr \<Rightarrow> mem \<Rightarrow> (pool \<times> mem) res" where
  "FreeAppend P c m = seg_free_append P c m"

text \<open>The loop of \<open>PurgeMemory\<close>; \<open>None\<close> if the list of blocks never ends.\<close>

partial_function (option) purge_loop :: "mem \<Rightarrow> ptr \<Rightarrow> mem res option" where
  "purge_loop m p =
     (if p = Null then Some (Inr m)
      else case next_of m p of
        Inl e \<Rightarrow> Some (Inl e)
      | Inr n \<Rightarrow> (case sys_free m p of
          Inl e \<Rightarrow> Some (Inl e)
        | Inr m' \<Rightarrow> purge_loop m' n))"

definition PurgeMemory :: "pool \<Rightarrow> mem \<Rightarrow> (bool \<times> pool \<times> mem) res" where
  "PurgeMemory P m =
     (case purge_loop m (first_m P) of
        None \<Rightarrow> Inl NoReturn
      | Some r \<Rightarrow> rbind r (\<lambda>m'.
          Inr (True, P\<lparr>first_m := Null, next_size_m := 32, head_m := Null\<rparr>, m')))"

definition Pool_dtor :: "pool \<Rightarrow> mem \<Rightarrow> mem res" where
  "Pool_dtor P m = rbind (PurgeMemory P m) (\<lambda>(b, P', m'). Inr m')"

subsection \<open>The invariant\<close>

text \<open>
  \<open>hs\<close> lists the blocks, newest first, with the number of chunks of each; \<open>fl\<close> lists the
  free chunks before \<open>tail_\<close>.  Both are what the stored pointers say.
\<close>

definition chunks :: "nat \<Rightarrow> (nat \<times> nat) list \<Rightarrow> ptr set" where
  "chunks a hs = set (concat (map (\<lambda>(b, n). map (chunk b 8 a) [0..<n]) hs))"

abbreviation asize :: "pool \<Rightarrow> nat" where
  "asize P \<equiv> unat (alloc_size_m P)"

abbreviation header :: "nat \<times> nat \<Rightarrow> ptr" where
  "header h \<equiv> Ptr (fst h) 0"

definition free_ok :: "mem \<Rightarrow> pool \<Rightarrow> (nat \<times> nat) list \<Rightarrow> ptr list \<Rightarrow> bool" where
  "free_ok m P hs fl \<longleftrightarrow>
     chain m (head_m P) fl (tail_m P) \<and> distinct (fl @ [tail_m P]) \<and>
     (if hs = [] then tail_m P = Null \<and> fl = [] else set (fl @ [tail_m P]) \<subseteq> chunks (asize P) hs)"

definition blocks_ok :: "mem \<Rightarrow> pool \<Rightarrow> (nat \<times> nat) list \<Rightarrow> bool" where
  "blocks_ok m P hs \<longleftrightarrow>
     distinct (map fst hs) \<and> chain m (first_m P) (map header hs) Null \<and>
     (\<forall>h\<in>set hs. blocks m (fst h) = Some (8 + snd h * asize P) \<and> 2 \<le> snd h)"

text \<open>The next size computation does not wrap, nor does the doubling of \<open>next_size_\<close>.\<close>

definition room :: "pool \<Rightarrow> bool" where
  "room P \<longleftrightarrow> unat (next_size_m P) * asize P + 8 < 2 ^ 63"

definition pool_inv :: "mem \<Rightarrow> pool \<Rightarrow> (nat \<times> nat) list \<Rightarrow> ptr list \<Rightarrow> bool" where
  "pool_inv m P hs fl \<longleftrightarrow>
     mem_ok m \<and> 8 \<le> asize P \<and> 32 \<le> unat (next_size_m P) \<and> room P \<and>
     lock_tail_m P = Spinlock \<and>
     blocks_ok m P hs \<and> free_ok m P hs fl"

text \<open>The chunks in the hands of the pool's users.\<close>

definition live :: "pool \<Rightarrow> (nat \<times> nat) list \<Rightarrow> ptr list \<Rightarrow> ptr set" where
  "live P hs fl = chunks (asize P) hs - set (fl @ [tail_m P])"

lemma chunks_iff: "p \<in> chunks a hs \<longleftrightarrow> (\<exists>b n k. (b, n) \<in> set hs \<and> k < n \<and> p = chunk b 8 a k)"
  by (force simp: chunks_def)

lemma chunks_Cons: "chunks a ((b, n) # hs) = set (map (chunk b 8 a) [0..<n]) \<union> chunks a hs"
  by (simp add: chunks_def)

lemma chunks_Nil [simp]: "chunks a [] = {}"
  by (simp add: chunks_def)

lemma chunks_not_Null [simp]: "Null \<notin> chunks a hs"
  by (auto simp: chunks_iff chunk_def)

lemma chunks_block: "Ptr b i \<in> chunks a hs \<Longrightarrow> b \<in> fst ` set hs \<and> 8 \<le> i"
  by (force simp: chunks_iff chunk_def)

lemma chunks_Ptr: "p \<in> chunks a hs \<Longrightarrow> \<exists>b i. p = Ptr b i"
  by (auto simp: chunks_iff chunk_def)

text \<open>Different chunks do not overlap.\<close>

lemma chunk_apart:
  assumes "k < l"
  shows "c + int k * int a + int a \<le> c + int l * int a"
proof -
  have "(int k + 1) * int a \<le> int l * int a" using assms by (intro mult_right_mono) auto
  then show ?thesis by (simp add: algebra_simps)
qed

lemma chunks_apart:
  assumes "Ptr b i \<in> chunks a hs" and "Ptr b' i' \<in> chunks a hs" and "Ptr b i \<noteq> Ptr b' i'"
  shows "b \<noteq> b' \<or> i + int a \<le> i' \<or> i' + int a \<le> i"
proof -
  obtain k l where i: "i = 8 + int k * int a" and i': "i' = 8 + int l * int a"
    using assms(1,2) by (auto simp: chunks_iff chunk_def)
  consider "k < l" | "l < k" | "k = l" by linarith
  then show ?thesis using chunk_apart assms(3) unfolding i i' by cases blast+
qed

lemma chunks_valid:
  assumes "blocks_ok m P hs" and "Ptr b i \<in> chunks (asize P) hs"
  shows "valid m b i (asize P)"
proof -
  obtain n k where h: "(b, n) \<in> set hs" "k < n" and i: "i = 8 + int k * int (asize P)"
    using assms(2) by (auto simp: chunks_iff chunk_def)
  have "blocks m b = Some (8 + n * asize P)" using assms(1) h(1) by (auto simp: blocks_ok_def)
  moreover have "8 + int k * int (asize P) + int (asize P) \<le> 8 + int n * int (asize P)"
    using h(2) by (rule chunk_apart)
  ultimately show ?thesis unfolding i valid_def by simp
qed

lemma chunk_cell_valid:
  assumes "pool_inv m P hs fl" and "Ptr b i \<in> chunks (asize P) hs"
  shows "valid m b i 8"
  using valid_mono [OF chunks_valid, of m P hs b i 0 8] assms by (auto simp: pool_inv_def)

lemma room_sel [simp]:
  "room (P\<lparr>head_m := x\<rparr>) = room P" "room (P\<lparr>tail_m := x\<rparr>) = room P"
  by (simp_all add: room_def)

subsection \<open>Frame lemmas\<close>

lemma blocks_ok_frame:
  assumes "blocks_ok m P hs"
    and "\<And>b. b \<in> fst ` set hs \<Longrightarrow> blocks m' b = blocks m b"
    and "\<And>b. b \<in> fst ` set hs \<Longrightarrow> load_ptr m' (Ptr b 0) = load_ptr m (Ptr b 0)"
  shows "blocks_ok m' P hs"
proof -
  have "chain m' (first_m P) (map header hs) Null = chain m (first_m P) (map header hs) Null"
    by (rule chain_frame) (use assms(3) in auto)
  then show ?thesis using assms(1,2) by (auto simp: blocks_ok_def)
qed

lemma free_ok_frame:
  assumes "free_ok m P hs fl" and "\<And>x. x \<in> set fl \<Longrightarrow> load_ptr m' x = load_ptr m x"
  shows "free_ok m' P hs fl"
proof -
  have "chain m' (head_m P) fl (tail_m P) = chain m (head_m P) fl (tail_m P)"
    by (rule chain_frame) (rule assms(2))
  then show ?thesis using assms(1) unfolding free_ok_def by blast
qed

lemma free_chunk:
  "free_ok m P hs fl \<Longrightarrow> x \<in> set fl \<Longrightarrow> x \<in> chunks (asize P) hs"
  by (auto simp: free_ok_def split: if_splits)

text \<open>A store inside a chunk that is not free leaves the pool's own pointers alone.\<close>

lemma pool_frame_chunk:
  assumes inv: "pool_inv m P hs fl" and c: "Ptr b i \<in> chunks (asize P) hs"
    and co: "changed_only m m' b i (i + int (asize P))"
    and fl': "set fl' \<subseteq> chunks (asize P) hs" "Ptr b i \<notin> set fl'"
  shows "mem_ok m'" and "blocks_ok m' P hs"
    and "\<And>x. x \<in> set fl' \<Longrightarrow> load_ptr m' x = load_ptr m x"
proof -
  have a: "8 \<le> int (asize P)" using inv by (simp add: pool_inv_def)
  show "mem_ok m'" using inv co by (simp add: pool_inv_def mem_ok_def changed_only_def)
  have i: "8 \<le> i" using chunks_block [OF c] by simp
  show "blocks_ok m' P hs"
  proof (rule blocks_ok_frame)
    show "blocks_ok m P hs" using inv by (simp add: pool_inv_def)
    show "blocks m' b' = blocks m b'" for b' using co by (simp add: changed_only_def)
    show "load_ptr m' (Ptr b' 0) = load_ptr m (Ptr b' 0)" for b'
      using changed_only_load_ptr [OF co] i by simp
  qed
  show "load_ptr m' x = load_ptr m x" if x: "x \<in> set fl'" for x
  proof -
    obtain b' i' where xp: "x = Ptr b' i'" using x fl'(1) chunks_Ptr by blast
    then have "b \<noteq> b' \<or> i + int (asize P) \<le> i' \<or> i' + int (asize P) \<le> i"
      using x fl' c by (intro chunks_apart) auto
    then show ?thesis unfolding xp using changed_only_load_ptr [OF co, of b' i'] a by auto
  qed
qed

subsection \<open>The operations keep the invariant\<close>

lemma Malloc_from_list:
  assumes "pool_inv m P hs (x # fl)"
  shows "\<exists>n. Malloc grant P m = Inr (x, P\<lparr>head_m := n\<rparr>, m) \<and> pool_inv m (P\<lparr>head_m := n\<rparr>) hs fl"
proof -
  have ch: "chain m (head_m P) (x # fl) (tail_m P)" and d: "distinct (x # fl @ [tail_m P])"
    and hs: "hs \<noteq> []" "set (x # fl @ [tail_m P]) \<subseteq> chunks (asize P) hs"
    using assms by (auto simp: pool_inv_def free_ok_def split: if_splits)
  then obtain n where n: "load_ptr m x = Inr n" "chain m n fl (tail_m P)" and h: "head_m P = x"
    unfolding chain_Cons_iff by blast
  have "\<not> Empty P" using d h by (auto simp: Empty_def seg_empty_def)
  then have "Malloc grant P m = Inr (x, P\<lparr>head_m := n\<rparr>, m)"
    using n h by (simp add: Malloc_def seg_malloc_def next_of_def)
  moreover have "pool_inv m (P\<lparr>head_m := n\<rparr>) hs fl"
    using assms n(2) d hs by (simp add: pool_inv_def free_ok_def blocks_ok_def)
  ultimately show ?thesis by blast
qed

lemma Free_ok:
  assumes inv: "pool_inv m P hs fl" and c: "c \<in> live P hs fl"
  shows "\<exists>m'. Free P c m = Inr (P\<lparr>head_m := c\<rparr>, m') \<and> pool_inv m' (P\<lparr>head_m := c\<rparr>) hs (c # fl) \<and>
     keeps m m' (fst ` set hs) \<and> (\<exists>b i. c = Ptr b i \<and> changed_only m m' b i (i + int (asize P)))"
proof -
  obtain b i where cp: "c = Ptr b i" using c by (cases c) (auto simp: live_def)
  have cc: "Ptr b i \<in> chunks (asize P) hs" "c \<notin> set fl" "c \<noteq> tail_m P"
    using c cp by (auto simp: live_def)
  obtain m' where m': "store_ptr m c (head_m P) = Inr m'"
    using store_ptr_ok chunk_cell_valid [OF inv cc(1)] cp by blast
  have co: "changed_only m m' b i (i + int (asize P))"
    using store_ptr_changed [of m b i "head_m P" m'] m' cp inv
    by (auto simp: pool_inv_def intro: changed_only_mono)
  have fo: "free_ok m P hs fl" using inv by (simp add: pool_inv_def)
  have sub: "set fl \<subseteq> chunks (asize P) hs" using free_chunk [OF fo] by blast
  have nf: "Ptr b i \<notin> set fl" using cc(2) cp by simp
  note fr = pool_frame_chunk [OF inv cc(1) co sub nf]
  have "free_ok m' P hs fl" using fo fr(3) by (rule free_ok_frame)
  moreover have "hs \<noteq> []" using cc(1) by auto
  moreover have "c \<in> chunks (asize P) hs" using cc(1) cp by simp
  ultimately have "free_ok m' (P\<lparr>head_m := c\<rparr>) hs (c # fl)"
    using cc(2,3) load_store_ptr_same [OF m'] unfolding free_ok_def by simp
  moreover have "blocks_ok m' (P\<lparr>head_m := c\<rparr>) hs"
    using fr(2) by (simp add: blocks_ok_def)
  ultimately have "pool_inv m' (P\<lparr>head_m := c\<rparr>) hs (c # fl)"
    using inv fr(1) by (simp add: pool_inv_def)
  moreover have "keeps m m' (fst ` set hs)"
    using changed_only_keeps [OF co] chunks_block [OF cc(1)] by blast
  moreover have "Free P c m = Inr (P\<lparr>head_m := c\<rparr>, m')"
    using m' by (simp add: Free_def seg_free_def set_next_of_def)
  ultimately show ?thesis using co cp by blast
qed

lemma FreeAppend_ok:
  assumes inv: "pool_inv m P hs fl" and c: "c \<in> live P hs fl"
  shows "\<exists>m'. FreeAppend P c m = Inr (P\<lparr>tail_m := c\<rparr>, m') \<and>
     pool_inv m' (P\<lparr>tail_m := c\<rparr>) hs (fl @ [tail_m P]) \<and>
     keeps m m' (fst ` set hs) \<and>
     (\<exists>b i. tail_m P = Ptr b i \<and> changed_only m m' b i (i + int (asize P)))"
proof -
  have fo: "free_ok m P hs fl" using inv by (simp add: pool_inv_def)
  have hs: "hs \<noteq> []" using c by (auto simp: live_def)
  have tc: "tail_m P \<in> chunks (asize P) hs" using fo hs by (simp add: free_ok_def)
  have tf: "tail_m P \<notin> set fl" using fo by (simp add: free_ok_def)
  obtain b i where tp: "tail_m P = Ptr b i" using tc by (cases "tail_m P") auto
  have bi: "Ptr b i \<in> chunks (asize P) hs" using tc tp by simp
  obtain m' where m': "store_ptr m (tail_m P) c = Inr m'"
    using store_ptr_ok chunk_cell_valid [OF inv bi] tp by metis
  have co: "changed_only m m' b i (i + int (asize P))"
    using store_ptr_changed [of m b i c m'] m' tp inv
    by (auto simp: pool_inv_def intro: changed_only_mono)
  have sub: "set fl \<subseteq> chunks (asize P) hs" using free_chunk [OF fo] by blast
  note fr = pool_frame_chunk [OF inv bi co sub tf [unfolded tp]]
  have "free_ok m' P hs fl" using fo fr(3) by (rule free_ok_frame)
  then have "chain m' (head_m P) (fl @ [tail_m P]) c"
    using load_store_ptr_same [OF m'] chain_append by (auto simp: free_ok_def)
  then have "free_ok m' (P\<lparr>tail_m := c\<rparr>) hs (fl @ [tail_m P])"
    using fo c tf tc sub hs by (auto simp: free_ok_def live_def)
  moreover have "blocks_ok m' (P\<lparr>tail_m := c\<rparr>) hs" using fr(2) by (simp add: blocks_ok_def)
  ultimately have "pool_inv m' (P\<lparr>tail_m := c\<rparr>) hs (fl @ [tail_m P])"
    using inv fr(1) by (simp add: pool_inv_def)
  moreover have "keeps m m' (fst ` set hs)"
    using changed_only_keeps [OF co] chunks_block [OF bi] by blast
  moreover have "FreeAppend P c m = Inr (P\<lparr>tail_m := c\<rparr>, m')"
    using inv m' tp
    by (simp add: FreeAppend_def seg_free_append_def set_next_of_def pool_inv_def
        Lock_eq Unlock_def Spinlock_def)
  ultimately show ?thesis using co tp by blast
qed

text \<open>Growth: one new block, cut into \<open>next_size_\<close> chunks.\<close>

lemma inv_blocks:
  "pool_inv m P hs fl \<Longrightarrow> b \<in> fst ` set hs \<Longrightarrow> b < nextb m"
  by (force simp: pool_inv_def blocks_ok_def mem_ok_def)

lemma inv_tail_Null: "pool_inv m P hs fl \<Longrightarrow> tail_m P = Null \<longleftrightarrow> hs = []"
  by (auto simp: pool_inv_def free_ok_def split: if_splits)

lemma new_block_valid:
  assumes "blocks m b = Some (8 + n * a)" and "8 \<le> a" and "i < n"
  shows "valid m b (8 + int i * int a) 8"
proof -
  have "8 + int i * int a + int a \<le> 8 + int n * int a" using assms(3) by (rule chunk_apart)
  moreover have "8 \<le> int a" using assms(2) by simp
  ultimately show ?thesis using assms(1) by (simp add: valid_def)
qed

lemma map_chunk_upt: "0 < k \<Longrightarrow> map (chunk b c a) [0..<k] = Ptr b c # map (chunk b c a) [1..<k]"
  by (simp add: upt_rec)

lemma distinct_chunks: "0 < a \<Longrightarrow> distinct (map (chunk b c a) ks) \<longleftrightarrow> distinct ks"
  by (auto simp: distinct_map inj_on_def chunk_inj)

lemma grown_free_list:
  assumes a: "8 \<le> asize P" and n: "2 \<le> n" and b: "b \<notin> fst ` set hs"
    and tl: "hs \<noteq> [] \<Longrightarrow> tail_m P \<in> chunks (asize P) hs"
    and K: "K = (if hs = [] then n - 1 else n)"
    and T: "T = (if hs = [] then chunk b 8 (asize P) (n - 1) else tail_m P)"
  shows "distinct (map (chunk b 8 (asize P)) [1..<K] @ [T])"
    and "set (map (chunk b 8 (asize P)) [1..<K] @ [T]) \<subseteq> chunks (asize P) ((b, n) # hs)"
proof -
  have a0: "0 < asize P" using a by simp
  have "T \<notin> set (map (chunk b 8 (asize P)) [1..<K])"
  proof (cases "hs = []")
    case True
    then show ?thesis using a0 K T by (auto simp: chunk_inj)
  next
    case False
    then have "T \<in> chunks (asize P) hs" using T tl by simp
    then show ?thesis using b chunks_block [of b] by (auto simp: chunk_def)
  qed
  then show "distinct (map (chunk b 8 (asize P)) [1..<K] @ [T])"
    using a0 by (simp add: distinct_chunks)
  show "set (map (chunk b 8 (asize P)) [1..<K] @ [T]) \<subseteq> chunks (asize P) ((b, n) # hs)"
    using K T tl n by (auto simp: chunks_Cons)
qed

lemma resize_ok:
  assumes inv: "pool_inv m P hs []"
    and ok: "grant (nextb m) (unat (next_size_m P) * asize P + 8)"
      "unat (next_size_m P) * asize P + 8 < address_space"
    and b: "b = nextb m" and n: "n = unat (next_size_m P)" and a: "a = asize P"
    and K: "K = (if hs = [] then n - 1 else n)"
    and T: "T = (if hs = [] then chunk b 8 a (n - 1) else tail_m P)"
  shows "\<exists>h m'. resize_and_malloc grant P m =
       Inr (Ptr b 8, P\<lparr>head_m := h, tail_m := T, first_m := Ptr b 0,
            next_size_m := push_bit 1 (next_size_m P)\<rparr>, m') \<and>
     pool_inv m' (P\<lparr>head_m := h, tail_m := T, first_m := Ptr b 0,
            next_size_m := push_bit 1 (next_size_m P)\<rparr>)
       ((b, n) # hs) (map (chunk b 8 a) [1..<K]) \<and>
     keeps m m' {} \<and> nextb m' = Suc (nextb m)"
proof -
  have a8: "8 \<le> a" and n2: "2 \<le> n" and n32: "32 \<le> n" and mo: "mem_ok m" and bo: "blocks_ok m P hs"
    and fo: "free_ok m P hs []" and lt: "lock_tail_m P = Spinlock"
    using inv a n by (auto simp: pool_inv_def)
  have bfresh: "b \<notin> fst ` set hs" using inv_blocks [OF inv, of b] b by (metis less_irrefl)
  have na: "n * a + 8 < 2 ^ 47" using ok a n by (simp add: address_space_def)
  have tot: "unat (next_size_m P * alloc_size_m P) = n * a"
    using na a n by (subst unat_mult_lem') auto
  have tot8: "unat (next_size_m P * alloc_size_m P + 8) = n * a + 8"
    using na tot by (subst unat_add_lem') auto
  obtain m1 where m1: "sys_malloc grant (n * a + 8) m = (Ptr b 0, m1)"
    and bl1: "blocks m1 = (blocks m)(b \<mapsto> n * a + 8)" and nb1: "nextb m1 = Suc b"
    and ce1: "\<And>b'. b' \<noteq> b \<Longrightarrow> cells m1 b' = cells m b'"
    using ok a b n by (simp add: sys_malloc_def)
  have "\<forall>i<n. valid m1 b (8 + int i * int (unat (alloc_size_m P))) 8"
    using new_block_valid [of m1 b n a] bl1 a8 a by (simp add: add.commute)
  from segregate_ok [OF _ n2 tot [unfolded a] this, of P] a8 a obtain m2 where
    seg: "segregate P (Ptr b 8) (next_size_m P * alloc_size_m P) (alloc_size_m P) m1 =
      Inr (Ptr b 8, if tail_m P = Null then P\<lparr>tail_m := chunk b 8 a (n - 1)\<rparr> else P, m2)"
    and co2: "changed_only m1 m2 b 8 (8 + int n * int a)"
    and ch2: "chain m2 (Ptr b 8) (map (chunk b 8 a) [0..<n - 1]) (chunk b 8 a (n - 1))"
    and ld2: "load_ptr m2 (chunk b 8 a (n - 1)) = Inr (tail_m P)" by auto
  have tn: "tail_m P = Null \<longleftrightarrow> hs = []" using inv by (rule inv_tail_Null)
  have "[0..<n] = [0..<n - 1] @ [n - 1]"
    using n2 upt_Suc_append [of 0 "n - 1"] by simp
  then have all: "map (chunk b 8 a) [0..<n] = map (chunk b 8 a) [0..<n - 1] @ [chunk b 8 a (n - 1)]"
    by simp
  have ch2': "chain m2 (Ptr b 8) (map (chunk b 8 a) [0..<K]) T"
  proof (cases "hs = []")
    case True
    then show ?thesis using ch2 K T by simp
  next
    case False
    then have "map (chunk b 8 a) [0..<K] = map (chunk b 8 a) [0..<n - 1] @ [chunk b 8 a (n - 1)]"
      and "T = tail_m P" using all K T by simp_all
    then show ?thesis using ch2 ld2 chain_append by metis
  qed
  have "valid m2 b 0 8"
    using co2 bl1 by (simp add: changed_only_def valid_def)
  then obtain m3 where m3: "store_ptr m2 (Ptr b 0) (first_m P) = Inr m3"
    using store_ptr_ok by blast
  have co3: "changed_only m2 m3 b 0 8" using store_ptr_changed [OF m3] by simp
  have "load_ptr m3 x = load_ptr m2 x" if "x \<in> set (map (chunk b 8 a) [0..<K])" for x
    using that changed_only_load_ptr [OF co3] by (auto simp: chunk_def)
  then have ch3: "chain m3 (Ptr b 8) (map (chunk b 8 a) [0..<K]) T"
    using ch2' chain_frame by blast
  have K0: "0 < K" using K n2 by auto
  then obtain h where h: "load_ptr m3 (Ptr b 8) = Inr h"
    and ch: "chain m3 h (map (chunk b 8 a) [1..<K]) T"
    using ch3 unfolding map_chunk_upt [OF K0] chain_Cons_iff by blast
  let ?P = "P\<lparr>head_m := h, tail_m := T, first_m := Ptr b 0,
            next_size_m := push_bit 1 (next_size_m P)\<rparr>"
  have run: "resize_and_malloc grant P m = Inr (Ptr b 8, ?P, m3)"
    using m1 seg m3 h tn T
    by (cases "hs = []")
      (simp_all add: resize_and_malloc_def tot8 add_block_def set_next_of_def next_of_def seg_malloc_def)
  have "changed_only m1 m3 b 0 (8 + int n * int a)"
    by (rule changed_only_trans [of m1 m2])
      (use changed_only_mono [OF co2, of 0] changed_only_mono [OF co3, of 0] in auto)
  then have bl3: "blocks m3 = (blocks m)(b \<mapsto> n * a + 8)" and nb3: "nextb m3 = Suc b"
    and ce3: "\<And>b'. b' \<noteq> b \<Longrightarrow> cells m3 b' = cells m b'"
    using bl1 nb1 ce1 by (auto simp: changed_only_def)
  have kp: "keeps m m3 {}" using bl3 nb3 ce3 b by (auto simp: keeps_def)
  have "blocks_ok m3 P hs"
  proof (rule blocks_ok_frame [OF bo])
    fix b' assume "b' \<in> fst ` set hs"
    then have "b' < nextb m" by (rule inv_blocks [OF inv])
    moreover from this have "b' \<noteq> b" using b by simp
    ultimately show "blocks m3 b' = blocks m b'" "load_ptr m3 (Ptr b' 0) = load_ptr m (Ptr b' 0)"
      using bl3 keeps_load_ptr [OF kp] by auto
  qed
  then have bo3: "blocks_ok m3 ?P ((b, n) # hs)"
    using bl3 a n2 bfresh load_store_ptr_same [OF m3] by (simp add: blocks_ok_def)
  have "hs \<noteq> [] \<Longrightarrow> tail_m P \<in> chunks (asize P) hs" using fo by (simp add: free_ok_def)
  note gl = grown_free_list [OF a8 [unfolded a] n2 bfresh this K T [unfolded a]]
  have fo3: "free_ok m3 ?P ((b, n) # hs) (map (chunk b 8 a) [1..<K])"
    using ch gl a by (simp add: free_ok_def)
  have "n * 8 \<le> n * a" using a8 by (rule mult_le_mono2)
  with na have "n * 8 < 2 ^ 47" by (meson add_lessD1 le_less_trans)
  then have "2 * unat (next_size_m P) < 2 ^ 64" using na unfolding n[symmetric] by (simp add: mult.commute)
  then have next': "unat (push_bit 1 (next_size_m P)) = 2 * n" unfolding n by (rule unat_double)
  then have "32 \<le> unat (push_bit 1 (next_size_m P))" using n32 by linarith
  moreover have "room ?P" using next' na a by (simp add: room_def)
  moreover have "mem_ok m3" using mo bl3 nb3 b by (auto simp: mem_ok_def less_Suc_eq)
  ultimately have "pool_inv m3 ?P ((b, n) # hs) (map (chunk b 8 a) [1..<K])"
    using bo3 fo3 a8 lt a by (simp add: pool_inv_def)
  with run kp nb3 b show ?thesis by blast
qed

subsection \<open>\<open>PurgeMemory\<close>\<close>

lemma purge_loop_ok:
  assumes "chain m p (map header hs) Null" and "distinct (map fst hs)"
    and "\<forall>h\<in>set hs. blocks m (fst h) \<noteq> None"
  shows "\<exists>m'. purge_loop m p = Some (Inr m') \<and> nextb m' = nextb m \<and> cells m' = cells m \<and>
     blocks m' = (\<lambda>b. if b \<in> fst ` set hs then None else blocks m b)"
  using assms
proof (induction hs arbitrary: m p)
  case Nil
  then show ?case by (simp add: purge_loop.simps)
next
  case (Cons h hs)
  obtain n where n: "load_ptr m (header h) = Inr n" "chain m n (map header hs) Null"
    and p: "p = header h" using Cons.prems(1) by (auto split: sum.splits)
  let ?m = "m\<lparr>blocks := (blocks m)(fst h := None)\<rparr>"
  have fr: "sys_free m p = Inr ?m" using Cons.prems(3) p by simp
  have "chain ?m n (map header hs) Null = chain m n (map header hs) Null"
  proof (rule chain_frame)
    fix x assume "x \<in> set (map header hs)"
    then obtain b where xb: "x = Ptr b 0" and "b \<in> fst ` set hs" by auto
    then have b: "b \<noteq> fst h" using Cons.prems(2) by (metis distinct.simps(2) list.map(2) list.set_map)
    show "load_ptr ?m x = load_ptr m x" unfolding xb by (rule load_ptr_frame) (simp_all add: b)
  qed
  with n(2) have "chain ?m n (map header hs) Null" by simp
  moreover have "fst h' \<noteq> fst h" if "h' \<in> set hs" for h'
    using Cons.prems(2) that by (metis distinct.simps(2) image_eqI list.map(2) list.set_map)
  then have "\<forall>h\<in>set hs. blocks ?m (fst h) \<noteq> None" using Cons.prems(3) by simp
  ultimately obtain m' where m': "purge_loop ?m n = Some (Inr m')" "nextb m' = nextb ?m"
    "cells m' = cells ?m" "blocks m' = (\<lambda>b. if b \<in> fst ` set hs then None else blocks ?m b)"
    using Cons.IH [of ?m n] Cons.prems(2) by auto
  have "purge_loop m p = Some (Inr m')"
    using n(1) fr m'(1) p by (subst purge_loop.simps) (simp add: next_of_def)
  with m' show ?case by (intro exI [of _ m']) (auto simp: fun_eq_iff)
qed

lemma PurgeMemory_ok:
  assumes "pool_inv m P hs fl"
  shows "\<exists>m'. PurgeMemory P m =
       Inr (True, P\<lparr>first_m := Null, next_size_m := 32, head_m := Null\<rparr>, m') \<and>
     nextb m' = nextb m \<and> cells m' = cells m \<and>
     blocks m' = (\<lambda>b. if b \<in> fst ` set hs then None else blocks m b)"
  using assms purge_loop_ok [of m "first_m P" hs]
  by (auto simp: PurgeMemory_def pool_inv_def blocks_ok_def)

end
