(* ===== verification/Allocator.thy ===== *)
theory Allocator
  imports Memory
begin

section \<open>The interface of an allocator\<close>

text \<open>
  What the users of a pool rely on.  \<open>rel s L\<close>: in state \<open>s\<close> exactly the pointers \<open>L\<close> are
  handed out.  An allocation that returns yields null and changes nothing, or hands out a
  pointer that was not handed out; giving back a handed-out pointer makes it free.  A total
  allocator, moreover, never faults.  The parameter \<open>w\<close> is who asks (a thread, or the owner
  of a pool against the others).  The client is any program of allocations and returns.
\<close>

datatype request = Get | Put nat

fun run_client ::
  "('w \<Rightarrow> 'st \<Rightarrow> (ptr \<times> 'st) res) \<Rightarrow> ('w \<Rightarrow> 'st \<Rightarrow> ptr \<Rightarrow> 'st res) \<Rightarrow> 'st \<Rightarrow> ptr list \<Rightarrow>
   ('w \<times> request) list \<Rightarrow> ('st \<times> ptr list) res" where
  "run_client alloc give s held [] = Inr (s, held)"
| "run_client alloc give s held ((w, Get) # rs) =
     rbind (alloc w s) (\<lambda>(p, s'). run_client alloc give s' (if p = Null then held else p # held) rs)"
| "run_client alloc give s held ((w, Put k) # rs) =
     (if k < length held
      then rbind (give w s (held ! k)) (\<lambda>s'.
           run_client alloc give s' (take k held @ drop (Suc k) held) rs)
      else run_client alloc give s held rs)"

lemma distinct_remove_nth:
  assumes "distinct xs" and "k < length xs"
  shows "distinct (take k xs @ drop (Suc k) xs)"
    and "set (take k xs @ drop (Suc k) xs) = set xs - {xs ! k}"
proof -
  have xs: "xs = take k xs @ xs ! k # drop (Suc k) xs"
    using assms(2) by (rule id_take_nth_drop)
  have d: "distinct (take k xs @ xs ! k # drop (Suc k) xs)" using assms(1) xs by metis
  then show "distinct (take k xs @ drop (Suc k) xs)" by simp
  have "set xs = set (take k xs @ xs ! k # drop (Suc k) xs)" using xs by metis
  then show "set (take k xs @ drop (Suc k) xs) = set xs - {xs ! k}" using d by auto
qed

locale allocator =
  fixes rel :: "'st \<Rightarrow> ptr set \<Rightarrow> bool"
    and alloc :: "'w \<Rightarrow> 'st \<Rightarrow> (ptr \<times> 'st) res"
    and give :: "'w \<Rightarrow> 'st \<Rightarrow> ptr \<Rightarrow> 'st res"
  assumes alloc_law: "rel s L \<Longrightarrow> alloc w s = Inr (p, s') \<Longrightarrow>
      p = Null \<and> rel s' L \<or> p \<noteq> Null \<and> p \<notin> L \<and> rel s' (insert p L)"
    and give_law: "rel s L \<Longrightarrow> p \<in> L \<Longrightarrow> give w s p = Inr s' \<Longrightarrow> rel s' (L - {p})"
begin

lemma client_step:
  assumes "rel s (set held)" and "distinct held"
  shows "alloc w s = Inr (p, s1) \<Longrightarrow>
      rel s1 (set (if p = Null then held else p # held)) \<and> distinct (if p = Null then held else p # held)"
    and "k < length held \<Longrightarrow> give w s (held ! k) = Inr s1 \<Longrightarrow>
      rel s1 (set (take k held @ drop (Suc k) held)) \<and> distinct (take k held @ drop (Suc k) held)"
proof -
  show "rel s1 (set (if p = Null then held else p # held)) \<and> distinct (if p = Null then held else p # held)"
    if "alloc w s = Inr (p, s1)"
    using alloc_law [OF assms(1) that] assms(2) by auto
  show "rel s1 (set (take k held @ drop (Suc k) held)) \<and> distinct (take k held @ drop (Suc k) held)"
    if "k < length held" "give w s (held ! k) = Inr s1"
    using give_law [OF assms(1) _ that(2)] distinct_remove_nth [OF assms(2) that(1)] that(1) by simp
qed

lemma client_safe:
  assumes "rel s (set held)" and "distinct held" and "run_client alloc give s held rs = Inr (s', held')"
  shows "rel s' (set held') \<and> distinct held'"
  using assms
proof (induction rs arbitrary: s held)
  case Nil
  then show ?case by simp
next
  case (Cons wr rs)
  obtain w r where wr: "wr = (w, r)" by (cases wr)
  show ?case
  proof (cases r)
    case Get
    with Cons.prems(3) wr obtain p s1 where p: "alloc w s = Inr (p, s1)"
      and go: "run_client alloc give s1 (if p = Null then held else p # held) rs = Inr (s', held')"
      by auto
    show ?thesis using Cons.IH [OF _ _ go] client_step(1) [OF Cons.prems(1,2) p] by blast
  next
    case (Put k)
    show ?thesis
    proof (cases "k < length held")
      case True
      with Cons.prems(3) wr Put obtain s1 where p: "give w s (held ! k) = Inr s1"
        and go: "run_client alloc give s1 (take k held @ drop (Suc k) held) rs = Inr (s', held')"
        by auto
      show ?thesis using Cons.IH [OF _ _ go] client_step(2) [OF Cons.prems(1,2) True p] by blast
    next
      case False
      then show ?thesis using Cons wr Put by simp
    qed
  qed
qed

end

locale total_allocator = allocator +
  assumes alloc_total: "rel s L \<Longrightarrow> \<exists>r. alloc w s = Inr r"
    and give_total: "rel s L \<Longrightarrow> p \<in> L \<Longrightarrow> \<exists>s'. give w s p = Inr s'"
begin

lemma client_total:
  assumes "rel s (set held)" and "distinct held"
  shows "\<exists>s' held'. run_client alloc give s held rs = Inr (s', held') \<and> rel s' (set held') \<and> distinct held'"
  using assms
proof (induction rs arbitrary: s held)
  case Nil
  then show ?case by simp
next
  case (Cons wr rs)
  obtain w r where wr: "wr = (w, r)" by (cases wr)
  show ?case
  proof (cases r)
    case Get
    obtain p s1 where p: "alloc w s = Inr (p, s1)" using alloc_total [OF Cons.prems(1)] by fastforce
    then show ?thesis using Cons.IH client_step(1) [OF Cons.prems p] wr Get by simp
  next
    case (Put k)
    show ?thesis
    proof (cases "k < length held")
      case True
      then obtain s1 where p: "give w s (held ! k) = Inr s1"
        using give_total [OF Cons.prems(1), of "held ! k"] nth_mem by blast
      then show ?thesis using Cons.IH client_step(2) [OF Cons.prems True p] wr Put True by simp
    next
      case False
      then show ?thesis using Cons wr Put by simp
    qed
  qed
qed

end

end
