(* ===== verification/PoolSpec.thy ===== *)
theory PoolSpec
  imports Pool Allocator
begin

section \<open>What a pool promises\<close>

text \<open>
  The pool of theory \<open>Pool\<close> as a provider of the allocator interface: the abstraction
  \<open>pool_rel\<close> forgets everything but the set of chunks in use.  The interface is interpreted
  on \<open>Malloc\<close> and the two ways a chunk comes back, at the head (\<open>Free\<close>) and at the tail
  (\<open>FreeAppend\<close>).
  The properties of the pool follow.
\<close>

subsection \<open>A pool is an allocator\<close>

definition pool_rel :: "pool \<times> mem \<Rightarrow> ptr set \<Rightarrow> bool" where
  "pool_rel s L \<longleftrightarrow> (\<exists>hs fl. pool_inv (snd s) (fst s) hs fl \<and> L = live (fst s) hs fl)"

definition pool_alloc :: "(nat \<Rightarrow> nat \<Rightarrow> bool) \<Rightarrow> pool \<times> mem \<Rightarrow> (ptr \<times> pool \<times> mem) res" where
  "pool_alloc grant s = Malloc grant (fst s) (snd s)"

definition pool_give :: "bool \<Rightarrow> pool \<times> mem \<Rightarrow> ptr \<Rightarrow> (pool \<times> mem) res" where
  "pool_give owner s p =
     (if owner then Free (fst s) p (snd s) else FreeAppend (fst s) p (snd s))"

text \<open>
  The three ways \<open>Malloc\<close> can go: the first chunk of the list, the first chunk of a new block, or
  null.  The system can serve the growth of a pool if the size fits into the address space and is granted.
\<close>

definition granted :: "(nat \<Rightarrow> nat \<Rightarrow> bool) \<Rightarrow> pool \<Rightarrow> mem \<Rightarrow> bool" where
  "granted grant P m \<longleftrightarrow> unat (next_size_m P) * asize P + 8 < address_space \<and>
     grant (nextb m) (unat (next_size_m P) * asize P + 8)"

lemma Malloc_branches:
  assumes inv: "pool_inv m P hs fl"
  shows "\<exists>p P' m' hs' fl'. Malloc grant P m = Inr (p, P', m') \<and> pool_inv m' P' hs' fl' \<and>
     keeps m m' {} \<and>
     (fl = [] \<and> \<not> granted grant P m \<and> p = Null \<and> P' = P \<and> m' = m \<and> hs' = hs \<and> fl' = fl \<or>
      (fl = p # fl' \<and> m' = m \<and> hs' = hs \<or>
       fl = [] \<and> granted grant P m \<and> p = Ptr (nextb m) 8 \<and> hs' = (nextb m, unat (next_size_m P)) # hs \<and>
         next_size_m P' = 2 * next_size_m P) \<and>
      p \<notin> live P hs fl \<and> p \<in> chunks (asize P') hs' \<and> asize P' = asize P \<and>
      live P' hs' fl' = insert p (live P hs fl))"
proof (cases fl)
  case (Cons x fl')
  obtain n where n: "Malloc grant P m = Inr (x, P\<lparr>head_m := n\<rparr>, m)"
    and i: "pool_inv m (P\<lparr>head_m := n\<rparr>) hs fl'"
    using Malloc_from_list inv Cons by blast
  have fo: "free_ok m P hs (x # fl')" using inv Cons by (simp add: pool_inv_def)
  then have "x \<notin> set fl'" "x \<noteq> tail_m P" by (simp_all add: free_ok_def)
  moreover have "x \<in> chunks (asize P) hs" using free_chunk [OF fo, of x] by simp
  ultimately show ?thesis using n i Cons
    by (intro exI [of _ x] exI [of _ "P\<lparr>head_m := n\<rparr>"] exI [of _ m] exI [of _ hs] exI [of _ fl'])
      (auto simp: live_def)
next
  case Nil
  let ?n = "unat (next_size_m P)"
  have e: "Empty P" using inv Nil by (simp add: pool_inv_def free_ok_def Empty_def seg_empty_def)
  have tot: "unat (next_size_m P * alloc_size_m P + 8) = ?n * asize P + 8"
    using inv by (subst unat_add_lem'; subst unat_mult_lem') (auto simp: pool_inv_def room_def)
  show ?thesis
  proof (cases "?n * asize P + 8 < address_space \<and> grant (nextb m) (?n * asize P + 8)")
    case False
    then have "Malloc grant P m = Inr (Null, P, m)"
      using e tot by (auto simp: Malloc_def resize_and_malloc_def sys_malloc_def)
    moreover have "\<not> granted grant P m" using False by (simp add: granted_def)
    ultimately show ?thesis using inv Nil by (intro exI [of _ Null] exI [of _ P] exI [of _ m] exI [of _ hs] exI [of _ fl]) simp
  next
    case True
    then obtain h m' P' T K where run: "resize_and_malloc grant P m = Inr (Ptr (nextb m) 8, P', m')"
      and i: "pool_inv m' P' ((nextb m, ?n) # hs) (map (chunk (nextb m) 8 (asize P)) [1..<K])"
      and P': "P' = P\<lparr>head_m := h, tail_m := T, first_m := Ptr (nextb m) 0,
            next_size_m := push_bit 1 (next_size_m P)\<rparr>"
      and K: "K = (if hs = [] then ?n - 1 else ?n)"
      and T: "T = (if hs = [] then chunk (nextb m) 8 (asize P) (?n - 1) else tail_m P)"
      and kp: "keeps m m' {}"
      using resize_ok [OF inv [unfolded Nil], of grant, OF _ _ refl refl refl refl refl] by blast
    have asz: "asize P' = asize P" "tail_m P' = T" using P' by simp_all
    have n0: "32 \<le> ?n" and a0: "0 < asize P" using inv by (auto simp: pool_inv_def)
    have nb: "nextb m \<notin> fst ` set hs" using inv_blocks [OF inv, of "nextb m"] by blast
    have p0: "Ptr (nextb m) 8 = chunk (nextb m) 8 (asize P) 0" by simp
    define S where "S = set (map (chunk (nextb m) 8 (asize P)) [1..<?n])"
    have new: "set (map (chunk (nextb m) 8 (asize P)) [0..<?n]) = insert (Ptr (nextb m) 8) S"
      unfolding S_def using n0 map_chunk_upt [of ?n] by simp
    have last: "[1..<?n] = [1..<?n - 1] @ [?n - 1]"
      using n0 upt_Suc_append [of 1 "?n - 1"] by simp
    have old: "Ptr (nextb m) 8 \<notin> chunks (asize P) hs"
      using nb chunks_block by blast
    have away: "chunk (nextb m) 8 (asize P) k \<notin> chunks (asize P) hs" for k
      using nb chunks_block unfolding chunk_def by blast
    have first: "Ptr (nextb m) 8 \<notin> S"
      unfolding S_def p0 using a0 by (auto simp: chunk_inj simp del: chunk_0)
    have "live P' ((nextb m, ?n) # hs) (map (chunk (nextb m) 8 (asize P)) [1..<K]) =
        insert (Ptr (nextb m) 8) (live P hs fl)"
    proof (cases "hs = []")
      case True
      then have "set (map (chunk (nextb m) 8 (asize P)) [1..<K] @ [T]) = S"
        unfolding S_def K T last by simp
      then have "live P' ((nextb m, ?n) # hs) (map (chunk (nextb m) 8 (asize P)) [1..<K]) =
          (insert (Ptr (nextb m) 8) S \<union> {}) - S"
        using True unfolding live_def asz chunks_Cons new by (simp only: chunks_Nil)
      also have "\<dots> = {Ptr (nextb m) 8}" using first by auto
      finally show ?thesis using True by (simp add: live_def)
    next
      case False
      have tc: "tail_m P \<in> chunks (asize P) hs"
        using inv False by (simp add: pool_inv_def free_ok_def)
      have "S \<inter> chunks (asize P) hs = {}" unfolding S_def using away by auto
      moreover have "tail_m P \<noteq> Ptr (nextb m) 8" using old tc by metis
      moreover have "live P' ((nextb m, ?n) # hs) (map (chunk (nextb m) 8 (asize P)) [1..<K]) =
          (insert (Ptr (nextb m) 8) S \<union> chunks (asize P) hs) - (S \<union> {tail_m P})"
        using False K T unfolding live_def asz chunks_Cons new S_def by simp
      moreover have "live P hs fl = chunks (asize P) hs - {tail_m P}" using Nil by (simp add: live_def)
      ultimately show ?thesis using first insert_Un_Diff by metis
    qed
    moreover have "Ptr (nextb m) 8 \<notin> live P hs fl" using old by (simp add: live_def)
    moreover have "Ptr (nextb m) 8 \<in> chunks (asize P) ((nextb m, ?n) # hs)"
      unfolding chunks_Cons new by simp
    moreover have "asize P' = asize P" using P' by simp
    moreover have "Malloc grant P m = Inr (Ptr (nextb m) 8, P', m')"
      using e run by (simp add: Malloc_def)
    moreover have "granted grant P m" "next_size_m P' = 2 * next_size_m P"
      using True P' by (simp_all add: granted_def push_bit_eq_mult mult.commute)
    ultimately show ?thesis using Nil i kp
      by (intro exI [of _ "Ptr (nextb m) 8"] exI [of _ P'] exI [of _ m'] exI [of _ "(nextb m, ?n) # hs"]
          exI [of _ "map (chunk (nextb m) 8 (asize P)) [1..<K]"]) simp
  qed
qed

lemma Malloc_cases:
  assumes inv: "pool_inv m P hs fl"
  shows "\<exists>p P' m' hs' fl'. Malloc grant P m = Inr (p, P', m') \<and> pool_inv m' P' hs' fl' \<and>
     keeps m m' {} \<and>
     (p = Null \<and> P' = P \<and> m' = m \<and> hs' = hs \<and> fl' = fl \<and> fl = [] \<or>
      p \<notin> live P hs fl \<and> p \<in> chunks (asize P') hs' \<and> asize P' = asize P \<and>
      live P' hs' fl' = insert p (live P hs fl) \<and>
      (hs' = hs \<or> hs' = (nextb m, unat (next_size_m P)) # hs))"
  using Malloc_branches [OF inv, of grant] by (elim exE conjE disjE) blast+

lemma live_Free: "c \<in> live P hs fl \<Longrightarrow> live (P\<lparr>head_m := h\<rparr>) hs (c # fl) = live P hs fl - {c}"
  by (auto simp: live_def)

lemma live_FreeAppend:
  "c \<in> live P hs fl \<Longrightarrow> live (P\<lparr>tail_m := c\<rparr>) hs (fl @ [tail_m P]) = live P hs fl - {c}"
  by (auto simp: live_def)

lemma live_not_Null: "p \<in> live P hs fl \<Longrightarrow> p \<noteq> Null"
  by (auto simp: live_def)

lemma pool_alloc_law:
  assumes "pool_rel s L"
  shows "\<exists>p s'. pool_alloc grant s = Inr (p, s') \<and>
      (p = Null \<and> pool_rel s' L \<or> p \<noteq> Null \<and> p \<notin> L \<and> pool_rel s' (insert p L))"
proof -
  obtain hs fl where inv: "pool_inv (snd s) (fst s) hs fl" and L: "L = live (fst s) hs fl"
    using assms by (auto simp: pool_rel_def)
  obtain p P' m' hs' fl' where run: "Malloc grant (fst s) (snd s) = Inr (p, P', m')"
    and i: "pool_inv m' P' hs' fl'"
    and c: "p = Null \<and> P' = fst s \<and> m' = snd s \<and> hs' = hs \<and> fl' = fl \<and> fl = [] \<or>
      p \<notin> live (fst s) hs fl \<and> p \<in> chunks (asize P') hs' \<and> asize P' = asize (fst s) \<and>
      live P' hs' fl' = insert p (live (fst s) hs fl) \<and>
      (hs' = hs \<or> hs' = (nextb (snd s), unat (next_size_m (fst s))) # hs)"
    using Malloc_cases [OF inv, of grant] by blast
  from c show ?thesis
  proof
    assume "p = Null \<and> P' = fst s \<and> m' = snd s \<and> hs' = hs \<and> fl' = fl \<and> fl = []"
    then show ?thesis using run assms by (auto simp: pool_alloc_def)
  next
    assume *: "p \<notin> live (fst s) hs fl \<and> p \<in> chunks (asize P') hs' \<and> asize P' = asize (fst s) \<and>
      live P' hs' fl' = insert p (live (fst s) hs fl) \<and>
      (hs' = hs \<or> hs' = (nextb (snd s), unat (next_size_m (fst s))) # hs)"
    then have "p \<noteq> Null" by (metis chunks_not_Null)
    moreover have "pool_rel (P', m') (insert p L)" using i * L by (auto simp: pool_rel_def)
    ultimately show ?thesis using run * L by (auto simp: pool_alloc_def)
  qed
qed

lemma pool_give_law:
  assumes "pool_rel s L" and "p \<in> L"
  shows "\<exists>s'. pool_give owner s p = Inr s' \<and> pool_rel s' (L - {p})"
proof -
  obtain hs fl where inv: "pool_inv (snd s) (fst s) hs fl" and L: "L = live (fst s) hs fl"
    using assms by (auto simp: pool_rel_def)
  have p: "p \<in> live (fst s) hs fl" using assms(2) L by simp
  show ?thesis
    using Free_ok [OF inv p] FreeAppend_ok [OF inv p] live_Free [OF p] live_FreeAppend [OF p] L
    by (cases owner) (fastforce simp: pool_rel_def pool_give_def)+
qed

interpretation pl: total_allocator pool_rel "\<lambda>_. pool_alloc grant" pool_give for grant
proof
  fix s L p s' and w :: bool
  assume "pool_rel s L" and "pool_alloc grant s = Inr (p, s')"
  then show "p = Null \<and> pool_rel s' L \<or> p \<noteq> Null \<and> p \<notin> L \<and> pool_rel s' (insert p L)"
    using pool_alloc_law [of s L grant] by auto
next
  fix s L p s' and w
  assume "pool_rel s L" and "p \<in> L" and "pool_give w s p = Inr s'"
  then show "pool_rel s' (L - {p})" using pool_give_law [of s L p w] by auto
next
  fix s L and w :: bool
  assume "pool_rel s L"
  then show "\<exists>r. pool_alloc grant s = Inr r" using pool_alloc_law [of s L grant] by blast
next
  fix s L p w
  assume "pool_rel s L" and "p \<in> L"
  then show "\<exists>s'. pool_give w s p = Inr s'" using pool_give_law [of s L p w] by blast
qed

lemma ctor_inv_mem:
  assumes "64 * unat (max n (8 :: u64)) + 8 < 2 ^ 63" and "mem_ok m"
  shows "pool_inv m (Pool_ctor n) [] []"
proof -
  have "(8 :: u64) \<le> max n 8" by simp
  then have "unat (8 :: u64) \<le> unat (max n 8)" by (rule word_le_nat_alt [THEN iffD1])
  then show ?thesis using assms
    by (simp add: pool_inv_def Pool_ctor_def room_def blocks_ok_def free_ok_def)
qed

lemma ctor_inv:
  "64 * unat (max n (8 :: u64)) + 8 < 2 ^ 63 \<Longrightarrow> pool_inv empty_mem (Pool_ctor n) [] []"
  using ctor_inv_mem mem_ok_empty by blast

lemma ctor_rel:
  "64 * unat (max n (8 :: u64)) + 8 < 2 ^ 63 \<Longrightarrow> pool_rel (Pool_ctor n, empty_mem) {}"
  unfolding pool_rel_def
  by (rule exI [of _ "[]"], rule exI [of _ "[]"]) (simp add: ctor_inv live_def)

text \<open>A pool in use, for witnesses: chunks of eight bytes, one handed out.\<close>

lemma used_pool:
  "\<exists>P m. Malloc (\<lambda>_ _. True) (Pool_ctor 8) empty_mem = Inr (Ptr 0 8, P, m) \<and>
     pool_inv m P [(0, 64)] (map (chunk 0 8 8) [1..<63]) \<and> asize P = 8 \<and>
     Ptr 0 8 \<in> live P [(0, 64)] (map (chunk 0 8 8) [1..<63])"
proof -
  let ?P = "Pool_ctor 8"
  have s: "asize ?P = 8" "unat (next_size_m ?P) = 64" "nextb empty_mem = 0" "Empty ?P"
    by (simp_all add: Pool_ctor_def empty_mem_def Empty_def seg_empty_def)
  have "pool_inv empty_mem ?P [] []" by (rule ctor_inv) simp
  from resize_ok [OF this, of "\<lambda>_ _. True", OF _ _ refl refl refl refl refl] s
  obtain h m where r: "resize_and_malloc (\<lambda>_ _. True) ?P empty_mem =
       Inr (Ptr 0 8, ?P\<lparr>head_m := h, tail_m := chunk 0 8 8 63, first_m := Ptr 0 0,
            next_size_m := push_bit 1 (next_size_m ?P)\<rparr>, m)"
    and i: "pool_inv m (?P\<lparr>head_m := h, tail_m := chunk 0 8 8 63, first_m := Ptr 0 0,
            next_size_m := push_bit 1 (next_size_m ?P)\<rparr>) [(0, 64)] (map (chunk 0 8 8) [1..<63])"
    by (auto simp: address_space_def)
  let ?Q = "?P\<lparr>head_m := h, tail_m := chunk 0 8 8 63, first_m := Ptr 0 0,
            next_size_m := push_bit 1 (next_size_m ?P)\<rparr>"
  have p0: "Ptr 0 8 = chunk 0 8 8 0" by simp
  have "Ptr 0 8 \<in> live ?Q [(0, 64)] (map (chunk 0 8 8) [1..<63])"
    unfolding p0 live_def using s by (auto simp: chunks_Cons chunk_inj simp del: chunk_0)
  moreover have "Malloc (\<lambda>_ _. True) ?P empty_mem = Inr (Ptr 0 8, ?Q, m)"
    using r s by (simp add: Malloc_def)
  ultimately show ?thesis using i s(1) by (intro exI [of _ ?Q] exI [of _ m]) simp
qed

subsection \<open>Properties\<close>

lemma Malloc_new_block:
  assumes inv: "pool_inv m P hs []"
    and ok: "grant (nextb m) (unat (next_size_m P) * asize P + 8)"
    and fits: "unat (next_size_m P) * asize P + 8 < address_space"
  shows "\<exists>P' m' fl'. Malloc grant P m = Inr (Ptr (nextb m) 8, P', m') \<and>
     pool_inv m' P' ((nextb m, unat (next_size_m P)) # hs) fl' \<and>
     length fl' = unat (next_size_m P) - (if hs = [] then 2 else 1) \<and>
     next_size_m P' = 2 * next_size_m P"
proof -
  have e: "Empty P" using inv by (simp add: pool_inv_def free_ok_def Empty_def seg_empty_def)
  show ?thesis
    using resize_ok [OF inv, of grant, OF ok fits refl refl refl refl refl] e
    by (fastforce simp: Malloc_def push_bit_eq_mult mult.commute)
qed

lemma user_store_inv:
  assumes inv: "pool_inv m P hs fl" and c: "Ptr b i \<in> live P hs fl"
    and st: "store_cells m (Ptr b (i + d)) cs = Inr m'"
    and d: "0 \<le> d" "d + int (length cs) \<le> int (asize P)"
  shows "pool_inv m' P hs fl"
proof -
  have cc: "Ptr b i \<in> chunks (asize P) hs" "Ptr b i \<notin> set fl" using c by (auto simp: live_def)
  have co: "changed_only m m' b i (i + int (asize P))"
    using store_cells_changed [OF st] by (rule changed_only_mono) (use d in auto)
  have fo: "free_ok m P hs fl" using inv by (simp add: pool_inv_def)
  then have sub: "set fl \<subseteq> chunks (asize P) hs" using free_chunk by blast
  note fr = pool_frame_chunk [OF inv cc(1) co sub cc(2)]
  have "free_ok m' P hs fl" using fo fr(3) by (rule free_ok_frame)
  then show ?thesis using inv fr(1,2) by (simp add: pool_inv_def)
qed

text \<open>
  C22. \<open>Pool::Malloc\<close> is correct on every branch, and the branch is decided by the free list and the system
  alone.  It never faults.  If the list has a chunk, the first is returned and no memory is requested.  If
  the list is empty and the system grants \<open>next_size_ * alloc_size_ + 8\<close> bytes, the result is the
  first chunk of that new block, and \<open>next_size_\<close> doubles.  Only if the list is empty and
  the system refuses is the result null, and then nothing changes.  A chunk that is returned
  has \<open>alloc_size_\<close> accessible bytes and was held by no user; the chunks in use are those from before and
  this one; the invariant of the pool is kept, and no other block of memory changes.
\<close>

theorem Malloc_correct:
  assumes "pool_inv m P hs fl"
  shows "\<exists>p P' m' hs' fl'. Malloc grant P m = Inr (p, P', m') \<and> pool_inv m' P' hs' fl' \<and>
     keeps m m' {} \<and>
     (case fl of
        x # xs \<Rightarrow> p = x \<and> m' = m \<and> hs' = hs \<and> fl' = xs
      | [] \<Rightarrow>
          if granted grant P m
          then p = Ptr (nextb m) 8 \<and> hs' = (nextb m, unat (next_size_m P)) # hs \<and> next_size_m P' = 2 * next_size_m P
          else p = Null \<and> P' = P \<and> m' = m \<and> hs' = hs \<and> fl' = fl) \<and>
     (p = Null \<or>
      p \<notin> live P hs fl \<and> live P' hs' fl' = insert p (live P hs fl) \<and>
      (\<exists>b i. p = Ptr b i \<and> valid m' b i (asize P)))"
proof -
  obtain p P' m' hs' fl' where run: "Malloc grant P m = Inr (p, P', m')"
    and i: "pool_inv m' P' hs' fl'" and k: "keeps m m' {}"
    and c: "fl = [] \<and> \<not> granted grant P m \<and> p = Null \<and> P' = P \<and> m' = m \<and> hs' = hs \<and> fl' = fl \<or>
      (fl = p # fl' \<and> m' = m \<and> hs' = hs \<or>
       fl = [] \<and> granted grant P m \<and> p = Ptr (nextb m) 8 \<and> hs' = (nextb m, unat (next_size_m P)) # hs \<and>
         next_size_m P' = 2 * next_size_m P) \<and>
      p \<notin> live P hs fl \<and> p \<in> chunks (asize P') hs' \<and> asize P' = asize P \<and>
      live P' hs' fl' = insert p (live P hs fl)"
    using Malloc_branches [OF assms, of grant] by blast
  have "\<exists>b j. p = Ptr b j \<and> valid m' b j (asize P')" if "p \<in> chunks (asize P') hs'"
    using that chunks_Ptr [OF that] chunks_valid [of m' P' hs'] i by (auto simp: pool_inv_def)
  then have "p = Null \<or> p \<notin> live P hs fl \<and> live P' hs' fl' = insert p (live P hs fl) \<and>
      (\<exists>b i. p = Ptr b i \<and> valid m' b i (asize P))" using c by metis
  moreover have "case fl of x # xs \<Rightarrow> p = x \<and> m' = m \<and> hs' = hs \<and> fl' = xs
      | [] \<Rightarrow> if granted grant P m
          then p = Ptr (nextb m) 8 \<and> hs' = (nextb m, unat (next_size_m P)) # hs \<and> next_size_m P' = 2 * next_size_m P
          else p = Null \<and> P' = P \<and> m' = m \<and> hs' = hs \<and> fl' = fl"
    using c by (elim disjE conjE) simp_all
  ultimately show ?thesis using run i k by blast
qed

text \<open>All three branches: a new pool without and with memory, and a pool in use.\<close>

theorem Malloc_correct_witness:
  "\<exists>P m P' m'. Malloc (\<lambda>_ _. False) (Pool_ctor 8) empty_mem = Inr (Null, Pool_ctor 8, empty_mem) \<and>
     Malloc (\<lambda>_ _. True) (Pool_ctor 8) empty_mem = Inr (Ptr 0 8, P, m) \<and>
     Malloc (\<lambda>_ _. False) P m = Inr (Ptr 0 16, P', m') \<and> m' = m"
proof -
  have i: "pool_inv empty_mem (Pool_ctor 8) [] []" by (rule ctor_inv) simp
  have a: "Malloc (\<lambda>_ _. False) (Pool_ctor 8) empty_mem = Inr (Null, Pool_ctor 8, empty_mem)"
    using Malloc_correct [OF i, of "\<lambda>_ _. False"] by (auto simp: granted_def)
  obtain P m where u: "Malloc (\<lambda>_ _. True) (Pool_ctor 8) empty_mem = Inr (Ptr 0 8, P, m)"
    "pool_inv m P [(0, 64)] (map (chunk 0 8 8) [1..<63])" using used_pool by blast
  have l: "map (chunk 0 8 8) [1..<63] = Ptr 0 16 # map (chunk 0 8 8) [Suc 1..<63]"
    by (subst upt_conv_Cons) (simp_all add: chunk_def)
  from Malloc_correct [OF u(2), of "\<lambda>_ _. False"] obtain P' m' where
    "Malloc (\<lambda>_ _. False) P m = Inr (Ptr 0 16, P', m')" "m' = m" unfolding l by auto
  then show ?thesis using a u(1) by blast
qed

text \<open>
  Storing anything inside a chunk that a user holds (from its first byte to
  \<open>alloc_size_\<close>) cannot damage the pool: the list of free chunks and the list of blocks,
  both kept inside the same memory, are untouched.
\<close>

theorem user_store_safe:
  assumes "pool_inv m P hs fl" and "Ptr b i \<in> live P hs fl"
    and "0 \<le> d" and "d + int (length cs) \<le> int (asize P)"
  shows "\<exists>m'. store_cells m (Ptr b (i + d)) cs = Inr m' \<and> pool_inv m' P hs fl"
proof -
  have "valid m b i (asize P)"
    using assms(1,2) by (auto simp: pool_inv_def live_def intro: chunks_valid)
  then have "valid m b (i + d) (length cs)" using assms(3,4) by (rule valid_mono)
  then obtain m' where "store_cells m (Ptr b (i + d)) cs = Inr m'" using store_cells_ok by blast
  then show ?thesis using user_store_inv [OF assms(1,2) _ assms(3,4)] by blast
qed

theorem user_store_safe_witness:
  "\<exists>P m m'. store_cells m (Ptr 0 (8 + 3)) [Byte 7, Byte 9] = Inr m' \<and>
     pool_inv m' P [(0, 64)] (map (chunk 0 8 8) [1..<63])"
proof -
  obtain P m where u: "pool_inv m P [(0, 64)] (map (chunk 0 8 8) [1..<63])" "asize P = 8"
    "Ptr 0 8 \<in> live P [(0, 64)] (map (chunk 0 8 8) [1..<63])" using used_pool by blast
  have "\<exists>m'. store_cells m (Ptr 0 (8 + 3)) [Byte 7, Byte 9] = Inr m' \<and>
     pool_inv m' P [(0, 64)] (map (chunk 0 8 8) [1..<63])"
    by (rule user_store_safe [OF u(1,3)]) (simp_all add: u(2))
  then show ?thesis by blast
qed

text \<open>
  \<open>Pool::Free\<close> and \<open>Pool::Malloc\<close> are inverse: giving a held chunk back never faults,
  and the next \<open>Malloc\<close> returns exactly that chunk, with the same lists of blocks and of free
  chunks as before.
\<close>

theorem Malloc_after_Free:
  assumes "pool_inv m P hs fl" and "c \<in> live P hs fl"
  shows "\<exists>P1 m1 P2. Free P c m = Inr (P1, m1) \<and> live P1 hs (c # fl) = live P hs fl - {c} \<and>
     Malloc grant P1 m1 = Inr (c, P2, m1) \<and> pool_inv m1 P2 hs fl"
proof -
  obtain m1 where f: "Free P c m = Inr (P\<lparr>head_m := c\<rparr>, m1)"
    and i: "pool_inv m1 (P\<lparr>head_m := c\<rparr>) hs (c # fl)" using Free_ok [OF assms] by blast
  then show ?thesis using Malloc_from_list [OF i, of grant] live_Free [OF assms(2)] by blast
qed

theorem Malloc_after_Free_witness:
  "\<exists>P m P1 m1. Ptr 0 8 \<in> live P [(0, 64)] (map (chunk 0 8 8) [1..<63]) \<and>
     Free P (Ptr 0 8) m = Inr (P1, m1)"
  using used_pool Malloc_after_Free by meson

text \<open>
  \<open>Pool::FreeAppend\<close>, the way chunks come back from other threads, puts the chunk behind
  \<open>tail_\<close>: the list of free chunks grows at its end by the old tail, the new tail is the
  chunk, and the chunk is no longer in use.
\<close>

theorem FreeAppend_correct:
  assumes "pool_inv m P hs fl" and "c \<in> live P hs fl"
  shows "\<exists>P' m'. FreeAppend P c m = Inr (P', m') \<and> tail_m P' = c \<and>
     pool_inv m' P' hs (fl @ [tail_m P]) \<and>
     live P' hs (fl @ [tail_m P]) = live P hs fl - {c} \<and> keeps m m' (fst ` set hs)"
  using FreeAppend_ok [OF assms] live_FreeAppend [OF assms(2)] by fastforce

theorem FreeAppend_correct_witness:
  "\<exists>P m P' m'. Ptr 0 8 \<in> live P [(0, 64)] (map (chunk 0 8 8) [1..<63]) \<and>
     FreeAppend P (Ptr 0 8) m = Inr (P', m')"
  using used_pool FreeAppend_correct by meson

text \<open>
  C1. Whatever a program does with a new pool, it never gets a chunk it already holds: for any
  sequence of \<open>Malloc\<close> calls and of returns of held chunks, each through \<open>Free\<close> or through
  \<open>FreeAppend\<close>, and any behaviour of the system's \<open>malloc\<close>, every call returns without a
  fault and the pointers held are all different.
\<close>

theorem pool_program_safe:
  assumes "64 * unat (max n (8 :: u64)) + 8 < 2 ^ 63"
  shows "\<exists>s held. run_client (\<lambda>_. pool_alloc grant) pool_give (Pool_ctor n, empty_mem) [] rs =
       Inr (s, held) \<and> pool_rel s (set held) \<and> distinct held"
  using pl.client_total [of "(Pool_ctor n, empty_mem)" "[]" grant rs] ctor_rel [OF assms] by simp

theorem pool_program_safe_witness:
  "\<exists>s held. run_client (\<lambda>_. pool_alloc (\<lambda>_ _. True)) pool_give (Pool_ctor 24, empty_mem) []
     [(True, Get), (True, Get), (False, Put 1), (True, Get)] = Inr (s, held) \<and> distinct held"
  using pool_program_safe [of 24 "\<lambda>_ _. True"
      "[(True, Get), (True, Get), (False, Put 1), (True, Get)]"] by auto

text \<open>
  Growth: when the list is empty and the system grants the request, \<open>Malloc\<close> adds one block
  of exactly \<open>next_size_\<close> chunks, all of them free but the one returned, and doubles
  \<open>next_size_\<close>.
\<close>

theorem Malloc_grows:
  assumes inv: "pool_inv m P hs []"
    and ok: "grant (nextb m) (unat (next_size_m P) * asize P + 8)"
    and fits: "unat (next_size_m P) * asize P + 8 < address_space"
  shows "\<exists>P' m' fl'. Malloc grant P m = Inr (Ptr (nextb m) 8, P', m') \<and>
     pool_inv m' P' ((nextb m, unat (next_size_m P)) # hs) fl' \<and>
     length fl' = unat (next_size_m P) - (if hs = [] then 2 else 1) \<and>
     next_size_m P' = 2 * next_size_m P"
  using Malloc_new_block [where grant = grant, OF assms] .

theorem Malloc_grows_witness:
  "\<exists>P' m' fl'. Malloc (\<lambda>_ _. True) (Pool_ctor 8) empty_mem = Inr (Ptr 0 8, P', m') \<and>
     pool_inv m' P' [(0, 64)] fl' \<and> length fl' = 62 \<and> next_size_m P' = 128"
proof -
  have s: "asize (Pool_ctor 8) = 8" "next_size_m (Pool_ctor 8) = 64" "nextb empty_mem = 0"
    by (simp_all add: Pool_ctor_def empty_mem_def)
  have "pool_inv empty_mem (Pool_ctor 8) [] []" by (rule ctor_inv) simp
  from Malloc_grows [OF this, of "\<lambda>_ _. True"] show ?thesis by (simp add: s address_space_def)
qed

text \<open>
  \<open>PurgeMemory\<close> returns, and gives every block of the pool, and nothing else, back to the
  system.
\<close>

theorem PurgeMemory_frees_all:
  assumes "pool_inv m P hs fl"
  shows "\<exists>P' m'. PurgeMemory P m = Inr (True, P', m') \<and> first_m P' = Null \<and>
     (\<forall>b. blocks m' b = (if b \<in> fst ` set hs then None else blocks m b))"
  using PurgeMemory_ok [OF assms] by fastforce

theorem PurgeMemory_frees_all_witness:
  "\<exists>P m P' m'. PurgeMemory P m = Inr (True, P', m') \<and> blocks m 0 \<noteq> None \<and> blocks m' 0 = None"
proof -
  obtain P m where u: "pool_inv m P [(0, 64)] (map (chunk 0 8 8) [1..<63])" using used_pool by blast
  then have "blocks m 0 \<noteq> None" by (simp add: pool_inv_def blocks_ok_def)
  then show ?thesis using PurgeMemory_frees_all [OF u] by fastforce
qed

text \<open>
  A pool that has served a request cannot be used after \<open>PurgeMemory\<close>: \<open>head_\<close> is reset but
  \<open>tail_\<close> is not, so the pool does not count as empty and the next \<open>Malloc\<close> reads through
  the null \<open>head_\<close>.
\<close>

theorem Malloc_after_PurgeMemory:
  assumes "pool_inv m P hs fl" and "hs \<noteq> []"
  shows "\<exists>P' m'. PurgeMemory P m = Inr (True, P', m') \<and> Malloc grant P' m' = Inl NullDeref"
proof -
  have "tail_m P \<noteq> Null" using inv_tail_Null [OF assms(1)] assms(2) by simp
  then show ?thesis using PurgeMemory_ok [OF assms(1)]
    by (fastforce simp: Malloc_def Empty_def seg_empty_def seg_malloc_def next_of_def load_ptr_Null)
qed

theorem Malloc_after_PurgeMemory_witness:
  "\<exists>P m P' m'. PurgeMemory P m = Inr (True, P', m') \<and>
     Malloc (\<lambda>_ _. True) P' m' = Inl NullDeref"
  using used_pool Malloc_after_PurgeMemory by (metis list.distinct(1))

text \<open>
  A chunk is no block of the system's allocator: handing any chunk of the pool to
  \<open>::free\<close> (what \<open>delete\<close> does) is a fault, whatever the state of the memory.
\<close>

lemma chunk_not_deletable:
  assumes "c \<in> chunks (asize P) hs"
  shows "sys_free m c = Inl BadFree"
proof -
  obtain b i where c: "c = Ptr b i" using chunks_Ptr [OF assms] by blast
  then have "8 \<le> i" using assms chunks_block [of b i] by metis
  then show ?thesis by (simp add: c)
qed

end
