(* ===== verification/ObjectPool.thy ===== *)
theory ObjectPool
  imports PoolSpec
begin

section \<open>The per-thread object pool (memory_pool/include/object_pool.hpp)\<close>

text \<open>
  One instantiation \<open>ObjectPool<T, RequestedSize>\<close>.  Every thread that uses it gets a pool of
  its own (\<open>object_pool_\<close>, created on first use) and a number (\<open>thread_id_\<close>, counted from 1);
  \<open>object_pool_array_\<close> finds the pool of a number.  Behind the \<open>RequestedSize\<close> bytes of a
  chunk two more hold the number of the thread that allocated it, so that \<open>free\<close> can give a
  chunk back to the pool it came from: at the head if the calling thread owns that pool,
  behind the tail (under \<open>lock_tail_\<close>) otherwise.

  The state collects the static members, the \<open>thread_local\<close> ones as functions of the thread,
  and the pool objects.  Each object is made together with a new number and is named by it.
  One call is one step here; theory \<open>PoolRace\<close> cuts the calls that meet in one pool object.
\<close>

record opool =
  omem :: mem
  objs :: "nat \<Rightarrow> pool option"               \<comment> \<open>the pool objects that exist\<close>
  object_pool_m :: "nat \<Rightarrow> nat option"       \<comment> \<open>thread-local pointer to its pool object\<close>
  thread_id_m :: "nat \<Rightarrow> u16"                \<comment> \<open>thread-local\<close>
  ref_count_m :: "nat \<Rightarrow> int"                \<comment> \<open>thread-local\<close>
  thread_id_counter :: u32
  object_pool_array_m :: "nat option list"

definition max_thread_num :: nat where
  "max_thread_num = 64"

definition opool_init :: "mem \<Rightarrow> opool" where
  "opool_init m = \<lparr>omem = m, objs = (\<lambda>_. None), object_pool_m = (\<lambda>_. None),
     thread_id_m = (\<lambda>_. 0), ref_count_m = (\<lambda>_. 0), thread_id_counter = 0,
     object_pool_array_m = replicate (max_thread_num + 1) None\<rparr>"

text \<open>Indexing \<open>object_pool_array_\<close> with a \<open>short\<close>.\<close>

definition array_index :: "opool \<Rightarrow> u16 \<Rightarrow> nat res" where
  "array_index S i =
     (if 0 \<le> sint i \<and> sint i < int (length (object_pool_array_m S)) then Inr (nat (sint i))
      else Inl BadAccess)"

text \<open>
  \<open>object_pool()\<close>: the calling thread's pool, created on first use.  Its \<open>_aligned_malloc\<close> is taken to be
  granted: the code constructs the pool in the result without a test, so null would be undefined behaviour.
\<close>

definition object_pool :: "nat \<Rightarrow> nat \<Rightarrow> opool \<Rightarrow> (nat \<times> opool) res" where
  "object_pool RequestedSize t S =
     (case object_pool_m S t of
        Some h \<Rightarrow> Inr (h, S)
      | None \<Rightarrow>
          let c = thread_id_counter S + 1;
              h = unat c;
              S1 = S\<lparr>ref_count_m := (ref_count_m S)(t := ref_count_m S t + 1),
                     object_pool_m := (object_pool_m S)(t \<mapsto> h),
                     objs := (objs S)(h \<mapsto> Pool_ctor (of_nat (RequestedSize + 2))),
                     thread_id_counter := c,
                     thread_id_m := (thread_id_m S)(t := ucast c)\<rparr>
          in rbind (array_index S1 (thread_id_m S1 t)) (\<lambda>i.
             Inr (h, S1\<lparr>object_pool_array_m := (object_pool_array_m S1)[i := Some h]\<rparr>)))"

text \<open>A member call on a pool object: the object must exist.\<close>

definition the_obj :: "opool \<Rightarrow> nat \<Rightarrow> pool res" where
  "the_obj S h = (case objs S h of None \<Rightarrow> Inl BadAccess | Some P \<Rightarrow> Inr P)"

definition set_obj :: "opool \<Rightarrow> nat \<Rightarrow> pool \<Rightarrow> mem \<Rightarrow> opool" where
  "set_obj S h P m = S\<lparr>objs := (objs S)(h \<mapsto> P), omem := m\<rparr>"

definition obj_malloc ::
  "(nat \<Rightarrow> nat \<Rightarrow> bool) \<Rightarrow> nat \<Rightarrow> nat \<Rightarrow> nat \<Rightarrow> opool \<Rightarrow> (ptr \<times> opool) res" where
  "obj_malloc grant RequestedSize t h S =
     rbind (the_obj S h) (\<lambda>P.
     rbind (Malloc grant P (omem S)) (\<lambda>(ret, P', m').
     rbind (store_short m' (padd ret (int RequestedSize)) (thread_id_m S t)) (\<lambda>m''.
     Inr (ret, set_obj S h P' m''))))"

definition obj_free :: "nat \<Rightarrow> nat \<Rightarrow> nat \<Rightarrow> ptr \<Rightarrow> opool \<Rightarrow> opool res" where
  "obj_free RequestedSize t h c S =
     rbind (load_short (omem S) (padd c (int RequestedSize))) (\<lambda>thread_id.
     if thread_id = thread_id_m S t
     then rbind (the_obj S h) (\<lambda>P.
          rbind (Free P c (omem S)) (\<lambda>(P', m'). Inr (set_obj S h P' m')))
     else rbind (array_index S thread_id) (\<lambda>i.
          case object_pool_array_m S ! i of
            None \<Rightarrow> Inl NullDeref
          | Some h' \<Rightarrow>
              rbind (the_obj S h') (\<lambda>P.
              rbind (FreeAppend P c (omem S)) (\<lambda>(P', m'). Inr (set_obj S h' P' m')))))"

subsection \<open>The public members\<close>

definition ObjectPool_Malloc ::
  "(nat \<Rightarrow> nat \<Rightarrow> bool) \<Rightarrow> nat \<Rightarrow> nat \<Rightarrow> opool \<Rightarrow> (ptr \<times> opool) res" where
  "ObjectPool_Malloc grant RequestedSize t S =
     rbind (object_pool RequestedSize t S) (\<lambda>(h, S1). obj_malloc grant RequestedSize t h S1)"

definition ObjectPool_Free :: "nat \<Rightarrow> nat \<Rightarrow> opool \<Rightarrow> ptr \<Rightarrow> opool res" where
  "ObjectPool_Free RequestedSize t S c =
     rbind (object_pool RequestedSize t S) (\<lambda>(h, S1). obj_free RequestedSize t h c S1)"

text \<open>
  \<open>Construct\<close>: the object's constructor writes \<open>bytes\<close> at the start of the chunk, or throws
  (\<open>None\<close>); then the chunk is given back and the result is null.
\<close>

definition Construct ::
  "(nat \<Rightarrow> nat \<Rightarrow> bool) \<Rightarrow> nat \<Rightarrow> nat \<Rightarrow> byte list option \<Rightarrow> opool \<Rightarrow> (ptr \<times> opool) res" where
  "Construct grant RequestedSize t ctor S =
     rbind (ObjectPool_Malloc grant RequestedSize t S) (\<lambda>(ret, S1).
     case ctor of
       Some bytes \<Rightarrow>
         rbind (store_cells (omem S1) ret (map Byte bytes)) (\<lambda>m. Inr (ret, S1\<lparr>omem := m\<rparr>))
     | None \<Rightarrow> rbind (ObjectPool_Free RequestedSize t S1 ret) (\<lambda>S2. Inr (Null, S2)))"

text \<open>\<open>Destroy\<close>: the destructor of \<open>T\<close>, a parameter like \<open>T\<close> itself, runs on the object, then the chunk goes back.\<close>

definition Destroy :: "(ptr \<Rightarrow> mem \<Rightarrow> mem res) \<Rightarrow> nat \<Rightarrow> nat \<Rightarrow> opool \<Rightarrow> ptr \<Rightarrow> opool res" where
  "Destroy dtor RequestedSize t S c =
     rbind (dtor c (omem S)) (\<lambda>m. ObjectPool_Free RequestedSize t (S\<lparr>omem := m\<rparr>) c)"

text \<open>
  \<open>Preallocate n\<close>: take \<open>n\<close> chunks, give back those that are not null.  The array that holds
  them comes from \<open>::malloc\<close>; it is not checked and never freed.
\<close>

fun take_n ::
  "(nat \<Rightarrow> nat \<Rightarrow> bool) \<Rightarrow> nat \<Rightarrow> nat \<Rightarrow> nat \<Rightarrow> opool \<Rightarrow> (ptr list \<times> opool) res" where
  "take_n grant RequestedSize t 0 S = Inr ([], S)"
| "take_n grant RequestedSize t (Suc n) S =
     rbind (ObjectPool_Malloc grant RequestedSize t S) (\<lambda>(p, S1).
     rbind (take_n grant RequestedSize t n S1) (\<lambda>(ps, S2). Inr (p # ps, S2)))"

fun give_back :: "nat \<Rightarrow> nat \<Rightarrow> bool \<Rightarrow> ptr list \<Rightarrow> opool \<Rightarrow> (bool \<times> opool) res" where
  "give_back RequestedSize t ret [] S = Inr (ret, S)"
| "give_back RequestedSize t ret (p # ps) S =
     (if p \<noteq> Null
      then rbind (ObjectPool_Free RequestedSize t S p) (\<lambda>S1.
           give_back RequestedSize t (ret \<and> True) ps S1)
      else give_back RequestedSize t (ret \<and> False) ps S)"

definition Preallocate ::
  "(nat \<Rightarrow> nat \<Rightarrow> bool) \<Rightarrow> nat \<Rightarrow> nat \<Rightarrow> nat \<Rightarrow> opool \<Rightarrow> (bool \<times> opool) res" where
  "Preallocate grant RequestedSize t n S =
     (let (arr, m1) = sys_malloc grant (8 * n) (omem S); S1 = S\<lparr>omem := m1\<rparr>
      in if arr = Null \<and> 0 < n then Inl NullDeref
         else rbind (take_n grant RequestedSize t n S1) (\<lambda>(ps, S2).
              give_back RequestedSize t True ps S2))"

definition obj_purge :: "nat \<Rightarrow> opool \<Rightarrow> (bool \<times> opool) res" where
  "obj_purge h S =
     rbind (the_obj S h) (\<lambda>P.
     rbind (PurgeMemory P (omem S)) (\<lambda>(r, P', m'). Inr (r, set_obj S h P' m')))"

definition ObjectPool_PurgeMemory :: "nat \<Rightarrow> nat \<Rightarrow> opool \<Rightarrow> (bool \<times> opool) res" where
  "ObjectPool_PurgeMemory RequestedSize t S =
     rbind (object_pool RequestedSize t S) (\<lambda>(h, S1). obj_purge h S1)"

text \<open>The destructor, run by thread \<open>t\<close>: it frees the pool object but keeps the pointers to it.\<close>

definition ObjectPool_dtor :: "nat \<Rightarrow> opool \<Rightarrow> opool" where
  "ObjectPool_dtor t S =
     (case object_pool_m S t of
        None \<Rightarrow> S
      | Some h \<Rightarrow>
          let S1 = S\<lparr>ref_count_m := (ref_count_m S)(t := ref_count_m S t - 1)\<rparr>
          in if ref_count_m S1 t = 0 then S1\<lparr>objs := (objs S1)(h := None)\<rparr> else S1)"

subsection \<open>The invariant\<close>

text \<open>
  \<open>G h\<close> gives the lists of blocks and of free chunks of pool object \<open>h\<close>.  Every numbered
  object exists, is where the array says, and satisfies the invariant of pools; blocks are
  not shared; the chunks in use carry the number of their pool.
\<close>

type_synonym ghost = "nat \<Rightarrow> (nat \<times> nat) list \<times> ptr list"

abbreviation nobjs :: "opool \<Rightarrow> nat" where
  "nobjs S \<equiv> unat (thread_id_counter S)"

definition obj_live :: "opool \<Rightarrow> ghost \<Rightarrow> nat \<Rightarrow> ptr set" where
  "obj_live S G h = (case objs S h of None \<Rightarrow> {} | Some P \<Rightarrow> live P (fst (G h)) (snd (G h)))"

definition threads_ok :: "opool \<Rightarrow> bool" where
  "threads_ok S \<longleftrightarrow> length (object_pool_array_m S) = 65 \<and> nobjs S \<le> 64 \<and>
     (\<forall>t h. object_pool_m S t = Some h \<longrightarrow> 1 \<le> h \<and> h \<le> nobjs S \<and> thread_id_m S t = of_nat h) \<and>
     (\<forall>t u h. object_pool_m S t = Some h \<longrightarrow> object_pool_m S u = Some h \<longrightarrow> t = u) \<and>
     (\<forall>h. 1 \<le> h \<longrightarrow> h \<le> nobjs S \<longrightarrow> object_pool_array_m S ! h = Some h) \<and>
     (\<forall>h. objs S h \<noteq> None \<longleftrightarrow> 1 \<le> h \<and> h \<le> nobjs S)"

definition pools_ok :: "nat \<Rightarrow> opool \<Rightarrow> ghost \<Rightarrow> bool" where
  "pools_ok RS S G \<longleftrightarrow> mem_ok (omem S) \<and>
     (\<forall>h P. objs S h = Some P \<longrightarrow>
        pool_inv (omem S) P (fst (G h)) (snd (G h)) \<and> asize P = max (RS + 2) 8) \<and>
     (\<forall>h h' P P'. objs S h = Some P \<longrightarrow> objs S h' = Some P' \<longrightarrow> h \<noteq> h' \<longrightarrow>
        fst ` set (fst (G h)) \<inter> fst ` set (fst (G h')) = {})"

definition tags_ok :: "nat \<Rightarrow> opool \<Rightarrow> ghost \<Rightarrow> bool" where
  "tags_ok RS S G \<longleftrightarrow>
     (\<forall>h. \<forall>c\<in>obj_live S G h. load_short (omem S) (padd c (int RS)) = Inr (of_nat h))"

definition opool_inv :: "nat \<Rightarrow> opool \<Rightarrow> ghost \<Rightarrow> bool" where
  "opool_inv RS S G \<longleftrightarrow> threads_ok S \<and> pools_ok RS S G \<and> tags_ok RS S G"

definition all_live :: "opool \<Rightarrow> ghost \<Rightarrow> ptr set" where
  "all_live S G = (\<Union>h. obj_live S G h)"

subsection \<open>Small numbers as \<open>short\<close>\<close>

lemma sint_of_nat_u16: "h < 2 ^ 15 \<Longrightarrow> sint (of_nat h :: u16) = int h"
  by (simp add: signed_of_nat signed_take_bit_int_eq_self)

lemma of_nat_u16_inj: "h < 2 ^ 15 \<Longrightarrow> h' < 2 ^ 15 \<Longrightarrow> (of_nat h :: u16) = of_nat h' \<longleftrightarrow> h = h'"
  by (metis of_nat_eq_iff sint_of_nat_u16)

lemma ucast_small: "(ucast (c :: u32) :: u16) = of_nat (unat c)"
  by (metis of_nat_unat)

subsection \<open>Frame lemmas\<close>

lemma keeps_load_short:
  "keeps m m' B \<Longrightarrow> b < nextb m \<Longrightarrow> b \<notin> B \<Longrightarrow> load_short m' (Ptr b i) = load_short m (Ptr b i)"
  unfolding load_short_def by (subst load_cells_frame) (auto simp: keeps_def)

lemma pool_inv_keeps:
  assumes inv: "pool_inv m P hs fl" and k: "keeps m m' B" and d: "fst ` set hs \<inter> B = {}" and ok: "mem_ok m'"
  shows "pool_inv m' P hs fl"
proof -
  have old: "b < nextb m \<and> b \<notin> B" if "b \<in> fst ` set hs" for b
    using inv_blocks [OF inv that] d that by blast
  have bo: "blocks_ok m P hs" and fo: "free_ok m P hs fl" using inv by (simp_all add: pool_inv_def)
  have "blocks_ok m' P hs"
  proof (rule blocks_ok_frame [OF bo])
    fix b assume "b \<in> fst ` set hs"
    then show "blocks m' b = blocks m b" "load_ptr m' (Ptr b 0) = load_ptr m (Ptr b 0)"
      using old k keeps_load_ptr [OF k] by (simp_all add: keeps_def)
  qed
  moreover have "free_ok m' P hs fl"
  proof (rule free_ok_frame [OF fo])
    fix x assume "x \<in> set fl"
    then have c: "x \<in> chunks (asize P) hs" by (rule free_chunk [OF fo])
    then obtain b i where x: "x = Ptr b i" using chunks_Ptr by blast
    with c have "b \<in> fst ` set hs" using chunks_block by blast
    then show "load_ptr m' x = load_ptr m x" using old keeps_load_ptr [OF k] by (simp add: x)
  qed
  ultimately show ?thesis using inv ok by (simp add: pool_inv_def)
qed

lemma live_block: "Ptr b i \<in> live P hs fl \<Longrightarrow> b \<in> fst ` set hs"
  using chunks_block by (auto simp: live_def)

lemma live_Ptr: "c \<in> live P hs fl \<Longrightarrow> \<exists>b i. c = Ptr b i"
  using chunks_Ptr by (auto simp: live_def)

lemma obj_live_disjoint:
  assumes "pools_ok RS S G" and "h \<noteq> h'" and "c \<in> obj_live S G h"
  shows "c \<notin> obj_live S G h'"
proof
  assume c': "c \<in> obj_live S G h'"
  obtain P P' where P: "objs S h = Some P" "objs S h' = Some P'"
    using assms(3) c' by (auto simp: obj_live_def split: option.splits)
  then have l: "c \<in> live P (fst (G h)) (snd (G h))" "c \<in> live P' (fst (G h')) (snd (G h'))"
    using assms(3) c' by (simp_all add: obj_live_def)
  obtain b i where "c = Ptr b i" using live_Ptr [OF l(1)] by blast
  then have "b \<in> fst ` set (fst (G h)) \<inter> fst ` set (fst (G h'))" using l live_block by blast
  then show False using assms(1,2) P unfolding pools_ok_def by blast
qed

text \<open>One pool object is replaced and the memory changes in its own blocks only.\<close>

lemma set_obj_inv:
  assumes inv: "opool_inv RS S G" and P: "objs S h = Some P"
    and i': "pool_inv m' P' hs' fl'" and a: "asize P' = asize P"
    and k: "keeps (omem S) m' (fst ` set (fst (G h)))"
    and hs': "fst ` set hs' \<subseteq> insert (nextb (omem S)) (fst ` set (fst (G h)))"
    and tg: "\<forall>c\<in>live P' hs' fl'. load_short m' (padd c (int RS)) = Inr (of_nat h)"
  shows "opool_inv RS (set_obj S h P' m') (G(h := (hs', fl')))"
proof -
  let ?S = "set_obj S h P' m'" and ?G = "G(h := (hs', fl'))"
  have po: "pools_ok RS S G" and to: "tags_ok RS S G" and th: "threads_ok S"
    using inv by (simp_all add: opool_inv_def)
  have mo: "mem_ok m'" using i' by (simp add: pool_inv_def)
  have other: "fst ` set (fst (G g)) \<inter> fst ` set (fst (G h)) = {}"
    "pool_inv (omem S) Q (fst (G g)) (snd (G g))" if "objs S g = Some Q" "g \<noteq> h" for g Q
    using po P that unfolding pools_ok_def by blast+
  have old: "b < nextb (omem S) \<and> b \<notin> fst ` set (fst (G h))"
    if "objs S g = Some Q" "g \<noteq> h" "b \<in> fst ` set (fst (G g))" for g Q b
  proof -
    have "b < nextb (omem S)" by (rule inv_blocks [OF other(2) [OF that(1,2)] that(3)])
    moreover have "b \<notin> fst ` set (fst (G h))" using other(1) [OF that(1,2)] that(3) by (meson disjoint_iff)
    ultimately show ?thesis by simp
  qed
  have "threads_ok ?S" using th P by (auto simp: threads_ok_def set_obj_def)
  moreover have "pools_ok RS ?S ?G"
    unfolding pools_ok_def
  proof (intro conjI allI impI)
    show "mem_ok (omem ?S)" using mo by (simp add: set_obj_def)
    fix g Q assume Q: "objs ?S g = Some Q"
    show "pool_inv (omem ?S) Q (fst (?G g)) (snd (?G g))"
    proof (cases "g = h")
      case True
      then show ?thesis using Q i' by (simp add: set_obj_def)
    next
      case False
      with Q have "objs S g = Some Q" by (simp add: set_obj_def)
      from pool_inv_keeps [OF other(2) [OF this False] k other(1) [OF this False] mo]
      show ?thesis using False by (simp add: set_obj_def)
    qed
    show "asize Q = max (RS + 2) 8"
      using Q a po P by (cases "g = h") (auto simp: set_obj_def pools_ok_def)
    fix g' Q' assume Q': "objs ?S g' = Some Q'" and "g \<noteq> g'"
    have new: "fst ` set hs' \<inter> fst ` set (fst (G f)) = {}" if "objs S f = Some R" "f \<noteq> h" for f R
    proof (rule ccontr)
      assume "fst ` set hs' \<inter> fst ` set (fst (G f)) \<noteq> {}"
      then obtain b where b: "b \<in> fst ` set hs'" "b \<in> fst ` set (fst (G f))" by (meson disjoint_iff)
      then show False using old [OF that b(2)] subsetD [OF hs' b(1)] by auto
    qed
    consider "g = h" "g' \<noteq> h" | "g \<noteq> h" "g' = h" | "g \<noteq> h" "g' \<noteq> h" using \<open>g \<noteq> g'\<close> by blast
    then show "fst ` set (fst (?G g)) \<inter> fst ` set (fst (?G g')) = {}"
    proof cases
      case 1
      with Q' have "objs S g' = Some Q'" by (simp add: set_obj_def)
      from new [OF this 1(2)] show ?thesis using 1 by simp
    next
      case 2
      with Q have "objs S g = Some Q" by (simp add: set_obj_def)
      from new [OF this 2(1)] show ?thesis using 2 by (simp add: Int_commute)
    next
      case 3
      with Q Q' have "objs S g = Some Q" "objs S g' = Some Q'" by (simp_all add: set_obj_def)
      then have "fst ` set (fst (G g)) \<inter> fst ` set (fst (G g')) = {}"
        using po \<open>g \<noteq> g'\<close> unfolding pools_ok_def by blast
      then show ?thesis using 3 by simp
    qed
  qed
  moreover have "tags_ok RS ?S ?G"
    unfolding tags_ok_def
  proof (intro allI ballI)
    fix g c assume c: "c \<in> obj_live ?S ?G g"
    show "load_short (omem ?S) (padd c (int RS)) = Inr (of_nat g)"
    proof (cases "g = h")
      case True
      then show ?thesis using c tg by (simp add: obj_live_def set_obj_def)
    next
      case False
      then obtain Q where Q: "objs S g = Some Q" and cl: "c \<in> live Q (fst (G g)) (snd (G g))"
        using c by (auto simp: obj_live_def set_obj_def split: option.splits)
      obtain b i where cp: "c = Ptr b i" using live_Ptr [OF cl] by blast
      with cl have b: "b \<in> fst ` set (fst (G g))" using live_block by blast
      have "load_short m' (Ptr b (i + int RS)) = load_short (omem S) (Ptr b (i + int RS))"
        using keeps_load_short [OF k] old [OF Q False b] by simp
      moreover have "load_short (omem S) (padd c (int RS)) = Inr (of_nat g)"
        using to Q cl by (auto simp: tags_ok_def obj_live_def)
      ultimately show ?thesis by (simp add: cp set_obj_def)
    qed
  qed
  ultimately show ?thesis by (simp add: opool_inv_def)
qed

lemma all_live_set_obj:
  "all_live (set_obj S h P' m') (G(h := (hs', fl'))) = live P' hs' fl' \<union> (\<Union>g\<in>-{h}. obj_live S G g)"
proof -
  have "obj_live (set_obj S h P' m') (G(h := (hs', fl'))) g = obj_live S G g" if "g \<in> -{h}" for g
    using that by (cases "objs S g") (simp_all add: obj_live_def set_obj_def)
  moreover have "obj_live (set_obj S h P' m') (G(h := (hs', fl'))) h = live P' hs' fl'"
    by (simp add: obj_live_def set_obj_def)
  ultimately show ?thesis unfolding all_live_def UN_split [of _ h] by simp
qed

lemma all_live_split:
  "objs S h = Some P \<Longrightarrow>
   all_live S G = live P (fst (G h)) (snd (G h)) \<union> (\<Union>g\<in>-{h}. obj_live S G g)"
  unfolding all_live_def UN_split [of _ h] by (simp add: obj_live_def)

subsection \<open>The calling thread's pool\<close>

lemma unat_max: "unat (max a b :: u64) = max (unat a) (unat b)"
  by (simp add: max_def word_le_nat_alt)

lemma unat_of_nat64: "n < 2 ^ 64 \<Longrightarrow> unat (of_nat n :: u64) = n"
  by (simp add: unat_of_nat)

lemma ctor_asize: "RS < 2 ^ 31 \<Longrightarrow> asize (Pool_ctor (of_nat (RS + 2))) = max (RS + 2) 8"
proof -
  assume "RS < 2 ^ 31"
  then have "unat (of_nat (RS + 2) :: u64) = RS + 2" by (intro unat_of_nat64) simp
  then show ?thesis by (simp only: Pool_ctor_def pool.select_convs unat_max) simp
qed

lemma ctor_pool_inv:
  assumes "RS < 2 ^ 31" and "mem_ok m"
  shows "pool_inv m (Pool_ctor (of_nat (RS + 2))) [] []"
proof (rule ctor_inv_mem [OF _ assms(2)])
  have "unat (max (of_nat (RS + 2)) 8 :: u64) = max (RS + 2) 8"
    using ctor_asize [OF assms(1)] by (simp add: Pool_ctor_def)
  then show "64 * unat (max (of_nat (RS + 2)) 8 :: u64) + 8 < 2 ^ 63" using assms(1) by simp
qed

lemma new_counter: "nobjs S < 2 ^ 31 \<Longrightarrow> unat (thread_id_counter S + 1) = nobjs S + 1"
  by (simp add: unat_word_ariths)

lemma array_index_ok:
  "length (object_pool_array_m S) = 65 \<Longrightarrow> h \<le> 65 \<Longrightarrow>
   array_index S (of_nat h) = (if h < 65 then Inr h else Inl BadAccess)"
  by (simp add: array_index_def sint_of_nat_u16)

lemma object_pool_existing: "object_pool_m S t = Some h \<Longrightarrow> object_pool RS t S = Inr (h, S)"
  by (simp add: object_pool_def)

definition new_object :: "nat \<Rightarrow> nat \<Rightarrow> opool \<Rightarrow> opool" where
  "new_object RS t S = S\<lparr>
     ref_count_m := (ref_count_m S)(t := ref_count_m S t + 1),
     object_pool_m := (object_pool_m S)(t \<mapsto> nobjs S + 1),
     objs := (objs S)(nobjs S + 1 \<mapsto> Pool_ctor (of_nat (RS + 2))),
     thread_id_counter := thread_id_counter S + 1,
     thread_id_m := (thread_id_m S)(t := of_nat (nobjs S + 1)),
     object_pool_array_m := (object_pool_array_m S)[nobjs S + 1 := Some (nobjs S + 1)]\<rparr>"

lemma object_pool_new:
  assumes "threads_ok S" and "object_pool_m S t = None"
  shows "object_pool RS t S =
    (if nobjs S < 64 then Inr (nobjs S + 1, new_object RS t S) else Inl BadAccess)"
proof -
  have l: "length (object_pool_array_m S) = 65" and n: "nobjs S \<le> 64"
    using assms(1) by (simp_all add: threads_ok_def)
  have c: "unat (thread_id_counter S + 1) = nobjs S + 1" using n by (intro new_counter) simp
  have i: "(ucast (thread_id_counter S + 1) :: u16) = of_nat (nobjs S + 1)"
    by (simp only: ucast_small c)
  show ?thesis
    using assms(2) l n
    by (simp add: object_pool_def Let_def c i new_object_def array_index_ok del: of_nat_Suc of_nat_add)
qed

lemma new_object_inv:
  assumes inv: "opool_inv RS S G" and t: "object_pool_m S t = None" and n: "nobjs S < 64"
    and RS: "RS < 2 ^ 31"
  shows "opool_inv RS (new_object RS t S) (G(nobjs S + 1 := ([], [])))"
    and "all_live (new_object RS t S) (G(nobjs S + 1 := ([], []))) = all_live S G"
proof -
  let ?h = "nobjs S + 1" and ?S = "new_object RS t S" and ?G = "G(nobjs S + 1 := ([], []))"
  have po: "pools_ok RS S G" and to: "tags_ok RS S G" and th: "threads_ok S"
    using inv by (simp_all add: opool_inv_def)
  have c: "nobjs ?S = ?h" using n by (simp add: new_object_def new_counter)
  have "objs S ?h \<noteq> None \<longleftrightarrow> 1 \<le> ?h \<and> ?h \<le> nobjs S"
    using th unfolding threads_ok_def by blast
  then have no: "objs S ?h = None" by simp
  have ol: "obj_live ?S ?G g = (if g = ?h then {} else obj_live S G g)" for g
    by (cases "objs S g") (auto simp: obj_live_def new_object_def live_def)
  have mS: "omem ?S = omem S" by (simp add: new_object_def)
  have oh: "obj_live S G ?h = {}" using no by (simp add: obj_live_def)
  have "threads_ok ?S"
    unfolding threads_ok_def c
  proof (intro conjI allI impI)
    show "length (object_pool_array_m ?S) = 65" "?h \<le> 64"
      using th n by (simp_all add: threads_ok_def new_object_def)
  next
    fix u h assume "object_pool_m ?S u = Some h"
    then show "1 \<le> h" "h \<le> ?h" "thread_id_m ?S u = of_nat h"
      using th unfolding threads_ok_def new_object_def
      by (auto split: if_splits simp del: of_nat_add dest: le_SucI)
  next
    fix u v h assume "object_pool_m ?S u = Some h" "object_pool_m ?S v = Some h"
    then show "u = v"
      using th unfolding threads_ok_def new_object_def by (force split: if_splits)
  next
    fix h assume "1 \<le> h" "h \<le> ?h"
    then show "object_pool_array_m ?S ! h = Some h"
      using th n unfolding threads_ok_def new_object_def by (cases "h = ?h") auto
  next
    fix h show "(objs ?S h \<noteq> None) = (1 \<le> h \<and> h \<le> ?h)"
      using th unfolding threads_ok_def new_object_def by (cases "h = ?h") auto
  qed
  moreover have "pools_ok RS ?S ?G"
  proof -
    have m: "omem ?S = omem S" by (simp add: new_object_def)
    have "pool_inv (omem S) (Pool_ctor (of_nat (RS + 2))) [] []"
      using ctor_pool_inv [OF RS] po by (simp add: pools_ok_def)
    then show ?thesis
      using po ctor_asize [OF RS] unfolding pools_ok_def m
      by (auto simp: new_object_def simp del: of_nat_add split: if_splits)
  qed
  moreover have "tags_ok RS ?S ?G"
    using to unfolding tags_ok_def ol by (auto simp: mS split: if_splits)
  ultimately show "opool_inv RS ?S ?G" by (simp add: opool_inv_def)
  have "all_live ?S ?G = {} \<union> (\<Union>g\<in>-{?h}. obj_live S G g)"
    unfolding all_live_def UN_split [of _ ?h] ol by auto
  moreover have "all_live S G = {} \<union> (\<Union>g\<in>-{?h}. obj_live S G g)"
    unfolding all_live_def UN_split [of _ ?h] by (simp only: oh)
  ultimately show "all_live ?S ?G = all_live S G" by simp
qed

text \<open>In either case: the calling thread has a pool, and the chunks in use are the same.\<close>

lemma object_pool_ok:
  assumes inv: "opool_inv RS S G" and RS: "RS < 2 ^ 31" and r: "object_pool RS t S = Inr (h, S')"
  shows "\<exists>G' P. opool_inv RS S' G' \<and> all_live S' G' = all_live S G \<and> objs S' h = Some P \<and>
     object_pool_m S' t = Some h \<and> thread_id_m S' t = of_nat h \<and> h \<le> 64"
proof -
  have th: "threads_ok S" using inv by (simp add: opool_inv_def)
  have own: "\<exists>P. objs T g = Some P \<and> thread_id_m T u = of_nat g \<and> g \<le> 64"
    if "threads_ok T" "object_pool_m T u = Some g" for T u g
  proof -
    have "1 \<le> g \<and> g \<le> nobjs T \<and> thread_id_m T u = of_nat g" "nobjs T \<le> 64"
      using that unfolding threads_ok_def by blast+
    moreover have "objs T g \<noteq> None \<longleftrightarrow> 1 \<le> g \<and> g \<le> nobjs T"
      using that(1) unfolding threads_ok_def by blast
    ultimately show ?thesis by auto
  qed
  show ?thesis
  proof (cases "object_pool_m S t")
    case (Some g)
    then have "h = g" "S' = S" using r object_pool_existing by auto
    then show ?thesis using inv own [OF th Some] Some by blast
  next
    case None
    then have n: "nobjs S < 64" and h: "h = nobjs S + 1" and S': "S' = new_object RS t S"
      using r object_pool_new [OF th None, of RS] by (auto split: if_splits)
    have i: "opool_inv RS S' (G(h := ([], [])))" unfolding S' h by (rule new_object_inv [OF inv None n RS])
    have "all_live S' (G(h := ([], []))) = all_live S G"
      unfolding S' h by (rule new_object_inv [OF inv None n RS])
    moreover have o: "object_pool_m S' t = Some h" by (simp add: S' h new_object_def)
    moreover have "threads_ok S'" using i by (simp add: opool_inv_def)
    ultimately show ?thesis using i own [OF _ o] by blast
  qed
qed

subsection \<open>Allocating and giving back\<close>

lemma chunk_tag_apart:
  assumes "Ptr b i \<in> chunks a hs" and "Ptr b' i' \<in> chunks a hs" and "Ptr b i \<noteq> Ptr b' i'"
    and "changed_only m m' b i (i + int a)" and "RS + 2 \<le> a"
  shows "load_short m' (Ptr b' (i' + int RS)) = load_short m (Ptr b' (i' + int RS))"
  using chunks_apart [OF assms(1-3)] assms(5)
  by (intro changed_only_load_short [OF assms(4)]) auto

lemma tag_of:
  assumes "tags_ok RS S G" and "objs S h = Some P" and "c \<in> live P (fst (G h)) (snd (G h))"
  shows "load_short (omem S) (padd c (int RS)) = Inr (of_nat h)"
proof -
  have "c \<in> obj_live S G h" using assms(2,3) by (simp add: obj_live_def)
  then show ?thesis using assms(1) unfolding tags_ok_def by blast
qed

lemma obj_malloc_ok:
  assumes inv: "opool_inv RS S G" and P: "objs S h = Some P" and id: "thread_id_m S t = of_nat h"
    and r: "obj_malloc grant RS t h S = Inr (p, S')"
  shows "\<exists>G'. opool_inv RS S' G' \<and> p \<noteq> Null \<and> p \<notin> all_live S G \<and>
     all_live S' G' = insert p (all_live S G) \<and>
     (\<exists>b i. p = Ptr b i \<and> valid (omem S') b i (RS + 2))"
proof -
  let ?hs = "fst (G h)" and ?fl = "snd (G h)" and ?m = "omem S"
  have po: "pools_ok RS S G" and to: "tags_ok RS S G" using inv by (simp_all add: opool_inv_def)
  have pi: "pool_inv ?m P ?hs ?fl" and a: "asize P = max (RS + 2) 8"
    using po P by (auto simp: pools_ok_def)
  obtain q P' m' hs' fl' where run: "Malloc grant P ?m = Inr (q, P', m')"
    and i': "pool_inv m' P' hs' fl'" and k: "keeps ?m m' {}"
    and c: "q = Null \<and> P' = P \<and> m' = ?m \<and> hs' = ?hs \<and> fl' = ?fl \<and> ?fl = [] \<or>
      q \<notin> live P ?hs ?fl \<and> q \<in> chunks (asize P') hs' \<and> asize P' = asize P \<and>
      live P' hs' fl' = insert q (live P ?hs ?fl) \<and>
      (hs' = ?hs \<or> hs' = (nextb ?m, unat (next_size_m P)) # ?hs)"
    using Malloc_cases [OF pi, of grant] by blast
  obtain m'' where st: "store_short m' (padd q (int RS)) (of_nat h) = Inr m''"
    and S': "S' = set_obj S h P' m''" and q: "q = p"
    using r run P id by (auto simp: obj_malloc_def the_obj_def)
  have "q \<noteq> Null" using st by (auto simp: store_short_Null)
  with c have new: "q \<notin> live P ?hs ?fl" "q \<in> chunks (asize P') hs'" and a': "asize P' = asize P"
    and lv: "live P' hs' fl' = insert q (live P ?hs ?fl)"
    and hs': "hs' = ?hs \<or> hs' = (nextb ?m, unat (next_size_m P)) # ?hs" by blast+
  obtain b i where qp: "q = Ptr b i" using chunks_Ptr [OF new(2)] by blast
  have RSa: "RS + 2 \<le> asize P'" using a a' by simp
  have st': "store_cells m' (Ptr b (i + int RS)) (map Byte (short_bytes (of_nat h))) = Inr m''"
    using st by (simp add: qp store_short_def)
  have qlive: "Ptr b i \<in> live P' hs' fl'" using lv qp by simp
  have i'': "pool_inv m'' P' hs' fl'"
    by (rule user_store_inv [OF i' qlive st']) (use RSa in auto)
  have co: "changed_only m' m'' b (i + int RS) (i + int RS + 2)"
    using store_cells_changed [OF st'] by simp
  then have co': "changed_only m' m'' b i (i + int (asize P'))"
    by (rule changed_only_mono) (use RSa in auto)
  have bhs: "b \<in> fst ` set hs'" using new(2) qp chunks_block by blast
  have sub: "fst ` set hs' \<subseteq> insert (nextb ?m) (fst ` set ?hs)" using hs' by auto
  have bB: "b = nextb ?m \<or> b \<in> fst ` set ?hs" using subsetD [OF sub bhs] by simp
  have kk: "keeps ?m m'' (fst ` set ?hs)"
    unfolding keeps_def
  proof (intro conjI allI impI)
    show "nextb ?m \<le> nextb m''" using k co by (simp add: keeps_def changed_only_def)
    fix b0 assume b0: "b0 < nextb ?m" "b0 \<notin> fst ` set ?hs"
    then have "b0 \<noteq> b" using bB by auto
    then show "blocks m'' b0 = blocks ?m b0" "cells m'' b0 = cells ?m b0"
      using k co b0(1) by (auto simp: keeps_def changed_only_def fun_eq_iff)
  qed
  have "load_short m'' (padd c (int RS)) = Inr (of_nat h)" if c: "c \<in> live P' hs' fl'" for c
  proof (cases "c = q")
    case True
    then show ?thesis using load_store_short_same [OF st] by simp
  next
    case False
    then have cl: "c \<in> live P ?hs ?fl" using c lv by simp
    obtain b' j where cp: "c = Ptr b' j" using live_Ptr [OF cl] by blast
    have "b' \<in> fst ` set ?hs" using live_block [OF cl [unfolded cp]] .
    then have "b' < nextb ?m" by (rule inv_blocks [OF pi])
    then have "load_short m' (Ptr b' (j + int RS)) = load_short ?m (Ptr b' (j + int RS))"
      using keeps_load_short [OF k] by simp
    also have "\<dots> = Inr (of_nat h)" using tag_of [OF to P cl] cp by simp
    finally have old: "load_short m' (Ptr b' (j + int RS)) = Inr (of_nat h)" .
    have "Ptr b' j \<in> chunks (asize P') hs'" using c cp by (simp add: live_def)
    moreover have "Ptr b i \<in> chunks (asize P') hs'" using new(2) qp by simp
    moreover have "Ptr b i \<noteq> Ptr b' j" using False cp qp by metis
    ultimately have "load_short m'' (Ptr b' (j + int RS)) = load_short m' (Ptr b' (j + int RS))"
      using co' RSa by (intro chunk_tag_apart)
    then show ?thesis using old cp by simp
  qed
  then have "opool_inv RS S' (G(h := (hs', fl')))"
    unfolding S' using set_obj_inv [OF inv P i'' a' kk sub] by blast
  moreover have "q \<notin> obj_live S G g" if "g \<noteq> h" for g
  proof
    assume "q \<in> obj_live S G g"
    then obtain Q where Q: "objs S g = Some Q" "q \<in> live Q (fst (G g)) (snd (G g))"
      by (auto simp: obj_live_def split: option.splits)
    then have bg: "b \<in> fst ` set (fst (G g))" unfolding qp by (blast intro: live_block)
    have "fst ` set (fst (G g)) \<inter> fst ` set ?hs = {}" using po Q(1) P that unfolding pools_ok_def by blast
    moreover have "b < nextb ?m"
      by (rule inv_blocks [OF _ bg, of _ Q "snd (G g)"]) (use po Q(1) in \<open>simp add: pools_ok_def\<close>)
    ultimately show False using bB bg by (meson disjoint_iff less_irrefl)
  qed
  then have "q \<notin> all_live S G" using new(1) all_live_split [OF P] by auto
  moreover have "all_live S' (G(h := (hs', fl'))) = insert q (all_live S G)"
    unfolding S' all_live_set_obj lv all_live_split [OF P] by simp
  moreover have "valid (omem S') b i (RS + 2)"
  proof -
    have "blocks_ok m'' P' hs'" using i'' by (simp add: pool_inv_def)
    then have "valid m'' b i (asize P')" using new(2) qp by (intro chunks_valid) simp_all
    then have "valid m'' b (i + 0) (RS + 2)" by (rule valid_mono) (use RSa in auto)
    then show ?thesis by (simp add: S' set_obj_def)
  qed
  ultimately show ?thesis using \<open>q \<noteq> Null\<close> q qp by blast
qed

text \<open>A chunk goes back to the pool it came from, whoever gives it back.\<close>

lemma give_to_obj:
  assumes inv: "opool_inv RS S G" and P: "objs S g = Some P"
    and c: "c \<in> live P (fst (G g)) (snd (G g))"
    and i': "pool_inv m' P' (fst (G g)) fl'" and a: "asize P' = asize P"
    and k: "keeps (omem S) m' (fst ` set (fst (G g)))"
    and lv: "live P' (fst (G g)) fl' = live P (fst (G g)) (snd (G g)) - {c}"
    and w: "Ptr b i \<in> chunks (asize P) (fst (G g))" "Ptr b i \<notin> live P' (fst (G g)) fl'"
    and co: "changed_only (omem S) m' b i (i + int (asize P))"
  shows "opool_inv RS (set_obj S g P' m') (G(g := (fst (G g), fl')))"
    and "all_live (set_obj S g P' m') (G(g := (fst (G g), fl'))) = all_live S G - {c}"
proof -
  have po: "pools_ok RS S G" and to: "tags_ok RS S G" using inv by (simp_all add: opool_inv_def)
  have RSa: "RS + 2 \<le> asize P" using po P by (simp add: pools_ok_def)
  have "load_short m' (padd x (int RS)) = Inr (of_nat g)" if x: "x \<in> live P' (fst (G g)) fl'" for x
  proof -
    have xl: "x \<in> live P (fst (G g)) (snd (G g))" using x lv by simp
    obtain b' j where xp: "x = Ptr b' j" using live_Ptr [OF xl] by blast
    have "Ptr b' j \<in> chunks (asize P) (fst (G g))" using xl xp by (simp add: live_def)
    moreover have "Ptr b i \<noteq> Ptr b' j" using w(2) x xp by metis
    ultimately have "load_short m' (Ptr b' (j + int RS)) = load_short (omem S) (Ptr b' (j + int RS))"
      using w(1) co RSa by (intro chunk_tag_apart)
    then show ?thesis using tag_of [OF to P xl] xp by simp
  qed
  then show "opool_inv RS (set_obj S g P' m') (G(g := (fst (G g), fl')))"
    by (intro set_obj_inv [OF inv P i' a k]) auto
  have "c \<notin> obj_live S G f" if "f \<noteq> g" for f
    using obj_live_disjoint [OF po, of g f c] that c P by (simp add: obj_live_def)
  then have "c \<notin> (\<Union>f\<in>-{g}. obj_live S G f)" by blast
  then show "all_live (set_obj S g P' m') (G(g := (fst (G g), fl'))) = all_live S G - {c}"
    unfolding all_live_set_obj lv all_live_split [OF P] by (simp add: Un_Diff)
qed

lemma obj_free_ok:
  assumes inv: "opool_inv RS S G" and o: "object_pool_m S t = Some h" and cl: "c \<in> all_live S G"
  shows "\<exists>S' G'. obj_free RS t h c S = Inr S' \<and> opool_inv RS S' G' \<and>
     all_live S' G' = all_live S G - {c} \<and> object_pool_m S' = object_pool_m S"
proof -
  have po: "pools_ok RS S G" and to: "tags_ok RS S G" and th: "threads_ok S"
    using inv by (simp_all add: opool_inv_def)
  obtain g P where P: "objs S g = Some P" and c: "c \<in> live P (fst (G g)) (snd (G g))"
    using cl by (auto simp: all_live_def obj_live_def split: option.splits)
  have pi: "pool_inv (omem S) P (fst (G g)) (snd (G g))" using po P by (simp add: pools_ok_def)
  have len: "length (object_pool_array_m S) = 65" and n: "nobjs S \<le> 64"
    and h: "1 \<le> h" "h \<le> nobjs S" "thread_id_m S t = of_nat h"
    using th o unfolding threads_ok_def by blast+
  have "objs S g \<noteq> None \<longleftrightarrow> 1 \<le> g \<and> g \<le> nobjs S" using th unfolding threads_ok_def by blast
  then have g: "1 \<le> g" "g \<le> nobjs S" using P by auto
  have arr: "object_pool_array_m S ! g = Some g" using th g unfolding threads_ok_def by blast
  have tag: "load_short (omem S) (padd c (int RS)) = Inr (of_nat g)" by (rule tag_of [OF to P c])
  have eq: "(of_nat g :: u16) = of_nat h \<longleftrightarrow> g = h" using g h n by (intro of_nat_u16_inj) auto
  show ?thesis
  proof (cases "g = h")
    case True
    obtain m' b i where f: "Free P c (omem S) = Inr (P\<lparr>head_m := c\<rparr>, m')"
      and i': "pool_inv m' (P\<lparr>head_m := c\<rparr>) (fst (G g)) (c # snd (G g))"
      and k: "keeps (omem S) m' (fst ` set (fst (G g)))"
      and w: "c = Ptr b i" "changed_only (omem S) m' b i (i + int (asize P))"
      using Free_ok [OF pi c] by blast
    have lv: "live (P\<lparr>head_m := c\<rparr>) (fst (G g)) (c # snd (G g)) = live P (fst (G g)) (snd (G g)) - {c}"
      by (rule live_Free [OF c])
    have "Ptr b i \<in> chunks (asize P) (fst (G g))" using c w(1) by (simp add: live_def)
    moreover have "Ptr b i \<notin> live (P\<lparr>head_m := c\<rparr>) (fst (G g)) (c # snd (G g))"
      by (simp add: live_def w(1))
    ultimately have "opool_inv RS (set_obj S g (P\<lparr>head_m := c\<rparr>) m') (G(g := (fst (G g), c # snd (G g))))"
      and "all_live (set_obj S g (P\<lparr>head_m := c\<rparr>) m') (G(g := (fst (G g), c # snd (G g)))) =
        all_live S G - {c}"
      using give_to_obj [OF inv P c i' _ k lv] w(2) by auto
    moreover have "obj_free RS t h c S = Inr (set_obj S g (P\<lparr>head_m := c\<rparr>) m')"
      using tag f P True h(3) by (simp add: obj_free_def the_obj_def)
    ultimately show ?thesis by (force simp: set_obj_def)
  next
    case False
    obtain m' b i where f: "FreeAppend P c (omem S) = Inr (P\<lparr>tail_m := c\<rparr>, m')"
      and i': "pool_inv m' (P\<lparr>tail_m := c\<rparr>) (fst (G g)) (snd (G g) @ [tail_m P])"
      and k: "keeps (omem S) m' (fst ` set (fst (G g)))"
      and w: "tail_m P = Ptr b i" "changed_only (omem S) m' b i (i + int (asize P))"
      using FreeAppend_ok [OF pi c] by blast
    have lv: "live (P\<lparr>tail_m := c\<rparr>) (fst (G g)) (snd (G g) @ [tail_m P]) =
        live P (fst (G g)) (snd (G g)) - {c}"
      by (rule live_FreeAppend [OF c])
    have "Ptr b i \<notin> live (P\<lparr>tail_m := c\<rparr>) (fst (G g)) (snd (G g) @ [tail_m P])"
      by (simp add: live_def w(1))
    moreover have "Ptr b i \<in> chunks (asize P) (fst (G g))"
    proof -
      have "fst (G g) \<noteq> []" using c by (auto simp: live_def)
      then show ?thesis using pi w(1) by (simp add: pool_inv_def free_ok_def)
    qed
    ultimately have "opool_inv RS (set_obj S g (P\<lparr>tail_m := c\<rparr>) m')
          (G(g := (fst (G g), snd (G g) @ [tail_m P])))"
      and "all_live (set_obj S g (P\<lparr>tail_m := c\<rparr>) m') (G(g := (fst (G g), snd (G g) @ [tail_m P]))) =
        all_live S G - {c}"
      using give_to_obj [OF inv P c i' _ k lv] w(2) by auto
    moreover have "array_index S (of_nat g) = Inr g" using array_index_ok [OF len, of g] g n by simp
    then have "obj_free RS t h c S = Inr (set_obj S g (P\<lparr>tail_m := c\<rparr>) m')"
      using tag f P False h(3) eq arr by (simp add: obj_free_def the_obj_def)
    ultimately show ?thesis by (force simp: set_obj_def)
  qed
qed

subsection \<open>The object pool is an allocator shared by threads\<close>

definition opool_rel :: "nat \<Rightarrow> opool \<Rightarrow> ptr set \<Rightarrow> bool" where
  "opool_rel RS S L \<longleftrightarrow> RS < 2 ^ 31 \<and> (\<exists>G. opool_inv RS S G \<and> L = all_live S G)"

lemma Malloc_law:
  assumes "opool_rel RS S L" and r: "ObjectPool_Malloc grant RS t S = Inr (p, S')"
  shows "p \<noteq> Null \<and> p \<notin> L \<and> opool_rel RS S' (insert p L) \<and>
     (\<exists>b i. p = Ptr b i \<and> valid (omem S') b i (RS + 2)) \<and> object_pool_m S' t \<noteq> None"
proof -
  obtain G where inv: "opool_inv RS S G" and L: "L = all_live S G" and RS: "RS < 2 ^ 31"
    using assms(1) by (auto simp: opool_rel_def)
  obtain h S1 where o: "object_pool RS t S = Inr (h, S1)" and m: "obj_malloc grant RS t h S1 = Inr (p, S')"
    using r by (auto simp: ObjectPool_Malloc_def)
  obtain G1 P where i1: "opool_inv RS S1 G1" and l1: "all_live S1 G1 = all_live S G"
    and P: "objs S1 h = Some P" and ob: "object_pool_m S1 t = Some h"
    and id: "thread_id_m S1 t = of_nat h"
    using object_pool_ok [OF inv RS o] by blast
  have "object_pool_m S' = object_pool_m S1" using m by (auto simp: obj_malloc_def set_obj_def)
  with obj_malloc_ok [OF i1 P id m] show ?thesis
    using L l1 RS ob by (auto simp: opool_rel_def)
qed

lemma Free_law:
  assumes "opool_rel RS S L" and "p \<in> L" and r: "ObjectPool_Free RS t S p = Inr S'"
  shows "opool_rel RS S' (L - {p})"
proof -
  obtain G where inv: "opool_inv RS S G" and L: "L = all_live S G" and RS: "RS < 2 ^ 31"
    using assms(1) by (auto simp: opool_rel_def)
  obtain h S1 where o: "object_pool RS t S = Inr (h, S1)" and m: "obj_free RS t h p S1 = Inr S'"
    using r by (auto simp: ObjectPool_Free_def)
  obtain G1 where i1: "opool_inv RS S1 G1" and l1: "all_live S1 G1 = all_live S G"
    and ob: "object_pool_m S1 t = Some h"
    using object_pool_ok [OF inv RS o] by blast
  show ?thesis using obj_free_ok [OF i1 ob, of p] m L l1 RS assms(2) by (auto simp: opool_rel_def)
qed

lemma Free_returns:
  assumes "opool_rel RS S L" and "p \<in> L" and "object_pool_m S t = Some h"
  shows "\<exists>S'. ObjectPool_Free RS t S p = Inr S' \<and> object_pool_m S' = object_pool_m S"
proof -
  obtain G where "opool_inv RS S G" and "L = all_live S G" using assms(1) by (auto simp: opool_rel_def)
  then show ?thesis using obj_free_ok [of RS S G t h p] assms(2,3)
    by (auto simp: ObjectPool_Free_def object_pool_existing)
qed

interpretation shared: allocator "opool_rel RS" "ObjectPool_Malloc grant RS" "ObjectPool_Free RS"
  for grant RS
proof
  fix S L t p S'
  assume "opool_rel RS S L" and "ObjectPool_Malloc grant RS t S = Inr (p, S')"
  then show "p = Null \<and> opool_rel RS S' L \<or> p \<noteq> Null \<and> p \<notin> L \<and> opool_rel RS S' (insert p L)"
    using Malloc_law by blast
next
  fix S L p t S'
  assume "opool_rel RS S L" and "p \<in> L" and "ObjectPool_Free RS t S p = Inr S'"
  then show "opool_rel RS S' (L - {p})" by (rule Free_law)
qed

lemma opool_init_inv: "mem_ok m \<Longrightarrow> opool_inv RS (opool_init m) (\<lambda>_. ([], []))"
  by (simp add: opool_inv_def opool_init_def threads_ok_def pools_ok_def tags_ok_def obj_live_def
      max_thread_num_def)

lemma opool_init_rel: "mem_ok m \<Longrightarrow> RS < 2 ^ 31 \<Longrightarrow> opool_rel RS (opool_init m) {}"
  unfolding opool_rel_def
  by (intro conjI exI [of _ "\<lambda>_. ([], [])"] opool_init_inv)
    (auto simp: all_live_def obj_live_def opool_init_def)

end
