(* ===== verification/PoolRace.thy ===== *)
theory PoolRace
  imports ObjectPool
begin

section \<open>One pool object, used by many threads at once\<close>

text \<open>
  Theory \<open>ObjectPool\<close> takes a whole call as one step.  Here the calls that meet in one pool object
  are cut at their accesses of what threads share: the owner of the object (thread 0) allocates
  and frees without a lock, while any number of other threads give chunks back through
  \<open>free_append\<close>, under \<open>lock_tail_\<close>.  The owner's \<open>head_\<close>, \<open>first_\<close> and \<open>next_size_\<close> are its own;
  \<open>tail_\<close>, the lock and the first bytes of the chunks are shared.  One step is one access of
  \<open>tail_\<close> or of such bytes; accesses of a new block, which no other thread can know, are
  taken together.  Accesses are assumed to take effect in one order (the members are not atomic).

  \<open>MTest\<close> .. \<open>MCarve\<close>: the owner in \<open>Malloc\<close>; \<open>FPut\<close>: the owner in \<open>Free\<close>; \<open>ATest\<close> ..
  \<open>AUnlock\<close>: another thread in \<open>FreeAppend\<close>; \<open>Failed\<close>: a fault.
\<close>

datatype pool_at =
    Away
  | MTest          \<comment> \<open>before \<open>Empty()\<close> reads \<open>tail_\<close>\<close>
  | MPop           \<comment> \<open>not empty: before \<open>storage().malloc()\<close>\<close>
  | MGrow          \<comment> \<open>empty: before \<open>::malloc\<close>\<close>
  | MTail ptr      \<comment> \<open>\<open>segregate\<close>: before the test of \<open>tail_\<close>\<close>
  | MLink ptr      \<comment> \<open>\<open>segregate\<close>: before \<open>next_of(last) = tail_\<close>\<close>
  | MCarve ptr     \<comment> \<open>\<open>segregate\<close>: before the loop\<close>
  | FPut ptr
  | ATest ptr      \<comment> \<open>\<open>free_append\<close>: before the \<open>assert\<close>\<close>
  | ALock ptr      \<comment> \<open>in \<open>lock_tail_.lock()\<close>\<close>
  | ALink ptr      \<comment> \<open>before \<open>next_of(tail_) = chunk\<close>\<close>
  | ATail ptr      \<comment> \<open>before \<open>tail_ = chunk\<close>\<close>
  | AUnlock        \<comment> \<open>before \<open>lock_tail_.unlock()\<close>\<close>
  | Failed fault

record race =
  rpool :: pool
  rmem :: mem
  rlpcs :: "nat \<Rightarrow> pc"                \<comment> \<open>where each thread is in the lock's code\<close>
  rat :: "nat \<Rightarrow> pool_at"
  rheld :: "nat \<Rightarrow> ptr list"         \<comment> \<open>the chunks each thread may use\<close>

definition race_init :: "u64 \<Rightarrow> mem \<Rightarrow> race" where
  "race_init requested_size m = \<lparr>rpool = Pool_ctor requested_size, rmem = m, rlpcs = (\<lambda>_. Out),
     rat = (\<lambda>_. Away), rheld = (\<lambda>_. [])\<rparr>"

subsection \<open>The pieces of \<open>resize_and_malloc\<close>\<close>

definition block_size :: "pool \<Rightarrow> u64" where
  "block_size P = next_size_m P * alloc_size_m P"

definition last_chunk :: "pool \<Rightarrow> ptr \<Rightarrow> ptr" where
  "last_chunk P p = padd (padd (padd p 8) (int (unat (block_size P)))) (- int (unat (alloc_size_m P)))"

text \<open>From the loop of \<open>segregate\<close> to the end, and all that follows \<open>::malloc\<close> in one piece.\<close>

definition finish_block :: "pool \<Rightarrow> ptr \<Rightarrow> mem \<Rightarrow> (ptr \<times> pool \<times> mem) res" where
  "finish_block P p m =
     rbind (set_next_of m p (first_m P)) (\<lambda>m'.
     rbind (seg_malloc (P\<lparr>first_m := p, next_size_m := push_bit 1 (next_size_m P)\<rparr>) m') (\<lambda>(r, P').
     Inr (r, P', m')))"

definition carve :: "pool \<Rightarrow> ptr \<Rightarrow> mem \<Rightarrow> (ptr \<times> pool \<times> mem) res" where
  "carve P p m =
     rbind (segregate_loop m (padd p 8) (padd (last_chunk P p) (- int (unat (alloc_size_m P))))
       (last_chunk P p) (alloc_size_m P)) (\<lambda>m'.
     finish_block (P\<lparr>head_m := padd p 8\<rparr>) p m')"

definition first_block :: "pool \<Rightarrow> ptr \<Rightarrow> mem \<Rightarrow> (ptr \<times> pool \<times> mem) res" where
  "first_block P p m =
     rbind (add_block P (padd p 8) (block_size P) (alloc_size_m P) m) (\<lambda>(P', m'). finish_block P' p m')"

lemma resize_pieces:
  "resize_and_malloc grant P m =
     (let (p, m1) = sys_malloc grant (unat (block_size P + 8)) m
      in if p = Null then Inr (Null, P, m1)
         else if tail_m P = Null then first_block P p m1
         else rbind (set_next_of m1 (last_chunk P p) (tail_m P)) (carve P p))"
  unfolding resize_and_malloc_def block_size_def [symmetric] Let_def
  by (cases "sys_malloc grant (unat (block_size P + 8)) m")
    (simp add: first_block_def finish_block_def [abs_def] carve_def [abs_def] add_block_def segregate_def
      last_chunk_def Let_def rbind_assoc)

subsection \<open>The steps\<close>

definition race_lock :: "race \<Rightarrow> lock_sys" where
  "race_lock s = \<lparr>lk = lock_tail_m (rpool s), pcs = rlpcs s\<rparr>"

definition with_lock :: "race \<Rightarrow> lock_sys \<Rightarrow> race" where
  "with_lock s l = s\<lparr>rpool := (rpool s)\<lparr>lock_tail_m := lk l\<rparr>, rlpcs := pcs l\<rparr>"

definition go :: "race \<Rightarrow> nat \<Rightarrow> pool_at \<Rightarrow> race" where
  "go s t c = s\<lparr>rat := (rat s)(t := c)\<rparr>"

definition take_chunk :: "race \<Rightarrow> nat \<Rightarrow> ptr \<Rightarrow> race" where
  "take_chunk s t c = s\<lparr>rheld := (rheld s)(t := remove1 c (rheld s t))\<rparr>"

definition give_chunk :: "race \<Rightarrow> nat \<Rightarrow> ptr \<Rightarrow> race" where
  "give_chunk s t c = s\<lparr>rheld := (rheld s)(t := c # rheld s t)\<rparr>"

text \<open>A call returns, or fails.\<close>

definition outcome :: "race \<Rightarrow> nat \<Rightarrow> race res \<Rightarrow> race" where
  "outcome s t r = (case r of Inl e \<Rightarrow> go s t (Failed e) | Inr s' \<Rightarrow> s')"

definition got :: "race \<Rightarrow> (ptr \<times> pool \<times> mem) res \<Rightarrow> race" where
  "got s r = outcome s 0 (rbind r (\<lambda>(p, P, m).
     let s' = go (s\<lparr>rpool := P, rmem := m\<rparr>) 0 Away in
     Inr (if p = Null then s' else give_chunk s' 0 p)))"

inductive race_step :: "(nat \<Rightarrow> nat \<Rightarrow> bool) \<Rightarrow> race \<Rightarrow> nat \<Rightarrow> race \<Rightarrow> bool"
  for grant :: "nat \<Rightarrow> nat \<Rightarrow> bool" where
  call_Malloc: "rat s 0 = Away \<Longrightarrow> race_step grant s 0 (go s 0 MTest)"
| m_test: "rat s 0 = MTest \<Longrightarrow> race_step grant s 0 (go s 0 (if Empty (rpool s) then MGrow else MPop))"
| m_pop: "rat s 0 = MPop \<Longrightarrow> race_step grant s 0
    (got s (rbind (seg_malloc (rpool s) (rmem s)) (\<lambda>(r, P). Inr (r, P, rmem s))))"
| m_refused: "rat s 0 = MGrow \<Longrightarrow>
    sys_malloc grant (unat (block_size (rpool s) + 8)) (rmem s) = (Null, m) \<Longrightarrow>
    race_step grant s 0 (got s (Inr (Null, rpool s, m)))"
| m_granted: "rat s 0 = MGrow \<Longrightarrow>
    sys_malloc grant (unat (block_size (rpool s) + 8)) (rmem s) = (Ptr b i, m) \<Longrightarrow>
    race_step grant s 0 (go (s\<lparr>rmem := m\<rparr>) 0 (MTail (Ptr b i)))"
| m_first: "rat s 0 = MTail p \<Longrightarrow> tail_m (rpool s) = Null \<Longrightarrow>
    race_step grant s 0 (got s (first_block (rpool s) p (rmem s)))"
| m_more: "rat s 0 = MTail p \<Longrightarrow> tail_m (rpool s) \<noteq> Null \<Longrightarrow> race_step grant s 0 (go s 0 (MLink p))"
| m_link: "rat s 0 = MLink p \<Longrightarrow> race_step grant s 0
    (outcome s 0 (rbind (set_next_of (rmem s) (last_chunk (rpool s) p) (tail_m (rpool s)))
      (\<lambda>m. Inr (go (s\<lparr>rmem := m\<rparr>) 0 (MCarve p)))))"
| m_carve: "rat s 0 = MCarve p \<Longrightarrow> race_step grant s 0 (got s (carve (rpool s) p (rmem s)))"
| call_Free: "rat s 0 = Away \<Longrightarrow> c \<in> set (rheld s 0) \<Longrightarrow>
    race_step grant s 0 (go (take_chunk s 0 c) 0 (FPut c))"
| f_put: "rat s 0 = FPut c \<Longrightarrow> race_step grant s 0
    (outcome s 0 (rbind (seg_free (rpool s) c (rmem s))
      (\<lambda>(P, m). Inr (go (s\<lparr>rpool := P, rmem := m\<rparr>) 0 Away))))"
| call_FreeAppend: "t \<noteq> 0 \<Longrightarrow> rat s t = Away \<Longrightarrow> c \<in> set (rheld s t) \<Longrightarrow>
    race_step grant s t (go (take_chunk s t c) t (ATest c))"
| a_test: "rat s t = ATest c \<Longrightarrow> race_step grant s t
    (go s t (if tail_m (rpool s) = Null then Failed AssertFailed else ALock c))"
| a_locking: "rat s t = ALock c \<Longrightarrow> rlpcs s t \<noteq> WIn \<Longrightarrow> lock_step (race_lock s) t l \<Longrightarrow>
    pcs l t \<noteq> RTry \<Longrightarrow> race_step grant s t (with_lock s l)"
| a_locked: "rat s t = ALock c \<Longrightarrow> rlpcs s t = WIn \<Longrightarrow> race_step grant s t (go s t (ALink c))"
| a_link: "rat s t = ALink c \<Longrightarrow> race_step grant s t
    (outcome s t (rbind (set_next_of (rmem s) (tail_m (rpool s)) c)
      (\<lambda>m. Inr (go (s\<lparr>rmem := m\<rparr>) t (ATail c)))))"
| a_tail: "rat s t = ATail c \<Longrightarrow>
    race_step grant s t (go (s\<lparr>rpool := (rpool s)\<lparr>tail_m := c\<rparr>\<rparr>) t AUnlock)"
| a_unlock: "rat s t = AUnlock \<Longrightarrow> rlpcs s t = WIn \<Longrightarrow> race_step grant s t
    (go (with_lock s (at (race_lock s) t Out (Unlock (lock_tail_m (rpool s))))) t Away)"
| pass_on: "c \<in> set (rheld s t) \<Longrightarrow> t \<noteq> u \<Longrightarrow> race_step grant s t (give_chunk (take_chunk s t c) u c)"
| user_write: "Ptr b i \<in> set (rheld s t) \<Longrightarrow> 0 \<le> d \<Longrightarrow> d + int (length cs) \<le> int (asize (rpool s)) \<Longrightarrow>
    store_cells (rmem s) (Ptr b (i + d)) cs = Inr m \<Longrightarrow> race_step grant s t (s\<lparr>rmem := m\<rparr>)"

inductive_cases race_stepE: "race_step grant s t s'"

lemma race_sel [simp]:
  "rpool (go s t c) = rpool s" "rmem (go s t c) = rmem s" "rlpcs (go s t c) = rlpcs s"
  "rat (go s t c) = (rat s)(t := c)" "rheld (go s t c) = rheld s"
  "rpool (with_lock s l) = (rpool s)\<lparr>lock_tail_m := lk l\<rparr>" "rmem (with_lock s l) = rmem s"
  "rlpcs (with_lock s l) = pcs l" "rat (with_lock s l) = rat s" "rheld (with_lock s l) = rheld s"
  "rpool (take_chunk s t p) = rpool s" "rmem (take_chunk s t p) = rmem s" "rlpcs (take_chunk s t p) = rlpcs s"
  "rat (take_chunk s t p) = rat s" "rheld (take_chunk s t p) = (rheld s)(t := remove1 p (rheld s t))"
  "rpool (give_chunk s t p) = rpool s" "rmem (give_chunk s t p) = rmem s" "rlpcs (give_chunk s t p) = rlpcs s"
  "rat (give_chunk s t p) = rat s" "rheld (give_chunk s t p) = (rheld s)(t := p # rheld s t)"
  "pcs (race_lock s) = rlpcs s" "lk (race_lock s) = lock_tail_m (rpool s)"
  by (simp_all add: go_def with_lock_def take_chunk_def give_chunk_def race_lock_def)

lemma outcome_simps [simp]: "outcome s t (Inr s') = s'" "outcome s t (Inl e) = go s t (Failed e)"
  by (simp_all add: outcome_def)

lemma got_Inr [simp]: "got s (Inr (p, P, m)) =
    (if p = Null then go (s\<lparr>rpool := P, rmem := m\<rparr>) 0 Away
     else give_chunk (go (s\<lparr>rpool := P, rmem := m\<rparr>) 0 Away) 0 p)"
  by (simp add: got_def Let_def)

subsection \<open>The invariant\<close>

text \<open>
  The pool invariant speaks of the lock as free; here the lock has its own invariant, so the
  word of the lock is set aside.
\<close>

definition unlocked :: "pool \<Rightarrow> pool" where
  "unlocked P = P\<lparr>lock_tail_m := Spinlock\<rparr>"

lemma unlocked_sel [simp]:
  "head_m (unlocked P) = head_m P" "tail_m (unlocked P) = tail_m P" "first_m (unlocked P) = first_m P"
  "next_size_m (unlocked P) = next_size_m P" "alloc_size_m (unlocked P) = alloc_size_m P"
  "lock_tail_m (unlocked P) = Spinlock" "unlocked (P\<lparr>lock_tail_m := l\<rparr>) = unlocked P"
  "unlocked (P\<lparr>tail_m := t\<rparr>) = (unlocked P)\<lparr>tail_m := t\<rparr>"
  "unlocked (P\<lparr>head_m := t\<rparr>) = (unlocked P)\<lparr>head_m := t\<rparr>"
  by (simp_all add: unlocked_def)

text \<open>The chunk a thread is giving back, and all it has a claim to.\<close>

fun giving :: "pool_at \<Rightarrow> ptr set" where
  "giving (FPut c) = {c}"
| "giving (ATest c) = {c}"
| "giving (ALock c) = {c}"
| "giving (ALink c) = {c}"
| "giving (ATail c) = {c}"
| "giving _ = {}"

definition owned :: "race \<Rightarrow> nat \<Rightarrow> ptr set" where
  "owned s t = set (rheld s t) \<union> giving (rat s t)"

fun in_lock :: "pool_at \<Rightarrow> bool" where
  "in_lock (ALink c) = True"
| "in_lock (ATail c) = True"
| "in_lock AUnlock = True"
| "in_lock _ = False"

text \<open>The block the owner has got from \<open>::malloc\<close> and is cutting.\<close>

definition new_block :: "pool \<Rightarrow> (nat \<times> nat) list \<Rightarrow> mem \<Rightarrow> ptr \<Rightarrow> bool" where
  "new_block P hs m p \<longleftrightarrow> (\<exists>b. p = Ptr b 0 \<and> b \<notin> fst ` set hs \<and> b < nextb m \<and>
     blocks m b = Some (unat (next_size_m P) * asize P + 8) \<and>
     unat (next_size_m P) * asize P + 8 < address_space)"

fun owner_ok :: "pool \<Rightarrow> mem \<Rightarrow> (nat \<times> nat) list \<Rightarrow> ptr list \<Rightarrow> pool_at \<Rightarrow> bool" where
  "owner_ok P m hs fl MPop = (fl \<noteq> [])"
| "owner_ok P m hs fl (MTail p) = new_block P hs m p"
| "owner_ok P m hs fl (MLink p) = (new_block P hs m p \<and> hs \<noteq> [])"
| "owner_ok P m hs fl (MCarve p) = (new_block P hs m p \<and> hs \<noteq> [] \<and>
     (\<exists>T\<in>set (fl @ [tail_m P]). load_ptr m (last_chunk P p) = Inr T))"
| "owner_ok P m hs fl _ = True"

definition linked_ok :: "race \<Rightarrow> bool" where
  "linked_ok s \<longleftrightarrow> (\<forall>t c. rat s t = ATail c \<longrightarrow> load_ptr (rmem s) (tail_m (rpool s)) = Inr c)"

definition users_ok :: "race \<Rightarrow> ptr set \<Rightarrow> bool" where
  "users_ok s L \<longleftrightarrow> (\<forall>t. distinct (rheld s t) \<and> set (rheld s t) \<inter> giving (rat s t) = {} \<and> owned s t \<subseteq> L) \<and>
     (\<forall>t u. t \<noteq> u \<longrightarrow> owned s t \<inter> owned s u = {})"

definition sections_ok :: "race \<Rightarrow> bool" where
  "sections_ok s \<longleftrightarrow> reach lock_step lock_init (race_lock s) \<and> (\<forall>t. in_lock (rat s t) \<longrightarrow> rlpcs s t = WIn)"

definition no_fault :: "race \<Rightarrow> bool" where
  "no_fault s \<longleftrightarrow> (\<forall>t e. rat s t \<noteq> Failed e)"

definition race_inv :: "race \<Rightarrow> (nat \<times> nat) list \<Rightarrow> ptr list \<Rightarrow> bool" where
  "race_inv s hs fl \<longleftrightarrow> pool_inv (rmem s) (unlocked (rpool s)) hs fl \<and>
     owner_ok (rpool s) (rmem s) hs fl (rat s 0) \<and> linked_ok s \<and>
     users_ok s (live (unlocked (rpool s)) hs fl) \<and> sections_ok s \<and> no_fault s"

text \<open>Threads inside the section of \<open>free_append\<close> are one thread.\<close>

lemma one_in_lock:
  assumes "sections_ok s" and "in_lock (rat s t)" and "in_lock (rat s u)"
  shows "t = u"
proof -
  have "holds_write (race_lock s) t" "holds_write (race_lock s) u"
    using assms by (simp_all add: sections_ok_def holds_write_def)
  then show ?thesis using assms(1) wl.exclusive by (auto simp: sections_ok_def)
qed

lemma sections_ok_go:
  assumes "sections_ok s" and "rat s' = (rat s)(t := rat s' t)" and "race_lock s' = race_lock s"
    and "in_lock (rat s' t) \<longrightarrow> rlpcs s t = WIn"
  shows "sections_ok s'"
proof -
  have "rlpcs s' = rlpcs s" using assms(3) by (metis race_sel(21))
  then show ?thesis unfolding sections_ok_def assms(3)
    by (metis assms(1,2,4) fun_upd_apply sections_ok_def)
qed

lemma sections_ok_locking:
  assumes "sections_ok s" and "rat s t = ALock c" and "lock_step (race_lock s) t l"
  shows "sections_ok (with_lock s l)"
proof -
  have l: "race_lock (with_lock s l) = l" by (simp add: race_lock_def)
  have r: "reach lock_step lock_init (race_lock s)" using assms(1) by (simp add: sections_ok_def)
  then have "reach lock_step lock_init l" using assms(3) by (rule reach.reach_step)
  moreover have "pcs l u = WIn" if "in_lock (rat s u)" for u
  proof -
    have "u \<noteq> t" using that assms(2) by auto
    then show ?thesis
      using wl.others_keep [OF r assms(3), of u] that assms(1) by (simp add: holds_write_def sections_ok_def)
  qed
  ultimately show ?thesis by (simp add: sections_ok_def l)
qed

lemma sections_ok_unlock:
  assumes "sections_ok s" and "rat s t = AUnlock" and "rlpcs s t = WIn"
  shows "sections_ok (go (with_lock s (at (race_lock s) t Out (Unlock (lock_tail_m (rpool s))))) t Away)"
    (is "sections_ok ?s'")
proof -
  let ?l = "at (race_lock s) t Out (Unlock (lock_tail_m (rpool s)))"
  have l: "race_lock ?s' = ?l" by (simp add: race_lock_def go_def with_lock_def)
  have "lock_step (race_lock s) t ?l" using Unlock_call [of "race_lock s" t] assms(3) by simp
  then have "reach lock_step lock_init ?l"
    using assms(1) unfolding sections_ok_def by (meson reach.reach_step)
  moreover have "\<not> in_lock (rat s u)" if "u \<noteq> t" for u
    using one_in_lock [OF assms(1), of u t] that assms(2) by auto
  ultimately show ?thesis by (simp add: sections_ok_def l)
qed

lemma users_okD:
  assumes "users_ok s L"
  shows "distinct (rheld s t)" "set (rheld s t) \<inter> giving (rat s t) = {}" "owned s t \<subseteq> L"
    "t \<noteq> u \<Longrightarrow> owned s t \<inter> owned s u = {}"
  using assms unfolding users_ok_def by blast+

text \<open>One thread changes what it owns; the others do not notice.\<close>

lemma users_ok_change:
  assumes u: "users_ok s L" and others: "\<And>v. v \<noteq> t \<Longrightarrow> rheld s' v = rheld s v \<and> rat s' v = rat s v"
    and mine: "distinct (rheld s' t)" "set (rheld s' t) \<inter> giving (rat s' t) = {}" "owned s' t \<subseteq> L'"
    and sub: "\<And>v. v \<noteq> t \<Longrightarrow> owned s v \<subseteq> L'" and new: "\<And>v. v \<noteq> t \<Longrightarrow> owned s' t \<inter> owned s v = {}"
  shows "users_ok s' L'"
proof -
  have o: "owned s' v = owned s v" if "v \<noteq> t" for v using others [OF that] by (simp add: owned_def)
  have "distinct (rheld s' v) \<and> set (rheld s' v) \<inter> giving (rat s' v) = {} \<and> owned s' v \<subseteq> L'" for v
    using mine users_okD [OF u, of v] others [of v] sub [of v] o [of v] by (cases "v = t") auto
  moreover have "owned s' v \<inter> owned s' w = {}" if "v \<noteq> w" for v w
    using that o new users_okD(4) [OF u that] by (cases "v = t"; cases "w = t") (auto simp: Int_commute)
  ultimately show ?thesis unfolding users_ok_def by blast
qed

lemma users_ok_shrink:
  assumes u: "users_ok s L" and others: "\<And>v. v \<noteq> t \<Longrightarrow> rheld s' v = rheld s v \<and> rat s' v = rat s v"
    and mine: "distinct (rheld s' t)" "set (rheld s' t) \<inter> giving (rat s' t) = {}" "owned s' t \<subseteq> owned s t"
    and sub: "\<And>v. owned s v \<subseteq> L \<Longrightarrow> v \<noteq> t \<Longrightarrow> owned s v \<subseteq> L'" "owned s' t \<subseteq> L'"
  shows "users_ok s' L'"
proof (rule users_ok_change [OF u others mine(1,2) sub(2)])
  show "owned s v \<subseteq> L'" if "v \<noteq> t" for v using sub(1) users_okD(3) [OF u] that by blast
  show "owned s' t \<inter> owned s v = {}" if "v \<noteq> t" for v
    using users_okD(4) [OF u, of t v] mine(3) that by blast
qed

end
