(* ===== verification/PoolRaceInv.thy ===== *)
theory PoolRaceInv
  imports PoolRace
begin

section \<open>The invariant of a pool that many threads use\<close>

text \<open>
  Step by step: what each step of the owner and of the other threads does to the lists, and that the
  invariant of theory \<open>PoolRace\<close> survives it.
\<close>

subsection \<open>Cutting a block, with the list growing behind \<open>tail_\<close> meanwhile\<close>

lemma blocks_ok_new:
  assumes "blocks_ok m P hs" and "changed_only m m' b lo hi" and "b \<notin> fst ` set hs"
  shows "blocks_ok m' P hs"
proof (rule blocks_ok_frame [OF assms(1)])
  fix b' assume "b' \<in> fst ` set hs"
  then have "b' \<noteq> b" using assms(3) by blast
  then show "load_ptr m' (Ptr b' 0) = load_ptr m (Ptr b' 0)" using changed_only_load_ptr [OF assms(2)] by blast
qed (use assms(2) in \<open>simp add: changed_only_def\<close>)

lemma finish_block_ok:
  assumes mo: "mem_ok m" and bo: "blocks_ok m P hs" and lt: "lock_tail_m P = Spinlock"
    and n: "n = unat (next_size_m P)" "32 \<le> n" and a: "a = asize P" "8 \<le> a"
    and na: "n * a + 8 < address_space"
    and b: "b \<notin> fst ` set hs" "blocks m b = Some (8 + n * a)"
    and ch: "chain m (Ptr b 8) (map (chunk b 8 a) [0..<K] @ fl2) (tail_m P)" and K: "0 < K"
    and d: "distinct (map (chunk b 8 a) [1..<K] @ fl2 @ [tail_m P])"
    and sub: "set (map (chunk b 8 a) [1..<K] @ fl2 @ [tail_m P]) \<subseteq> chunks a ((b, n) # hs)"
    and hd: "head_m P = Ptr b 8"
  shows "\<exists>h m'. finish_block P (Ptr b 0) m =
       Inr (Ptr b 8, P\<lparr>head_m := h, first_m := Ptr b 0, next_size_m := push_bit 1 (next_size_m P)\<rparr>, m') \<and>
     pool_inv m' (P\<lparr>head_m := h, first_m := Ptr b 0, next_size_m := push_bit 1 (next_size_m P)\<rparr>)
       ((b, n) # hs) (map (chunk b 8 a) [1..<K] @ fl2) \<and> changed_only m m' b 0 8"
proof -
  have "valid m b 0 8" using b(2) a(2) by (simp add: valid_def)
  then obtain m' where m': "store_ptr m (Ptr b 0) (first_m P) = Inr m'" using store_ptr_ok by blast
  have co: "changed_only m m' b 0 8" using store_ptr_changed [OF m'] by simp
  have bl: "blocks m' = blocks m" "nextb m' = nextb m" using co by (simp_all add: changed_only_def)
  have "load_ptr m' x = load_ptr m x" if x: "x \<in> set (map (chunk b 8 a) [0..<K] @ fl2)" for x
  proof -
    have "x = Ptr b 8 \<or> x \<in> chunks a ((b, n) # hs)"
      using x sub unfolding map_chunk_upt [OF K] by auto
    then obtain b' i where "x = Ptr b' i" "8 \<le> i" using chunks_Ptr chunks_block by blast
    then show ?thesis using changed_only_load_ptr [OF co] by simp
  qed
  then have "chain m' (Ptr b 8) (map (chunk b 8 a) [0..<K] @ fl2) (tail_m P)"
    using ch chain_frame by blast
  then obtain h where h: "load_ptr m' (Ptr b 8) = Inr h"
    and ch': "chain m' h (map (chunk b 8 a) [1..<K] @ fl2) (tail_m P)"
    unfolding map_chunk_upt [OF K] append_Cons chain_Cons_iff by blast
  let ?P = "P\<lparr>head_m := h, first_m := Ptr b 0, next_size_m := push_bit 1 (next_size_m P)\<rparr>"
  have run: "finish_block P (Ptr b 0) m = Inr (Ptr b 8, ?P, m')"
    using m' h hd by (simp add: finish_block_def set_next_of_def next_of_def seg_malloc_def)
  have "blocks_ok m' ?P ((b, n) # hs)"
    using blocks_ok_new [OF bo co b(1)] b n(2) a(1) bl load_store_ptr_same [OF m'] by (simp add: blocks_ok_def)
  moreover have "free_ok m' ?P ((b, n) # hs) (map (chunk b 8 a) [1..<K] @ fl2)"
    using ch' d sub a(1) by (simp add: free_ok_def)
  moreover have "n * 8 \<le> n * a" using a(2) by (rule mult_le_mono2)
  then have "n * 8 < 2 ^ 47" using na unfolding address_space_def by (meson add_lessD1 le_less_trans)
  then have "2 * unat (next_size_m P) < 2 ^ 64" unfolding n(1) [symmetric] by simp
  then have next': "unat (push_bit 1 (next_size_m P)) = 2 * n" unfolding n(1) by (rule unat_double)
  moreover have "room ?P" using next' na a(1) by (simp add: room_def address_space_def)
  moreover have "mem_ok m'" using mo bl by (simp add: mem_ok_def)
  ultimately have "pool_inv m' ?P ((b, n) # hs) (map (chunk b 8 a) [1..<K] @ fl2)"
    using n(2) a lt by (simp add: pool_inv_def)
  with run co show ?thesis by blast
qed

text \<open>The numbers of the block that is being cut.\<close>

lemma new_block_sizes:
  assumes inv: "pool_inv m P hs fl" and nb: "new_block P hs m (Ptr b i)"
  shows "i = 0" "b \<notin> fst ` set hs" "b < nextb m" "blocks m b = Some (8 + unat (next_size_m P) * asize P)"
    "unat (next_size_m P) * asize P + 8 < address_space" "unat (block_size P) = unat (next_size_m P) * asize P"
    "32 \<le> unat (next_size_m P)" "8 \<le> asize P" "last_chunk P (Ptr b i) = chunk b 8 (asize P) (unat (next_size_m P) - 1)"
    "\<forall>k<unat (next_size_m P). valid m b (8 + int k * int (asize P)) 8"
proof -
  show r: "i = 0" "b \<notin> fst ` set hs" "b < nextb m" "blocks m b = Some (8 + unat (next_size_m P) * asize P)"
    "unat (next_size_m P) * asize P + 8 < address_space" "32 \<le> unat (next_size_m P)" "8 \<le> asize P"
    using nb inv by (auto simp: new_block_def pool_inv_def)
  show bs: "unat (block_size P) = unat (next_size_m P) * asize P"
    using r(5) unfolding block_size_def address_space_def by (subst unat_mult_lem') auto
  obtain k where k: "unat (next_size_m P) = Suc k" using r(6) by (cases "unat (next_size_m P)") auto
  show "last_chunk P (Ptr b i) = chunk b 8 (asize P) (unat (next_size_m P) - 1)"
    unfolding last_chunk_def bs k r(1) by (simp add: chunk_def algebra_simps)
  show "\<forall>k<unat (next_size_m P). valid m b (8 + int k * int (asize P)) 8"
    using new_block_valid [OF r(4,7)] by blast
qed

lemma live_insert:
  assumes b: "b \<notin> fst ` set hs" and n: "0 < n" and a: "0 < asize P'"
    and sub: "set fl2 \<subseteq> set fl" and T: "tail_m P' = tail_m P" and al: "asize P' = asize P"
    and hs: "set (fl @ [tail_m P]) \<subseteq> chunks (asize P) hs"
  shows "insert (Ptr b 8) (live P hs fl) \<subseteq> live P' ((b, n) # hs) (map (chunk b 8 (asize P)) [1..<n] @ fl2)"
    and "Ptr b 8 \<notin> live P hs fl"
proof -
  have away: "chunk b 8 (asize P) k \<notin> chunks (asize P) hs" for k
    using b chunks_block unfolding chunk_def by blast
  have p0: "Ptr b 8 = chunk b 8 (asize P) 0" by simp
  show p: "Ptr b 8 \<notin> live P hs fl" using away [of 0] by (simp add: live_def)
  have "live P hs fl \<subseteq> live P' ((b, n) # hs) (map (chunk b 8 (asize P)) [1..<n] @ fl2)"
    using away sub T al unfolding live_def chunks_Cons by auto
  moreover have "Ptr b 8 \<notin> set (map (chunk b 8 (asize P)) [1..<n])"
    unfolding p0 using a al by (auto simp: chunk_inj simp del: chunk_0)
  moreover have "Ptr b 8 \<noteq> tail_m P" "Ptr b 8 \<notin> set fl2" using away [of 0] hs sub by auto
  moreover have "Ptr b 8 \<in> chunks (asize P) ((b, n) # hs)"
    unfolding chunks_Cons p0 using n by (simp del: chunk_0)
  ultimately show "insert (Ptr b 8) (live P hs fl) \<subseteq>
      live P' ((b, n) # hs) (map (chunk b 8 (asize P)) [1..<n] @ fl2)"
    using T al by (simp add: live_def)
qed

text \<open>
  The second half of growing: the block is linked to the chunk that was the tail when
  \<open>segregate\<close> read it; if the list has grown since, the new list joins the old one at that chunk,
  and what lies before it is in the list no more.
\<close>

lemma carve_ok:
  assumes inv: "pool_inv m P hs fl" and nb: "new_block P hs m (Ptr b i)" and hs: "hs \<noteq> []"
    and fl: "fl = pre @ fl2" and ld: "load_ptr m (last_chunk P (Ptr b i)) = Inr (hd (fl2 @ [tail_m P]))"
  shows "\<exists>h m'. carve P (Ptr b i) m = Inr (Ptr b 8,
         P\<lparr>head_m := h, first_m := Ptr b 0, next_size_m := push_bit 1 (next_size_m P)\<rparr>, m') \<and>
     pool_inv m' (P\<lparr>head_m := h, first_m := Ptr b 0, next_size_m := push_bit 1 (next_size_m P)\<rparr>)
       ((b, unat (next_size_m P)) # hs) (map (chunk b 8 (asize P)) [1..<unat (next_size_m P)] @ fl2) \<and>
     keeps m m' {b}"
proof -
  note sz = new_block_sizes [OF inv nb]
  define n a where na: "n = unat (next_size_m P)" "a = asize P"
  obtain k where k: "n = Suc (Suc k)" using sz(7) na(1) by (cases n; cases "n - 1") auto
  have a8: "8 \<le> a" and n32: "32 \<le> n" using sz(7,8) na by simp_all
  have bo: "blocks_ok m P hs" and fo: "free_ok m P hs fl" and mo: "mem_ok m" and lt: "lock_tail_m P = Spinlock"
    using inv by (simp_all add: pool_inv_def)
  have last: "last_chunk P (Ptr b i) = chunk b 8 a (Suc k)"
    using sz(9) unfolding na [symmetric] k by simp
  have "\<forall>j\<le>k. valid m b (8 + int j * int (unat (alloc_size_m P))) 8" using sz(10) na k by simp
  from segregate_loop_ok [OF this, of "chunk b 8 a (Suc k)"] a8 na(2) obtain m1 where
    run: "segregate_loop m (Ptr b 8) (chunk b 8 a k) (chunk b 8 a (Suc k)) (alloc_size_m P) = Inr m1"
    and ch: "chain m1 (Ptr b 8) (map (chunk b 8 a) [0..<Suc k]) (chunk b 8 a (Suc k))"
    and co: "changed_only m m1 b 8 (8 + int k * int a + 8)" by auto
  have co': "changed_only m m1 b 0 (8 + int k * int a + 8)" using co by (rule changed_only_mono) simp_all
  have ld1: "load_ptr m1 (chunk b 8 a (Suc k)) = Inr (hd (fl2 @ [tail_m P]))"
    using ld changed_only_load_ptr [OF co, of b "8 + int (Suc k) * int a"] chunk_room [OF a8, of 8 k]
    unfolding last by (simp add: chunk_def)
  have sub: "set (fl @ [tail_m P]) \<subseteq> chunks a hs" using fo hs na by (simp add: free_ok_def)
  have "load_ptr m1 x = load_ptr m x" if x: "x \<in> set fl2" for x
  proof -
    have xc: "x \<in> chunks a hs" using x sub fl by auto
    then obtain b' i' where x: "x = Ptr b' i'" using chunks_Ptr by blast
    then have "b' \<noteq> b" using chunks_block xc sz(2) by blast
    then show ?thesis unfolding x using changed_only_load_ptr [OF co] by blast
  qed
  moreover have "chain m (hd (fl2 @ [tail_m P])) fl2 (tail_m P)"
    using fo chain_suffix unfolding fl free_ok_def by blast
  ultimately have ch2: "chain m1 (hd (fl2 @ [tail_m P])) fl2 (tail_m P)" using chain_frame by blast
  have "chain m1 (Ptr b 8) (map (chunk b 8 a) [0..<n]) (hd (fl2 @ [tail_m P]))"
    using ch ld1 chain_append [of m1 "Ptr b 8" "map (chunk b 8 a) [0..<Suc k]"] unfolding k by simp
  then have ch3: "chain m1 (Ptr b 8) (map (chunk b 8 a) [0..<n] @ fl2) (tail_m P)"
    using ch2 chain_app by blast
  have n0: "0 < n" using n32 by simp
  have away: "chunk b 8 a j \<notin> chunks a hs" for j using sz(2) chunks_block unfolding chunk_def by blast
  have d: "distinct (map (chunk b 8 a) [1..<n] @ fl2 @ [tail_m P])"
    using fo a8 away sub unfolding fl free_ok_def by (auto simp: distinct_chunks)
  have sb: "set (map (chunk b 8 a) [1..<n] @ fl2 @ [tail_m P]) \<subseteq> chunks a ((b, n) # hs)"
    using sub unfolding fl chunks_Cons by auto
  let ?P = "P\<lparr>head_m := Ptr b 8\<rparr>"
  have m1: "mem_ok m1" using mo co by (simp add: mem_ok_def changed_only_def)
  have bo1: "blocks_ok m1 ?P hs" using blocks_ok_new [OF bo co sz(2)] by (simp add: blocks_ok_def)
  have bl1: "blocks m1 b = Some (8 + n * a)" using co sz(4) na by (simp add: changed_only_def)
  from finish_block_ok [OF m1 bo1, of n a b n fl2] lt na n32 a8 sz(2,5) bl1 ch3 n0 d sb
  obtain h m2 where fin: "finish_block ?P (Ptr b 0) m1 = Inr (Ptr b 8,
       ?P\<lparr>head_m := h, first_m := Ptr b 0, next_size_m := push_bit 1 (next_size_m P)\<rparr>, m2)"
    and pi: "pool_inv m2 (?P\<lparr>head_m := h, first_m := Ptr b 0, next_size_m := push_bit 1 (next_size_m P)\<rparr>)
       ((b, n) # hs) (map (chunk b 8 a) [1..<n] @ fl2)" and co2: "changed_only m1 m2 b 0 8" by auto
  have "padd (last_chunk P (Ptr b i)) (- int (unat (alloc_size_m P))) = chunk b 8 a k"
    unfolding last na(2) by (rule padd_chunk_back)
  then have "carve P (Ptr b i) m = finish_block ?P (Ptr b 0) m1"
    using run last sz(1) by (simp add: carve_def)
  moreover have "keeps m m2 {b}"
    using changed_only_keeps [OF co', of "{b}"] changed_only_keeps [OF co2, of "{b}"]
    by (auto intro: keeps_trans [of m m1 "{b}" m2 "{b}"])
  ultimately show ?thesis using fin pi na by (intro exI [of _ h] exI [of _ m2]) simp
qed

text \<open>The first block of a pool, cut in one piece.\<close>

lemma first_block_ok:
  assumes inv: "pool_inv m P [] fl" and nb: "new_block P [] m (Ptr b i)"
  shows "\<exists>h T m'. first_block P (Ptr b i) m = Inr (Ptr b 8,
         P\<lparr>head_m := h, tail_m := T, first_m := Ptr b 0, next_size_m := push_bit 1 (next_size_m P)\<rparr>, m') \<and>
     pool_inv m' (P\<lparr>head_m := h, tail_m := T, first_m := Ptr b 0, next_size_m := push_bit 1 (next_size_m P)\<rparr>)
       [(b, unat (next_size_m P))] (map (chunk b 8 (asize P)) [1..<unat (next_size_m P) - 1]) \<and>
     T = chunk b 8 (asize P) (unat (next_size_m P) - 1)"
proof -
  note sz = new_block_sizes [OF inv nb]
  define n a where na: "n = unat (next_size_m P)" "a = asize P"
  have a8: "8 \<le> a" and n32: "32 \<le> n" using sz(7,8) na by simp_all
  have mo: "mem_ok m" and lt: "lock_tail_m P = Spinlock" and tl: "tail_m P = Null" and bo: "blocks_ok m P []"
    using inv by (simp_all add: pool_inv_def free_ok_def)
  from segregate_ok [of "alloc_size_m P" n "block_size P" m b 8 P] sz(6,8,10) n32 na tl obtain m1 where
    seg: "segregate P (Ptr b 8) (block_size P) (alloc_size_m P) m =
      Inr (Ptr b 8, P\<lparr>tail_m := chunk b 8 a (n - 1)\<rparr>, m1)"
    and co: "changed_only m m1 b 8 (8 + int n * int a)"
    and ch: "chain m1 (Ptr b 8) (map (chunk b 8 a) [0..<n - 1]) (chunk b 8 a (n - 1))" by auto
  let ?T = "chunk b 8 a (n - 1)"
  let ?P = "P\<lparr>tail_m := ?T, head_m := Ptr b 8\<rparr>"
  have m1: "mem_ok m1" using mo co by (simp add: mem_ok_def changed_only_def)
  have bo1: "blocks_ok m1 ?P []" using blocks_ok_new [OF bo co] by (simp add: blocks_ok_def)
  have bl1: "blocks m1 b = Some (8 + n * a)" using co sz(4) na by (simp add: changed_only_def)
  have "distinct (map (chunk b 8 a) [1..<n - 1] @ [] @ [?T])"
    using a8 by (auto simp: distinct_chunks chunk_inj)
  moreover have "set (map (chunk b 8 a) [1..<n - 1] @ [] @ [?T]) \<subseteq> chunks a ((b, n) # [])"
    using n32 by (auto simp: chunks_Cons)
  ultimately obtain h m2 where fin: "finish_block ?P (Ptr b 0) m1 = Inr (Ptr b 8,
       ?P\<lparr>head_m := h, first_m := Ptr b 0, next_size_m := push_bit 1 (next_size_m P)\<rparr>, m2)"
    and pi: "pool_inv m2 (?P\<lparr>head_m := h, first_m := Ptr b 0, next_size_m := push_bit 1 (next_size_m P)\<rparr>)
       ((b, n) # []) (map (chunk b 8 a) [1..<n - 1] @ [])"
    using finish_block_ok [OF m1 bo1, of n a b "n - 1" "[]"] lt na n32 a8 sz(5) bl1 ch by auto
  have "first_block P (Ptr b i) m = finish_block ?P (Ptr b 0) m1"
    using seg sz(1) by (simp add: first_block_def add_block_def)
  moreover have "?P\<lparr>head_m := h, first_m := Ptr b 0, next_size_m := push_bit 1 (next_size_m P)\<rparr> =
      P\<lparr>head_m := h, tail_m := ?T, first_m := Ptr b 0, next_size_m := push_bit 1 (next_size_m P)\<rparr>"
    by simp
  ultimately have "first_block P (Ptr b i) m = Inr (Ptr b 8,
       P\<lparr>head_m := h, tail_m := ?T, first_m := Ptr b 0, next_size_m := push_bit 1 (next_size_m P)\<rparr>, m2)"
    "pool_inv m2
       (P\<lparr>head_m := h, tail_m := ?T, first_m := Ptr b 0, next_size_m := push_bit 1 (next_size_m P)\<rparr>)
       [(b, n)] (map (chunk b 8 a) [1..<n - 1])" using fin pi by (simp_all only: append_Nil2)
  then show ?thesis unfolding na by blast
qed

text \<open>The word of the lock plays no part in the other operations.\<close>

definition with_word :: "spinlock \<Rightarrow> (ptr \<times> pool \<times> mem) res \<Rightarrow> (ptr \<times> pool \<times> mem) res" where
  "with_word l r = rbind r (\<lambda>(p, P, m). Inr (p, P\<lparr>lock_tail_m := l\<rparr>, m))"

lemma with_word_Inr [simp]: "with_word l (Inr (p, P, m)) = Inr (p, P\<lparr>lock_tail_m := l\<rparr>, m)"
  by (simp add: with_word_def)

lemma with_word_rbind: "with_word l (rbind r f) = rbind r (\<lambda>x. with_word l (f x))"
  by (simp add: with_word_def rbind_assoc)

lemma finish_unlocked: "finish_block P p m = with_word (lock_tail_m P) (finish_block (unlocked P) p m)"
  by (simp add: finish_block_def with_word_rbind seg_malloc_def rbind_assoc unlocked_def)

lemma carve_unlocked: "carve P p m = with_word (lock_tail_m P) (carve (unlocked P) p m)"
proof -
  have [simp]: "last_chunk (unlocked P) p = last_chunk P p"
    by (simp add: last_chunk_def block_size_def)
  have "finish_block (P\<lparr>head_m := q\<rparr>) p m' =
      with_word (lock_tail_m P) (finish_block ((unlocked P)\<lparr>head_m := q\<rparr>) p m')" for q m'
    using finish_unlocked [of "P\<lparr>head_m := q\<rparr>" p m'] by simp
  then show ?thesis by (simp add: carve_def with_word_rbind)
qed

lemma first_block_unlocked: "first_block P p m = with_word (lock_tail_m P) (first_block (unlocked P) p m)"
proof -
  have [simp]: "block_size (unlocked P) = block_size P" by (simp add: block_size_def)
  have f: "finish_block (P\<lparr>tail_m := t, head_m := q\<rparr>) p =
      (\<lambda>m'. with_word (lock_tail_m P) (finish_block ((unlocked P)\<lparr>tail_m := t, head_m := q\<rparr>) p m'))"
    "finish_block (P\<lparr>head_m := q\<rparr>) p =
      (\<lambda>m'. with_word (lock_tail_m P) (finish_block ((unlocked P)\<lparr>head_m := q\<rparr>) p m'))" for q t
    using finish_unlocked [of "P\<lparr>tail_m := t, head_m := q\<rparr>" p] finish_unlocked [of "P\<lparr>head_m := q\<rparr>" p]
    by (auto simp: fun_eq_iff)
  show ?thesis
    by (simp add: first_block_def add_block_def segregate_def Let_def with_word_rbind rbind_assoc f)
qed

lemma new_block_unlocked [simp]: "new_block (unlocked P) hs m p = new_block P hs m p"
  by (simp add: new_block_def)

lemma last_chunk_sel [simp]:
  "last_chunk (unlocked P) p = last_chunk P p" "last_chunk (P\<lparr>lock_tail_m := l\<rparr>) p = last_chunk P p"
  "last_chunk (P\<lparr>tail_m := t\<rparr>) p = last_chunk P p" "new_block (P\<lparr>tail_m := t\<rparr>) hs m p = new_block P hs m p"
  "new_block (P\<lparr>lock_tail_m := l\<rparr>) hs m p = new_block P hs m p"
  by (simp_all add: last_chunk_def block_size_def new_block_def)

lemma owner_ok_sel [simp]: "owner_ok (P\<lparr>lock_tail_m := l\<rparr>) m hs fl c = owner_ok P m hs fl c"
  by (cases c) simp_all

subsection \<open>Every step keeps the invariant\<close>

lemma race_invD:
  assumes "race_inv s hs fl"
  shows "pool_inv (rmem s) (unlocked (rpool s)) hs fl" "owner_ok (rpool s) (rmem s) hs fl (rat s 0)"
    "linked_ok s" "users_ok s (live (unlocked (rpool s)) hs fl)" "sections_ok s" "no_fault s"
  using assms by (simp_all add: race_inv_def)

lemma no_fault_go: "no_fault s \<Longrightarrow> \<forall>e. c \<noteq> Failed e \<Longrightarrow> rat s' = (rat s)(t := c) \<Longrightarrow> no_fault s'"
  by (simp add: no_fault_def)

lemma linked_ok_go:
  "linked_ok s \<Longrightarrow> rmem s' = rmem s \<Longrightarrow> tail_m (rpool s') = tail_m (rpool s) \<Longrightarrow> rat s' = (rat s)(t := c) \<Longrightarrow>
   \<forall>x. c = ATail x \<longrightarrow> load_ptr (rmem s) (tail_m (rpool s)) = Inr x \<Longrightarrow> linked_ok s'"
  by (simp add: linked_ok_def)

text \<open>A step that only moves a thread in its code.\<close>

lemma race_inv_go:
  assumes inv: "race_inv s hs fl" and g: "giving c = giving (rat s t)"
    and o: "t = 0 \<Longrightarrow> owner_ok (rpool s) (rmem s) hs fl c"
    and i: "in_lock c \<longrightarrow> rlpcs s t = WIn" and n: "\<forall>x. c \<noteq> ATail x" "\<forall>e. c \<noteq> Failed e"
  shows "race_inv (go s t c) hs fl"
proof -
  note I = race_invD [OF inv]
  have "users_ok (go s t c) (live (unlocked (rpool s)) hs fl)"
    by (rule users_ok_shrink [OF I(4), where t = t])
      (use g users_okD [OF I(4), of t] in \<open>auto simp: owned_def\<close>)
  moreover have "sections_ok (go s t c)"
    by (rule sections_ok_go [OF I(5), where t = t]) (use i in \<open>simp_all add: race_lock_def\<close>)
  moreover have "owner_ok (rpool s) (rmem s) hs fl (rat (go s t c) 0)" using o I(2) by (cases "t = 0") auto
  moreover have "linked_ok (go s t c)" by (rule linked_ok_go [OF I(3)]) (use n in auto)
  moreover have "no_fault (go s t c)" by (rule no_fault_go [OF I(6) n(2)]) simp
  ultimately show ?thesis using I(1) by (simp add: race_inv_def)
qed

text \<open>A call that gives a chunk back begins.\<close>

lemma race_inv_take:
  assumes inv: "race_inv s hs fl" and a: "rat s t = Away" and c: "c \<in> set (rheld s t)"
    and g: "giving x = {c}" and n: "\<not> in_lock x" "\<forall>x'. x \<noteq> ATail x'" "\<forall>e. x \<noteq> Failed e"
    and o: "t = 0 \<Longrightarrow> owner_ok (rpool s) (rmem s) hs fl x"
  shows "race_inv (go (take_chunk s t c) t x) hs fl"
proof -
  note I = race_invD [OF inv]
  let ?s = "go (take_chunk s t c) t x"
  have "users_ok ?s (live (unlocked (rpool s)) hs fl)"
    by (rule users_ok_shrink [OF I(4), where t = t])
      (use g c users_okD [OF I(4), of t] in \<open>auto simp: owned_def dest: set_remove1_subset [THEN subsetD]\<close>)
  moreover have "sections_ok ?s"
    by (rule sections_ok_go [OF I(5), where t = t]) (use n in \<open>simp_all add: race_lock_def take_chunk_def go_def\<close>)
  moreover have "owner_ok (rpool s) (rmem s) hs fl (rat ?s 0)" using o I(2) by (cases "t = 0") auto
  moreover have "linked_ok ?s" by (rule linked_ok_go [OF I(3)]) (use n in auto)
  moreover have "no_fault ?s" by (rule no_fault_go [OF I(6) n(3)]) simp
  ultimately show ?thesis using I(1) by (simp add: race_inv_def)
qed

lemma race_inv_pass:
  assumes inv: "race_inv s hs fl" and c: "c \<in> set (rheld s t)" and tu: "t \<noteq> u"
  shows "race_inv (give_chunk (take_chunk s t c) u c) hs fl"
proof -
  note I = race_invD [OF inv]
  let ?s = "give_chunk (take_chunk s t c) u c" and ?m = "take_chunk s t c"
  have m: "users_ok ?m (live (unlocked (rpool s)) hs fl)"
    by (rule users_ok_shrink [OF I(4), where t = t])
      (use users_okD [OF I(4), of t] in \<open>auto simp: owned_def dest: set_remove1_subset [THEN subsetD]\<close>)
  have ct: "c \<notin> owned ?m v" for v
  proof (cases "v = t")
    case True
    then show ?thesis using users_okD(1,2) [OF I(4), of t] c by (auto simp: owned_def)
  next
    case False
    then have "owned s t \<inter> owned s v = {}" using users_okD(4) [OF I(4)] by metis
    then show ?thesis using c False by (auto simp: owned_def)
  qed
  have "users_ok ?s (live (unlocked (rpool s)) hs fl)"
  proof (rule users_ok_change [OF m, where t = u])
    show "owned ?s u \<inter> owned ?m v = {}" if "v \<noteq> u" for v
      using users_okD(4) [OF m, of u v] ct [of v] that by (auto simp: owned_def)
    show "distinct (rheld ?s u)" "set (rheld ?s u) \<inter> giving (rat ?s u) = {}"
      using users_okD(1,2) [OF m, of u] ct [of u] by (auto simp: owned_def)
    show "owned ?s u \<subseteq> live (unlocked (rpool s)) hs fl"
      using users_okD(3) [OF m, of u] users_okD(3) [OF I(4), of t] c by (auto simp: owned_def)
  qed (use users_okD(3) [OF m] in auto)
  then show ?thesis
    using I by (simp add: race_inv_def linked_ok_def sections_ok_def no_fault_def race_lock_def
        give_chunk_def take_chunk_def)
qed

text \<open>Steps of the lock.\<close>

lemma race_inv_with_lock:
  assumes inv: "race_inv s hs fl" and s: "sections_ok (with_lock s l)"
  shows "race_inv (with_lock s l) hs fl"
  using race_invD [OF inv] s
  by (simp add: race_inv_def linked_ok_def users_ok_def owned_def no_fault_def)

lemma race_inv_unlock:
  assumes inv: "race_inv s hs fl" and "rat s t = AUnlock" and "rlpcs s t = WIn"
  shows "race_inv (go (with_lock s (at (race_lock s) t Out (Unlock (lock_tail_m (rpool s))))) t Away) hs fl"
    (is "race_inv ?s hs fl")
proof -
  note I = race_invD [OF inv]
  have "users_ok ?s (live (unlocked (rpool s)) hs fl)"
    by (rule users_ok_shrink [OF I(4), where t = t])
      (use users_okD [OF I(4), of t] in \<open>auto simp: owned_def\<close>)
  moreover have "owner_ok (rpool s) (rmem s) hs fl (rat ?s 0)" using I(2) by (cases "t = 0") auto
  ultimately show ?thesis using I sections_ok_unlock [OF I(5) assms(2,3)]
    by (simp add: race_inv_def linked_ok_def no_fault_def)
qed

text \<open>A store that stays inside one chunk, or inside the block that is being cut.\<close>

lemma new_block_mem:
  "new_block P hs m p \<Longrightarrow> blocks m' = blocks m \<Longrightarrow> nextb m' = nextb m \<Longrightarrow> new_block P hs m' p"
  by (simp add: new_block_def)

lemma owner_ok_store:
  assumes o: "owner_ok P m hs fl c" and inv: "pool_inv m (unlocked P) hs fl"
    and ch: "changed_only m m' b lo hi" and b: "b \<in> fst ` set hs"
  shows "owner_ok P m' hs fl c"
proof (cases c)
  case (MCarve p)
  with o obtain i b' where nb: "new_block P hs m (Ptr b' i)" and p: "p = Ptr b' i"
    by (auto simp: new_block_def)
  note sz = new_block_sizes [OF inv, of b' i]
  have "b' \<noteq> b" using sz(2) nb b by auto
  then have "load_ptr m' (last_chunk P p) = load_ptr m (last_chunk P p)"
    using sz(9) nb changed_only_load_ptr [OF ch] unfolding p by (simp add: chunk_def)
  moreover have "new_block P hs m' p"
    using nb new_block_mem ch unfolding p by (simp add: changed_only_def)
  ultimately show ?thesis using o MCarve by simp
qed (use o ch new_block_mem in \<open>auto simp: changed_only_def\<close>)

lemma linked_ok_store:
  assumes inv: "race_inv s hs fl" and c: "Ptr b i \<in> live (unlocked (rpool s)) hs fl"
    and ch: "changed_only (rmem s) m' b i (i + int (asize (rpool s)))" and l: "rat s t = ATail x"
  shows "load_ptr m' (tail_m (rpool s)) = Inr x"
proof -
  note I = race_invD [OF inv]
  have ne: "hs \<noteq> []" using c by (auto simp: live_def)
  have fo: "free_ok (rmem s) (unlocked (rpool s)) hs fl" using I(1) by (simp add: pool_inv_def)
  have T: "tail_m (rpool s) \<in> chunks (asize (rpool s)) hs" using fo ne by (simp add: free_ok_def)
  then obtain b' i' where t: "tail_m (rpool s) = Ptr b' i'" using chunks_Ptr by blast
  have "b \<noteq> b' \<or> i + int (asize (rpool s)) \<le> i' \<or> i' + int (asize (rpool s)) \<le> i"
    by (rule chunks_apart [of b i "asize (rpool s)" hs]) (use c T t in \<open>auto simp: live_def\<close>)
  moreover have "8 \<le> asize (rpool s)" using I(1) by (simp add: pool_inv_def)
  ultimately have "load_ptr m' (Ptr b' i') = load_ptr (rmem s) (Ptr b' i')"
    using changed_only_load_ptr [OF ch] by fastforce
  then show ?thesis using I(3) l t by (auto simp: linked_ok_def)
qed

lemma race_inv_write:
  assumes inv: "race_inv s hs fl" and c: "Ptr b i \<in> set (rheld s t)"
    and d: "0 \<le> d" "d + int (length cs) \<le> int (asize (rpool s))"
    and st: "store_cells (rmem s) (Ptr b (i + d)) cs = Inr m"
  shows "race_inv (s\<lparr>rmem := m\<rparr>) hs fl"
proof -
  note I = race_invD [OF inv]
  have l: "Ptr b i \<in> live (unlocked (rpool s)) hs fl"
    using users_okD(3) [OF I(4), of t] c by (auto simp: owned_def)
  have ch: "changed_only (rmem s) m b i (i + int (asize (rpool s)))"
    using store_cells_changed [OF st] by (rule changed_only_mono) (use d in auto)
  have "pool_inv m (unlocked (rpool s)) hs fl" by (rule user_store_inv [OF I(1) l st]) (use d in auto)
  moreover have "owner_ok (rpool s) m hs fl (rat s 0)"
    by (rule owner_ok_store [OF I(2,1) ch live_block [OF l]])
  moreover have "linked_ok (s\<lparr>rmem := m\<rparr>)" using linked_ok_store [OF inv l ch] by (simp add: linked_ok_def)
  ultimately show ?thesis
    using I by (simp add: race_inv_def users_ok_def owned_def sections_ok_def no_fault_def race_lock_def)
qed

text \<open>The owner puts a chunk at the head.\<close>

lemma giving_live:
  "race_inv s hs fl \<Longrightarrow> c \<in> giving (rat s t) \<Longrightarrow> c \<in> live (unlocked (rpool s)) hs fl"
  using users_okD(3) [OF race_invD(4), of s hs fl t] by (auto simp: owned_def)

lemma users_ok_give_up:
  assumes inv: "race_inv s hs fl" and g: "giving (rat s t) = {c}" "giving x = {}"
    and s': "rat s' = (rat s)(t := x)" "rheld s' = rheld s"
  shows "users_ok s' (live (unlocked (rpool s)) hs fl - {c})"
proof (rule users_ok_shrink [OF race_invD(4) [OF inv], where t = t])
  note U = users_okD [OF race_invD(4) [OF inv]]
  show "owned s' t \<subseteq> owned s t" using g s' by (auto simp: owned_def)
  show "owned s' t \<subseteq> live (unlocked (rpool s)) hs fl - {c}"
    using U(2,3) [of t] g s' by (auto simp: owned_def)
  show "owned s v \<subseteq> live (unlocked (rpool s)) hs fl - {c}"
    if "owned s v \<subseteq> live (unlocked (rpool s)) hs fl" "v \<noteq> t" for v
    using U(4) [of t v] that g by (auto simp: owned_def)
qed (use s' g users_okD(1) [OF race_invD(4) [OF inv]] in auto)

lemma race_inv_put:
  assumes inv: "race_inv s hs fl" and a: "rat s 0 = FPut c"
  shows "\<exists>m'. seg_free (rpool s) c (rmem s) = Inr ((rpool s)\<lparr>head_m := c\<rparr>, m') \<and>
     race_inv (go (s\<lparr>rpool := (rpool s)\<lparr>head_m := c\<rparr>, rmem := m'\<rparr>) 0 Away) hs (c # fl)"
proof -
  note I = race_invD [OF inv]
  have l: "c \<in> live (unlocked (rpool s)) hs fl" using giving_live [OF inv, of c 0] a by simp
  from Free_ok [OF I(1) l] obtain m' b i where
    f: "Free (unlocked (rpool s)) c (rmem s) = Inr ((unlocked (rpool s))\<lparr>head_m := c\<rparr>, m')"
    and p: "pool_inv m' ((unlocked (rpool s))\<lparr>head_m := c\<rparr>) hs (c # fl)"
    and ch: "c = Ptr b i" "changed_only (rmem s) m' b i (i + int (asize (rpool s)))" by auto
  let ?s = "go (s\<lparr>rpool := (rpool s)\<lparr>head_m := c\<rparr>, rmem := m'\<rparr>) 0 Away"
  have "seg_free (rpool s) c (rmem s) = Inr ((rpool s)\<lparr>head_m := c\<rparr>, m')"
    using f by (auto simp: Free_def seg_free_def)
  moreover have "users_ok ?s (live ((unlocked (rpool s))\<lparr>head_m := c\<rparr>) hs (c # fl))"
    unfolding live_Free [OF l] by (rule users_ok_give_up [OF inv, of 0 c Away]) (use a in simp_all)
  moreover have "linked_ok ?s"
    using linked_ok_store [OF inv, of b i m'] l ch by (auto simp: linked_ok_def)
  moreover have "sections_ok ?s"
    by (rule sections_ok_go [OF I(5), where t = 0]) (simp_all add: race_lock_def)
  moreover have "no_fault ?s" by (rule no_fault_go [OF I(6)]) auto
  ultimately show ?thesis using p by (auto simp: race_inv_def)
qed

text \<open>Another thread links a chunk behind the tail, then moves the tail.\<close>

lemma race_inv_link_tail:
  assumes inv: "race_inv s hs fl" and a: "rat s t = ALink c"
  shows "\<exists>m'. set_next_of (rmem s) (tail_m (rpool s)) c = Inr m' \<and>
     race_inv (go (s\<lparr>rmem := m'\<rparr>) t (ATail c)) hs fl"
proof -
  note I = race_invD [OF inv]
  have l: "c \<in> live (unlocked (rpool s)) hs fl" using giving_live [OF inv, of c t] a by simp
  then have hs: "hs \<noteq> []" by (auto simp: live_def)
  have fo: "free_ok (rmem s) (unlocked (rpool s)) hs fl" using I(1) by (simp add: pool_inv_def)
  have tc: "tail_m (rpool s) \<in> chunks (asize (rpool s)) hs" and tf: "tail_m (rpool s) \<notin> set fl"
    using fo hs by (simp_all add: free_ok_def)
  obtain b i where tp: "tail_m (rpool s) = Ptr b i" using tc chunks_Ptr by blast
  have bi: "Ptr b i \<in> chunks (asize (unlocked (rpool s))) hs" using tc tp by simp
  obtain m' where m': "store_ptr (rmem s) (Ptr b i) c = Inr m'"
    using store_ptr_ok chunk_cell_valid [OF I(1) bi] by blast
  have ch: "changed_only (rmem s) m' b i (i + int (asize (unlocked (rpool s))))"
    using store_ptr_changed [OF m'] I(1) by (auto simp: pool_inv_def intro: changed_only_mono)
  have sub: "set fl \<subseteq> chunks (asize (unlocked (rpool s))) hs" using free_chunk [OF fo] by blast
  note fr = pool_frame_chunk [OF I(1) bi ch sub tf [unfolded tp]]
  have p: "pool_inv m' (unlocked (rpool s)) hs fl"
    using I(1) fr(1,2) free_ok_frame [OF fo fr(3)] by (simp add: pool_inv_def)
  let ?s = "go (s\<lparr>rmem := m'\<rparr>) t (ATail c)"
  have bh: "b \<in> fst ` set hs" using bi chunks_block by blast
  have "owner_ok (rpool s) m' hs fl (rat ?s 0)"
    using owner_ok_store [OF I(2,1) ch bh] by (cases "t = 0") auto
  moreover have "linked_ok ?s"
    unfolding linked_ok_def
  proof (intro allI impI)
    fix u x assume u: "rat ?s u = ATail x"
    have "u = t" using one_in_lock [OF I(5), of u t] u a by (cases "u = t") auto
    then show "load_ptr (rmem ?s) (tail_m (rpool ?s)) = Inr x"
      using u load_store_ptr_same [OF m'] tp by simp
  qed
  moreover have "users_ok ?s (live (unlocked (rpool s)) hs fl)"
    by (rule users_ok_shrink [OF I(4), where t = t])
      (use a users_okD [OF I(4), of t] in \<open>auto simp: owned_def\<close>)
  moreover have "rlpcs s t = WIn" using I(5) a by (simp add: sections_ok_def)
  then have "sections_ok ?s"
    by (intro sections_ok_go [OF I(5), where t = t]) (simp_all add: race_lock_def)
  moreover have "no_fault ?s" by (rule no_fault_go [OF I(6)]) auto
  ultimately show ?thesis using p m' tp by (auto simp: race_inv_def set_next_of_def)
qed

lemma race_inv_move_tail:
  assumes inv: "race_inv s hs fl" and a: "rat s t = ATail c"
  shows "race_inv (go (s\<lparr>rpool := (rpool s)\<lparr>tail_m := c\<rparr>\<rparr>) t AUnlock) hs (fl @ [tail_m (rpool s)])"
proof -
  note I = race_invD [OF inv]
  let ?P = "(unlocked (rpool s))\<lparr>tail_m := c\<rparr>" and ?s = "go (s\<lparr>rpool := (rpool s)\<lparr>tail_m := c\<rparr>\<rparr>) t AUnlock"
  have l: "c \<in> live (unlocked (rpool s)) hs fl" using giving_live [OF inv, of c t] a by simp
  then have hs: "hs \<noteq> []" by (auto simp: live_def)
  have ld: "load_ptr (rmem s) (tail_m (rpool s)) = Inr c" using I(3) a by (simp add: linked_ok_def)
  have fo: "free_ok (rmem s) (unlocked (rpool s)) hs fl" using I(1) by (simp add: pool_inv_def)
  then have "free_ok (rmem s) ?P hs (fl @ [tail_m (rpool s)])"
    using ld l hs by (auto simp: free_ok_def live_def chain_append)
  then have p: "pool_inv (rmem s) ?P hs (fl @ [tail_m (rpool s)])"
    using I(1) by (simp add: pool_inv_def blocks_ok_def)
  have u: "users_ok ?s (live ?P hs (fl @ [tail_m (unlocked (rpool s))]))"
    unfolding live_FreeAppend [OF l] by (rule users_ok_give_up [OF inv, of t c AUnlock]) (use a in simp_all)
  have o: "owner_ok ((rpool s)\<lparr>tail_m := c\<rparr>) (rmem s) hs (fl @ [tail_m (rpool s)]) (rat s 0)"
    using I(2) by (cases "rat s 0") auto
  then have "owner_ok (rpool ?s) (rmem ?s) hs (fl @ [tail_m (rpool s)]) (rat ?s 0)"
    by (cases "t = 0") auto
  moreover have "linked_ok ?s"
    unfolding linked_ok_def
  proof (intro allI impI)
    fix v x assume v: "rat ?s v = ATail x"
    then have "v = t" using one_in_lock [OF I(5), of v t] a by (cases "v = t") auto
    then show "load_ptr (rmem ?s) (tail_m (rpool ?s)) = Inr x" using v by simp
  qed
  moreover have "rlpcs s t = WIn" using I(5) a by (simp add: sections_ok_def)
  then have "sections_ok ?s"
    by (intro sections_ok_go [OF I(5), where t = t]) (simp_all add: race_lock_def)
  moreover have "no_fault ?s" by (rule no_fault_go [OF I(6)]) auto
  ultimately show ?thesis using p u by (simp add: race_inv_def)
qed

subsubsection \<open>The owner allocates\<close>

text \<open>The owner gets a chunk nobody owns, or nothing.\<close>

lemma users_ok_got:
  assumes inv: "race_inv s hs fl" and g: "giving (rat s 0) = {}"
    and p: "p = Null \<or> p \<notin> live (unlocked (rpool s)) hs fl"
    and L: "live (unlocked (rpool s)) hs fl \<subseteq> L" "p \<noteq> Null \<Longrightarrow> p \<in> L"
  shows "users_ok (got s (Inr (p, P, m))) L"
proof (rule users_ok_change [OF race_invD(4) [OF inv], where t = 0])
  note U = users_okD [OF race_invD(4) [OF inv]]
  let ?s = "got s (Inr (p, P, m))"
  have r: "rheld ?s 0 = (if p = Null then rheld s 0 else p # rheld s 0)" "rat ?s 0 = Away" by simp_all
  have np: "p \<noteq> Null \<Longrightarrow> p \<notin> owned s v" for v using p U(3) [of v] by blast
  show "distinct (rheld ?s 0)" using r U(1) [of 0] np [of 0] by (auto simp: owned_def)
  show "set (rheld ?s 0) \<inter> giving (rat ?s 0) = {}" using r by simp
  show "owned ?s 0 \<subseteq> L" using r L U(3) [of 0] by (auto simp: owned_def)
  show "owned s v \<subseteq> L" if "v \<noteq> 0" for v using U(3) [of v] L(1) by blast
  show "owned ?s 0 \<inter> owned s v = {}" if "v \<noteq> 0" for v
    using r U(4) [of 0 v] np [of v] that by (auto simp: owned_def)
qed auto

lemma race_inv_got:
  assumes inv: "race_inv s hs fl" and g: "giving (rat s 0) = {}"
    and p: "p = Null \<or> p \<notin> live (unlocked (rpool s)) hs fl"
    and i: "pool_inv m (unlocked P) hs' fl'" and w: "lock_tail_m P = lock_tail_m (rpool s)"
    and L: "live (unlocked (rpool s)) hs fl \<subseteq> live (unlocked P) hs' fl'" "p \<noteq> Null \<Longrightarrow> p \<in> live (unlocked P) hs' fl'"
    and ln: "\<And>t c. rat s t = ATail c \<Longrightarrow> t \<noteq> 0 \<Longrightarrow> load_ptr m (tail_m P) = Inr c"
  shows "race_inv (got s (Inr (p, P, m))) hs' fl'"
proof -
  note I = race_invD [OF inv]
  let ?s = "got s (Inr (p, P, m))"
  have f: "rpool ?s = P" "rmem ?s = m" "rat ?s = (rat s)(0 := Away)" "rlpcs ?s = rlpcs s" by simp_all
  have "users_ok ?s (live (unlocked P) hs' fl')" by (rule users_ok_got [OF inv g p L])
  moreover have "race_lock ?s = race_lock s" unfolding race_lock_def f w by simp
  then have "sections_ok ?s" by (intro sections_ok_go [OF I(5), where t = 0]) (simp_all add: f)
  moreover have "linked_ok ?s" using ln unfolding linked_ok_def f by auto
  moreover have "no_fault ?s" by (rule no_fault_go [OF I(6)]) (auto simp: f)
  ultimately show ?thesis using i unfolding race_inv_def f by simp
qed

lemma head_inj: "P\<lparr>head_m := x\<rparr> = P\<lparr>head_m := y\<rparr> \<longleftrightarrow> x = y" for P :: pool
  by (auto dest: arg_cong [where f = head_m])

lemma race_inv_pop:
  assumes inv: "race_inv s hs fl" and a: "rat s 0 = MPop"
  obtains x fl' n where "fl = x # fl'"
    "seg_malloc (rpool s) (rmem s) = Inr (x, (rpool s)\<lparr>head_m := n\<rparr>)"
    "race_inv (got s (Inr (x, (rpool s)\<lparr>head_m := n\<rparr>, rmem s))) hs fl'"
    "x \<notin> live (unlocked (rpool s)) hs fl" "x \<noteq> Null"
proof -
  note I = race_invD [OF inv]
  obtain x fl' where fl: "fl = x # fl'" using I(2) a by (cases fl) auto
  from Malloc_from_list [OF I(1) [unfolded fl]] obtain n where
    M: "Malloc (\<lambda>_ _. True) (unlocked (rpool s)) (rmem s) = Inr (x, (unlocked (rpool s))\<lparr>head_m := n\<rparr>, rmem s)"
    and i: "pool_inv (rmem s) ((unlocked (rpool s))\<lparr>head_m := n\<rparr>) hs fl'" by blast
  have fo: "free_ok (rmem s) (unlocked (rpool s)) hs (x # fl')" using I(1) fl by (simp add: pool_inv_def)
  then have xs: "x \<notin> set fl'" "x \<noteq> tail_m (rpool s)" "x = head_m (rpool s)"
    by (auto simp: free_ok_def split: sum.splits)
  have xc: "x \<in> chunks (asize (rpool s)) hs" using free_chunk [OF fo, of x] by simp
  have "seg_malloc (rpool s) (rmem s) = Inr (x, (rpool s)\<lparr>head_m := n\<rparr>)"
    using M xs by (auto simp: Malloc_def Empty_def seg_empty_def seg_malloc_def head_inj)
  moreover have "x \<notin> live (unlocked (rpool s)) hs fl" using fl by (simp add: live_def)
  moreover have "x \<noteq> Null" using xc chunks_not_Null by metis
  moreover have "race_inv (got s (Inr (x, (rpool s)\<lparr>head_m := n\<rparr>, rmem s))) hs fl'"
    by (rule race_inv_got [OF inv])
      (use a i xc xs fl I(3) in \<open>auto simp: live_def linked_ok_def\<close>)
  ultimately show ?thesis using that fl by blast
qed

lemma race_inv_refused:
  assumes inv: "race_inv s hs fl" and a: "rat s 0 = MGrow"
  shows "race_inv (got s (Inr (Null, rpool s, rmem s))) hs fl"
  by (rule race_inv_got [OF inv]) (use a race_invD [OF inv] in \<open>auto simp: linked_ok_def\<close>)

lemma sys_malloc_cases:
  "sys_malloc grant n m = (p, m') \<Longrightarrow> p = Null \<and> m' = m \<or> p = Ptr (nextb m) 0 \<and> n < address_space \<and>
     blocks m' = (blocks m)(nextb m \<mapsto> n) \<and> nextb m' = Suc (nextb m) \<and> keeps m m' {}"
  by (auto simp: sys_malloc_def keeps_def split: if_splits)

lemma race_inv_granted:
  assumes inv: "race_inv s hs fl" and a: "rat s 0 = MGrow"
    and g: "sys_malloc grant (unat (block_size (rpool s) + 8)) (rmem s) = (Ptr b i, m)"
  shows "race_inv (go (s\<lparr>rmem := m\<rparr>) 0 (MTail (Ptr b i))) hs fl"
proof -
  note I = race_invD [OF inv]
  let ?n = "unat (next_size_m (rpool s))" and ?a = "asize (rpool s)"
  have tot: "unat (block_size (rpool s) + 8) = ?n * ?a + 8"
    using I(1) unfolding block_size_def
    by (subst unat_add_lem'; subst unat_mult_lem') (auto simp: pool_inv_def room_def)
  have m: "b = nextb (rmem s)" "i = 0" "?n * ?a + 8 < address_space" "keeps (rmem s) m {}"
    "blocks m = (blocks (rmem s))(b \<mapsto> ?n * ?a + 8)" "nextb m = Suc b"
    using sys_malloc_cases [OF g] tot by auto
  have mo: "mem_ok m" using I(1) m(1,5,6) by (auto simp: pool_inv_def mem_ok_def less_Suc_eq)
  have p: "pool_inv m (unlocked (rpool s)) hs fl" by (rule pool_inv_keeps [OF I(1) m(4) _ mo]) simp
  let ?s = "go (s\<lparr>rmem := m\<rparr>) 0 (MTail (Ptr b i))"
  have "b \<notin> fst ` set hs" using inv_blocks [OF I(1), of b] m(1) by auto
  then have "owner_ok (rpool ?s) (rmem ?s) hs fl (rat ?s 0)" using m by (simp add: new_block_def)
  moreover have "linked_ok ?s"
    unfolding linked_ok_def
  proof (intro allI impI)
    fix t x assume "rat ?s t = ATail x"
    then have l: "load_ptr (rmem s) (tail_m (rpool s)) = Inr x" using I(3) by (auto simp: linked_ok_def split: if_splits)
    then obtain b' i' where t: "tail_m (rpool s) = Ptr b' i'" by (cases "tail_m (rpool s)") (auto simp: mem_simps)
    then have "valid (rmem s) b' i' 8" using l load_ptr_valid by simp
    then have "b' < nextb (rmem s)" using I(1) by (auto simp: valid_def pool_inv_def mem_ok_def split: option.splits)
    then have "load_ptr m (Ptr b' i') = load_ptr (rmem s) (Ptr b' i')" by (rule keeps_load_ptr [OF m(4)]) simp
    then show "load_ptr (rmem ?s) (tail_m (rpool ?s)) = Inr x" using l t by simp
  qed
  moreover have "users_ok ?s (live (unlocked (rpool s)) hs fl)"
    by (rule users_ok_shrink [OF I(4), where t = 0])
      (use a users_okD [OF I(4), of 0] in \<open>auto simp: owned_def\<close>)
  moreover have "sections_ok ?s"
    by (rule sections_ok_go [OF I(5), where t = 0]) (simp_all add: race_lock_def)
  moreover have "no_fault ?s" by (rule no_fault_go [OF I(6)]) auto
  ultimately show ?thesis using p by (simp add: race_inv_def)
qed

lemma race_inv_first:
  assumes inv: "race_inv s hs fl" and a: "rat s 0 = MTail p" and t: "tail_m (rpool s) = Null"
  obtains r P m hs' fl' where "first_block (rpool s) p (rmem s) = Inr (r, P, m)"
    "race_inv (got s (Inr (r, P, m))) hs' fl'" "r \<notin> live (unlocked (rpool s)) hs fl"
proof -
  note I = race_invD [OF inv]
  have hs: "hs = []" using inv_tail_Null [OF I(1)] t by simp
  have no: "owned s v = {}" for v using users_okD(3) [OF I(4), of v] hs by (simp add: live_def)
  obtain b i where p: "p = Ptr b i" and nb: "new_block (unlocked (rpool s)) [] (rmem s) (Ptr b i)"
    using I(2) a hs by (auto simp: new_block_def)
  let ?n = "unat (next_size_m (unlocked (rpool s)))" and ?a = "asize (unlocked (rpool s))"
  from first_block_ok [OF I(1) [unfolded hs] nb] obtain h T m where
    f: "first_block (unlocked (rpool s)) (Ptr b i) (rmem s) = Inr (Ptr b 8, (unlocked (rpool s))
         \<lparr>head_m := h, tail_m := T, first_m := Ptr b 0, next_size_m := push_bit 1 (next_size_m (rpool s))\<rparr>, m)"
    and pi: "pool_inv m ((unlocked (rpool s))
         \<lparr>head_m := h, tail_m := T, first_m := Ptr b 0, next_size_m := push_bit 1 (next_size_m (rpool s))\<rparr>)
       [(b, ?n)] (map (chunk b 8 ?a) [1..<?n - 1])" and T: "T = chunk b 8 ?a (?n - 1)"
    by auto
  let ?P = "(rpool s)\<lparr>head_m := h, tail_m := T, first_m := Ptr b 0,
      next_size_m := push_bit 1 (next_size_m (rpool s))\<rparr>"
  have u: "unlocked ?P = (unlocked (rpool s))
         \<lparr>head_m := h, tail_m := T, first_m := Ptr b 0, next_size_m := push_bit 1 (next_size_m (rpool s))\<rparr>"
    by (simp add: unlocked_def)
  have w: "with_word (lock_tail_m (rpool s)) (Inr (Ptr b 8, unlocked ?P, m)) = Inr (Ptr b 8, ?P, m)"
    by (simp add: unlocked_def)
  have run: "first_block (rpool s) p (rmem s) = Inr (Ptr b 8, ?P, m)"
    unfolding p first_block_unlocked [of "rpool s"] f u [symmetric] w ..
  have sz: "32 \<le> ?n" "8 \<le> ?a" using I(1) by (auto simp: pool_inv_def)
  have p0: "Ptr b 8 = chunk b 8 ?a 0" by simp
  have "Ptr b 8 \<in> chunks ?a [(b, ?n)]" unfolding chunks_Cons p0 using sz by (simp del: chunk_0)
  moreover have "Ptr b 8 \<noteq> T" "Ptr b 8 \<notin> set (map (chunk b 8 ?a) [1..<?n - 1])"
    unfolding p0 T using sz by (auto simp: chunk_inj simp del: chunk_0)
  ultimately have l: "Ptr b 8 \<in> live (unlocked ?P) [(b, ?n)] (map (chunk b 8 ?a) [1..<?n - 1])"
    unfolding u by (simp add: live_def)
  have "race_inv (got s (Inr (Ptr b 8, ?P, m))) [(b, ?n)] (map (chunk b 8 ?a) [1..<?n - 1])"
  proof (rule race_inv_got [OF inv _ _ pi [folded u]])
    show "load_ptr m (tail_m ?P) = Inr c" if "rat s t = ATail c" for t c
      using no [of t] that by (simp add: owned_def)
  qed (use a hs l in \<open>auto simp: live_def\<close>)
  then show ?thesis using that run hs by (simp add: live_def)
qed

lemma race_inv_link:
  assumes inv: "race_inv s hs fl" and a: "rat s 0 = MLink p"
  obtains m where "set_next_of (rmem s) (last_chunk (rpool s) p) (tail_m (rpool s)) = Inr m"
    "race_inv (go (s\<lparr>rmem := m\<rparr>) 0 (MCarve p)) hs fl"
proof -
  note I = race_invD [OF inv]
  obtain b i where p: "p = Ptr b i" and nb: "new_block (unlocked (rpool s)) hs (rmem s) (Ptr b i)"
    and hs: "hs \<noteq> []" using I(2) a by (auto simp: new_block_def)
  note sz = new_block_sizes [OF I(1) nb]
  have lc: "last_chunk (rpool s) p = chunk b 8 (asize (rpool s)) (unat (next_size_m (rpool s)) - 1)"
    using sz(9) p by simp
  have "unat (next_size_m (rpool s)) - 1 < unat (next_size_m (rpool s))" using sz(7) by simp
  then have "valid (rmem s) b (8 + int (unat (next_size_m (rpool s)) - 1) * int (asize (rpool s))) 8"
    using sz(10) by (simp del: of_nat_diff)
  then obtain m where m: "store_ptr (rmem s) (last_chunk (rpool s) p) (tail_m (rpool s)) = Inr m"
    unfolding lc chunk_def using store_ptr_ok by blast
  define lo where "lo = 8 + int (unat (next_size_m (rpool s)) - 1) * int (asize (rpool s))"
  have ch: "changed_only (rmem s) m b lo (lo + 8)"
    using store_ptr_changed m unfolding lc chunk_def lo_def [symmetric] by blast
  have mo: "mem_ok m" using I(1) ch by (simp add: pool_inv_def mem_ok_def changed_only_def)
  have kp: "keeps (rmem s) m {b}" using changed_only_keeps [OF ch] by simp
  have pi: "pool_inv m (unlocked (rpool s)) hs fl" by (rule pool_inv_keeps [OF I(1) kp _ mo]) (use sz(2) in simp)
  let ?s = "go (s\<lparr>rmem := m\<rparr>) 0 (MCarve p)"
  have "new_block (rpool s) hs m p"
    using nb new_block_mem [of "rpool s" hs "rmem s" p m] ch p by (simp add: changed_only_def)
  then have "owner_ok (rpool ?s) (rmem ?s) hs fl (rat ?s 0)"
    using hs load_store_ptr_same [OF m] by simp
  moreover have "linked_ok ?s"
    unfolding linked_ok_def
  proof (intro allI impI)
    fix t x assume "rat ?s t = ATail x"
    then have l: "load_ptr (rmem s) (tail_m (rpool s)) = Inr x"
      using I(3) by (auto simp: linked_ok_def split: if_splits)
    have "tail_m (rpool s) \<in> chunks (asize (rpool s)) hs"
      using I(1) hs by (simp add: pool_inv_def free_ok_def)
    moreover obtain b' i' where t: "tail_m (rpool s) = Ptr b' i'" using calculation chunks_Ptr by blast
    ultimately have "b' \<noteq> b" using chunks_block sz(2) by fastforce
    then show "load_ptr (rmem ?s) (tail_m (rpool ?s)) = Inr x"
      using l t changed_only_load_ptr [OF ch, of b' i'] by simp
  qed
  moreover have "users_ok ?s (live (unlocked (rpool s)) hs fl)"
    by (rule users_ok_shrink [OF I(4), where t = 0])
      (use a users_okD [OF I(4), of 0] in \<open>auto simp: owned_def\<close>)
  moreover have "sections_ok ?s"
    by (rule sections_ok_go [OF I(5), where t = 0]) (simp_all add: race_lock_def)
  moreover have "no_fault ?s" by (rule no_fault_go [OF I(6)]) auto
  ultimately have "race_inv ?s hs fl" using pi by (simp add: race_inv_def)
  then show ?thesis using that m by (simp add: set_next_of_def)
qed

lemma split_at_member:
  assumes "T \<in> set (fl @ [q])"
  shows "\<exists>pre fl2. fl = pre @ fl2 \<and> hd (fl2 @ [q]) = T"
proof (cases "T \<in> set fl")
  case True
  then obtain ys zs where "fl = ys @ T # zs" by (meson split_list)
  then show ?thesis by (intro exI [of _ ys] exI [of _ "T # zs"]) simp
next
  case False
  then have "T = q" using assms by simp
  then have "fl = fl @ [] \<and> hd ([] @ [q]) = T" by simp
  then show ?thesis by blast
qed

lemma race_inv_carve_at:
  assumes inv: "race_inv s hs fl" and a: "rat s 0 = MCarve p" and fl: "fl = pre @ fl2"
    and ld: "load_ptr (rmem s) (last_chunk (rpool s) p) = Inr (hd (fl2 @ [tail_m (rpool s)]))"
  obtains b P m where "p = Ptr b 0" "carve (rpool s) p (rmem s) = Inr (Ptr b 8, P, m)"
    "race_inv (got s (Inr (Ptr b 8, P, m))) ((b, unat (next_size_m (rpool s))) # hs)
       (map (chunk b 8 (asize (rpool s))) [1..<unat (next_size_m (rpool s))] @ fl2)"
    "tail_m P = tail_m (rpool s)" "asize P = asize (rpool s)" "b \<notin> fst ` set hs"
    "Ptr b 8 \<notin> live (unlocked (rpool s)) hs fl"
proof -
  note I = race_invD [OF inv]
  obtain b i where p: "p = Ptr b i" and nb: "new_block (unlocked (rpool s)) hs (rmem s) (Ptr b i)"
    and hs: "hs \<noteq> []" using I(2) a by (auto simp: new_block_def)
  note sz = new_block_sizes [OF I(1) nb]
  have ld': "load_ptr (rmem s) (last_chunk (unlocked (rpool s)) (Ptr b i)) =
      Inr (hd (fl2 @ [tail_m (unlocked (rpool s))]))" using ld p by simp
  let ?n = "unat (next_size_m (unlocked (rpool s)))" and ?a = "asize (unlocked (rpool s))"
  from carve_ok [OF I(1) nb hs fl ld'] obtain h m where
    f: "carve (unlocked (rpool s)) (Ptr b i) (rmem s) = Inr (Ptr b 8, (unlocked (rpool s))
         \<lparr>head_m := h, first_m := Ptr b 0, next_size_m := push_bit 1 (next_size_m (rpool s))\<rparr>, m)"
    and pi: "pool_inv m ((unlocked (rpool s))
         \<lparr>head_m := h, first_m := Ptr b 0, next_size_m := push_bit 1 (next_size_m (rpool s))\<rparr>)
       ((b, ?n) # hs) (map (chunk b 8 ?a) [1..<?n] @ fl2)" and kp: "keeps (rmem s) m {b}"
    by auto
  let ?P = "(rpool s)\<lparr>head_m := h, first_m := Ptr b 0, next_size_m := push_bit 1 (next_size_m (rpool s))\<rparr>"
  have u: "unlocked ?P = (unlocked (rpool s))
         \<lparr>head_m := h, first_m := Ptr b 0, next_size_m := push_bit 1 (next_size_m (rpool s))\<rparr>"
    by (simp add: unlocked_def)
  have w: "with_word (lock_tail_m (rpool s)) (Inr (Ptr b 8, unlocked ?P, m)) = Inr (Ptr b 8, ?P, m)"
    by (simp add: unlocked_def)
  have run: "carve (rpool s) p (rmem s) = Inr (Ptr b 8, ?P, m)"
    unfolding p carve_unlocked [of "rpool s"] f u [symmetric] w ..
  have fo: "free_ok (rmem s) (unlocked (rpool s)) hs fl" using I(1) by (simp add: pool_inv_def)
  have sub: "set (fl @ [tail_m (unlocked (rpool s))]) \<subseteq> chunks ?a hs" using fo hs by (simp add: free_ok_def)
  have n0: "0 < ?n" "0 < asize (unlocked ?P)" "tail_m (unlocked ?P) = tail_m (unlocked (rpool s))"
    "asize (unlocked ?P) = ?a" "set fl2 \<subseteq> set fl"
    unfolding u using sz(7,8) fl by auto
  note li = live_insert [OF sz(2) n0(1,2,5,3,4) sub]
  have "race_inv (got s (Inr (Ptr b 8, ?P, m))) ((b, ?n) # hs) (map (chunk b 8 ?a) [1..<?n] @ fl2)"
  proof (rule race_inv_got [OF inv _ _ pi [folded u]])
    show "load_ptr m (tail_m ?P) = Inr c" if at: "rat s t = ATail c" for t c
    proof -
      have l: "load_ptr (rmem s) (tail_m (rpool s)) = Inr c" using I(3) at by (simp add: linked_ok_def)
      have tc: "tail_m (rpool s) \<in> chunks ?a hs" using sub by simp
      then obtain b' i' where t: "tail_m (rpool s) = Ptr b' i'" using chunks_Ptr by blast
      then have b': "b' \<in> fst ` set hs" using chunks_block tc by metis
      then have "b' \<noteq> b" "b' < nextb (rmem s)" using sz(2) inv_blocks [OF I(1)] by blast+
      then show ?thesis using l t keeps_load_ptr [OF kp, of b' i'] by simp
    qed
  qed (use a li in auto)
  then show ?thesis using that [of b ?P m] run li(2) sz(1,2) p by simp
qed

lemma race_inv_carve:
  assumes inv: "race_inv s hs fl" and a: "rat s 0 = MCarve p"
  obtains r P m hs' fl' where "carve (rpool s) p (rmem s) = Inr (r, P, m)"
    "race_inv (got s (Inr (r, P, m))) hs' fl'" "r \<notin> live (unlocked (rpool s)) hs fl"
proof -
  obtain T where T: "T \<in> set (fl @ [tail_m (rpool s)])" "load_ptr (rmem s) (last_chunk (rpool s) p) = Inr T"
    using race_invD(2) [OF inv] a by auto
  obtain pre fl2 where fl: "fl = pre @ fl2" "hd (fl2 @ [tail_m (rpool s)]) = T"
    using split_at_member [OF T(1)] by auto
  show ?thesis by (rule race_inv_carve_at [OF inv a fl(1), unfolded fl(2), OF T(2)]) (rule that)
qed


end
