(* ===== verification/PoolRaceSpec.thy ===== *)
theory PoolRaceSpec
  imports PoolRaceInv
begin

section \<open>What a pool promises to threads that use it at once\<close>

text \<open>
  Any interleaving of the owner's allocations and frees with the other threads' \<open>free_append\<close> is
  safe; run without interference the pieces are the calls of theory \<open>Pool\<close>; but a chunk
  that another thread returns while the owner is growing the pool can cost the pool chunks.
\<close>

subsection \<open>Any interleaving\<close>

lemma race_inv_step:
  assumes inv: "race_inv s hs fl" and step: "race_step grant s t s'"
  shows "\<exists>hs' fl'. race_inv s' hs' fl'"
proof -
  note I = race_invD [OF inv]
  have taken: "tail_m (rpool s) \<noteq> Null" if "c \<in> giving (rat s t)" for c
    using giving_live [OF inv that] inv_tail_Null [OF I(1)] by (auto simp: live_def)
  from step show ?thesis
  proof cases
    case call_Malloc
    then show ?thesis using race_inv_go [OF inv, of MTest 0] by auto
  next
    case m_test
    have "\<not> Empty (rpool s) \<Longrightarrow> fl \<noteq> []"
      using I(1) by (auto simp: pool_inv_def free_ok_def Empty_def seg_empty_def)
    then have "race_inv s' hs fl"
      using race_inv_go [OF inv, of "if Empty (rpool s) then MGrow else MPop" 0] m_test by auto
    then show ?thesis by blast
  next
    case m_pop
    show ?thesis
    proof (rule race_inv_pop [OF inv m_pop(3)])
      fix x fl' n
      assume "seg_malloc (rpool s) (rmem s) = Inr (x, (rpool s)\<lparr>head_m := n\<rparr>)"
        and "race_inv (got s (Inr (x, (rpool s)\<lparr>head_m := n\<rparr>, rmem s))) hs fl'"
      then have "race_inv s' hs fl'" using m_pop(2) by (simp del: got_Inr)
      then show ?thesis by blast
    qed
  next
    case (m_refused m)
    have "m = rmem s" using sys_malloc_cases [OF m_refused(4)] by simp
    then show ?thesis using race_inv_refused [OF inv m_refused(3)] m_refused(2) by auto
  next
    case (m_granted b i m)
    then show ?thesis using race_inv_granted [OF inv m_granted(3,4)] by auto
  next
    case (m_first p)
    show ?thesis by (rule race_inv_first [OF inv m_first(3,4)]) (use m_first(2) in metis)
  next
    case (m_more p)
    have "hs \<noteq> []" using m_more(4) inv_tail_Null [OF I(1)] by simp
    then show ?thesis using race_inv_go [OF inv, of "MLink p" 0] m_more I(2) by auto
  next
    case (m_link p)
    show ?thesis by (rule race_inv_link [OF inv m_link(3)]) (use m_link in auto)
  next
    case (m_carve p)
    show ?thesis by (rule race_inv_carve [OF inv m_carve(3)]) (use m_carve(2) in metis)
  next
    case (call_Free c)
    then show ?thesis using race_inv_take [OF inv call_Free(3,4), of "FPut c"] by auto
  next
    case (f_put c)
    from race_inv_put [OF inv f_put(3)] obtain m where
      "seg_free (rpool s) c (rmem s) = Inr ((rpool s)\<lparr>head_m := c\<rparr>, m)"
      "race_inv (go (s\<lparr>rpool := (rpool s)\<lparr>head_m := c\<rparr>, rmem := m\<rparr>) 0 Away) hs (c # fl)" by blast
    then have "race_inv s' hs (c # fl)" using f_put(2) by simp
    then show ?thesis by blast
  next
    case (call_FreeAppend c)
    then show ?thesis using race_inv_take [OF inv call_FreeAppend(3,4), of "ATest c"] by auto
  next
    case (a_test c)
    then show ?thesis using race_inv_go [OF inv, of "ALock c" t] taken [of c] by auto
  next
    case (a_locking c l)
    then show ?thesis using race_inv_with_lock [OF inv sections_ok_locking [OF I(5) a_locking(2,4)]] by auto
  next
    case (a_locked c)
    then show ?thesis using race_inv_go [OF inv, of "ALink c" t] by auto
  next
    case (a_link c)
    from race_inv_link_tail [OF inv a_link(2)] obtain m where
      "set_next_of (rmem s) (tail_m (rpool s)) c = Inr m" "race_inv (go (s\<lparr>rmem := m\<rparr>) t (ATail c)) hs fl"
      by blast
    then have "race_inv s' hs fl" using a_link(1) by simp
    then show ?thesis by blast
  next
    case (a_tail c)
    then show ?thesis using race_inv_move_tail [OF inv a_tail(2)] by auto
  next
    case a_unlock
    then show ?thesis using race_inv_unlock [OF inv a_unlock(2,3)] by auto
  next
    case (pass_on c u)
    then show ?thesis using race_inv_pass [OF inv pass_on(2,3)] by auto
  next
    case (user_write b i d cs m)
    then show ?thesis using race_inv_write [OF inv user_write(2-5)] by auto
  qed
qed

lemma race_inv_init:
  assumes "64 * unat (max n (8 :: u64)) + 8 < 2 ^ 63" and "mem_ok m"
  shows "race_inv (race_init n m) [] []"
proof -
  have "unlocked (Pool_ctor n) = Pool_ctor n" by (simp add: unlocked_def Pool_ctor_def)
  moreover have "race_lock (race_init n m) = lock_init"
    by (simp add: race_lock_def race_init_def Pool_ctor_def lock_init_def)
  ultimately show ?thesis
    using ctor_inv_mem [OF assms] reach.reach_refl [of lock_step lock_init]
    by (simp add: race_inv_def linked_ok_def users_ok_def owned_def sections_ok_def no_fault_def
        race_init_def)
qed

lemma race_reach_inv:
  assumes "reach (race_step grant) s0 s" and "race_inv s0 hs0 fl0"
  shows "\<exists>hs fl. race_inv s hs fl"
  using assms by (induction rule: reach.induct) (auto dest: race_inv_step)

subsection \<open>Without interference the pieces are the calls\<close>

lemma own_step: "race_step grant s t s' \<Longrightarrow> (\<lambda>x y. race_step grant x t y)\<^sup>*\<^sup>* s' s'' \<Longrightarrow>
    (\<lambda>x y. race_step grant x t y)\<^sup>*\<^sup>* s s''"
  by (rule converse_rtranclp_into_rtranclp)

lemma Malloc_alone:
  assumes a: "rat s 0 = Away" and M: "Malloc grant (rpool s) (rmem s) = Inr (r, P, m)"
  shows "(\<lambda>x y. race_step grant x 0 y)\<^sup>*\<^sup>* s (got s (Inr (r, P, m)))"
proof -
  let ?S = "\<lambda>x y. race_step grant x 0 y"
  have same: "got (go (s\<lparr>rmem := m'\<rparr>) 0 c) x = got s x"
    if "x = Inr (r, P, m)" for c x and m' :: mem
    using that by (simp add: go_def give_chunk_def)
  have same': "got (go s 0 c) x = got s x" if "x = Inr (r, P, m)" for c x
    using that by (simp add: go_def give_chunk_def)
  have start: "?S\<^sup>*\<^sup>* s (go s 0 MTest)" using call_Malloc [OF a] by blast
  show ?thesis
  proof (cases "Empty (rpool s)")
    case False
    then have "?S (go s 0 MTest) (go (go s 0 MTest) 0 MPop)" using m_test [of "go s 0 MTest"] by simp
    then have 1: "?S (go s 0 MTest) (go s 0 MPop)" by (simp add: go_def)
    have "rbind (seg_malloc (rpool s) (rmem s)) (\<lambda>(r, P). Inr (r, P, rmem s)) = Inr (r, P, m)"
      using M False by (simp add: Malloc_def)
    then have "?S (go s 0 MPop) (got s (Inr (r, P, m)))"
      using m_pop [of "go s 0 MPop" grant] same' by (simp del: got_Inr)
    with 1 start show ?thesis by (meson rtranclp.rtrancl_into_rtrancl)
  next
    case True
    then have "?S (go s 0 MTest) (go (go s 0 MTest) 0 MGrow)" using m_test [of "go s 0 MTest"] by simp
    then have "?S (go s 0 MTest) (go s 0 MGrow)" by (simp add: go_def)
    with start have 1: "?S\<^sup>*\<^sup>* s (go s 0 MGrow)" by (rule rtranclp.rtrancl_into_rtrancl)
    obtain p m1 where g: "sys_malloc grant (unat (block_size (rpool s) + 8)) (rmem s) = (p, m1)"
      by (cases "sys_malloc grant (unat (block_size (rpool s) + 8)) (rmem s)")
    have R: "(if p = Null then Inr (Null, rpool s, m1)
         else if tail_m (rpool s) = Null then first_block (rpool s) p m1
         else rbind (set_next_of m1 (last_chunk (rpool s) p) (tail_m (rpool s))) (carve (rpool s) p)) =
        Inr (r, P, m)"
      using M True g by (simp add: Malloc_def resize_pieces)
    show ?thesis
    proof (cases p)
      case Null
      then have "?S (go s 0 MGrow) (got s (Inr (r, P, m)))"
        using m_refused [of "go s 0 MGrow" grant m1] g R same' by (simp del: got_Inr)
      with 1 show ?thesis by (rule rtranclp.rtrancl_into_rtrancl)
    next
      case (Ptr b i)
      then have "?S (go s 0 MGrow) (go ((go s 0 MGrow)\<lparr>rmem := m1\<rparr>) 0 (MTail p))"
        using m_granted [of "go s 0 MGrow" grant b i m1] g by simp
      then have "?S (go s 0 MGrow) (go (s\<lparr>rmem := m1\<rparr>) 0 (MTail p))" by (simp add: go_def)
      with 1 have 2: "?S\<^sup>*\<^sup>* s (go (s\<lparr>rmem := m1\<rparr>) 0 (MTail p))" by (rule rtranclp.rtrancl_into_rtrancl)
      show ?thesis
      proof (cases "tail_m (rpool s) = Null")
        case True
        then have "?S (go (s\<lparr>rmem := m1\<rparr>) 0 (MTail p)) (got s (Inr (r, P, m)))"
          using m_first [of "go (s\<lparr>rmem := m1\<rparr>) 0 (MTail p)" p grant] R Ptr same by (simp del: got_Inr)
        with 2 show ?thesis by (rule rtranclp.rtrancl_into_rtrancl)
      next
        case False
        obtain m2 where m2: "set_next_of m1 (last_chunk (rpool s) p) (tail_m (rpool s)) = Inr m2"
          "carve (rpool s) p m2 = Inr (r, P, m)" using R Ptr False by (auto simp: rbind_eq_Inr)
        have "?S (go (s\<lparr>rmem := m1\<rparr>) 0 (MTail p)) (go (s\<lparr>rmem := m1\<rparr>) 0 (MLink p))"
          using m_more [of "go (s\<lparr>rmem := m1\<rparr>) 0 (MTail p)" p grant] False by (simp add: go_def)
        moreover have "?S (go (s\<lparr>rmem := m1\<rparr>) 0 (MLink p)) (go (s\<lparr>rmem := m2\<rparr>) 0 (MCarve p))"
          using m_link [of "go (s\<lparr>rmem := m1\<rparr>) 0 (MLink p)" p grant] m2(1) by (simp add: go_def)
        moreover have "?S (go (s\<lparr>rmem := m2\<rparr>) 0 (MCarve p)) (got s (Inr (r, P, m)))"
          using m_carve [of "go (s\<lparr>rmem := m2\<rparr>) 0 (MCarve p)" p grant] m2(2) same by (simp del: got_Inr)
        ultimately show ?thesis using 2 by (meson rtranclp.rtrancl_into_rtrancl)
      qed
    qed
  qed
qed

lemma Free_alone:
  assumes a: "rat s 0 = Away" and c: "c \<in> set (rheld s 0)" and F: "Free (rpool s) c (rmem s) = Inr (P, m)"
  shows "(\<lambda>x y. race_step grant x 0 y)\<^sup>*\<^sup>* s ((take_chunk s 0 c)\<lparr>rpool := P, rmem := m\<rparr>)"
proof -
  let ?s1 = "go (take_chunk s 0 c) 0 (FPut c)"
  have "race_step grant s 0 ?s1" using call_Free [OF a c] .
  moreover have "race_step grant ?s1 0 (go (?s1\<lparr>rpool := P, rmem := m\<rparr>) 0 Away)"
    using f_put [of ?s1 c grant] F by (simp add: Free_def)
  moreover have "go (?s1\<lparr>rpool := P, rmem := m\<rparr>) 0 Away = (take_chunk s 0 c)\<lparr>rpool := P, rmem := m\<rparr>"
    using a by (simp add: go_def take_chunk_def fun_upd_idem)
  ultimately show ?thesis by (metis (no_types, lifting) r_into_rtranclp rtranclp.rtrancl_into_rtrancl)
qed

lemma lock_alone:
  assumes a: "rat s t = ALock c" and o: "rlpcs s t = Out" and f: "lock_tail_m (rpool s) = Spinlock"
  shows "\<exists>s'. (\<lambda>x y. race_step grant x t y)\<^sup>*\<^sup>* s s' \<and> rat s' = (rat s)(t := ALink c) \<and> rmem s' = rmem s \<and>
     rheld s' = rheld s \<and> rlpcs s' = (rlpcs s)(t := WIn) \<and>
     rpool s' = (rpool s)\<lparr>lock_tail_m := Spinlock\<lparr>lock_m := 1\<rparr>\<rparr>"
proof -
  let ?S = "\<lambda>x y. race_step grant x t y"
  let ?l1 = "at (race_lock s) t WTry (lock_tail_m (rpool s))"
  let ?s1 = "with_lock s ?l1"
  have 1: "?S s ?s1" using a_locking [OF a, of ?l1 grant] Lock_call [of "race_lock s" t] o by simp
  let ?l2 = "at (race_lock ?s1) t WDrain (Spinlock\<lparr>lock_m := 1\<rparr>)"
  let ?s2 = "with_lock ?s1 ?l2"
  have "lock_step (race_lock ?s1) t ?l2"
    using Lock_exchange [of "race_lock ?s1" t] f by (simp add: Spinlock_def)
  then have 2: "?S ?s1 ?s2" using a_locking [of ?s1 t c ?l2 grant] a by simp
  let ?l3 = "at (race_lock ?s2) t WIn (Spinlock\<lparr>lock_m := 1\<rparr>)"
  let ?s3 = "with_lock ?s2 ?l3"
  have "lock_step (race_lock ?s2) t ?l3"
    using Lock_drain [of "race_lock ?s2" t] by (simp add: Spinlock_def)
  then have 3: "?S ?s2 ?s3" using a_locking [of ?s2 t c ?l3 grant] a by simp
  have 4: "?S ?s3 (go ?s3 t (ALink c))" using a_locked [of ?s3 t c grant] a by simp
  have "?S\<^sup>*\<^sup>* s (go ?s3 t (ALink c))"
    using 1 2 3 4 by (meson converse_rtranclp_into_rtranclp rtranclp.rtrancl_refl)
  then show ?thesis by (intro exI [of _ "go ?s3 t (ALink c)"]) simp
qed

subsection \<open>A chunk returned while the pool grows\<close>

text \<open>
  The owner has found the list empty and is about to read \<open>tail_\<close> for the last link of the new block;
  another thread is about to link a chunk behind \<open>tail_\<close>.  If the other thread goes first,
  the new list is linked to the returned chunk, and the old tail is in no list.
\<close>

lemma race_loses_tail:
  assumes inv: "race_inv s hs []" and o: "rat s 0 = MLink p" and u: "rat s t = ALink c"
  shows "\<exists>s' hs' fl'. reach (race_step grant) s s' \<and> race_inv s' hs' fl' \<and> rat s' 0 = Away \<and>
     tail_m (rpool s) \<in> chunks (asize (rpool s')) hs' \<and> tail_m (rpool s) \<notin> set (fl' @ [tail_m (rpool s')]) \<and>
     (\<forall>v. tail_m (rpool s) \<notin> owned s' v)"
proof -
  have t0: "t \<noteq> 0" using o u by (cases "t = 0") auto
  let ?T = "tail_m (rpool s)" and ?P = "unlocked (rpool s)"
  note I = race_invD [OF inv]
  have hs: "hs \<noteq> []" using I(2) o by simp
  have fo: "free_ok (rmem s) ?P hs []" using I(1) by (simp add: pool_inv_def)
  have Tc: "?T \<in> chunks (asize (rpool s)) hs" using fo hs by (simp add: free_ok_def)
  have no: "?T \<notin> owned s v" for v using users_okD(3) [OF I(4), of v] by (auto simp: live_def)
  obtain m1 where m1: "set_next_of (rmem s) ?T c = Inr m1"
    and i1: "race_inv (go (s\<lparr>rmem := m1\<rparr>) t (ATail c)) hs []" using race_inv_link_tail [OF inv u] by blast
  let ?s1 = "go (s\<lparr>rmem := m1\<rparr>) t (ATail c)"
  have r1: "race_step grant s t ?s1" using a_link [OF u, of grant] m1 by simp
  let ?s2 = "go (?s1\<lparr>rpool := (rpool ?s1)\<lparr>tail_m := c\<rparr>\<rparr>) t AUnlock"
  have r2: "race_step grant ?s1 t ?s2" by (rule a_tail) simp
  have i2: "race_inv ?s2 hs [?T]" using race_inv_move_tail [OF i1, of t c] by simp
  have c: "rat ?s2 0 = MLink p" using o t0 by simp
  obtain m3 where m3: "set_next_of (rmem ?s2) (last_chunk (rpool ?s2) p) (tail_m (rpool ?s2)) = Inr m3"
    and i3: "race_inv (go (?s2\<lparr>rmem := m3\<rparr>) 0 (MCarve p)) hs [?T]" by (rule race_inv_link [OF i2 c])
  let ?s3 = "go (?s2\<lparr>rmem := m3\<rparr>) 0 (MCarve p)"
  have r3: "race_step grant ?s2 0 ?s3" using m_link [OF c, of grant] m3 by simp
  have Tne: "?T \<noteq> c" using giving_live [OF inv, of c t] u by (auto simp: live_def)
  have ld: "load_ptr (rmem ?s3) (last_chunk (rpool ?s3) p) = Inr (hd ([] @ [tail_m (rpool ?s3)]))"
    using m3 load_store_ptr_same by (simp add: set_next_of_def)
  have d: "rat ?s3 0 = MCarve p" by simp
  obtain b P m where f: "p = Ptr b 0" "carve (rpool ?s3) p (rmem ?s3) = Inr (Ptr b 8, P, m)"
    and i4: "race_inv (got ?s3 (Inr (Ptr b 8, P, m))) ((b, unat (next_size_m (rpool ?s3))) # hs)
       (map (chunk b 8 (asize (rpool ?s3))) [1..<unat (next_size_m (rpool ?s3))] @ [])"
    and P: "tail_m P = tail_m (rpool ?s3)" "asize P = asize (rpool ?s3)" and b: "b \<notin> fst ` set hs"
    by (rule race_inv_carve_at [OF i3 d, of "[?T]" "[]"]) (use ld in simp_all)
  let ?s4 = "got ?s3 (Inr (Ptr b 8, P, m))"
  have r4: "race_step grant ?s3 0 ?s4" using m_carve [OF d, of grant] f(2) by (simp del: got_Inr)
  have "reach (race_step grant) s ?s4"
    using r1 r2 r3 r4 by (meson reach.reach_refl reach.reach_step)
  moreover have s4: "rpool ?s4 = P" "rat ?s4 0 = Away" by simp_all
  moreover have "?T \<in> chunks (asize P) ((b, unat (next_size_m (rpool ?s3))) # hs)"
    using Tc P(2) by (simp add: chunks_Cons)
  moreover have nT: "?T \<noteq> chunk b 8 a k" for a k
    using Tc b chunks_block [of b] unfolding chunk_def by metis
  moreover have "?T \<notin> owned ?s4 v" for v
    using no [of v] nT [of 8 0] u t0 Tne by (auto simp: owned_def split: if_splits)
  ultimately show ?thesis using i4 P Tne
    by (intro exI [of _ ?s4] exI [of _ "(b, unat (next_size_m (rpool ?s3))) # hs"]
        exI [of _ "map (chunk b 8 (asize (rpool ?s3))) [1..<unat (next_size_m (rpool ?s3))]"]) auto
qed

definition lost :: "race \<Rightarrow> ptr \<Rightarrow> bool" where
  "lost s c \<longleftrightarrow> (\<exists>hs fl. race_inv s hs fl \<and> c \<in> chunks (asize (rpool s)) hs \<and>
     c \<notin> set (fl @ [tail_m (rpool s)]) \<and> (\<forall>v. c \<notin> owned s v))"

lemma Empty_list: "race_inv s hs fl \<Longrightarrow> Empty (rpool s) \<Longrightarrow> fl = []"
  by (cases fl) (auto simp: race_inv_def pool_inv_def free_ok_def Empty_def seg_empty_def split: sum.splits)

lemma reach_alone: "(\<lambda>x y. race_step grant x t y)\<^sup>*\<^sup>* s s' \<Longrightarrow> reach (race_step grant) s s'"
  by (induction rule: rtranclp_induct) (auto intro: reach.intros)

subsection \<open>Runs for the witnesses\<close>

text \<open>The owner takes chunks until the list is empty.\<close>

lemma take_all:
  assumes "race_inv s hs fl" and "rat s 0 = Away"
  shows "\<exists>s'. reach (race_step grant) s s' \<and> race_inv s' hs [] \<and> rat s' = rat s \<and> race_lock s' = race_lock s \<and>
     set (rheld s 0) \<subseteq> set (rheld s' 0) \<and> block_size (rpool s') = block_size (rpool s)"
  using assms
proof (induction fl arbitrary: s)
  case Nil
  then show ?case using reach.reach_refl by (intro exI [of _ s]) simp
next
  case (Cons x fl)
  have e: "\<not> Empty (rpool s)" using Empty_list [OF Cons.prems(1)] by blast
  have a: "race_inv (go s 0 MPop) hs (x # fl)"
    by (rule race_inv_go [OF Cons.prems(1)]) (use Cons.prems(2) in simp_all)
  obtain y fl' n where y: "x # fl = y # fl'"
    "seg_malloc (rpool (go s 0 MPop)) (rmem (go s 0 MPop)) = Inr (y, (rpool (go s 0 MPop))\<lparr>head_m := n\<rparr>)"
    "race_inv (got (go s 0 MPop) (Inr (y, (rpool (go s 0 MPop))\<lparr>head_m := n\<rparr>, rmem (go s 0 MPop)))) hs fl'"
    "y \<noteq> Null" by (rule race_inv_pop [OF a]) simp_all
  let ?s = "got (go s 0 MPop) (Inr (y, (rpool s)\<lparr>head_m := n\<rparr>, rmem s))"
  have M: "Malloc grant (rpool s) (rmem s) = Inr (y, (rpool s)\<lparr>head_m := n\<rparr>, rmem s)"
    using y(2) e by (simp add: Malloc_def)
  have s: "?s = got s (Inr (y, (rpool s)\<lparr>head_m := n\<rparr>, rmem s))"
    by (simp add: go_def give_chunk_def)
  have r: "reach (race_step grant) s ?s"
    unfolding s by (rule reach_alone [OF Malloc_alone [OF Cons.prems(2) M]])
  have i: "race_inv ?s hs fl" using y(1,3) by simp
  have ra: "rat ?s 0 = Away" by simp
  obtain s' where s': "reach (race_step grant) ?s s'" "race_inv s' hs []" "rat s' = rat ?s"
    "race_lock s' = race_lock ?s" "set (rheld ?s 0) \<subseteq> set (rheld s' 0)" "block_size (rpool s') = block_size (rpool ?s)"
    using Cons.IH [OF i ra] by blast
  have "rat ?s = rat s" using Cons.prems(2) by (auto simp: fun_eq_iff)
  moreover have "race_lock ?s = race_lock s" by (simp add: race_lock_def go_def give_chunk_def)
  moreover have "set (rheld s 0) \<subseteq> set (rheld ?s 0)" "block_size (rpool ?s) = block_size (rpool s)"
    by (auto simp: block_size_def)
  ultimately show ?case using s' reach_trans [OF s'(1) r] by (intro exI [of _ s']) auto
qed

text \<open>From the state of \<open>used_pool\<close>: thread 1 holds a chunk, and the pool, with its list empty, grows.\<close>

lemma growing_run:
  "\<exists>s p c. reach (race_step (\<lambda>_ _. True)) (race_init 8 empty_mem) s \<and> Empty (rpool s) \<and>
     rat s 0 = MLink p \<and> rat s 1 = ALink c"
proof -
  let ?g = "\<lambda>(_ :: nat) (_ :: nat). True" and ?i = "race_init 8 empty_mem"
  let ?R = "reach (race_step ?g)"
  have "pool_inv empty_mem (Pool_ctor 8) [] []" by (rule ctor_inv) simp
  from Malloc_new_block [OF this, of ?g] obtain P m fl0 where
    M: "Malloc ?g (Pool_ctor 8) empty_mem = Inr (Ptr 0 8, P, m)" and n2: "next_size_m P = 128"
    by (auto simp: Pool_ctor_def empty_mem_def address_space_def)
  obtain P' m' where "Malloc ?g (Pool_ctor 8) empty_mem = Inr (Ptr 0 8, P', m')"
    "pool_inv m' P' [(0, 64)] (map (chunk 0 8 8) [1..<63])" "asize P' = 8" using used_pool by blast
  then have P: "asize P = 8" "lock_tail_m P = Spinlock" using M by (auto simp: pool_inv_def)
  have sz: "64 * unat (max 8 (8 :: u64)) + 8 < 2 ^ 63" by simp
  have ii: "rat ?i 0 = Away" "rpool ?i = Pool_ctor 8" "rmem ?i = empty_mem" by (simp_all add: race_init_def)
  let ?s1 = "got ?i (Inr (Ptr 0 8, P, m))"
  have "Malloc ?g (rpool ?i) (rmem ?i) = Inr (Ptr 0 8, P, m)" unfolding ii by (rule M)
  from Malloc_alone [OF ii(1) this] have r1: "?R ?i ?s1" by (rule reach_alone)
  obtain hs fl where v1: "race_inv ?s1 hs fl"
    using race_reach_inv [OF r1 race_inv_init [OF sz mem_ok_empty]] by blast
  obtain s2 where s2: "?R ?s1 s2" "race_inv s2 hs []" "rat s2 = rat ?s1" "race_lock s2 = race_lock ?s1"
    "set (rheld ?s1 0) \<subseteq> set (rheld s2 0)" "block_size (rpool s2) = block_size P" using take_all [OF v1] by auto
  have a2: "rat s2 t = Away" for t using s2(3) by (simp add: race_init_def)
  have h2: "Ptr 0 8 \<in> set (rheld s2 0)" using s2(5) by auto
  have l2: "race_lock s2 = lock_init"
    using s2(4) P(2) by (simp add: race_lock_def race_init_def lock_init_def go_def give_chunk_def)
  let ?s3 = "give_chunk (take_chunk s2 0 (Ptr 0 8)) 1 (Ptr 0 8)"
  have r3: "race_step ?g s2 0 ?s3" by (rule pass_on [OF h2]) simp
  have v3: "race_inv ?s3 hs []" by (rule race_inv_pass [OF s2(2) h2]) simp
  let ?s4 = "go (take_chunk ?s3 1 (Ptr 0 8)) 1 (ATest (Ptr 0 8))"
  have r4: "race_step ?g ?s3 1 ?s4" by (rule call_FreeAppend) (simp_all add: a2)
  have v4: "race_inv ?s4 hs []" by (rule race_inv_take [OF v3]) (simp_all add: a2)
  have "Ptr 0 8 \<in> giving (rat ?s4 1)" by simp
  from giving_live [OF v4 this] have hs: "hs \<noteq> []" by (auto simp: live_def)
  then have tn: "tail_m (rpool s2) \<noteq> Null" using inv_tail_Null [OF race_invD(1) [OF s2(2)]] by simp
  have "free_ok (rmem s2) (unlocked (rpool s2)) hs []" using race_invD(1) [OF s2(2)] by (simp add: pool_inv_def)
  then have ht: "head_m (rpool s2) = tail_m (rpool s2)" by (simp add: free_ok_def)
  let ?s5 = "go ?s4 1 (ALock (Ptr 0 8))"
  have r5: "race_step ?g ?s4 1 ?s5" using a_test [of ?s4 1 "Ptr 0 8" ?g] tn by simp
  have l5: "rlpcs ?s5 1 = Out" "lock_tail_m (rpool ?s5) = Spinlock"
    using l2 by (simp_all add: lock_init_def race_lock_def)
  obtain s6 where r6: "(\<lambda>x y. race_step ?g x 1 y)\<^sup>*\<^sup>* ?s5 s6" and s6: "rat s6 = (rat ?s5)(1 := ALink (Ptr 0 8))"
    "rmem s6 = rmem ?s5" "rpool s6 = (rpool ?s5)\<lparr>lock_tail_m := Spinlock\<lparr>lock_m := 1\<rparr>\<rparr>"
    using lock_alone [of ?s5 1 "Ptr 0 8" ?g] l5 by auto
  have a6: "rat s6 0 = Away" "rat s6 1 = ALink (Ptr 0 8)" using s6(1) a2 by simp_all
  have e6: "Empty (rpool s6)" "tail_m (rpool s6) \<noteq> Null" using s6(3) ht tn by (simp_all add: Empty_def seg_empty_def)
  let ?s7 = "go s6 0 MTest"
  have r7: "race_step ?g s6 0 ?s7" by (rule call_Malloc [OF a6(1)])
  let ?s8 = "go ?s7 0 MGrow"
  have r8: "race_step ?g ?s7 0 ?s8" using m_test [of ?s7 ?g] e6 by simp
  have R8: "?R ?i ?s8"
  proof -
    have "?R ?s1 ?s5" using s2(1) r3 r4 r5 by (meson reach.reach_step)
    then have "?R ?s1 s6" by (rule reach_trans [OF reach_alone [OF r6]])
    then have "?R ?s1 ?s7" using r7 by (rule reach.reach_step)
    then have "?R ?s1 ?s8" using r8 by (rule reach.reach_step)
    then show ?thesis using r1 by (rule reach_trans)
  qed
  have "alloc_size_m P = 8" by (rule word_unat_eq_iff [THEN iffD2]) (simp add: P(1))
  then have bs: "block_size (rpool ?s8) = 1024" using s6(3) s2(6) n2 by (simp add: block_size_def)
  let ?b = "nextb (rmem ?s8)"
  obtain m9 where m9: "sys_malloc ?g (unat (block_size (rpool ?s8) + 8)) (rmem ?s8) = (Ptr ?b 0, m9)"
    unfolding bs by (simp add: sys_malloc_def address_space_def)
  let ?s9 = "go (?s8\<lparr>rmem := m9\<rparr>) 0 (MTail (Ptr ?b 0))"
  have r9: "race_step ?g ?s8 0 ?s9" by (rule m_granted [OF _ m9]) simp
  let ?s10 = "go ?s9 0 (MLink (Ptr ?b 0))"
  have r10: "race_step ?g ?s9 0 ?s10" by (rule m_more) (use e6 in simp_all)
  have "?R ?i ?s10" using R8 r9 r10 by (meson reach.reach_step)
  moreover have "Empty (rpool ?s10)" "rat ?s10 0 = MLink (Ptr ?b 0)" "rat ?s10 1 = ALink (Ptr 0 8)"
    using e6 a6 by simp_all
  ultimately show ?thesis by blast
qed

subsection \<open>Properties\<close>

text \<open>
  C2. The pool is safe under any interleaving: while its owner allocates and frees without a lock and
  any number of other threads return chunks to it, pass chunks on and write into those they hold, no
  call ever fails, no chunk is held twice, by one thread or by two, and what is held is accessible
  memory.
\<close>

theorem race_safe:
  assumes "64 * unat (max n (8 :: u64)) + 8 < 2 ^ 63" and "mem_ok m"
    and "reach (race_step grant) (race_init n m) s"
  shows "rat s t \<noteq> Failed e \<and> distinct (rheld s t) \<and>
     (t \<noteq> u \<longrightarrow> set (rheld s t) \<inter> set (rheld s u) = {}) \<and>
     (\<forall>p\<in>set (rheld s t). \<exists>b i. p = Ptr b i \<and> valid (rmem s) b i (asize (rpool s)))"
proof -
  obtain hs fl where inv: "race_inv s hs fl"
    using race_reach_inv [OF assms(3) race_inv_init [OF assms(1,2)]] by blast
  note I = race_invD [OF inv] and U = users_okD [OF race_invD(4) [OF inv]]
  have "\<exists>b i. p = Ptr b i \<and> valid (rmem s) b i (asize (rpool s))" if "p \<in> set (rheld s t)" for p
  proof -
    have "p \<in> chunks (asize (unlocked (rpool s))) hs" using U(3) [of t] that by (auto simp: owned_def live_def)
    then show ?thesis
      using chunks_Ptr chunks_valid [of "rmem s" "unlocked (rpool s)" hs] I(1) by (fastforce simp: pool_inv_def)
  qed
  then show ?thesis using I(6) U(1) [of t] U(4) [of t u] by (auto simp: no_fault_def owned_def)
qed

theorem race_safe_witness:
  "\<exists>s p c. reach (race_step (\<lambda>_ _. True)) (race_init 8 empty_mem) s \<and> rat s 0 = MLink p \<and> rat s 1 = ALink c \<and>
     distinct (rheld s 0) \<and> set (rheld s 0) \<inter> set (rheld s 1) = {}"
proof -
  obtain s p c where s: "reach (race_step (\<lambda>_ _. True)) (race_init 8 empty_mem) s" "rat s 0 = MLink p"
    "rat s 1 = ALink c" using growing_run by blast
  show ?thesis using race_safe [OF _ mem_ok_empty s(1), where t = 0 and u = 1] s by auto
qed

text \<open>
  The cut code is the code: a thread that runs the pieces of \<open>Malloc\<close> without interference ends
  where the \<open>Malloc\<close> of theory \<open>Pool\<close>, the whole call as one step, ends; the chunk is its own.
\<close>

theorem Malloc_pieces:
  assumes "rat s 0 = Away" and "Malloc grant (rpool s) (rmem s) = Inr (r, P, m)"
  shows "\<exists>s'. (\<lambda>x y. race_step grant x 0 y)\<^sup>*\<^sup>* s s' \<and> rpool s' = P \<and> rmem s' = m \<and> rat s' = rat s \<and>
     rheld s' 0 = (if r = Null then rheld s 0 else r # rheld s 0)"
  using Malloc_alone [OF assms] assms(1) by (intro exI [of _ "got s (Inr (r, P, m))"]) (auto simp: fun_eq_iff)

theorem Malloc_pieces_witness:
  "\<exists>s'. (\<lambda>x y. race_step (\<lambda>_ _. True) x 0 y)\<^sup>*\<^sup>* (race_init 8 empty_mem) s' \<and> rheld s' 0 = [Ptr 0 8]"
proof -
  obtain P m where M: "Malloc (\<lambda>_ _. True) (Pool_ctor 8) empty_mem = Inr (Ptr 0 8, P, m)" using used_pool by blast
  have i: "rat (race_init 8 empty_mem) 0 = Away" "rheld (race_init 8 empty_mem) 0 = []" by (simp_all add: race_init_def)
  have "Malloc (\<lambda>_ _. True) (rpool (race_init 8 empty_mem)) (rmem (race_init 8 empty_mem)) = Inr (Ptr 0 8, P, m)"
    using M by (simp add: race_init_def)
  from Malloc_pieces [OF i(1) this] show ?thesis using i(2) by auto
qed

text \<open>
  C30. Growing can lose a chunk: when the owner, with an empty list, is about to link its new block to
  \<open>tail_\<close> while another thread is about to append, one order of the next steps ends with the old tail
  in no thread's hands and in no list, although the pool never hands it out again.
\<close>

theorem growth_loses_chunk:
  assumes "64 * unat (max n (8 :: u64)) + 8 < 2 ^ 63" and "mem_ok m"
    and "reach (race_step grant) (race_init n m) s" and "Empty (rpool s)"
    and "rat s 0 = MLink p" and "rat s t = ALink c"
  shows "\<exists>s'. reach (race_step grant) s s' \<and> rat s' 0 = Away \<and> lost s' (tail_m (rpool s))"
proof -
  obtain hs fl where inv: "race_inv s hs fl"
    using race_reach_inv [OF assms(3) race_inv_init [OF assms(1,2)]] by blast
  then have "race_inv s hs []" using Empty_list assms(4) by blast
  from race_loses_tail [OF this assms(5,6)] show ?thesis unfolding lost_def by blast
qed

theorem growth_loses_chunk_witness:
  "\<exists>s q. reach (race_step (\<lambda>_ _. True)) (race_init 8 empty_mem) s \<and> rat s 0 = Away \<and> lost s q"
proof -
  obtain s p c where s: "reach (race_step (\<lambda>_ _. True)) (race_init 8 empty_mem) s" "Empty (rpool s)"
    "rat s 0 = MLink p" "rat s 1 = ALink c" using growing_run by blast
  have "64 * unat (max 8 (8 :: u64)) + 8 < 2 ^ 63" by simp
  from growth_loses_chunk [OF this mem_ok_empty s] show ?thesis using reach_trans [OF _ s(1)] by meson
qed

end
