(* ===== verification/ObjectPoolSpec.thy ===== *)
theory ObjectPoolSpec
  imports ObjectPool
begin

section \<open>What the object pool promises\<close>

text \<open>
  The properties of \<open>ObjectPool\<close>: chunks are never shared, whichever threads allocate and give
  back; a chunk returns to the pool it came from; and the error paths (too many threads, no
  memory, use after the destructor).
\<close>

lemma obj_malloc_succeeds:
  assumes inv: "opool_inv RS S G" and P: "objs S h = Some P"
    and run: "Malloc grant P (omem S) = Inr (p, P', m')" and p: "p \<noteq> Null"
  shows "\<exists>S'. obj_malloc grant RS t h S = Inr (p, S')"
proof -
  have pi: "pool_inv (omem S) P (fst (G h)) (snd (G h))" and a: "asize P = max (RS + 2) 8"
    using inv P by (auto simp: opool_inv_def pools_ok_def)
  obtain hs' fl' where i': "pool_inv m' P' hs' fl'" and c: "p \<in> chunks (asize P') hs'"
    and a': "asize P' = asize P"
    using Malloc_cases [OF pi, of grant] run p by auto
  obtain b i where pp: "p = Ptr b i" using chunks_Ptr [OF c] by blast
  have "valid m' b i (asize P')"
    using i' c pp by (intro chunks_valid) (simp_all add: pool_inv_def)
  then have "valid m' b (i + int RS) 2" by (rule valid_mono) (simp_all add: a a')
  then obtain m'' where "store_short m' (padd p (int RS)) (thread_id_m S t) = Inr m''"
    unfolding store_short_def pp by fastforce
  then show ?thesis using run P by (simp add: obj_malloc_def the_obj_def)
qed

text \<open>
  An allocation fails in two ways only: the calling thread is new and all the slots of the array are taken,
  or its pool is empty and the system refuses to grow it.
\<close>

lemma Malloc_faults:
  assumes rel: "opool_rel RS S L" and r: "ObjectPool_Malloc grant RS t S = Inl f"
  shows "f = BadAccess \<and> object_pool_m S t = None \<and> nobjs S = max_thread_num \<or>
     f = NullDeref \<and> (\<exists>h T P. object_pool RS t S = Inr (h, T) \<and> objs T h = Some P \<and> Empty P \<and> \<not> granted grant P (omem T))"
proof -
  obtain G where inv: "opool_inv RS S G" and RS: "RS < 2 ^ 31" using rel by (auto simp: opool_rel_def)
  have th: "threads_ok S" using inv by (simp add: opool_inv_def)
  show ?thesis
  proof (cases "object_pool RS t S")
    case (Inl e)
    then have o: "object_pool_m S t = None" using object_pool_existing [of S t _ RS] by (cases "object_pool_m S t") auto
    have "e = BadAccess" "nobjs S = 64"
      using Inl object_pool_new [OF th o, of RS] th by (auto simp: threads_ok_def split: if_splits)
    then show ?thesis using Inl o r by (simp add: ObjectPool_Malloc_def max_thread_num_def)
  next
    case (Inr x)
    obtain h T where o: "object_pool RS t S = Inr (h, T)" using Inr by (cases x) simp
    then obtain G1 P where T: "opool_inv RS T G1" "objs T h = Some P" using object_pool_ok [OF inv RS o] by blast
    have fail: "obj_malloc grant RS t h T = Inl f" using r o by (simp add: ObjectPool_Malloc_def)
    have pi: "pool_inv (omem T) P (fst (G1 h)) (snd (G1 h))" using T by (simp add: opool_inv_def pools_ok_def)
    obtain p P' m' where run: "Malloc grant P (omem T) = Inr (p, P', m')"
      and c: "p = Null \<Longrightarrow> snd (G1 h) = [] \<and> \<not> granted grant P (omem T)"
      using Malloc_branches [OF pi, of grant] by fastforce
    have p: "p = Null" using obj_malloc_succeeds [OF T run, of t] fail by force
    then have "Empty P" using c pi by (simp add: pool_inv_def free_ok_def Empty_def seg_empty_def)
    moreover have "f = NullDeref" using fail run p T(2) by (simp add: obj_malloc_def the_obj_def store_short_Null)
    ultimately show ?thesis using o T(2) c [OF p] by blast
  qed
qed

text \<open>A thread takes one slot of the array, once.\<close>

lemma Malloc_slots:
  assumes rel: "opool_rel RS S L" and r: "ObjectPool_Malloc grant RS t S = Inr (p, S')"
  shows "nobjs S' = nobjs S + (if object_pool_m S t = None then 1 else 0)"
    and "\<exists>h. object_pool_m S' = (object_pool_m S)(t \<mapsto> h)"
proof -
  obtain G where inv: "opool_inv RS S G" and RS: "RS < 2 ^ 31" using rel by (auto simp: opool_rel_def)
  have th: "threads_ok S" using inv by (simp add: opool_inv_def)
  obtain h T where o: "object_pool RS t S = Inr (h, T)" and m: "obj_malloc grant RS t h T = Inr (p, S')"
    using r by (auto simp: ObjectPool_Malloc_def)
  have e: "thread_id_counter S' = thread_id_counter T" "object_pool_m S' = object_pool_m T"
    using m by (auto simp: obj_malloc_def set_obj_def)
  have "nobjs S' = nobjs S + (if object_pool_m S t = None then 1 else 0) \<and>
     (\<exists>h. object_pool_m S' = (object_pool_m S)(t \<mapsto> h))"
  proof (cases "object_pool_m S t")
    case None
    then have T: "T = new_object RS t S" "nobjs S < 64" using o object_pool_new [OF th None, of RS] by (auto split: if_splits)
    have "nobjs T = nobjs S + 1" using new_counter [of S] T(2) by (simp add: T(1) new_object_def)
    moreover have "object_pool_m T = (object_pool_m S)(t \<mapsto> nobjs S + 1)" by (simp add: T(1) new_object_def)
    ultimately show ?thesis using None e by auto
  next
    case (Some g)
    then have "T = S" using o object_pool_existing [OF Some, of RS] by simp
    moreover have "object_pool_m S = (object_pool_m S)(t \<mapsto> g)" using Some by (simp add: fun_upd_idem)
    ultimately have "nobjs S' = nobjs S" "object_pool_m S' = (object_pool_m S)(t \<mapsto> g)" using e by simp_all
    then show ?thesis using Some by auto
  qed
  then show "nobjs S' = nobjs S + (if object_pool_m S t = None then 1 else 0)"
    "\<exists>h. object_pool_m S' = (object_pool_m S)(t \<mapsto> h)" by blast+
qed

text \<open>The first allocation of the first thread, for witnesses.\<close>

lemma first_malloc:
  assumes RS: "6 \<le> RS" "RS < 100000"
  shows "\<exists>S. ObjectPool_Malloc (\<lambda>_ _. True) RS t (opool_init empty_mem) = Inr (Ptr 0 8, S) \<and>
     object_pool_m S = [t \<mapsto> 1] \<and> ref_count_m S t = 1"
proof -
  let ?I = "opool_init empty_mem" and ?S = "new_object RS t (opool_init empty_mem)"
  let ?P = "Pool_ctor (of_nat (RS + 2))"
  have RS': "RS < 2 ^ 31" using RS by simp
  have inv0: "opool_inv RS ?I (\<lambda>_. ([], []))" by (rule opool_init_inv [OF mem_ok_empty])
  have t0: "object_pool_m ?I t = None" "nobjs ?I = 0" "omem ?I = empty_mem"
    "ref_count_m ?I t = 0" "object_pool_m ?I = Map.empty"
    by (simp_all add: opool_init_def)
  have o: "object_pool RS t ?I = Inr (1, ?S)"
    using object_pool_new [OF _ t0(1), of RS] inv0 t0(2) by (simp add: opool_inv_def)
  have "opool_inv RS ?S ((\<lambda>_. ([], []))(nobjs ?I + 1 := ([], [])))"
    by (rule new_object_inv(1) [OF inv0 t0(1)]) (use RS' t0(2) in simp_all)
  then obtain G where inv: "opool_inv RS ?S G" by blast
  have s: "objs ?S 1 = Some ?P" "omem ?S = empty_mem" "object_pool_m ?S = [t \<mapsto> 1]"
    "ref_count_m ?S t = 1"
    using t0 by (simp_all add: new_object_def)
  have n: "nextb empty_mem = 0" "unat (next_size_m ?P) = 64" "asize ?P = RS + 2"
    using ctor_asize [OF RS'] RS by (simp_all add: Pool_ctor_def empty_mem_def)
  have "pool_inv empty_mem ?P [] []" by (rule ctor_pool_inv [OF RS' mem_ok_empty])
  then obtain P' m' where "Malloc (\<lambda>_ _. True) ?P empty_mem = Inr (Ptr 0 8, P', m')"
    using Malloc_new_block [of empty_mem ?P "[]" "\<lambda>_ _. True"] RS unfolding n by (auto simp: address_space_def)
  then obtain S' where S': "obj_malloc (\<lambda>_ _. True) RS t 1 ?S = Inr (Ptr 0 8, S')"
    using obj_malloc_succeeds [OF inv s(1), of "\<lambda>_ _. True"] s(2) by fastforce
  then have "object_pool_m S' = object_pool_m ?S" "ref_count_m S' = ref_count_m ?S"
    by (auto simp: obj_malloc_def set_obj_def)
  with S' o s show ?thesis by (simp add: ObjectPool_Malloc_def)
qed

text \<open>A chunk in use is not null, and \<open>::free\<close> does not accept it.\<close>

text \<open>The chunk a thread has just got is of its own pool, and the first it gets again once it is back.\<close>

lemma malloc_tag:
  "obj_malloc grant RS t h S = Inr (p, S') \<Longrightarrow>
   load_short (omem S') (padd p (int RS)) = Inr (thread_id_m S t)"
  by (auto simp: obj_malloc_def set_obj_def dest: load_store_short_same)

lemma tagged_chunk:
  assumes inv: "opool_inv RS S G" and c: "c \<in> all_live S G" and o: "object_pool_m S t = Some h"
    and tag: "load_short (omem S) (padd c (int RS)) = Inr (of_nat h)"
  shows "c \<in> obj_live S G h"
proof -
  have to: "tags_ok RS S G" and th: "threads_ok S" using inv by (simp_all add: opool_inv_def)
  obtain g where g: "c \<in> obj_live S G g" using c by (auto simp: all_live_def)
  have "load_short (omem S) (padd c (int RS)) = Inr (of_nat g)" using to g unfolding tags_ok_def by blast
  then have e: "(of_nat g :: u16) = of_nat h" using tag by simp
  have h: "h \<le> nobjs S" "nobjs S \<le> 64" using th o unfolding threads_ok_def by blast+
  have "objs S g \<noteq> None" using g by (auto simp: obj_live_def split: option.splits)
  then have "g \<le> nobjs S" using th unfolding threads_ok_def by blast
  then have "g = h" using e h of_nat_u16_inj [of g h] by simp
  then show ?thesis using g by simp
qed

lemma free_then_malloc:
  assumes inv: "opool_inv RS S G" and o: "object_pool_m S t = Some h" and c: "c \<in> obj_live S G h"
  shows "\<exists>S1 S2. ObjectPool_Free RS t S c = Inr S1 \<and> ObjectPool_Malloc grant RS t S1 = Inr (c, S2)"
proof -
  have to: "tags_ok RS S G" and th: "threads_ok S" using inv by (simp_all add: opool_inv_def)
  obtain P where P: "objs S h = Some P" and cl: "c \<in> live P (fst (G h)) (snd (G h))"
    using c by (auto simp: obj_live_def split: option.splits)
  have pi: "pool_inv (omem S) P (fst (G h)) (snd (G h))" and a: "asize P = max (RS + 2) 8"
    using inv P by (auto simp: opool_inv_def pools_ok_def)
  have id: "thread_id_m S t = of_nat h" using th o unfolding threads_ok_def by blast
  obtain m' where f: "Free P c (omem S) = Inr (P\<lparr>head_m := c\<rparr>, m')"
    and i': "pool_inv m' (P\<lparr>head_m := c\<rparr>) (fst (G h)) (c # snd (G h))" using Free_ok [OF pi cl] by blast
  let ?S1 = "set_obj S h (P\<lparr>head_m := c\<rparr>) m'"
  have S1: "ObjectPool_Free RS t S c = Inr ?S1"
    using tag_of [OF to P cl] f P id object_pool_existing [OF o, of RS]
    by (simp add: ObjectPool_Free_def obj_free_def the_obj_def)
  obtain n where m: "Malloc grant (P\<lparr>head_m := c\<rparr>) m' = Inr (c, P\<lparr>head_m := n\<rparr>, m')"
    and i2: "pool_inv m' (P\<lparr>head_m := n\<rparr>) (fst (G h)) (snd (G h))"
    using Malloc_from_list [OF i', of grant] by auto
  have o1: "object_pool_m ?S1 t = Some h" "objs ?S1 h = Some (P\<lparr>head_m := c\<rparr>)" "omem ?S1 = m'"
    using o by (simp_all add: set_obj_def)
  have cc: "c \<in> chunks (asize P) (fst (G h))" using cl by (simp add: live_def)
  obtain b i where cp: "c = Ptr b i" using chunks_Ptr [OF cc] by blast
  have "blocks_ok m' (P\<lparr>head_m := n\<rparr>) (fst (G h))" using i2 by (simp add: pool_inv_def)
  then have "valid m' b i (asize (P\<lparr>head_m := n\<rparr>))" by (rule chunks_valid) (use cc cp in simp)
  then have "valid m' b (i + int RS) 2" by (rule valid_mono) (simp_all add: a)
  then obtain m'' where "store_short m' (padd c (int RS)) (thread_id_m ?S1 t) = Inr m''"
    unfolding store_short_def cp by fastforce
  then have "ObjectPool_Malloc grant RS t ?S1 = Inr (c, set_obj ?S1 h (P\<lparr>head_m := n\<rparr>) m'')"
    using m o1 object_pool_existing [OF o1(1), of RS]
    by (simp add: ObjectPool_Malloc_def obj_malloc_def the_obj_def)
  then show ?thesis using S1 by blast
qed

lemma malloc_again:
  assumes rel: "opool_rel RS S L" and m: "ObjectPool_Malloc grant RS t S = Inr (c, S1)"
  shows "\<exists>S2 S3. ObjectPool_Free RS t S1 c = Inr S2 \<and> ObjectPool_Malloc grant' RS t S2 = Inr (c, S3)"
proof -
  obtain h T where o: "object_pool RS t S = Inr (h, T)" and om: "obj_malloc grant RS t h T = Inr (c, S1)"
    using m by (auto simp: ObjectPool_Malloc_def)
  obtain G where inv: "opool_inv RS S G" and RS: "RS < 2 ^ 31" using rel by (auto simp: opool_rel_def)
  obtain G1 P where T: "opool_inv RS T G1" "objs T h = Some P" "object_pool_m T t = Some h"
    "thread_id_m T t = of_nat h"
    using object_pool_ok [OF inv RS o] by blast
  obtain G2 where inv2: "opool_inv RS S1 G2" and c: "c \<in> all_live S1 G2"
    using obj_malloc_ok [OF T(1,2,4) om] by auto
  have "object_pool_m S1 t = Some h" using om T(3) by (auto simp: obj_malloc_def set_obj_def)
  moreover have "load_short (omem S1) (padd c (int RS)) = Inr (of_nat h)" using malloc_tag [OF om] T(4) by simp
  ultimately show ?thesis using free_then_malloc [OF inv2 _ tagged_chunk [OF inv2 c]] by blast
qed

lemma held_not_freeable:
  assumes "opool_rel RS S L" and "p \<in> L"
  shows "p \<noteq> Null \<and> sys_free m p = Inl BadFree"
proof -
  obtain G h P where "p \<in> live P (fst (G h)) (snd (G h))"
    using assms by (auto simp: opool_rel_def all_live_def obj_live_def split: option.splits)
  then have c: "p \<in> chunks (asize P) (fst (G h))" by (simp add: live_def)
  show ?thesis using chunk_not_deletable [OF c] chunks_Ptr [OF c] by auto
qed

subsection \<open>Properties\<close>

text \<open>
  C14. Chunks are never shared between users or threads: for any sequence of \<open>Malloc\<close> and
  \<open>Free\<close> calls made by any threads on an object pool (each free of a chunk that is held, by
  whichever thread), if no call faults then the pointers held are all different and are
  exactly the chunks in use.
\<close>

theorem opool_program_safe:
  assumes "mem_ok m" and "RS < 2 ^ 31"
    and "run_client (ObjectPool_Malloc grant RS) (ObjectPool_Free RS) (opool_init m) [] rs = Inr (S, held)"
  shows "distinct held \<and> opool_rel RS S (set held)"
  using shared.client_safe [of RS "opool_init m" "[]" grant rs S held]
    opool_init_rel [OF assms(1,2)] assms(3) by simp

theorem opool_program_safe_witness:
  "\<exists>S. run_client (ObjectPool_Malloc (\<lambda>_ _. True) 16) (ObjectPool_Free 16) (opool_init empty_mem) []
       [(3, Get)] = Inr (S, [Ptr 0 8]) \<and> distinct [Ptr 0 8] \<and> opool_rel 16 S {Ptr 0 8}"
proof -
  obtain S where S: "ObjectPool_Malloc (\<lambda>_ _. True) 16 3 (opool_init empty_mem) = Inr (Ptr 0 8, S)"
    using first_malloc [of 16] by auto
  then have c: "run_client (ObjectPool_Malloc (\<lambda>_ _. True) 16) (ObjectPool_Free 16) (opool_init empty_mem) []
       [(3, Get)] = Inr (S, [Ptr 0 8])" by simp
  from opool_program_safe [OF mem_ok_empty _ c] c show ?thesis by auto
qed

text \<open>
  \<open>Malloc\<close> of a thread that already has a pool, whenever it returns: the result is a chunk with
  room for \<open>RequestedSize\<close> bytes and the thread number, which nobody held before.
\<close>

theorem ObjectPool_Malloc_fresh:
  assumes "opool_rel RS S L" and "ObjectPool_Malloc grant RS t S = Inr (p, S')"
  shows "p \<notin> L \<and> opool_rel RS S' (insert p L) \<and> (\<exists>b i. p = Ptr b i \<and> valid (omem S') b i (RS + 2))"
  using Malloc_law [OF assms] by blast

theorem ObjectPool_Malloc_fresh_witness:
  "\<exists>S. ObjectPool_Malloc (\<lambda>_ _. True) 16 0 (opool_init empty_mem) = Inr (Ptr 0 8, S) \<and>
     valid (omem S) 0 8 18"
proof -
  obtain S where S: "ObjectPool_Malloc (\<lambda>_ _. True) 16 0 (opool_init empty_mem) = Inr (Ptr 0 8, S)"
    using first_malloc [of 16] by auto
  have "opool_rel 16 (opool_init empty_mem) {}" by (rule opool_init_rel [OF mem_ok_empty]) simp
  from ObjectPool_Malloc_fresh [OF this S] S show ?thesis by auto
qed

text \<open>
  A chunk goes home: giving back a chunk of pool \<open>g\<close> never faults, and changes pool \<open>g\<close>
  only.  If the calling thread owns \<open>g\<close> the chunk becomes its head, the next to be handed out;
  if another thread calls, it becomes the tail.
\<close>

theorem Free_returns_home:
  assumes inv: "opool_inv RS S G" and o: "object_pool_m S t = Some h" and c: "c \<in> obj_live S G g"
  shows "\<exists>S' P'. ObjectPool_Free RS t S c = Inr S' \<and> objs S' g = Some P' \<and>
     (if g = h then head_m P' = c else tail_m P' = c) \<and>
     (\<forall>f. f \<noteq> g \<longrightarrow> objs S' f = objs S f)"
proof -
  have po: "pools_ok RS S G" and to: "tags_ok RS S G" and th: "threads_ok S"
    using inv by (simp_all add: opool_inv_def)
  obtain P where P: "objs S g = Some P" and cl: "c \<in> live P (fst (G g)) (snd (G g))"
    using c by (auto simp: obj_live_def split: option.splits)
  have pi: "pool_inv (omem S) P (fst (G g)) (snd (G g))" using po P by (simp add: pools_ok_def)
  have h: "1 \<le> h" "h \<le> nobjs S" "thread_id_m S t = of_nat h" and n: "nobjs S \<le> 64"
    and len: "length (object_pool_array_m S) = 65"
    using th o unfolding threads_ok_def by blast+
  have "objs S g \<noteq> None \<longleftrightarrow> 1 \<le> g \<and> g \<le> nobjs S" using th unfolding threads_ok_def by blast
  then have g: "1 \<le> g" "g \<le> nobjs S" using P by auto
  have arr: "object_pool_array_m S ! g = Some g" using th g unfolding threads_ok_def by blast
  have tag: "load_short (omem S) (padd c (int RS)) = Inr (of_nat g)" by (rule tag_of [OF to P cl])
  have eq: "(of_nat g :: u16) = of_nat h \<longleftrightarrow> g = h" using g h n by (intro of_nat_u16_inj) auto
  have ix: "array_index S (of_nat g) = Inr g" using array_index_ok [OF len, of g] g n by simp
  show ?thesis
    using Free_ok [OF pi cl] FreeAppend_ok [OF pi cl] tag P h(3) eq arr ix object_pool_existing [OF o]
    by (cases "g = h") (fastforce simp: ObjectPool_Free_def obj_free_def the_obj_def set_obj_def)+
qed

theorem Free_returns_home_witness:
  "\<exists>S S'. ObjectPool_Malloc (\<lambda>_ _. True) 16 0 (opool_init empty_mem) = Inr (Ptr 0 8, S) \<and>
     ObjectPool_Free 16 0 S (Ptr 0 8) = Inr S'"
proof -
  obtain S where S: "ObjectPool_Malloc (\<lambda>_ _. True) 16 0 (opool_init empty_mem) = Inr (Ptr 0 8, S)"
    and o: "object_pool_m S 0 = Some 1" using first_malloc [of 16 0] by fastforce
  have "opool_rel 16 (opool_init empty_mem) {}" by (rule opool_init_rel [OF mem_ok_empty]) simp
  from Malloc_law [OF this S] obtain G where inv: "opool_inv 16 S G" and "{Ptr 0 8} = all_live S G"
    by (auto simp: opool_rel_def)
  then obtain g where "Ptr 0 8 \<in> obj_live S G g" by (auto simp: all_live_def)
  from Free_returns_home [OF inv o this] S show ?thesis by blast
qed

text \<open>
  \<open>max_thread_num\<close> is not enforced: a 65th thread that uses the pool writes behind the end of
  \<open>object_pool_array_\<close>, whatever it calls first.
\<close>

theorem too_many_threads:
  assumes "opool_inv RS S G" and "object_pool_m S t = None" and "nobjs S = max_thread_num"
  shows "ObjectPool_Malloc grant RS t S = Inl BadAccess \<and> ObjectPool_Free RS t S c = Inl BadAccess \<and>
     ObjectPool_PurgeMemory RS t S = Inl BadAccess"
  using object_pool_new [of S t RS] assms
  by (simp add: opool_inv_def max_thread_num_def ObjectPool_Malloc_def ObjectPool_Free_def
      ObjectPool_PurgeMemory_def)

text \<open>Sixty-four threads, one object each.\<close>

lemma many_threads:
  "n \<le> 64 \<Longrightarrow> \<exists>S G. opool_inv 16 S G \<and> nobjs S = n \<and> (\<forall>t\<ge>n. object_pool_m S t = None)"
proof (induction n)
  case 0
  have "opool_inv 16 (opool_init empty_mem) (\<lambda>_. ([], []))" by (rule opool_init_inv [OF mem_ok_empty])
  moreover have "nobjs (opool_init empty_mem) = 0" "object_pool_m (opool_init empty_mem) = Map.empty"
    by (simp_all add: opool_init_def)
  ultimately show ?case by (metis option.distinct(1))
next
  case (Suc n)
  then obtain S G where S: "opool_inv 16 S G" "nobjs S = n" "\<forall>t\<ge>n. object_pool_m S t = None" by auto
  have n: "nobjs S < 64" using S(2) Suc.prems by simp
  have none: "object_pool_m S n = None" using S(3) by simp
  have "opool_inv 16 (new_object 16 n S) (G(nobjs S + 1 := ([], [])))"
    by (rule new_object_inv(1) [OF S(1) none n]) simp
  moreover have "nobjs (new_object 16 n S) = Suc n"
    using S(2) n by (simp add: new_object_def new_counter)
  moreover have "\<forall>t\<ge>Suc n. object_pool_m (new_object 16 n S) t = None"
    using S(3) by (simp add: new_object_def)
  ultimately show ?case by blast
qed

theorem too_many_threads_witness:
  "\<exists>S. nobjs S = 64 \<and> ObjectPool_Malloc (\<lambda>_ _. True) 16 64 S = Inl BadAccess"
proof -
  obtain S G where S: "opool_inv 16 S G" "nobjs S = 64" "\<forall>t\<ge>64. object_pool_m S t = None"
    using many_threads [of 64] by auto
  have "object_pool_m S 64 = None" using S(3) by simp
  from too_many_threads [OF S(1) this] S(2) show ?thesis by (auto simp: max_thread_num_def)
qed

text \<open>
  \<open>Malloc\<close> never returns null: when the pool of the calling thread is empty and the system has
  no memory, \<open>Pool::Malloc\<close> returns null and the thread number is written through it.  The
  null checks of \<open>Preallocate\<close> come too late.
\<close>

theorem out_of_memory_faults:
  assumes "object_pool_m S t = Some h" and "objs S h = Some P" and "Empty P"
    and "\<And>k n. \<not> grant k n"
  shows "ObjectPool_Malloc grant RS t S = Inl NullDeref"
  using assms
  by (simp add: ObjectPool_Malloc_def object_pool_existing obj_malloc_def the_obj_def Malloc_def
      resize_and_malloc_def sys_malloc_def store_short_Null)

theorem out_of_memory_faults_witness:
  "ObjectPool_Malloc (\<lambda>_ _. False) 16 0 (new_object 16 0 (opool_init empty_mem)) = Inl NullDeref"
  by (rule out_of_memory_faults [where h = 1 and P = "Pool_ctor (of_nat (16 + 2))"])
    (simp_all add: new_object_def opool_init_def Pool_ctor_def Empty_def seg_empty_def)

text \<open>
  The destructor leaves dangling pointers: after the thread's only use count is gone its pool
  object is freed, but \<open>object_pool_\<close> still points to it, so the next allocation of that thread
  (through any other \<open>ObjectPool\<close> of the same type) uses a destroyed object.
\<close>

theorem use_after_destructor:
  assumes "object_pool_m S t = Some h" and "ref_count_m S t = 1"
  shows "ObjectPool_Malloc grant RS t (ObjectPool_dtor t S) = Inl BadAccess \<and>
     ObjectPool_PurgeMemory RS t (ObjectPool_dtor t S) = Inl BadAccess"
  using assms
  by (simp add: ObjectPool_dtor_def Let_def ObjectPool_Malloc_def ObjectPool_PurgeMemory_def obj_purge_def
      object_pool_def obj_malloc_def the_obj_def)

theorem use_after_destructor_witness:
  "\<exists>S. ObjectPool_Malloc (\<lambda>_ _. True) 16 0 (opool_init empty_mem) = Inr (Ptr 0 8, S) \<and>
     ObjectPool_Malloc (\<lambda>_ _. True) 16 0 (ObjectPool_dtor 0 S) = Inl BadAccess"
proof -
  obtain S where S: "ObjectPool_Malloc (\<lambda>_ _. True) 16 0 (opool_init empty_mem) = Inr (Ptr 0 8, S)"
    and o: "object_pool_m S 0 = Some 1" "ref_count_m S 0 = 1" using first_malloc [of 16 0] by fastforce
  from use_after_destructor [OF o] S show ?thesis by blast
qed

text \<open>
  \<open>Construct\<close> does not leak: if the object's constructor throws, the result is null and the
  chunks in use are the same as before the call.
\<close>

theorem Construct_throw:
  assumes "opool_rel RS S L" and "Construct grant RS t None S = Inr (p, S')"
  shows "p = Null \<and> opool_rel RS S' L"
proof -
  obtain q S1 S2 where m: "ObjectPool_Malloc grant RS t S = Inr (q, S1)"
    and f: "ObjectPool_Free RS t S1 q = Inr S2" and p: "p = Null" "S' = S2"
    using assms(2) by (auto simp: Construct_def)
  have q: "q \<notin> L" "opool_rel RS S1 (insert q L)" using Malloc_law [OF assms(1) m] by simp_all
  have "opool_rel RS S2 (insert q L - {q})" by (rule Free_law [OF q(2) _ f]) simp
  then show ?thesis using p q(1) by simp
qed

theorem Construct_throw_witness:
  "\<exists>S'. Construct (\<lambda>_ _. True) 16 0 None (opool_init empty_mem) = Inr (Null, S') \<and> opool_rel 16 S' {}"
proof -
  obtain S where S: "ObjectPool_Malloc (\<lambda>_ _. True) 16 0 (opool_init empty_mem) = Inr (Ptr 0 8, S)"
    and o: "object_pool_m S 0 = Some 1" using first_malloc [of 16 0] by fastforce
  have i: "opool_rel 16 (opool_init empty_mem) {}" by (rule opool_init_rel [OF mem_ok_empty]) simp
  have "opool_rel 16 S {Ptr 0 8}" using Malloc_law [OF i S] by simp
  then obtain S' where "ObjectPool_Free 16 0 S (Ptr 0 8) = Inr S'" using Free_returns o by blast
  then have "Construct (\<lambda>_ _. True) 16 0 None (opool_init empty_mem) = Inr (Null, S')"
    using S by (simp add: Construct_def)
  with Construct_throw [OF i this] show ?thesis by blast
qed

lemma take_n_ok:
  "opool_rel RS S L \<Longrightarrow> take_n grant RS t n S = Inr (ps, S') \<Longrightarrow>
   length ps = n \<and> Null \<notin> set ps \<and> distinct ps \<and> set ps \<inter> L = {} \<and> opool_rel RS S' (set ps \<union> L) \<and>
   (n = 0 \<or> object_pool_m S' t \<noteq> None)"
proof (induction n arbitrary: S L ps)
  case 0
  then show ?case by simp
next
  case (Suc n)
  from Suc.prems(2) obtain p S1 qs where m: "ObjectPool_Malloc grant RS t S = Inr (p, S1)"
    and q: "take_n grant RS t n S1 = Inr (qs, S')" and ps: "ps = p # qs" by auto
  have p: "p \<noteq> Null" "p \<notin> L" "opool_rel RS S1 (insert p L)" "object_pool_m S1 t \<noteq> None"
    using Malloc_law [OF Suc.prems(1) m] by simp_all
  have IH: "length qs = n \<and> Null \<notin> set qs \<and> distinct qs \<and> set qs \<inter> insert p L = {} \<and>
      opool_rel RS S' (set qs \<union> insert p L) \<and> (n = 0 \<or> object_pool_m S' t \<noteq> None)"
    by (rule Suc.IH [OF p(3) q])
  moreover have "n = 0 \<Longrightarrow> S' = S1" using q by simp
  ultimately show ?case using p ps by auto
qed

lemma give_back_ok:
  "opool_rel RS S (set ps \<union> L) \<Longrightarrow> distinct ps \<Longrightarrow> set ps \<inter> L = {} \<Longrightarrow> Null \<notin> set ps \<Longrightarrow>
   ps = [] \<or> object_pool_m S t \<noteq> None \<Longrightarrow>
   \<exists>S'. give_back RS t r ps S = Inr (r, S') \<and> opool_rel RS S' L"
proof (induction ps arbitrary: S)
  case Nil
  then show ?case by simp
next
  case (Cons p ps)
  then obtain h where h: "object_pool_m S t = Some h" by auto
  then obtain S1 where S1: "ObjectPool_Free RS t S p = Inr S1" "object_pool_m S1 = object_pool_m S"
    using Free_returns [OF Cons.prems(1), of p t h] by auto
  have "opool_rel RS S1 (set (p # ps) \<union> L - {p})" by (rule Free_law [OF Cons.prems(1) _ S1(1)]) simp
  moreover have "set (p # ps) \<union> L - {p} = set ps \<union> L" using Cons.prems(2,3) by auto
  ultimately have "opool_rel RS S1 (set ps \<union> L)" by simp
  then have "\<exists>S'. give_back RS t r ps S1 = Inr (r, S') \<and> opool_rel RS S' L"
    by (rule Cons.IH) (use Cons.prems h S1 in simp_all)
  moreover have "p \<noteq> Null" using Cons.prems(4) by auto
  ultimately show ?case using S1 by simp
qed

lemma sys_malloc_opool:
  assumes "opool_rel RS S L" and "sys_malloc grant k (omem S) = (arr, m1)"
  shows "opool_rel RS (S\<lparr>omem := m1\<rparr>) L"
proof -
  obtain G where inv: "opool_inv RS S G" and L: "L = all_live S G" and RS: "RS < 2 ^ 31"
    using assms(1) by (auto simp: opool_rel_def)
  have po: "pools_ok RS S G" and mo: "mem_ok (omem S)" using inv by (auto simp: opool_inv_def pools_ok_def)
  have k: "keeps (omem S) m1 {}" and mo1: "mem_ok m1"
    using assms(2) mo by (auto simp: sys_malloc_def keeps_def mem_ok_def less_Suc_eq split: if_splits)
  have ol: "obj_live (S\<lparr>omem := m1\<rparr>) G = obj_live S G" by (simp add: obj_live_def fun_eq_iff)
  have "pools_ok RS (S\<lparr>omem := m1\<rparr>) G"
    using po mo1 pool_inv_keeps [OF _ k _ mo1] unfolding pools_ok_def by simp
  moreover have "tags_ok RS (S\<lparr>omem := m1\<rparr>) G"
    unfolding tags_ok_def ol
  proof (intro allI ballI)
    fix h c assume c: "c \<in> obj_live S G h"
    then obtain P where P: "objs S h = Some P" "c \<in> live P (fst (G h)) (snd (G h))"
      by (auto simp: obj_live_def split: option.splits)
    obtain b i where cp: "c = Ptr b i" using live_Ptr [OF P(2)] by blast
    have pi: "pool_inv (omem S) P (fst (G h)) (snd (G h))" using po P(1) by (simp add: pools_ok_def)
    have "b < nextb (omem S)" by (rule inv_blocks [OF pi]) (rule live_block [OF P(2) [unfolded cp]])
    then have "load_short m1 (Ptr b (i + int RS)) = load_short (omem S) (Ptr b (i + int RS))"
      using keeps_load_short [OF k] by simp
    then show "load_short (omem (S\<lparr>omem := m1\<rparr>)) (padd c (int RS)) = Inr (of_nat h)"
      using inv c cp by (simp add: opool_inv_def tags_ok_def) (metis padd.simps(2))
  qed
  moreover have "threads_ok (S\<lparr>omem := m1\<rparr>)" using inv by (simp add: opool_inv_def threads_ok_def)
  ultimately have "opool_inv RS (S\<lparr>omem := m1\<rparr>) G" by (simp add: opool_inv_def)
  moreover have "L = all_live (S\<lparr>omem := m1\<rparr>) G" unfolding all_live_def ol using L by (simp add: all_live_def)
  ultimately show ?thesis using RS unfolding opool_rel_def by blast
qed

text \<open>
  \<open>Preallocate n\<close>, whenever it returns, returns true, and every chunk it took is back: the
  chunks in use are the same as before.
\<close>

theorem Preallocate_restores:
  assumes "opool_rel RS S L" and "Preallocate grant RS t n S = Inr (r, S')"
  shows "r \<and> opool_rel RS S' L"
proof -
  obtain arr m1 where a: "sys_malloc grant (8 * n) (omem S) = (arr, m1)" by fastforce
  then obtain ps S2 where tk: "take_n grant RS t n (S\<lparr>omem := m1\<rparr>) = Inr (ps, S2)"
    and gb: "give_back RS t True ps S2 = Inr (r, S')"
    using assms(2) by (auto simp: Preallocate_def split: if_splits)
  note tn = take_n_ok [OF sys_malloc_opool [OF assms(1) a] tk]
  have "ps = [] \<or> object_pool_m S2 t \<noteq> None" using tn by auto
  then obtain S3 where "give_back RS t True ps S2 = Inr (True, S3)" "opool_rel RS S3 L"
    using give_back_ok [of RS S2 ps L t True] tn by blast
  then show ?thesis using gb by simp
qed

theorem Preallocate_restores_witness:
  "\<exists>r S'. Preallocate (\<lambda>_ _. False) 16 0 0 (opool_init empty_mem) = Inr (r, S') \<and> r"
proof -
  have i: "opool_rel 16 (opool_init empty_mem) {}" by (rule opool_init_rel [OF mem_ok_empty]) simp
  obtain S' where "Preallocate (\<lambda>_ _. False) 16 0 0 (opool_init empty_mem) = Inr (True, S')"
    by (simp add: Preallocate_def sys_malloc_def)
  with Preallocate_restores [OF i this] show ?thesis by blast
qed

end
