(* ===== verification/PoolWrappers.thy ===== *)
theory PoolWrappers
  imports PoolSpec
begin

section \<open>Users of the pool (memory_pool/include/singleton_pool.hpp, allocator.hpp)\<close>

text \<open>
  \<open>SingletonPool\<close> keeps one pool per thread and passes every call on to the pool of the calling
  thread; its mutex is the \<open>null_mutex\<close>, whose operations do nothing.  \<open>FastPoolAllocator\<close> is an
  STL allocator on a pool of its own that serves one object at a time.
\<close>

subsection \<open>null_mutex\<close>

definition null_mutex_lock :: "'s \<Rightarrow> 's" where
  "null_mutex_lock s = s"

definition null_mutex_unlock :: "'s \<Rightarrow> 's" where
  "null_mutex_unlock s = s"

definition null_mutex_try_lock :: "'s \<Rightarrow> bool \<times> 's" where
  "null_mutex_try_lock s = (True, s)"

subsection \<open>SingletonPool\<close>

record singleton =
  smem :: mem
  pool_of :: "nat \<Rightarrow> pool"        \<comment> \<open>\<open>pool_\<close>, one per thread\<close>

definition SingletonPool_init :: "u64 \<Rightarrow> mem \<Rightarrow> singleton" where
  "SingletonPool_init RequestedSize m = \<lparr>smem = m, pool_of = (\<lambda>_. Pool_ctor RequestedSize)\<rparr>"

definition SingletonPool_Malloc ::
  "(nat \<Rightarrow> nat \<Rightarrow> bool) \<Rightarrow> nat \<Rightarrow> singleton \<Rightarrow> (ptr \<times> singleton) res" where
  "SingletonPool_Malloc grant t S =
     rbind (Malloc grant (pool_of S t) (smem S)) (\<lambda>(p, P, m).
     Inr (p, S\<lparr>smem := m, pool_of := (pool_of S)(t := P)\<rparr>))"

definition SingletonPool_Free :: "nat \<Rightarrow> singleton \<Rightarrow> ptr \<Rightarrow> singleton res" where
  "SingletonPool_Free t S c =
     rbind (Free (pool_of S t) c (smem S)) (\<lambda>(P, m).
     Inr (S\<lparr>smem := m, pool_of := (pool_of S)(t := P)\<rparr>))"

definition SingletonPool_PurgeMemory :: "nat \<Rightarrow> singleton \<Rightarrow> (bool \<times> singleton) res" where
  "SingletonPool_PurgeMemory t S =
     rbind (PurgeMemory (pool_of S t) (smem S)) (\<lambda>(r, P, m).
     Inr (r, S\<lparr>smem := m, pool_of := (pool_of S)(t := P)\<rparr>))"

text \<open>A thread on its own is served as by a pool.\<close>

definition singleton_rel :: "nat \<Rightarrow> singleton \<Rightarrow> ptr set \<Rightarrow> bool" where
  "singleton_rel t S L \<longleftrightarrow> pool_rel (pool_of S t, smem S) L"

lemma SingletonPool_alloc:
  "SingletonPool_Malloc grant t S = rbind (pool_alloc grant (pool_of S t, smem S)) (\<lambda>(p, P, m).
     Inr (p, S\<lparr>smem := m, pool_of := (pool_of S)(t := P)\<rparr>))"
  by (simp add: SingletonPool_Malloc_def pool_alloc_def)

lemma SingletonPool_give:
  "SingletonPool_Free t S p = rbind (pool_give True (pool_of S t, smem S) p) (\<lambda>(P, m).
     Inr (S\<lparr>smem := m, pool_of := (pool_of S)(t := P)\<rparr>))"
  by (simp add: SingletonPool_Free_def pool_give_def)

interpretation single: total_allocator "singleton_rel t" "\<lambda>_ :: unit. SingletonPool_Malloc grant t"
  "\<lambda>_. SingletonPool_Free t" for grant t
proof
  fix S L p S' and w :: unit
  assume r: "singleton_rel t S L" and m: "SingletonPool_Malloc grant t S = Inr (p, S')"
  then show "p = Null \<and> singleton_rel t S' L \<or> p \<noteq> Null \<and> p \<notin> L \<and> singleton_rel t S' (insert p L)"
    using pool_alloc_law [of "(pool_of S t, smem S)" L grant]
    by (auto simp: singleton_rel_def SingletonPool_alloc)
next
  fix S L p S' and w :: unit
  assume "singleton_rel t S L" and "p \<in> L" and "SingletonPool_Free t S p = Inr S'"
  then show "singleton_rel t S' (L - {p})"
    using pool_give_law [of "(pool_of S t, smem S)" L p True]
    by (auto simp: singleton_rel_def SingletonPool_give)
next
  fix S L and w :: unit
  assume "singleton_rel t S L"
  then show "\<exists>r. SingletonPool_Malloc grant t S = Inr r"
    using pool_alloc_law [of "(pool_of S t, smem S)" L grant] by (auto simp: singleton_rel_def SingletonPool_alloc)
next
  fix S L p and w :: unit
  assume "singleton_rel t S L" and "p \<in> L"
  then show "\<exists>S'. SingletonPool_Free t S p = Inr S'"
    using pool_give_law [of "(pool_of S t, smem S)" L p True]
    by (auto simp: singleton_rel_def SingletonPool_give)
qed

text \<open>
  A chunk that another thread frees changes its owner: it becomes the head of the list of the
  thread that freed it.
\<close>

lemma Free_migrates:
  "SingletonPool_Free u S c = Inr S' \<Longrightarrow> head_m (pool_of S' u) = c \<and> (\<forall>t. t \<noteq> u \<longrightarrow> pool_of S' t = pool_of S t)"
  by (auto simp: SingletonPool_Free_def Free_def seg_free_def)

subsection \<open>FastPoolAllocator\<close>

definition FastPoolAllocator_ctor :: "u64 \<Rightarrow> pool" where
  "FastPoolAllocator_ctor size_of_T = Pool_ctor size_of_T"

text \<open>A copy is a new, empty pool; the pool of the original is not shared.\<close>

definition FastPoolAllocator_copy :: "u64 \<Rightarrow> pool \<Rightarrow> pool" where
  "FastPoolAllocator_copy size_of_U original = Pool_ctor size_of_U"

definition max_size :: "u64 \<Rightarrow> u64" where
  "max_size size_of_T = (- 1) div size_of_T"

definition allocate :: "(nat \<Rightarrow> nat \<Rightarrow> bool) \<Rightarrow> u64 \<Rightarrow> pool \<Rightarrow> mem \<Rightarrow> (ptr \<times> pool \<times> mem) res" where
  "allocate grant n P m =
     rbind (check (n = 1)) (\<lambda>_. if n \<noteq> 1 then Inr (Null, P, m) else Malloc grant P m)"

definition deallocate :: "ptr \<Rightarrow> u64 \<Rightarrow> pool \<Rightarrow> mem \<Rightarrow> (pool \<times> mem) res" where
  "deallocate p n P m =
     rbind (check (n = 1)) (\<lambda>_. if n \<noteq> 1 then Inr (P, m) else Free P p m)"

lemma allocate_one: "allocate grant 1 P m = Malloc grant P m"
  by (simp add: allocate_def)

lemma allocate_many: "n \<noteq> 1 \<Longrightarrow> allocate grant n P m = Inl AssertFailed"
  by (simp add: allocate_def)

end
