(* ===== verification/ThreadPool.thy ===== *)
theory ThreadPool
  imports Spinlock "HOL-Library.Multiset"
begin

section \<open>The thread pool (thread_manager/ThreadPool.h, ThreadPool.cpp)\<close>

text \<open>
  A queue of tasks, a number of worker threads and a flag \<open>stop\<close>, guarded by a spin lock
  that is held for the sections that look at the queue.  A task is a value of any type: what
  it computes, and the future through which its result comes back, belong to the caller.
  First the bodies as one thread that runs alone executes them; then the same code cut at
  its accesses of the shared members, run by the workers, by callers of \<open>Enqueue\<close> and by
  the destructor, in any interleaving.
\<close>

record 'a thread_pool =
  tasks_m :: "'a list"
  workers_m :: nat            \<comment> \<open>\<open>workers_.size()\<close>\<close>
  spinlock_m :: spinlock
  stop_m :: bool

definition ThreadPool_ctor :: "nat \<Rightarrow> 'a thread_pool" where
  "ThreadPool_ctor thread_amount =
     \<lparr>tasks_m = [], workers_m = thread_amount, spinlock_m = Spinlock, stop_m = False\<rparr>"

subsection \<open>The bodies, run by one thread\<close>

text \<open>\<open>std::runtime_error("enqueue on stopped ThreadPool")\<close>.\<close>

datatype enqueue_error = EnqueueOnStopped

datatype 'a section_result = Return | Task 'a | NoTask

text \<open>The section of a worker: \<open>None\<close> if the lock is never free.\<close>

definition worker_section :: "'a thread_pool \<Rightarrow> ('a section_result \<times> 'a thread_pool) option" where
  "worker_section P =
     (case ExclusiveLockHolder (spinlock_m P) of
        None \<Rightarrow> None
      | Some l \<Rightarrow>
          let P1 = P\<lparr>spinlock_m := l\<rparr>;
              (r, P2) = (if stop_m P1 \<and> tasks_m P1 = [] then (Return, P1)
                         else if tasks_m P1 \<noteq> [] then (Task (hd (tasks_m P1)), P1\<lparr>tasks_m := tl (tasks_m P1)\<rparr>)
                         else (NoTask, P1))
          in Some (r, P2\<lparr>spinlock_m := ExclusiveLockHolder_dtor (spinlock_m P2)\<rparr>))"

text \<open>The loop of a worker that runs alone: the tasks it ran, or \<open>None\<close> if it never returns.\<close>

partial_function (option) worker_loop :: "'a thread_pool \<Rightarrow> ('a list \<times> 'a thread_pool) option" where
  "worker_loop pool =
     (case worker_section pool of
        None \<Rightarrow> None
      | Some (Return, P') \<Rightarrow> Some ([], P')
      | Some (NoTask, P') \<Rightarrow> worker_loop P'
      | Some (Task x, P') \<Rightarrow>
          Option.bind (worker_loop P') (\<lambda>(xs, P''). Some (x # xs, P'')))"

text \<open>\<open>Enqueue\<close>: the error, if one is thrown, and the pool; the holder unlocks either way.\<close>

definition Enqueue :: "'a \<Rightarrow> 'a thread_pool \<Rightarrow> (enqueue_error option \<times> 'a thread_pool) option" where
  "Enqueue task P =
     (case ExclusiveLockHolder (spinlock_m P) of
        None \<Rightarrow> None
      | Some l \<Rightarrow>
          let P1 = P\<lparr>spinlock_m := l\<rparr>;
              (e, P2) = (if stop_m P1 then (Some EnqueueOnStopped, P1)
                         else (None, P1\<lparr>tasks_m := tasks_m P1 @ [task]\<rparr>))
          in Some (e, P2\<lparr>spinlock_m := ExclusiveLockHolder_dtor (spinlock_m P2)\<rparr>))"

definition set_stop :: "'a thread_pool \<Rightarrow> 'a thread_pool option" where
  "set_stop P =
     (case ExclusiveLockHolder (spinlock_m P) of
        None \<Rightarrow> None
      | Some l \<Rightarrow> Some (P\<lparr>stop_m := True, spinlock_m := ExclusiveLockHolder_dtor l\<rparr>))"

lemma free_holder:
  "l = Spinlock \<Longrightarrow> ExclusiveLockHolder l = Some (l\<lparr>lock_m := 1\<rparr>)"
  "l = Spinlock \<Longrightarrow> ExclusiveLockHolder_dtor (l\<lparr>lock_m := 1\<rparr>) = l"
  by (simp_all add: ExclusiveLockHolder_def ExclusiveLockHolder_dtor_def Lock_eq Unlock_def Spinlock_def)

lemma worker_section_eq:
  assumes "spinlock_m P = Spinlock"
  shows "worker_section P = Some
     (if tasks_m P \<noteq> [] then (Task (hd (tasks_m P)), P\<lparr>tasks_m := tl (tasks_m P)\<rparr>)
      else if stop_m P then (Return, P) else (NoTask, P))"
  using assms free_holder [OF assms] by (simp add: worker_section_def)

lemma worker_loop_stopped:
  "spinlock_m P = Spinlock \<Longrightarrow> stop_m P \<Longrightarrow> worker_loop P = Some (tasks_m P, P\<lparr>tasks_m := []\<rparr>)"
proof (induction "tasks_m P" arbitrary: P)
  case Nil
  then have "worker_section P = Some (Return, P)" by (simp add: worker_section_eq)
  moreover have "P\<lparr>tasks_m := []\<rparr> = P" using Nil.hyps by simp
  ultimately show ?case using Nil.hyps by (simp add: worker_loop.simps [of P])
next
  case (Cons x xs)
  have s: "worker_section P = Some (Task x, P\<lparr>tasks_m := xs\<rparr>)"
    using Cons.prems(1) Cons.hyps(2) [symmetric] by (simp add: worker_section_eq)
  have "worker_loop (P\<lparr>tasks_m := xs\<rparr>) = Some (xs, P\<lparr>tasks_m := []\<rparr>)"
    using Cons.hyps(1) [of "P\<lparr>tasks_m := xs\<rparr>"] Cons.prems by simp
  then show ?case using s Cons.hyps(2) [symmetric] by (simp add: worker_loop.simps [of P])
qed

lemma worker_loop_never:
  assumes "worker_loop P = Some r"
  shows "spinlock_m P = Spinlock \<longrightarrow> stop_m P"
proof (rule worker_loop.raw_induct [where P = "\<lambda>P r. spinlock_m P = Spinlock \<longrightarrow> stop_m P", OF _ assms])
  fix f and P :: "'a thread_pool" and r
  assume IH: "\<And>P r. f P = Some r \<Longrightarrow> spinlock_m P = Spinlock \<longrightarrow> stop_m P"
    and eq: "(case worker_section P of None \<Rightarrow> None | Some (Return, P') \<Rightarrow> Some ([], P')
        | Some (NoTask, P') \<Rightarrow> f P'
        | Some (Task x, P') \<Rightarrow> Option.bind (f P') (\<lambda>(xs, P''). Some (x # xs, P''))) = Some r"
  show "spinlock_m P = Spinlock \<longrightarrow> stop_m P"
  proof
    assume l: "spinlock_m P = Spinlock"
    show "stop_m P"
      using eq IH [of P] IH [of "P\<lparr>tasks_m := tl (tasks_m P)\<rparr>"] l
      by (auto simp: worker_section_eq split: if_splits option.splits bind_splits)
  qed
qed

subsection \<open>The same code, run by many threads\<close>

text \<open>
  Where a thread is.  \<open>Acq j\<close>: in the constructor of the lock holder; \<open>Crit j\<close>: holding the
  lock, before the tests; \<open>Pop\<close>: a worker for which \<open>!tasks_.empty()\<close> was true; \<open>Push x\<close>: in
  \<open>Enqueue\<close>, \<open>stop\<close> was false; \<open>Rel k\<close>: in the destructor of the holder, with \<open>k\<close> to follow;
  \<open>Run x\<close>: a worker outside the section with a task; \<open>Join\<close>: in the joins of the destructor.
\<close>

datatype 'a job = Work | Enq 'a | Dtor

datatype 'a at_code =
  Idle | Acq "'a job" | Crit "'a job" | Pop | Push 'a | Rel "'a at_code" | Run 'a | Returned
| Join | Destroyed

text \<open>The histories \<open>accepted\<close>, \<open>started\<close> and \<open>finished\<close> are there to state properties.\<close>

record 'a tp_sys =
  tp :: "'a thread_pool"
  lpcs :: "nat \<Rightarrow> pc"
  code :: "nat \<Rightarrow> 'a at_code"
  accepted :: "'a list"
  started :: "'a list"
  finished :: "'a list"

definition tp_init :: "nat \<Rightarrow> 'a tp_sys" where
  "tp_init n = \<lparr>tp = ThreadPool_ctor n, lpcs = (\<lambda>_. Out),
     code = (\<lambda>t. if t < n then Acq Work else Idle), accepted = [], started = [], finished = []\<rparr>"

definition lock_of :: "'a tp_sys \<Rightarrow> lock_sys" where
  "lock_of s = \<lparr>lk = spinlock_m (tp s), pcs = lpcs s\<rparr>"

definition set_lock :: "'a tp_sys \<Rightarrow> lock_sys \<Rightarrow> 'a tp_sys" where
  "set_lock s l = s\<lparr>tp := (tp s)\<lparr>spinlock_m := lk l\<rparr>, lpcs := pcs l\<rparr>"

definition goto :: "'a tp_sys \<Rightarrow> nat \<Rightarrow> 'a at_code \<Rightarrow> 'a tp_sys" where
  "goto s t c = s\<lparr>code := (code s)(t := c)\<rparr>"

inductive tp_step :: "'a tp_sys \<Rightarrow> nat \<Rightarrow> 'a tp_sys \<Rightarrow> bool" where
  call_Enqueue: "code s t = Idle \<Longrightarrow> tp_step s t (goto s t (Acq (Enq x)))"
| call_dtor: "code s t = Idle \<Longrightarrow> tp_step s t (goto s t (Acq Dtor))"
| locking: "code s t = Acq j \<Longrightarrow> lpcs s t \<noteq> WIn \<Longrightarrow> lock_step (lock_of s) t l \<Longrightarrow> pcs l t \<noteq> RTry \<Longrightarrow>
    tp_step s t (set_lock s l)"
| locked: "code s t = Acq j \<Longrightarrow> lpcs s t = WIn \<Longrightarrow> tp_step s t (goto s t (Crit j))"
| work_return: "code s t = Crit Work \<Longrightarrow> stop_m (tp s) \<Longrightarrow> tasks_m (tp s) = [] \<Longrightarrow>
    tp_step s t (goto s t (Rel Returned))"
| work_take: "code s t = Crit Work \<Longrightarrow> tasks_m (tp s) \<noteq> [] \<Longrightarrow> tp_step s t (goto s t Pop)"
| work_none: "code s t = Crit Work \<Longrightarrow> \<not> stop_m (tp s) \<Longrightarrow> tasks_m (tp s) = [] \<Longrightarrow>
    tp_step s t (goto s t (Rel (Acq Work)))"
| pop: "code s t = Pop \<Longrightarrow>
    tp_step s t ((goto s t (Rel (Run (hd (tasks_m (tp s))))))
      \<lparr>tp := (tp s)\<lparr>tasks_m := tl (tasks_m (tp s))\<rparr>, started := started s @ [hd (tasks_m (tp s))]\<rparr>)"
| enq_throw: "code s t = Crit (Enq x) \<Longrightarrow> stop_m (tp s) \<Longrightarrow> tp_step s t (goto s t (Rel Idle))"
| enq_ok: "code s t = Crit (Enq x) \<Longrightarrow> \<not> stop_m (tp s) \<Longrightarrow> tp_step s t (goto s t (Push x))"
| push: "code s t = Push x \<Longrightarrow>
    tp_step s t ((goto s t (Rel Idle))
      \<lparr>tp := (tp s)\<lparr>tasks_m := tasks_m (tp s) @ [x]\<rparr>, accepted := accepted s @ [x]\<rparr>)"
| dtor_stop: "code s t = Crit Dtor \<Longrightarrow>
    tp_step s t ((goto s t (Rel Join))\<lparr>tp := (tp s)\<lparr>stop_m := True\<rparr>\<rparr>)"
| unlocking: "code s t = Rel k \<Longrightarrow> lpcs s t = WIn \<Longrightarrow>
    tp_step s t (goto (set_lock s (at (lock_of s) t Out (Unlock (spinlock_m (tp s))))) t k)"
| run_task: "code s t = Run x \<Longrightarrow>
    tp_step s t ((goto s t (Acq Work))\<lparr>finished := finished s @ [x]\<rparr>)"
| join: "code s t = Join \<Longrightarrow> \<forall>w<workers_m (tp s). code s w = Returned \<Longrightarrow>
    tp_step s t (goto s t Destroyed)"

inductive_cases tp_stepE: "tp_step s t s'"

lemma sys_sel [simp]:
  "tp (goto s t c) = tp s" "lpcs (goto s t c) = lpcs s" "code (goto s t c) = (code s)(t := c)"
  "accepted (goto s t c) = accepted s" "started (goto s t c) = started s"
  "finished (goto s t c) = finished s"
  "tasks_m (tp (set_lock s l)) = tasks_m (tp s)" "stop_m (tp (set_lock s l)) = stop_m (tp s)"
  "workers_m (tp (set_lock s l)) = workers_m (tp s)" "code (set_lock s l) = code s"
  "lpcs (set_lock s l) = pcs l" "accepted (set_lock s l) = accepted s"
  "started (set_lock s l) = started s" "finished (set_lock s l) = finished s"
  "lock_of (set_lock s l) = l"
  by (simp_all add: goto_def set_lock_def lock_of_def)

lemma lock_of_cong: "spinlock_m (tp s) = spinlock_m (tp s') \<Longrightarrow> lpcs s = lpcs s' \<Longrightarrow> lock_of s = lock_of s'"
  by (simp add: lock_of_def)

lemma lock_of_sel [simp]: "pcs (lock_of s) = lpcs s" "lk (lock_of s) = spinlock_m (tp s)"
  by (simp_all add: lock_of_def)

subsubsection \<open>The lock under the pool\<close>

lemma tp_step_lock: "tp_step s t s' \<Longrightarrow> lock_of s' = lock_of s \<or> lock_step (lock_of s) t (lock_of s')"
proof (induction rule: tp_step.induct)
  case (unlocking s t k)
  have "lock_step (lock_of s) t (at (lock_of s) t Out (Unlock (lk (lock_of s))))"
    by (rule Unlock_call) (simp add: unlocking)
  moreover have "lock_of (goto (set_lock s l) t k) = l" for l :: lock_sys
    by (simp add: goto_def set_lock_def lock_of_def)
  ultimately show ?case by simp
next
  case (locking s t j l)
  then show ?case by simp
qed (simp_all add: goto_def lock_of_def)

lemma tp_reach_lock: "reach tp_step (tp_init n) s \<Longrightarrow> reach lock_step lock_init (lock_of s)"
proof (induction rule: reach.induct)
  case reach_refl
  show ?case using reach.reach_refl [of lock_step lock_init]
    by (simp add: lock_of_def tp_init_def ThreadPool_ctor_def lock_init_def)
next
  case (reach_step s t s')
  from tp_step_lock [OF reach_step.hyps(2)] reach_step.IH show ?case
    by (metis reach.reach_step)
qed

subsubsection \<open>Who is inside holds the lock\<close>

fun inside :: "'a at_code \<Rightarrow> bool" where
  "inside (Crit j) = True"
| "inside Pop = True"
| "inside (Push x) = True"
| "inside (Rel k) = True"
| "inside _ = False"

definition inside_ok :: "'a tp_sys \<Rightarrow> bool" where
  "inside_ok s \<longleftrightarrow> (\<forall>t. inside (code s t) \<longrightarrow> lpcs s t = WIn) \<and> (\<forall>t k. code s t = Rel k \<longrightarrow> \<not> inside k)"

lemma inside_ok_goto:
  assumes "inside_ok s" and "code s' = (code s)(t := code s' t)" and "lpcs s' = lpcs s"
    and "inside (code s' t) \<longrightarrow> lpcs s t = WIn" and "\<forall>k. code s' t = Rel k \<longrightarrow> \<not> inside k"
  shows "inside_ok s'"
  unfolding inside_ok_def assms(3) by (metis assms(1,2,4,5) fun_upd_apply inside_ok_def)

lemma inside_WIn: "inside_ok s \<Longrightarrow> inside (code s t) \<Longrightarrow> lpcs s t = WIn"
  by (simp add: inside_ok_def)

lemma inside_ok_step:
  assumes r: "reach lock_step lock_init (lock_of s)" and inv: "inside_ok s" and step: "tp_step s t s'"
  shows "inside_ok s'"
  using step
proof cases
  case (locking j l)
  have "pcs l u = WIn \<longleftrightarrow> lpcs s u = WIn" if "u \<noteq> t" for u
    using wl.others_keep [OF r locking(4), of u] that by (simp add: holds_write_def)
  moreover have "\<not> inside (code s t)" using locking(2) by simp
  ultimately have "\<forall>u. inside (code s u) \<longrightarrow> pcs l u = WIn" using inv unfolding inside_ok_def by metis
  then show ?thesis using inv locking(1) by (simp add: inside_ok_def)
next
  case (unlocking k)
  then have "\<not> inside k" using inv by (simp add: inside_ok_def)
  then show ?thesis using inv unlocking(1) by (auto simp: inside_ok_def)
qed ((rule inside_ok_goto [OF inv, where t = t]; simp add: inside_WIn [OF inv])+)

lemma tp_reach_inside: "reach tp_step (tp_init n) s \<Longrightarrow> inside_ok s"
proof (induction rule: reach.induct)
  case reach_refl
  show ?case by (simp add: inside_ok_def tp_init_def)
next
  case (reach_step s t s')
  then show ?case using inside_ok_step [OF tp_reach_lock] by blast
qed

lemma only_one_inside:
  assumes "reach tp_step (tp_init n) s" and "inside (code s t)" and "inside (code s u)"
  shows "t = u"
proof -
  have "inside_ok s" by (rule tp_reach_inside [OF assms(1)])
  then have "holds_write (lock_of s) t" "holds_write (lock_of s) u"
    using assms(2,3) by (simp_all add: inside_ok_def holds_write_def)
  then show ?thesis by (rule wl.exclusive [OF tp_reach_lock [OF assms(1)]])
qed

subsubsection \<open>The queue\<close>

text \<open>
  What a test established is still true when the thread acts on it, because no other thread
  is inside in between.
\<close>

definition tests_ok :: "'a tp_sys \<Rightarrow> bool" where
  "tests_ok s \<longleftrightarrow> (\<forall>t. code s t = Pop \<longrightarrow> tasks_m (tp s) \<noteq> []) \<and> (\<forall>t x. code s t = Push x \<longrightarrow> \<not> stop_m (tp s))"

definition fifo_ok :: "'a tp_sys \<Rightarrow> bool" where
  "fifo_ok s \<longleftrightarrow> accepted s = started s @ tasks_m (tp s)"

text \<open>Threads that have seen \<open>stop\<close> and the empty queue, and the destructor behind its section.\<close>

fun leaving :: "'a at_code \<Rightarrow> bool" where
  "leaving Returned = True"
| "leaving (Rel k) = leaving k"
| "leaving _ = False"

fun past_stop :: "'a at_code \<Rightarrow> bool" where
  "past_stop Join = True"
| "past_stop Destroyed = True"
| "past_stop (Rel k) = past_stop k"
| "past_stop _ = False"

definition stop_ok :: "'a tp_sys \<Rightarrow> bool" where
  "stop_ok s \<longleftrightarrow> (\<forall>t. leaving (code s t) \<longrightarrow> stop_m (tp s) \<and> tasks_m (tp s) = []) \<and>
     (\<forall>t. past_stop (code s t) \<longrightarrow> stop_m (tp s))"

lemma alone_inside:
  "reach tp_step (tp_init n) s \<Longrightarrow> code s t = c \<Longrightarrow> inside c \<Longrightarrow> u \<noteq> t \<Longrightarrow> \<not> inside (code s u)"
  using only_one_inside by metis

lemma tests_ok_alone:
  assumes "\<And>u. u \<noteq> t \<Longrightarrow> \<not> inside (code s u)" and "code s' = (code s)(t := Rel k)"
  shows "tests_ok s'"
proof -
  have "code s u \<noteq> Pop \<and> code s u \<noteq> Push x" if "u \<noteq> t" for u x using assms(1) [OF that] by auto
  then show ?thesis using assms(2) by (simp add: tests_ok_def)
qed

lemma tests_okD:
  "tests_ok s \<Longrightarrow> code s t = Pop \<Longrightarrow> tasks_m (tp s) \<noteq> []"
  "tests_ok s \<Longrightarrow> code s t = Push x \<Longrightarrow> \<not> stop_m (tp s)"
  unfolding tests_ok_def by blast+

lemma tests_ok_goto:
  assumes "tests_ok s" and "code s' = (code s)(t := code s' t)"
    and "tasks_m (tp s') = tasks_m (tp s)" and "stop_m (tp s') = stop_m (tp s)"
    and "code s' t = Pop \<longrightarrow> tasks_m (tp s) \<noteq> []" and "\<forall>x. code s' t = Push x \<longrightarrow> \<not> stop_m (tp s)"
  shows "tests_ok s'"
  unfolding tests_ok_def assms(3,4) by (metis assms(1,2,5,6) fun_upd_apply tests_okD)

lemma tests_ok_step:
  assumes r: "reach tp_step (tp_init n) s" and inv: "tests_ok s" and step: "tp_step s t s'"
    and rel: "inside_ok s"
  shows "tests_ok s'"
  using step
proof cases
  case pop
  show ?thesis
    by (rule tests_ok_alone [OF alone_inside [OF r pop(2)]]) (simp_all add: pop(1))
next
  case (push x)
  show ?thesis
    by (rule tests_ok_alone [OF alone_inside [OF r push(2)]]) (simp_all add: push(1))
next
  case dtor_stop
  show ?thesis
    by (rule tests_ok_alone [OF alone_inside [OF r dtor_stop(2)]]) (simp_all add: dtor_stop(1))
next
  case (unlocking k)
  then have "\<not> inside k" using rel by (simp add: inside_ok_def)
  then have "k \<noteq> Pop \<and> (\<forall>x. k \<noteq> Push x)" by auto
  then show ?thesis using unlocking(1) by (intro tests_ok_goto [OF inv, where t = t]) simp_all
next
  case (locking j l)
  then show ?thesis using inv by (simp add: tests_ok_def)
qed ((rule tests_ok_goto [OF inv, where t = t]; simp)+)

lemma fifo_ok_step: "fifo_ok s \<Longrightarrow> tests_ok s \<Longrightarrow> tp_step s t s' \<Longrightarrow> fifo_ok s'"
  by (erule tp_stepE) (simp_all add: fifo_ok_def tests_okD(1))

lemma stop_ok_step:
  assumes inv: "stop_ok s" and tests: "tests_ok s" and step: "tp_step s t s'"
  shows "stop_ok s'"
  using step
proof cases
  case pop
  have "tasks_m (tp s) \<noteq> []" by (rule tests_okD(1) [OF tests pop(2)])
  then show ?thesis using inv pop(1) by (auto simp: stop_ok_def)
next
  case (push x)
  have "\<not> stop_m (tp s)" by (rule tests_okD(2) [OF tests push(2)])
  then show ?thesis using inv push(1) by (auto simp: stop_ok_def)
next
  case (unlocking k)
  have "leaving k \<longrightarrow> stop_m (tp s) \<and> tasks_m (tp s) = []" "past_stop k \<longrightarrow> stop_m (tp s)"
    using inv unlocking(2) unfolding stop_ok_def by (metis leaving.simps(2), metis past_stop.simps(3))
  then show ?thesis using inv unlocking(1) by (auto simp: stop_ok_def)
next
  case join
  then have "stop_m (tp s)" using inv unfolding stop_ok_def by (metis past_stop.simps(1))
  then show ?thesis using inv join(1) by (auto simp: stop_ok_def)
qed (use inv in \<open>auto simp: stop_ok_def\<close>)

lemma tp_reach_queue:
  "reach tp_step (tp_init n) s \<Longrightarrow> tests_ok s \<and> fifo_ok s \<and> stop_ok s"
proof (induction rule: reach.induct)
  case reach_refl
  show ?case by (simp add: tests_ok_def fifo_ok_def stop_ok_def tp_init_def ThreadPool_ctor_def)
next
  case (reach_step s t s')
  then show ?case
    using tests_ok_step [OF reach_step.hyps(1) _ reach_step.hyps(2) tp_reach_inside [OF reach_step.hyps(1)]]
      fifo_ok_step [OF _ _ reach_step.hyps(2)] stop_ok_step [OF _ _ reach_step.hyps(2)] by simp
qed

subsubsection \<open>Every task once\<close>

fun running :: "'a at_code \<Rightarrow> 'a multiset" where
  "running (Run x) = {#x#}"
| "running (Rel k) = running k"
| "running _ = {#}"

fun worker :: "'a at_code \<Rightarrow> bool" where
  "worker (Acq j) = (j = Work)"
| "worker (Crit j) = (j = Work)"
| "worker Pop = True"
| "worker (Rel k) = worker k"
| "worker (Run x) = True"
| "worker Returned = True"
| "worker _ = False"

definition roles_ok :: "nat \<Rightarrow> 'a tp_sys \<Rightarrow> bool" where
  "roles_ok n s \<longleftrightarrow> workers_m (tp s) = n \<and> (\<forall>t. worker (code s t) \<longleftrightarrow> t < n)"

definition in_progress :: "nat \<Rightarrow> 'a tp_sys \<Rightarrow> 'a multiset" where
  "in_progress n s = (\<Sum>w<n. running (code s w))"

definition runs_ok :: "nat \<Rightarrow> 'a tp_sys \<Rightarrow> bool" where
  "runs_ok n s \<longleftrightarrow> mset (started s) = mset (finished s) + in_progress n s"

definition joined_ok :: "'a tp_sys \<Rightarrow> bool" where
  "joined_ok s \<longleftrightarrow> (\<forall>t. code s t = Destroyed \<longrightarrow> (\<forall>w<workers_m (tp s). code s w = Returned)) \<and>
     (\<forall>t. code s t \<noteq> Rel Destroyed)"

lemma roles_ok_step: "roles_ok n s \<Longrightarrow> tp_step s t s' \<Longrightarrow> roles_ok n s'"
proof -
  assume inv: "roles_ok n s" and step: "tp_step s t s'"
  have keep: "roles_ok n s'" if "code s' = (code s)(t := code s' t)" "workers_m (tp s') = workers_m (tp s)"
    "worker (code s' t) \<longleftrightarrow> worker (code s t)"
    using inv that unfolding roles_ok_def by (metis fun_upd_apply)
  from step show "roles_ok n s'"
  proof cases
    case (locking j l)
    then show ?thesis using inv by (simp add: roles_ok_def)
  qed (rule keep; simp)+
qed

lemma in_progress_step:
  assumes "t < n" and "code s' = (code s)(t := code s' t)"
  shows "in_progress n s' + running (code s t) = in_progress n s + running (code s' t)"
proof -
  have rest: "(\<Sum>w\<in>{..<n} - {t}. running (code s' w)) = (\<Sum>w\<in>{..<n} - {t}. running (code s w))"
    by (rule sum.cong) (use assms(2) in \<open>metis (no_types) Diff_iff fun_upd_apply insertI1\<close>)+
  show ?thesis
    unfolding in_progress_def using assms(1) rest by (simp add: sum.remove [of "{..<n}" t])
qed

lemma in_progress_other:
  assumes "\<not> t < n" and "code s' = (code s)(t := code s' t)"
  shows "in_progress n s' = in_progress n s"
  unfolding in_progress_def by (rule sum.cong) (use assms in \<open>metis fun_upd_apply lessThan_iff\<close>)+

lemma runs_ok_step:
  assumes inv: "runs_ok n s" and roles: "roles_ok n s" and step: "tp_step s t s'"
  shows "runs_ok n s'"
proof -
  have w: "worker (code s t) \<longleftrightarrow> t < n" using roles by (simp add: roles_ok_def)
  have quiet: "runs_ok n s'" if "code s' = (code s)(t := code s' t)" "running (code s' t) = running (code s t)"
    "started s' = started s" "finished s' = finished s"
    using inv that in_progress_step [of t n s' s] in_progress_other [of t n s' s]
    by (cases "t < n") (simp_all add: runs_ok_def)
  from step show ?thesis
  proof cases
    case (locking j l)
    then show ?thesis using inv by (simp add: runs_ok_def in_progress_def)
  next
    case pop
    then show ?thesis using inv w in_progress_step [of t n s' s] by (simp add: runs_ok_def)
  next
    case (run_task x)
    then show ?thesis using inv w in_progress_step [of t n s' s] by (simp add: runs_ok_def)
  qed (rule quiet; simp)+
qed

lemma joined_ok_goto:
  assumes "joined_ok s" and "code s' = (code s)(t := code s' t)" and "workers_m (tp s') = workers_m (tp s)"
    and "code s t \<noteq> Returned" and "code s' t \<noteq> Destroyed" and "code s' t \<noteq> Rel Destroyed"
  shows "joined_ok s'"
  unfolding joined_ok_def assms(3) by (metis assms(1,2,4,5,6) fun_upd_apply joined_ok_def)

lemma joined_ok_step:
  assumes inv: "joined_ok s" and i: "inside_ok s" and step: "tp_step s t s'"
  shows "joined_ok s'"
  using step
proof cases
  case (locking j l)
  then show ?thesis using inv by (simp add: joined_ok_def)
next
  case (unlocking k)
  then have "k \<noteq> Destroyed" "\<not> inside k" using inv i by (auto simp: joined_ok_def inside_ok_def)
  then show ?thesis using unlocking by (intro joined_ok_goto [OF inv, where t = t]) auto
next
  case join
  then show ?thesis using inv by (auto simp: joined_ok_def)
qed ((rule joined_ok_goto [OF inv, where t = t]; simp)+)

lemma tp_reach_runs: "reach tp_step (tp_init n) s \<Longrightarrow> roles_ok n s \<and> runs_ok n s \<and> joined_ok s"
proof (induction rule: reach.induct)
  case reach_refl
  show ?case
    by (simp add: roles_ok_def runs_ok_def joined_ok_def in_progress_def tp_init_def ThreadPool_ctor_def)
next
  case (reach_step s t s')
  then show ?case
    using roles_ok_step [OF _ reach_step.hyps(2)] runs_ok_step [OF _ _ reach_step.hyps(2)]
      joined_ok_step [OF _ tp_reach_inside [OF reach_step.hyps(1)] reach_step.hyps(2)] by simp
qed

subsection \<open>Schedules\<close>

text \<open>
  Each thread inside a member function has one next step; a schedule names the threads, and
  what a thread outside calls.
\<close>

fun tp_move :: "'a tp_sys \<Rightarrow> nat \<times> 'a job \<Rightarrow> 'a tp_sys" where
  "tp_move s (t, call) = (case code s t of
     Idle \<Rightarrow> (case call of Work \<Rightarrow> s | _ \<Rightarrow> goto s t (Acq call))
   | Acq j \<Rightarrow> if lpcs s t = WIn then goto s t (Crit j)
       else let l = move (lock_of s) (t, True) in if pcs l t = RTry then s else set_lock s l
   | Crit Work \<Rightarrow> if tasks_m (tp s) \<noteq> [] then goto s t Pop
       else if stop_m (tp s) then goto s t (Rel Returned) else goto s t (Rel (Acq Work))
   | Crit (Enq x) \<Rightarrow> if stop_m (tp s) then goto s t (Rel Idle) else goto s t (Push x)
   | Crit Dtor \<Rightarrow> (goto s t (Rel Join))\<lparr>tp := (tp s)\<lparr>stop_m := True\<rparr>\<rparr>
   | Pop \<Rightarrow> (goto s t (Rel (Run (hd (tasks_m (tp s))))))
       \<lparr>tp := (tp s)\<lparr>tasks_m := tl (tasks_m (tp s))\<rparr>, started := started s @ [hd (tasks_m (tp s))]\<rparr>
   | Push x \<Rightarrow> (goto s t (Rel Idle))
       \<lparr>tp := (tp s)\<lparr>tasks_m := tasks_m (tp s) @ [x]\<rparr>, accepted := accepted s @ [x]\<rparr>
   | Rel k \<Rightarrow> if lpcs s t = WIn
       then goto (set_lock s (at (lock_of s) t Out (Unlock (spinlock_m (tp s))))) t k else s
   | Run x \<Rightarrow> (goto s t (Acq Work))\<lparr>finished := finished s @ [x]\<rparr>
   | Join \<Rightarrow> if list_all (\<lambda>w. case code s w of Returned \<Rightarrow> True | _ \<Rightarrow> False) [0..<workers_m (tp s)]
       then goto s t Destroyed else s
   | Returned \<Rightarrow> s | Destroyed \<Rightarrow> s)"

lemma is_Returned: "(case c of Returned \<Rightarrow> True | _ \<Rightarrow> False) \<longleftrightarrow> c = Returned"
  by (cases c) auto

lemma tp_move_step: "tp_move s (t, call) = s \<or> tp_step s t (tp_move s (t, call))"
proof (cases "code s t")
  case Idle
  then show ?thesis by (cases call) (auto intro: tp_step.intros)
next
  case (Acq j)
  show ?thesis
  proof (cases "lpcs s t = WIn")
    case True
    then show ?thesis using Acq by (simp add: tp_step.locked)
  next
    case False
    then show ?thesis using Acq locking [OF Acq False move_step]
      by (simp add: Let_def del: move.simps)
  qed
next
  case (Crit j)
  then show ?thesis
    by (cases j) (auto intro: work_return work_take work_none enq_throw enq_ok dtor_stop)
next
  case Join
  have "tp_step s t (goto s t Destroyed)"
    if "\<forall>w<workers_m (tp s). case code s w of Returned \<Rightarrow> True | _ \<Rightarrow> False"
    by (rule join [OF Join]) (use that is_Returned in blast)
  then show ?thesis using Join by simp
qed (auto intro: pop push unlocking run_task)

lemma reach_tp_moves: "reach tp_step s0 s \<Longrightarrow> reach tp_step s0 (foldl tp_move s ms)"
proof (induction ms arbitrary: s)
  case (Cons m ms)
  obtain t c where m: "m = (t, c)" by (cases m)
  have "reach tp_step s0 (tp_move s (t, c))"
    using tp_move_step [of s t c] Cons.prems by (metis reach.reach_step)
  then show ?case using Cons.IH m by simp
qed simp

text \<open>One worker (thread 0), a caller of \<open>Enqueue\<close> (thread 2) and the destructor (thread 1).\<close>

definition shutdown_run :: "nat tp_sys" where
  "shutdown_run = foldl tp_move (tp_init 1)
     (replicate 8 (2, Enq 5) @ replicate 8 (1, Dtor) @ replicate 14 (0, Work) @ [(1, Dtor)])"

lemma reach_shutdown_run: "reach tp_step (tp_init 1) shutdown_run"
  unfolding shutdown_run_def by (rule reach_tp_moves [OF reach_refl])

lemma shutdown_run_eval:
  "code shutdown_run 1 = Destroyed \<and> accepted shutdown_run = [5] \<and> finished shutdown_run = [5]"
  by code_simp

subsection \<open>Properties\<close>

lemma destroyed_state:
  assumes "reach tp_step (tp_init n) s" and "code s d = Destroyed" and "0 < n"
  shows "tasks_m (tp s) = [] \<and> started s = accepted s \<and> mset (finished s) = mset (accepted s) \<and>
     (\<forall>w<n. code s w = Returned)"
proof -
  note inv = tp_reach_runs [OF assms(1)] tp_reach_queue [OF assms(1)]
  have ret: "\<forall>w<n. code s w = Returned" using inv assms(2) by (auto simp: joined_ok_def roles_ok_def)
  then have "leaving (code s 0)" using assms(3) by simp
  then have e: "tasks_m (tp s) = []" using inv unfolding stop_ok_def by blast
  have "in_progress n s = {#}" unfolding in_progress_def using ret by simp
  then show ?thesis using inv e ret by (simp add: fifo_ok_def runs_ok_def)
qed

text \<open>
  C10. Nothing that was accepted is lost: when the destructor of a pool with at least one worker
  has returned, in any interleaving, every worker has returned, the queue is empty, and the
  tasks that have been run to their end are, each exactly once, the tasks \<open>Enqueue\<close> accepted,
  started in the order in which they were accepted.
\<close>

theorem destroyed_runs_all:
  assumes "reach tp_step (tp_init n) s" and "code s d = Destroyed" and "0 < n"
  shows "tasks_m (tp s) = [] \<and> started s = accepted s \<and> mset (finished s) = mset (accepted s) \<and>
     (\<forall>w<n. code s w = Returned)"
  using assms by (rule destroyed_state)

theorem destroyed_runs_all_witness:
  "\<exists>s. reach tp_step (tp_init 1) s \<and> code s 1 = Destroyed \<and> accepted s = [5 :: nat] \<and>
     mset (finished s) = {#5#}"
  using destroyed_runs_all [OF reach_shutdown_run, of 1] reach_shutdown_run shutdown_run_eval by auto

text \<open>
  First in, first out: in every reachable state the tasks accepted so far are those started
  so far followed by those in the queue, in order; and every task started has been run to its
  end or is in the hands of exactly one worker.
\<close>

theorem tasks_fifo:
  assumes "reach tp_step (tp_init n) s"
  shows "accepted s = started s @ tasks_m (tp s) \<and>
     mset (started s) = mset (finished s) + (\<Sum>w<n. running (code s w))"
  using tp_reach_runs [OF assms] tp_reach_queue [OF assms] by (simp add: fifo_ok_def runs_ok_def in_progress_def)

theorem tasks_fifo_witness: "accepted shutdown_run = started shutdown_run @ tasks_m (tp shutdown_run)"
  using tasks_fifo [OF reach_shutdown_run] by simp

text \<open>
  The lock makes the tests count: when a worker takes the front of the queue the queue is not
  empty, when \<open>Enqueue\<close> appends the pool is not stopped, and no other thread is between the
  lock and the unlock of any section.
\<close>

theorem sections_safe:
  assumes "reach tp_step (tp_init n) s"
  shows "(code s t = Pop \<longrightarrow> tasks_m (tp s) \<noteq> []) \<and> (code s t = Push x \<longrightarrow> \<not> stop_m (tp s)) \<and>
     (inside (code s t) \<longrightarrow> (\<forall>u. inside (code s u) \<longrightarrow> u = t))"
  using tp_reach_queue [OF assms] only_one_inside [OF assms] tests_okD by metis

theorem sections_safe_witness:
  "\<exists>s. reach tp_step (tp_init 1) s \<and> code s 0 = Pop \<and> tasks_m (tp s) = [5 :: nat] \<and>
     (\<forall>u. inside (code s u) \<longrightarrow> u = 0)"
proof -
  let ?s = "foldl tp_move (tp_init 1) (replicate 8 (2, Enq 5) @ replicate 5 (0, Work)) :: nat tp_sys"
  have r: "reach tp_step (tp_init 1) ?s" by (rule reach_tp_moves [OF reach_refl])
  have e: "code ?s 0 = Pop \<and> tasks_m (tp ?s) = [5]" by code_simp
  then have "inside (code ?s 0)" by simp
  then have "\<forall>u. inside (code ?s u) \<longrightarrow> u = 0" using sections_safe [OF r, of 0] by blast
  then show ?thesis using r e by blast
qed

text \<open>
  A worker that runs alone on a free lock returns exactly when the pool is stopped, and then it
  has run every task of the queue, in order, and emptied it; while the pool is not stopped
  it goes round for ever.
\<close>

theorem worker_loop_returns:
  assumes "spinlock_m P = Spinlock"
  shows "worker_loop P = (if stop_m P then Some (tasks_m P, P\<lparr>tasks_m := []\<rparr>) else None)"
  using worker_loop_stopped [OF assms] worker_loop_never [of P] assms
  by (cases "worker_loop P") auto

theorem worker_loop_returns_witness:
  "worker_loop \<lparr>tasks_m = [7, 8 :: nat], workers_m = 1, spinlock_m = Spinlock, stop_m = True\<rparr>
     = Some ([7, 8], \<lparr>tasks_m = [], workers_m = 1, spinlock_m = Spinlock, stop_m = True\<rparr>)"
  by (simp add: worker_loop_returns)

text \<open>
  \<open>Enqueue\<close> on both branches: it appends, or throws once the pool is stopped and leaves the pool
  as it was, unlocked.
\<close>

lemma Enqueue_eq:
  assumes "spinlock_m P = Spinlock"
  shows "Enqueue x P = Some (if stop_m P then (Some EnqueueOnStopped, P)
     else (None, P\<lparr>tasks_m := tasks_m P @ [x]\<rparr>))"
  using assms free_holder [OF assms] by (simp add: Enqueue_def)

lemma set_stop_eq: "spinlock_m P = Spinlock \<Longrightarrow> set_stop P = Some (P\<lparr>stop_m := True\<rparr>)"
  using free_holder [of "spinlock_m P"] by (simp add: set_stop_def)

end
