(* ===== verification/Refinement.thy ===== *)
theory Refinement
  imports Prelude
begin

section \<open>Refinement of one system by another\<close>

text \<open>
  A specification is a relation \<open>astep\<close> between abstract states; a component implements it when
  a function \<open>view\<close> takes every step of any of its threads, from any state it can reach, to a step of the
  specification or to nothing.  What the locale gives: the abstract state of every reachable state is
  one the specification can reach, and every invariant of the specification is one of the
  component.
\<close>

locale refines =
  fixes init :: 's
    and step :: "'s \<Rightarrow> nat \<Rightarrow> 's \<Rightarrow> bool"
    and ainit :: 'a
    and astep :: "'a \<Rightarrow> 'a \<Rightarrow> bool"
    and view :: "'s \<Rightarrow> 'a"
  assumes start: "view init = ainit"
    and simulates: "reach step init s \<Longrightarrow> step s t s' \<Longrightarrow> view s' = view s \<or> astep (view s) (view s')"
begin

lemma reach_view:
  assumes "reach step init s"
  shows "rtranclp astep ainit (view s)"
  using assms
proof (induction rule: reach.induct)
  case reach_refl
  then show ?case by (simp add: start)
next
  case (reach_step s t s')
  from simulates [OF reach_step.hyps(1,2)] reach_step.IH show ?case
    by (auto intro: rtranclp.rtrancl_into_rtrancl)
qed

lemma run_view:
  assumes "reach step s s'" and "reach step init s"
  shows "rtranclp astep (view s) (view s')"
  using assms
proof (induction rule: reach.induct)
  case (reach_step s1 t s2)
  have "reach step init s1" using reach_step.hyps(1) reach_step.prems by (rule reach_trans)
  from simulates [OF this reach_step.hyps(2)] reach_step.IH [OF reach_step.prems] show ?case
    by (auto intro: rtranclp.rtrancl_into_rtrancl)
qed simp

lemma view_invariant:
  assumes "reach step init s" and "J ainit" and "\<And>a b. J a \<Longrightarrow> astep a b \<Longrightarrow> J b"
  shows "J (view s)"
  using reach_view [OF assms(1)] by (induction rule: rtranclp_induct) (use assms(2,3) in blast)+

end

end
