(* ===== verification/ThreadPoolSpec.thy ===== *)
theory ThreadPoolSpec
  imports ThreadPool Refinement
begin

section \<open>What the thread pool promises\<close>

text \<open>
  The contract of the pool without threads, locks or sections: tasks wait in a queue, are active
  while a worker runs them and then complete; a closed executor accepts no more.  The pool of theory
  \<open>ThreadPool\<close>, cut at its accesses of the shared members, refines it.
\<close>

record 'a executor =
  waiting :: "'a list"
  active :: "'a multiset"
  completed :: "'a multiset"
  closed :: bool

definition executor_init :: "'a executor" where
  "executor_init = \<lparr>waiting = [], active = {#}, completed = {#}, closed = False\<rparr>"

inductive exec_step :: "'a executor \<Rightarrow> 'a executor \<Rightarrow> bool" where
  exec_accept: "\<not> closed e \<Longrightarrow> exec_step e (e\<lparr>waiting := waiting e @ [x]\<rparr>)"
| exec_start: "waiting e = x # xs \<Longrightarrow>
    exec_step e (e\<lparr>waiting := xs, active := add_mset x (active e)\<rparr>)"
| exec_finish: "active e = add_mset x A \<Longrightarrow>
    exec_step e (e\<lparr>active := A, completed := add_mset x (completed e)\<rparr>)"
| exec_close: "exec_step e (e\<lparr>closed := True\<rparr>)"

inductive_cases exec_stepE: "exec_step e e'"

definition executor_of :: "nat \<Rightarrow> 'a tp_sys \<Rightarrow> 'a executor" where
  "executor_of n s = \<lparr>waiting = tasks_m (tp s), active = in_progress n s,
     completed = mset (finished s), closed = stop_m (tp s)\<rparr>"

subsection \<open>The simulation\<close>

text \<open>Steps that leave the queue, the flag and the tasks in progress alone are not seen.\<close>

lemma executor_of_same:
  assumes "code s' = (code s)(t := code s' t)" and "running (code s' t) = running (code s t)"
    and "tasks_m (tp s') = tasks_m (tp s)" and "stop_m (tp s') = stop_m (tp s)" and "finished s' = finished s"
  shows "executor_of n s' = executor_of n s"
proof -
  have "in_progress n s' = in_progress n s"
    using in_progress_step [of t n s' s, OF _ assms(1)] in_progress_other [of t n s' s, OF _ assms(1)] assms(2)
    by (cases "t < n") simp_all
  then show ?thesis using assms(3-5) by (simp add: executor_of_def)
qed

lemma executor_of_pop:
  assumes "roles_ok n s" and "code s t = Pop" and "tasks_m (tp s) = x # xs"
    and "code s' = (code s)(t := Rel (Run x))" and "tasks_m (tp s') = xs"
    and "stop_m (tp s') = stop_m (tp s)" and "finished s' = finished s"
  shows "exec_step (executor_of n s) (executor_of n s')"
proof -
  have t: "t < n" using assms(1,2) unfolding roles_ok_def by (metis worker.simps(3))
  have "code s' = (code s)(t := code s' t)" using assms(4) by simp
  from in_progress_step [OF t this]
  have "in_progress n s' = add_mset x (in_progress n s)" using assms(2,4) by simp
  then have "executor_of n s' =
      (executor_of n s)\<lparr>waiting := xs, active := add_mset x (active (executor_of n s))\<rparr>"
    using assms(5-7) by (simp add: executor_of_def)
  moreover have "waiting (executor_of n s) = x # xs" using assms(3) by (simp add: executor_of_def)
  ultimately show ?thesis by (metis exec_start)
qed

lemma executor_of_run:
  assumes "roles_ok n s" and "code s t = Run x" and "code s' = (code s)(t := Acq Work)"
    and "tp s' = tp s" and "finished s' = finished s @ [x]"
  shows "exec_step (executor_of n s) (executor_of n s')"
proof -
  have t: "t < n" using assms(1,2) unfolding roles_ok_def by (metis worker.simps(5))
  have "code s' = (code s)(t := code s' t)" using assms(3) by simp
  from in_progress_step [OF t this]
  have "active (executor_of n s) = add_mset x (in_progress n s')"
    using assms(2,3) by (simp add: executor_of_def)
  moreover have "executor_of n s' = (executor_of n s)
      \<lparr>active := in_progress n s', completed := add_mset x (completed (executor_of n s))\<rparr>"
    using assms(4,5) by (simp add: executor_of_def)
  ultimately show ?thesis by (metis exec_finish)
qed

lemma executor_simulates:
  assumes r: "reach tp_step (tp_init n) s" and step: "tp_step s t s'"
  shows "executor_of n s' = executor_of n s \<or> exec_step (executor_of n s) (executor_of n s')"
proof -
  have ro: "roles_ok n s" and te: "tests_ok s" using tp_reach_runs [OF r] tp_reach_queue [OF r] by simp_all
  from step show ?thesis
  proof cases
    case pop
    then obtain x xs where "tasks_m (tp s) = x # xs"
      using tests_okD(1) [OF te pop(2)] by (cases "tasks_m (tp s)") auto
    with pop executor_of_pop [OF ro pop(2), of x xs s'] show ?thesis by simp
  next
    case (run_task x)
    then show ?thesis using executor_of_run [OF ro run_task(2), of s'] by (simp add: goto_def)
  next
    case (push x)
    have "\<not> closed (executor_of n s)" using tests_okD(2) [OF te push(2)] by (simp add: executor_of_def)
    moreover have "in_progress n s' = in_progress n s"
      using in_progress_step [of t n s' s] in_progress_other [of t n s' s] push
      by (cases "t < n") simp_all
    then have "executor_of n s' = (executor_of n s)\<lparr>waiting := waiting (executor_of n s) @ [x]\<rparr>"
      using push by (simp add: executor_of_def)
    ultimately show ?thesis by (metis exec_accept)
  next
    case dtor_stop
    have "in_progress n s' = in_progress n s"
      using in_progress_step [of t n s' s] in_progress_other [of t n s' s] dtor_stop
      by (cases "t < n") simp_all
    then have "executor_of n s' = (executor_of n s)\<lparr>closed := True\<rparr>"
      using dtor_stop by (simp add: executor_of_def)
    then show ?thesis by (metis exec_close)
  next
    case (locking j l)
    then show ?thesis by (simp add: executor_of_def in_progress_def)
  qed (rule disjI1, rule executor_of_same [where t = t]; simp)+
qed

lemma executor_of_init: "executor_of n (tp_init n) = executor_init"
  by (simp add: executor_of_def executor_init_def tp_init_def ThreadPool_ctor_def in_progress_def)

interpretation ex: refines "tp_init n" tp_step executor_init exec_step "executor_of n" for n
  by unfold_locales (auto simp: executor_of_init dest: executor_simulates)

text \<open>What the specification alone implies is true of the pool.\<close>

lemma closed_stays: "rtranclp exec_step e e' \<Longrightarrow> closed e \<Longrightarrow> closed e' \<and> length (waiting e') \<le> length (waiting e)"
  by (induction rule: rtranclp_induct) (auto elim!: exec_stepE)

subsection \<open>Properties\<close>

text \<open>
  C8. The pool refines the executor: in any interleaving of workers, callers of \<open>Enqueue\<close>
  and the destructor, each step of a thread is invisible or is one step of the executor
  (accept at the end of the queue of an open executor, start the front, complete an active task, close),
  so every reachable state of the pool shows a state the executor can reach.
\<close>

theorem pool_refines_executor:
  assumes "reach tp_step (tp_init n) s"
  shows "rtranclp exec_step executor_init (executor_of n s) \<and>
     (\<forall>t s'. tp_step s t s' \<longrightarrow> executor_of n s' = executor_of n s \<or>
        exec_step (executor_of n s) (executor_of n s'))"
  using ex.reach_view [OF assms] executor_simulates [OF assms] by blast

theorem pool_refines_executor_witness:
  "rtranclp exec_step executor_init (executor_of 1 shutdown_run) \<and> closed (executor_of 1 shutdown_run) \<and>
   completed (executor_of 1 shutdown_run) = {#5#}"
proof -
  have "stop_m (tp shutdown_run)" by code_simp
  then show ?thesis
    using pool_refines_executor [OF reach_shutdown_run] shutdown_run_eval by (simp add: executor_of_def)
qed

text \<open>Once the flag is set, no run ever makes the queue longer.\<close>

lemma stopped_queue_shrinks:
  assumes "reach tp_step (tp_init n) s" and "reach tp_step s s'" and "stop_m (tp s)"
  shows "stop_m (tp s') \<and> length (tasks_m (tp s')) \<le> length (tasks_m (tp s))"
  using closed_stays [OF ex.run_view [OF assms(2,1)]] assms(3) by (simp add: executor_of_def)

end
