(* ===== verification/ThreadPoolLive.thy ===== *)
theory ThreadPoolLive
  imports ThreadPoolSpec
begin

section \<open>Shutting the thread pool down ends\<close>

text \<open>
  Once \<open>stop\<close> is set every step of a thread that is still in the pool's code either lowers a
  number, \<open>work_left\<close>, or is a round of the loop in \<open>Lock\<close> (the exchange found the lock taken, or
  the return from \<open>Sleep\<close>).  A thread spins only while another is about to make a step that counts,
  so in a run where every thread gets its turn again and again the destructor returns.
  Before \<open>stop\<close> is set there is no such promise: the lock is not fair, and the idle workers
  take it again and again.
\<close>

subsection \<open>The pool uses the lock for writing only\<close>

fun writer_pc :: "pc \<Rightarrow> bool" where
  "writer_pc Out = True"
| "writer_pc WTry = True"
| "writer_pc WSleep = True"
| "writer_pc WDrain = True"
| "writer_pc WIn = True"
| "writer_pc _ = False"

definition writers_only :: "'a tp_sys \<Rightarrow> bool" where
  "writers_only s \<longleftrightarrow> (\<forall>t. writer_pc (lpcs s t))"

lemma writer_pc_step:
  "lock_step l t l' \<Longrightarrow> \<forall>u. writer_pc (pcs l u) \<Longrightarrow> pcs l' t \<noteq> RTry \<Longrightarrow> \<forall>u. writer_pc (pcs l' u)"
  by (induction rule: lock_step.induct) (auto split: if_splits, (metis writer_pc.simps)+)

lemma tp_reach_writers: "reach tp_step (tp_init n) s \<Longrightarrow> writers_only s"
proof (induction rule: reach.induct)
  case reach_refl
  show ?case by (simp add: writers_only_def tp_init_def)
next
  case (reach_step s t s')
  have w: "\<forall>u. writer_pc (lpcs s u)" using reach_step.IH by (simp add: writers_only_def)
  from reach_step.hyps(2) show ?case
  proof cases
    case (locking j l)
    have "\<forall>u. writer_pc (pcs l u)"
      by (rule writer_pc_step [OF locking(4)]) (use w locking(5) in auto)
    then show ?thesis using locking(1) by (simp add: writers_only_def)
  qed (use w in \<open>auto simp: writers_only_def\<close>)
qed

lemma no_readers: "reach tp_step (tp_init n) s \<Longrightarrow> reader_m (spinlock_m (tp s)) = 0"
proof -
  assume r: "reach tp_step (tp_init n) s"
  have "lpcs s t \<noteq> RIn" for t
    using tp_reach_writers [OF r] unfolding writers_only_def by (metis writer_pc.simps(9))
  then have "reading (lock_of s) = {}" by (simp add: reading_def)
  moreover have "readers_inv (lock_of s)" using lock_reach_inv [OF tp_reach_lock [OF r]] by simp
  ultimately show ?thesis by (simp add: readers_inv_def)
qed

subsection \<open>What is left to do\<close>

fun lock_rank :: "pc \<Rightarrow> nat" where
  "lock_rank Out = 3"
| "lock_rank WTry = 2"
| "lock_rank WSleep = 2"
| "lock_rank WDrain = 1"
| "lock_rank _ = 0"

fun code_rank :: "'a at_code \<Rightarrow> nat" where
  "code_rank (Acq j) = 4"
| "code_rank (Crit j) = 3"
| "code_rank Pop = 2"
| "code_rank (Push x) = 2"
| "code_rank (Rel k) = Suc (code_rank k + (case k of Acq j \<Rightarrow> 3 | _ \<Rightarrow> 0))"
| "code_rank (Run x) = 8"
| "code_rank Join = 1"
| "code_rank _ = 0"

fun wait_rank :: "'a at_code \<Rightarrow> pc \<Rightarrow> nat" where
  "wait_rank (Acq j) p = lock_rank p"
| "wait_rank _ p = 0"

definition rank :: "'a tp_sys \<Rightarrow> nat \<Rightarrow> nat" where
  "rank s t = code_rank (code s t) + wait_rank (code s t) (lpcs s t)"

lemma lock_rank_le: "lock_rank p \<le> 3"
  by (cases p) simp_all

definition work_left :: "nat set \<Rightarrow> 'a tp_sys \<Rightarrow> nat" where
  "work_left T s = 10 * length (tasks_m (tp s)) + (\<Sum>t\<in>T. rank s t)"

text \<open>The loop in \<open>Lock\<close>: the exchange that finds the lock taken, and the sleep.\<close>

definition spins :: "'a tp_sys \<Rightarrow> nat \<Rightarrow> bool" where
  "spins s t \<longleftrightarrow> (\<exists>j. code s t = Acq j) \<and>
     (lpcs s t = WSleep \<or> lpcs s t = WTry \<and> lock_m (spinlock_m (tp s)) \<noteq> 0)"

lemma rank_other:
  "code s' u = code s u \<Longrightarrow> lpcs s' u = lpcs s u \<Longrightarrow> rank s' u = rank s u"
  by (simp add: rank_def)

lemma work_left_less:
  assumes "finite T" and "t \<in> T" and "\<And>u. u \<noteq> t \<Longrightarrow> rank s' u = rank s u"
    and "10 * length (tasks_m (tp s')) + rank s' t < 10 * length (tasks_m (tp s)) + rank s t"
  shows "work_left T s' < work_left T s"
proof -
  have "(\<Sum>u\<in>T - {t}. rank s' u) = (\<Sum>u\<in>T - {t}. rank s u)"
    by (rule sum.cong) (use assms(3) in auto)
  then show ?thesis
    using assms(4) unfolding work_left_def sum.remove [OF assms(1,2)] by simp
qed

lemma work_left_same:
  assumes "\<And>u. rank s' u = rank s u" and "tasks_m (tp s') = tasks_m (tp s)"
  shows "work_left T s' = work_left T s"
  using assms by (simp add: work_left_def)

lemma lock_step_others: "lock_step l t l' \<Longrightarrow> u \<noteq> t \<Longrightarrow> pcs l' u = pcs l u"
  by (auto elim!: lock_stepE)

lemma lock_rank_step:
  assumes "lock_step l t l'" and "reader_m (lk l) = 0" and "writer_pc (pcs l t)" and "pcs l t \<noteq> WIn"
    and "pcs l' t \<noteq> RTry" and "\<not> (pcs l t = WSleep \<or> pcs l t = WTry \<and> lock_m (lk l) \<noteq> 0)"
  shows "lock_rank (pcs l' t) < lock_rank (pcs l t)"
  using assms by (auto elim!: lock_stepE split: if_splits)

text \<open>A step of a thread inside the code lowers what is left, unless it spins.\<close>

lemma step_counts:
  assumes r: "reach tp_step (tp_init n) s" and step: "tp_step s t s'" and stop: "stop_m (tp s)"
    and nc: "code s t \<noteq> Idle" and ns: "\<not> spins s t" and T: "finite T" "t \<in> T"
  shows "work_left T s' < work_left T s"
proof -
  have wo: "\<And>u. writer_pc (lpcs s u)" using tp_reach_writers [OF r] by (simp add: writers_only_def)
  have te: "tests_ok s" and st: "stop_ok s" using tp_reach_queue [OF r] by simp_all
  have quiet: "work_left T s' < work_left T s"
    if "code s' = (code s)(t := code s' t)" "lpcs s' = lpcs s"
      "10 * length (tasks_m (tp s')) + rank s' t < 10 * length (tasks_m (tp s)) + rank s t"
    by (rule work_left_less [OF T _ that(3)], rule rank_other)
      (use that(1,2) in \<open>auto, metis fun_upd_other\<close>)
  from step show ?thesis
  proof cases
    case (locking j l)
    have "lock_rank (pcs l t) < lock_rank (lpcs s t)"
      using lock_rank_step [OF locking(4)] no_readers [OF r] wo [of t] locking(3,5) ns locking(2)
      by (auto simp: spins_def)
    then have "rank s' t < rank s t" using locking(1,2) by (simp add: rank_def)
    moreover have "rank s' u = rank s u" if "u \<noteq> t" for u
      using lock_step_others [OF locking(4) that] locking(1) by (simp add: rank_def)
    ultimately show ?thesis using locking(1) by (intro work_left_less [OF T]) auto
  next
    case (unlocking k)
    have i: "rank s' t < rank s t"
      using unlocking by (cases k) (simp_all add: rank_def)
    have "rank s' u = rank s u" if "u \<noteq> t" for u using unlocking(1) that by (simp add: rank_def)
    then show ?thesis using i unlocking(1) by (intro work_left_less [OF T]) auto
  next
    case pop
    then obtain x xs where "tasks_m (tp s) = x # xs"
      using tests_okD(1) [OF te pop(2)] by (cases "tasks_m (tp s)") auto
    with pop show ?thesis by (intro quiet) (simp_all add: rank_def)
  next
    case (push x)
    then show ?thesis using tests_okD(2) [OF te push(2)] stop by simp
  next
    case (run_task x)
    then show ?thesis using lock_rank_le [of "lpcs s t"] by (intro quiet) (simp_all add: rank_def)
  next
    case call_Enqueue
    then show ?thesis using nc by simp
  next
    case call_dtor
    then show ?thesis using nc by simp
  next
    case work_none
    then show ?thesis using stop by simp
  qed (intro quiet; simp add: rank_def)+
qed

text \<open>A round of the spinning loop changes nothing that counts.\<close>

lemma spin_same:
  assumes "tp_step s t s'" and "spins s t"
  shows "work_left T s' = work_left T s \<and> code s' = code s \<and> stop_m (tp s') = stop_m (tp s) \<and>
     (lpcs s t = WSleep \<longrightarrow> lpcs s' = (lpcs s)(t := WTry) \<and> tp s' = tp s) \<and>
     (\<forall>u. u \<noteq> t \<longrightarrow> lpcs s' u = lpcs s u)"
proof -
  obtain j where j: "code s t = Acq j" using assms(2) by (auto simp: spins_def)
  from assms(1) obtain l where l: "s' = set_lock s l" "lock_step (lock_of s) t l"
    by (rule tp_stepE) (use j assms(2) in \<open>auto simp: spins_def\<close>)
  have o: "\<And>u. u \<noteq> t \<Longrightarrow> pcs l u = lpcs s u" using lock_step_others [OF l(2)] by simp
  have t: "lpcs s t = WSleep \<and> l = at (lock_of s) t WTry (lk (lock_of s)) \<or>
      lpcs s t = WTry \<and> pcs l t = WSleep"
    using l(2) assms(2) by (auto simp: spins_def elim!: lock_stepE)
  then have rk: "rank s' u = rank s u" for u
    using o [of u] l(1) j by (cases "u = t") (auto simp: rank_def)
  have sl: "lpcs s t = WSleep \<longrightarrow> lpcs s' = (lpcs s)(t := WTry) \<and> tp s' = tp s"
    using t l(1) by (auto simp: set_lock_def)
  have "work_left T s' = work_left T s" by (rule work_left_same [OF rk]) (simp add: l(1))
  moreover have "code s' = code s" "stop_m (tp s') = stop_m (tp s)" "lpcs s' = pcs l" using l(1) by simp_all
  ultimately show ?thesis using sl o by metis
qed

subsection \<open>Who can move\<close>

definition idle_out :: "'a tp_sys \<Rightarrow> bool" where
  "idle_out s \<longleftrightarrow> (\<forall>t. inside (code s t) \<or> (\<exists>j. code s t = Acq j) \<or> lpcs s t = Out)"

lemma idle_outD: "idle_out s \<Longrightarrow> lpcs s t \<noteq> Out \<Longrightarrow> inside (code s t) \<or> (\<exists>j. code s t = Acq j)"
  unfolding idle_out_def by blast

lemma idle_out_goto:
  assumes "idle_out s" and "code s' = (code s)(t := code s' t)" and "lpcs s' = lpcs s"
    and "inside (code s' t) \<or> (\<exists>j. code s' t = Acq j) \<or> lpcs s t = Out"
  shows "idle_out s'"
  unfolding idle_out_def assms(3) by (metis assms(1,2,4) fun_upd_apply idle_out_def)

lemma idle_out_step: "idle_out s \<Longrightarrow> inside_ok s \<Longrightarrow> tp_step s t s' \<Longrightarrow> idle_out s'"
proof -
  assume inv: "idle_out s" and ins: "inside_ok s" and step: "tp_step s t s'"
  from step show "idle_out s'"
  proof cases
    case (locking j l)
    have "lpcs s' u = lpcs s u" if "u \<noteq> t" for u
      using lock_step_others [OF locking(4) that] locking(1) by simp
    then show ?thesis using inv locking(1,2) unfolding idle_out_def
      by (metis sys_sel(10))
  next
    case (unlocking k)
    then show ?thesis using inv by (auto simp: idle_out_def)
  next
    case (run_task x)
    then show ?thesis using idle_outD [OF inv, of t] by (intro idle_out_goto [OF inv, where t = t]) auto
  next
    case join
    then show ?thesis using idle_outD [OF inv, of t] by (intro idle_out_goto [OF inv, where t = t]) auto
  qed ((rule idle_out_goto [OF inv, where t = t]; simp)+)
qed

lemma tp_reach_idle: "reach tp_step (tp_init n) s \<Longrightarrow> idle_out s \<and> finite {t. code s t \<noteq> Idle}"
proof (induction rule: reach.induct)
  case reach_refl
  have "{t. code (tp_init n :: 'a tp_sys) t \<noteq> Idle} \<subseteq> {..<n}" by (auto simp: tp_init_def)
  then show ?case by (auto simp: idle_out_def tp_init_def intro: finite_subset)
next
  case (reach_step s t s')
  have "code s' u = code s u" if "u \<noteq> t" for u
    using reach_step.hyps(2) that by (auto elim!: tp_stepE)
  then have "{t. code s' t \<noteq> Idle} \<subseteq> insert t {t. code s t \<noteq> Idle}" by auto
  then show ?case
    using reach_step.IH idle_out_step [OF _ tp_reach_inside [OF reach_step.hyps(1)] reach_step.hyps(2)]
    by (auto intro: finite_subset)
qed

definition blocked :: "'a tp_sys \<Rightarrow> nat \<Rightarrow> bool" where
  "blocked s t \<longleftrightarrow> (case code s t of Idle \<Rightarrow> True | Returned \<Rightarrow> True | Destroyed \<Rightarrow> True
     | Join \<Rightarrow> \<not> (\<forall>w<workers_m (tp s). code s w = Returned) | _ \<Rightarrow> False)"

lemma blocked_cong: "code s' = code s \<Longrightarrow> workers_m (tp s') = workers_m (tp s) \<Longrightarrow> blocked s' t = blocked s t"
  by (simp add: blocked_def cong: at_code.case_cong)

text \<open>A thread inside the code that is not blocked has a step, the one \<open>tp_move\<close> makes.\<close>

lemma move_not_RTry: "writer_pc (pcs l t) \<Longrightarrow> pcs (move l (t, True)) t \<noteq> RTry"
  by (cases "pcs l t") auto

lemma move_step_ok:
  assumes w: "writers_only s" and i: "inside_ok s" and b: "\<not> blocked s t"
  shows "tp_step s t (tp_move s (t, Work))"
proof (cases "code s t")
  case (Acq j)
  show ?thesis
  proof (cases "lpcs s t = WIn")
    case True
    then show ?thesis using Acq by (simp add: tp_step.locked)
  next
    case False
    have n: "pcs (move (lock_of s) (t, True)) t \<noteq> RTry"
      by (rule move_not_RTry) (use w in \<open>simp add: writers_only_def\<close>)
    have "tp_step s t (set_lock s (move (lock_of s) (t, True)))"
      by (rule locking [OF Acq False move_step n])
    then show ?thesis using Acq False n by (simp add: Let_def del: move.simps)
  qed
next
  case (Crit j)
  then show ?thesis
    by (cases j) (auto intro: work_return work_take work_none enq_throw enq_ok dtor_stop)
next
  case (Rel k)
  then have "lpcs s t = WIn" using i by (simp add: inside_ok_def)
  then show ?thesis using Rel unlocking [OF Rel] by simp
next
  case Join
  then have a: "\<forall>w<workers_m (tp s). code s w = Returned" using b by (simp add: blocked_def)
  then have "list_all (\<lambda>w. case code s w of Returned \<Rightarrow> True | _ \<Rightarrow> False) [0..<workers_m (tp s)]"
    by simp
  then show ?thesis using Join join [OF Join a] by simp
qed (use b in \<open>auto simp: blocked_def intro: pop push run_task\<close>)

subsection \<open>Fair runs\<close>

text \<open>
  An infinite run: at time \<open>i\<close> it is the turn of thread \<open>c i\<close>, which makes a step, or passes if it has none
  (the joins before the workers have returned) or is outside the pool's code: no new calls are made.
  Every thread that is inside at time 0 gets its turn again and again.
\<close>

definition fair_run :: "(nat \<Rightarrow> 'a tp_sys) \<Rightarrow> (nat \<Rightarrow> nat) \<Rightarrow> bool" where
  "fair_run f c \<longleftrightarrow>
     (\<forall>i. if blocked (f i) (c i) then f (Suc i) = f i else tp_step (f i) (c i) (f (Suc i))) \<and>
     (\<forall>t. code (f 0) t \<noteq> Idle \<longrightarrow> (\<forall>k. \<exists>i\<ge>k. c i = t))"

lemma fair_turn:
  assumes "fair_run f c"
  obtains "blocked (f i) (c i)" "f (Suc i) = f i" | "\<not> blocked (f i) (c i)" "tp_step (f i) (c i) (f (Suc i))"
  using assms unfolding fair_run_def by metis

lemma fair_reach:
  assumes "fair_run f c" and "reach tp_step (tp_init n) (f 0)"
  shows "reach tp_step (tp_init n) (f i)"
proof (induction i)
  case (Suc i)
  then show ?case using fair_turn [OF assms(1), of i] by (metis reach.reach_step)
qed (rule assms(2))

lemma fair_idle: "fair_run f c \<Longrightarrow> code (f 0) t = Idle \<Longrightarrow> code (f i) t = Idle"
proof (induction i)
  case (Suc i)
  then have I: "code (f i) t = Idle" by simp
  from Suc.prems(1) show ?case
  proof (cases rule: fair_turn [of f c i])
    case 2
    then have "c i \<noteq> t" using I by (auto simp: blocked_def)
    then show ?thesis using 2(2) I by (auto elim!: tp_stepE)
  qed (use I in simp)
qed simp

lemma past_stop_step: "tp_step s t s' \<Longrightarrow> past_stop (code s d) \<Longrightarrow> past_stop (code s' d)"
  by (cases "t = d") (auto elim!: tp_stepE)

lemma fair_past: "fair_run f c \<Longrightarrow> past_stop (code (f 0) d) \<Longrightarrow> past_stop (code (f i) d)"
proof (induction i)
  case (Suc i)
  then show ?case using fair_turn [OF Suc.prems(1), of i] past_stop_step by metis
qed simp

subsection \<open>After the last step that counts\<close>

text \<open>
  \<open>calm n f c N\<close>: a fair run of a pool that is stopped, in which from time \<open>N\<close> on the work
  left does not change.
\<close>

definition calm :: "nat \<Rightarrow> (nat \<Rightarrow> 'a tp_sys) \<Rightarrow> (nat \<Rightarrow> nat) \<Rightarrow> nat \<Rightarrow> bool" where
  "calm n f c N \<longleftrightarrow> fair_run f c \<and> reach tp_step (tp_init n) (f 0) \<and> (\<forall>i. stop_m (tp (f i))) \<and>
     (\<forall>i\<ge>N. work_left {t. code (f 0) t \<noteq> Idle} (f i) = work_left {t. code (f 0) t \<noteq> Idle} (f N))"

lemma calm_reach: "calm n f c N \<Longrightarrow> reach tp_step (tp_init n) (f i)"
  using fair_reach by (auto simp: calm_def)

text \<open>From then on a thread whose turn it is spins or is blocked.\<close>

lemma calm_turn:
  assumes "calm n f c N" and "N \<le> i" and "\<not> blocked (f i) (c i)"
  shows "spins (f i) (c i) \<and> tp_step (f i) (c i) (f (Suc i))"
proof (rule ccontr)
  assume no: "\<not> ?thesis"
  let ?T = "{t. code (f 0) t \<noteq> Idle}"
  have fr: "fair_run f c" and r0: "reach tp_step (tp_init n) (f 0)" and st: "stop_m (tp (f i))"
    using assms(1) by (simp_all add: calm_def)
  have st': "tp_step (f i) (c i) (f (Suc i))" using fair_turn [OF fr, of i] assms(3) by metis
  have ni: "code (f i) (c i) \<noteq> Idle" using assms(3) by (auto simp: blocked_def)
  then have "c i \<in> ?T" using fair_idle [OF fr] by blast
  moreover have "finite ?T" using tp_reach_idle [OF r0] by simp
  ultimately have "work_left ?T (f (Suc i)) < work_left ?T (f i)"
    using step_counts [OF calm_reach [OF assms(1)] st' st ni] no st' by blast
  moreover have "work_left ?T (f (Suc i)) = work_left ?T (f i)"
    using assms(1,2) unfolding calm_def by (metis le_Suc_eq)
  ultimately show False by simp
qed

lemma calm_step:
  assumes "calm n f c N" and "N \<le> i"
  shows "code (f (Suc i)) = code (f i) \<and> (\<forall>u. u \<noteq> c i \<longrightarrow> lpcs (f (Suc i)) u = lpcs (f i) u)"
proof (cases "blocked (f i) (c i)")
  case True
  then show ?thesis using assms(1) fair_turn [of f c i] unfolding calm_def by metis
next
  case False
  then show ?thesis using calm_turn [OF assms False] spin_same by blast
qed

lemma calm_code: "calm n f c N \<Longrightarrow> N \<le> i \<Longrightarrow> code (f i) = code (f N)"
proof (induction i)
  case (Suc i)
  then show ?case using calm_step [of n f c N i] by (cases "N = Suc i") auto
qed simp

text \<open>The next turn of a thread finds it where it was.\<close>

lemma calm_next_turn:
  assumes "calm n f c N" and "N \<le> i" and "code (f N) t \<noteq> Idle"
  obtains k where "i \<le> k" and "c k = t" and "lpcs (f k) t = lpcs (f i) t"
proof -
  have fr: "fair_run f c" using assms(1) by (simp add: calm_def)
  then have "code (f 0) t \<noteq> Idle" using fair_idle assms(3) by blast
  then have ex: "\<exists>k. i \<le> k \<and> c k = t" using fr by (auto simp: fair_run_def)
  define k where "k = (LEAST k. i \<le> k \<and> c k = t)"
  have k: "i \<le> k" "c k = t" using LeastI_ex [OF ex] by (simp_all add: k_def)
  have least: "\<And>j. j < k \<Longrightarrow> \<not> (i \<le> j \<and> c j = t)" using not_less_Least by (auto simp: k_def)
  have "lpcs (f j) t = lpcs (f i) t" if "i \<le> j" "j \<le> k" for j
    using that
  proof (induction j)
    case (Suc j)
    show ?case
    proof (cases "i = Suc j")
      case False
      then have j: "i \<le> j" "j < k" "N \<le> j" using Suc.prems assms(2) by simp_all
      then have "c j \<noteq> t" using least by blast
      then have "lpcs (f (Suc j)) t = lpcs (f j) t" using calm_step [OF assms(1) j(3)] by simp
      then show ?thesis using Suc.IH j by simp
    qed simp
  qed simp
  then show ?thesis using that k by blast
qed

text \<open>Nobody is on the way through the lock, so the lock is free.\<close>

lemma calm_no_claim:
  assumes "calm n f c N" and "N \<le> i"
  shows "lpcs (f i) t \<noteq> WDrain \<and> lpcs (f i) t \<noteq> WIn"
proof (rule ccontr)
  assume "\<not> ?thesis"
  then have p: "lpcs (f i) t = WDrain \<or> lpcs (f i) t = WIn" by blast
  have "inside (code (f i) t) \<or> (\<exists>j. code (f i) t = Acq j)"
    using idle_outD [of "f i" t] tp_reach_idle [OF calm_reach [OF assms(1)]] p by auto
  then have cN: "inside (code (f N) t) \<or> (\<exists>j. code (f N) t = Acq j)" using calm_code [OF assms] by simp
  then have "code (f N) t \<noteq> Idle" by auto
  from calm_next_turn [OF assms this] obtain k where
    k: "i \<le> k" "c k = t" "lpcs (f k) t = lpcs (f i) t" .
  then have Nk: "N \<le> k" using assms(2) by simp
  have "\<not> blocked (f k) (c k)"
    using cN calm_code [OF assms(1) Nk] k(2) by (auto simp: blocked_def split: at_code.splits)
  from calm_turn [OF assms(1) Nk this] have "spins (f k) t" using k(2) by simp
  then show False using k(3) p by (auto simp: spins_def)
qed

lemma calm_lock_free:
  assumes "calm n f c N" and "N \<le> i"
  shows "lock_m (spinlock_m (tp (f i))) = 0"
proof -
  have "writers_inv (lock_of (f i))"
    using lock_reach_inv [OF tp_reach_lock [OF calm_reach [OF assms(1)]]] by simp
  moreover have "writers (lock_of (f i)) = {}" using calm_no_claim [OF assms] by (auto simp: writers_def)
  ultimately show ?thesis by (auto simp: writers_inv_def)
qed

lemma calm_no_spin:
  assumes "calm n f c N" and "N \<le> i" and "c i = t" and "code (f N) t = Acq j"
  shows "lpcs (f i) t = WSleep"
proof -
  have "\<not> blocked (f i) (c i)" using assms calm_code [OF assms(1,2)] by (simp add: blocked_def)
  from calm_turn [OF assms(1,2) this] show ?thesis
    using calm_lock_free [OF assms(1,2)] assms(3) by (auto simp: spins_def)
qed

lemma calm_not_Acq:
  assumes "calm n f c N"
  shows "code (f N) t \<noteq> Acq j"
proof
  assume a: "code (f N) t = Acq j"
  then have ni: "code (f N) t \<noteq> Idle" by simp
  from calm_next_turn [OF assms le_refl this] obtain k where k: "N \<le> k" "c k = t" by blast
  have s: "lpcs (f k) t = WSleep" by (rule calm_no_spin [OF assms k a])
  have "\<not> blocked (f k) (c k)" using a k calm_code [OF assms k(1)] by (simp add: blocked_def)
  from calm_turn [OF assms k(1) this] have "lpcs (f (Suc k)) t = WTry"
    using spin_same s k(2) by (metis fun_upd_same)
  moreover obtain k' where k': "Suc k \<le> k'" "c k' = t" "lpcs (f k') t = lpcs (f (Suc k)) t"
    using calm_next_turn [OF assms _ ni, of "Suc k"] k(1) by (metis le_Suc_eq)
  ultimately show False using calm_no_spin [OF assms _ k'(2) a] k(1) by fastforce
qed

lemma calm_blocked:
  assumes "calm n f c N"
  shows "blocked (f N) t"
proof (rule ccontr)
  assume b: "\<not> blocked (f N) t"
  then have "code (f N) t \<noteq> Idle" by (auto simp: blocked_def)
  from calm_next_turn [OF assms le_refl this] obtain k where k: "N \<le> k" "c k = t" by blast
  have ro: "roles_ok n (f k)" "roles_ok n (f N)" using tp_reach_runs [OF calm_reach [OF assms]] by simp_all
  then have "workers_m (tp (f k)) = workers_m (tp (f N))" by (simp add: roles_ok_def)
  then have "\<not> blocked (f k) (c k)"
    using b k(2) blocked_cong [OF calm_code [OF assms k(1)]] by simp
  from calm_turn [OF assms k(1) this] have "\<exists>j. code (f k) t = Acq j" using k(2) by (auto simp: spins_def)
  then show False using calm_not_Acq [OF assms] calm_code [OF assms k(1)] by metis
qed

lemma nat_settles:
  fixes w :: "nat \<Rightarrow> nat"
  assumes "\<And>i. w (Suc i) \<le> w i"
  shows "\<exists>N. \<forall>i\<ge>N. w i = w N"
proof -
  obtain N where N: "\<And>i. w N \<le> w i" using ex_has_least_nat [of "\<lambda>_. True" 0 w] by auto
  have "w i \<le> w N" if "N \<le> i" for i 
    by (rule lift_Suc_antimono_le [where f = w, OF assms that])
  then show ?thesis using N by (metis le_antisym)
qed

lemma fair_calm:
  assumes "fair_run f c" and r: "reach tp_step (tp_init n) (f 0)" and st: "stop_m (tp (f 0))"
  shows "\<exists>N. calm n f c N"
proof -
  let ?T = "{t. code (f 0) t \<noteq> Idle}"
  have fin: "finite ?T" using tp_reach_idle [OF r] by simp
  have run: "reach tp_step (f 0) (f i)" for i
  proof (induction i)
    case (Suc i)
    then show ?case using fair_turn [OF assms(1), of i] by (metis reach.reach_step)
  qed (rule reach.reach_refl)
  have stop: "stop_m (tp (f i))" for i using stopped_queue_shrinks [OF r run st] by simp
  have "work_left ?T (f (Suc i)) \<le> work_left ?T (f i)" for i
  proof (cases rule: fair_turn [OF assms(1), of i])
    case 2
    then have ni: "code (f i) (c i) \<noteq> Idle" by (auto simp: blocked_def)
    then have "c i \<in> ?T" using fair_idle [OF assms(1)] by blast
    then show ?thesis
      using step_counts [OF fair_reach [OF assms(1) r] 2(2) stop ni _ fin] spin_same [OF 2(2)]
      by (metis eq_imp_le less_imp_le)
  qed simp
  from nat_settles [of "\<lambda>i. work_left ?T (f i)", OF this]
  show ?thesis using assms(1) r stop by (auto simp: calm_def)
qed

subsection \<open>Properties\<close>

text \<open>
  C13. Shutting down ends: from any reachable state in which the destructor of the pool has set
  \<open>stop\<close>, in any fair run the destructor returns, whatever the queue held and wherever the
  workers and the callers of \<open>Enqueue\<close> were; by then every task accepted has been run.
\<close>

theorem shutdown_ends:
  assumes "reach tp_step (tp_init n) (f 0)" and "past_stop (code (f 0) d)" and "fair_run f c"
    and "0 < n"
  shows "\<exists>i. code (f i) d = Destroyed \<and> tasks_m (tp (f i)) = [] \<and>
     mset (finished (f i)) = mset (accepted (f i))"
proof -
  have "stop_m (tp (f 0))" using tp_reach_queue [OF assms(1)] assms(2) unfolding stop_ok_def by blast
  from fair_calm [OF assms(3,1) this] obtain N where N: "calm n f c N" ..
  note r = calm_reach [OF N, of N]
  have bl: "blocked (f N) w" for w by (rule calm_blocked [OF N])
  have b: "code (f N) w \<in> {Idle, Returned, Destroyed} \<or> code (f N) w = Join \<and>
      \<not> (\<forall>w<workers_m (tp (f N)). code (f N) w = Returned)" if "blocked (f N) w" for w
    using that by (cases "code (f N) w") (simp_all add: blocked_def)
  have ro: "workers_m (tp (f N)) = n" "\<And>w. worker (code (f N) w) \<longleftrightarrow> w < n"
    using tp_reach_runs [OF r] by (simp_all add: roles_ok_def)
  have "code (f N) w = Returned" if "w < n" for w using b [OF bl, of w] ro(2) [of w] that by auto
  then have "code (f N) d \<in> {Idle, Returned, Destroyed}" using b [OF bl, of d] ro(1) by auto
  moreover have "past_stop (code (f N) d)" by (rule fair_past [OF assms(3,2)])
  ultimately have d: "code (f N) d = Destroyed" by auto
  show ?thesis
    using d destroyed_state [OF r d assms(4)] by (intro exI [of _ N]) simp
qed

text \<open>
  The witness: thread 1 has set \<open>stop\<close> while a task is queued and the worker, thread 0, waits for the
  lock; the threads 0, 1 and 2 take turns.
\<close>

definition stopping :: "nat tp_sys" where
  "stopping = foldl tp_move (tp_init 1) (replicate 8 (2, Enq 5) @ replicate 7 (1, Dtor))"

definition turns :: "nat \<Rightarrow> nat tp_sys" where
  "turns i = foldl (\<lambda>s k. if blocked s (k mod 3) then s else tp_move s (k mod 3, Work)) stopping [0..<i]"

lemma reach_stopping: "reach tp_step (tp_init 1) stopping"
  unfolding stopping_def by (rule reach_tp_moves [OF reach_refl])

lemma turns_Suc:
  "turns (Suc i) = (if blocked (turns i) (i mod 3) then turns i else tp_move (turns i) (i mod 3, Work))"
  by (simp add: turns_def)

lemma turns_reach: "reach tp_step (tp_init 1) (turns i)"
proof (induction i)
  case 0
  then show ?case using reach_stopping by (simp add: turns_def)
next
  case (Suc i)
  then show ?case
    unfolding turns_Suc using reach_tp_moves [OF Suc, of "[(i mod 3, Work)]"] by simp
qed

lemma tp_step_others: "tp_step s u s' \<Longrightarrow> t \<noteq> u \<Longrightarrow> code s' t = code s t"
  by (auto elim!: tp_stepE)

lemma tp_moves_others: "t \<notin> fst ` set ms \<Longrightarrow> code (foldl tp_move s ms) t = code s t"
proof (induction ms arbitrary: s)
  case (Cons m ms)
  obtain u j where m: "m = (u, j)" by (cases m)
  then have "code (tp_move s m) t = code s t"
    using tp_move_step [of s u j] tp_step_others Cons.prems by (metis fst_conv image_eqI list.set_intros(1))
  moreover have "code (foldl tp_move (tp_move s m) ms) t = code (tp_move s m) t"
    by (rule Cons.IH) (use Cons.prems in simp)
  ultimately show ?case by (simp only: foldl_Cons)
qed simp

lemma stopping_others: "code stopping t \<noteq> Idle \<Longrightarrow> t < 3"
proof (rule ccontr)
  assume i: "code stopping t \<noteq> Idle" and t: "\<not> t < 3"
  have "code stopping t = code (tp_init 1 :: nat tp_sys) t"
    unfolding stopping_def by (rule tp_moves_others) (use t in auto)
  then show False using i t by (simp add: tp_init_def)
qed

lemma turns_fair: "fair_run turns (\<lambda>i. i mod 3)"
  unfolding fair_run_def
proof (intro conjI allI impI)
  fix i
  show "if blocked (turns i) (i mod 3) then turns (Suc i) = turns i
      else tp_step (turns i) (i mod 3) (turns (Suc i))"
    using move_step_ok [OF tp_reach_writers [OF turns_reach] tp_reach_inside [OF turns_reach]]
    by (simp add: turns_Suc del: tp_move.simps)
next
  fix t k assume "code (turns 0) t \<noteq> Idle"
  then have "t < 3" using stopping_others by (simp add: turns_def)
  then have "k \<le> 3 * k + t \<and> (3 * k + t) mod 3 = t" by simp
  then show "\<exists>i\<ge>k. i mod 3 = t" by blast
qed

theorem shutdown_ends_witness:
  "stop_m (tp stopping) \<and> tasks_m (tp stopping) = [5] \<and>
   (\<exists>i. code (turns i) 1 = Destroyed \<and> mset (finished (turns i)) = mset (accepted (turns i)))"
proof -
  have "past_stop (code stopping 1)" "stop_m (tp stopping)" "tasks_m (tp stopping) = [5]" by code_simp+
  moreover have "turns 0 = stopping" by (simp add: turns_def)
  ultimately show ?thesis
    using shutdown_ends [of 1 turns 1 "\<lambda>i. i mod 3", OF turns_reach _ turns_fair] by auto
qed

end
