(* ===== verification/Futures.thy ===== *)
theory Futures
  imports ThreadPoolSpec
begin

section \<open>Futures of the thread pool (thread_manager/ThreadPool.h, Enqueue)\<close>

text \<open>
  \<open>Enqueue\<close> wraps a callable in a \<open>std::packaged_task\<close>, takes the future of its shared state, and queues a
  function that calls the task.  Here the tasks of theory \<open>ThreadPool\<close> are the numbers of these shared
  states.  Calling the task runs the callable and stores its value, or the exception it threw; a
  second call of it would throw \<open>std::future_error\<close>, which nothing catches.  If \<open>Enqueue\<close> throws, task
  and future are destroyed with its frame.  What a callable gives is the parameter \<open>ev\<close>.
\<close>

datatype 'v outcome = Value 'v | Thrown nat

datatype 'v promise = Unready | Satisfied "'v outcome" | Abandoned

record ('c, 'v) fut_sys =
  pool :: "nat tp_sys"
  made :: nat                             \<comment> \<open>packaged tasks made so far; also the next number\<close>
  callable :: "nat \<Rightarrow> 'c option"          \<comment> \<open>\<open>std::bind(f, args...)\<close>\<close>
  shared_state :: "nat \<Rightarrow> 'v promise"
  given :: "nat list"                     \<comment> \<open>futures of the calls that return\<close>
  refused :: "nat list"                   \<comment> \<open>calls that throw\<close>
  escaped :: "fault option"               \<comment> \<open>an exception that left a worker\<close>

definition fut_init :: "nat \<Rightarrow> ('c, 'v) fut_sys" where
  "fut_init n = \<lparr>pool = tp_init n, made = 0, callable = (\<lambda>_. None), shared_state = (\<lambda>_. Unready),
     given = [], refused = [], escaped = None\<rparr>"

text \<open>\<open>operator()\<close> of a packaged task.\<close>

definition packaged_call :: "'v outcome \<Rightarrow> 'v promise \<Rightarrow> 'v promise res" where
  "packaged_call r p = (case p of Unready \<Rightarrow> Inr (Satisfied r) | _ \<Rightarrow> Inl Uncaught)"

text \<open>The steps of the pool that touch no shared state.\<close>

definition plain :: "nat tp_sys \<Rightarrow> nat \<Rightarrow> nat tp_sys \<Rightarrow> bool" where
  "plain b t b' \<longleftrightarrow> (case code b t of
     Idle \<Rightarrow> (case code b' t of Acq (Enq x) \<Rightarrow> False | _ \<Rightarrow> True)
   | Crit (Enq x) \<Rightarrow> \<not> stop_m (tp b)
   | Push x \<Rightarrow> False
   | Run x \<Rightarrow> False
   | _ \<Rightarrow> True)"

inductive fut_step :: "('c \<Rightarrow> 'v outcome) \<Rightarrow> ('c, 'v) fut_sys \<Rightarrow> nat \<Rightarrow> ('c, 'v) fut_sys \<Rightarrow> bool" for ev where
  f_make: "code (pool s) t = Idle \<Longrightarrow>
    fut_step ev s t (s\<lparr>pool := goto (pool s) t (Acq (Enq (made s))), made := Suc (made s),
      callable := (callable s)(made s \<mapsto> c), shared_state := (shared_state s)(made s := Unready)\<rparr>)"
| f_throw: "code (pool s) t = Crit (Enq x) \<Longrightarrow> stop_m (tp (pool s)) \<Longrightarrow>
    fut_step ev s t (s\<lparr>pool := goto (pool s) t (Rel Idle), shared_state := (shared_state s)(x := Abandoned),
      refused := refused s @ [x]\<rparr>)"
| f_push: "code (pool s) t = Push x \<Longrightarrow> tp_step (pool s) t b \<Longrightarrow>
    fut_step ev s t (s\<lparr>pool := b, given := given s @ [x]\<rparr>)"
| f_run: "code (pool s) t = Run x \<Longrightarrow> callable s x = Some c \<Longrightarrow> packaged_call (ev c) (shared_state s x) = Inr p \<Longrightarrow>
    tp_step (pool s) t b \<Longrightarrow> fut_step ev s t (s\<lparr>pool := b, shared_state := (shared_state s)(x := p)\<rparr>)"
| f_escape: "code (pool s) t = Run x \<Longrightarrow> callable s x = Some c \<Longrightarrow> packaged_call (ev c) (shared_state s x) = Inl f \<Longrightarrow>
    fut_step ev s t (s\<lparr>escaped := Some f\<rparr>)"
| f_plain: "tp_step (pool s) t b \<Longrightarrow> plain (pool s) t b \<Longrightarrow> fut_step ev s t (s\<lparr>pool := b\<rparr>)"

subsection \<open>The pool underneath\<close>

lemma fut_pool: "fut_step ev s t s' \<Longrightarrow> pool s' = pool s \<or> tp_step (pool s) t (pool s')"
  by (induction rule: fut_step.induct) (auto intro: tp_step.intros)

lemma fut_reach_pool: "reach (fut_step ev) (fut_init n) s \<Longrightarrow> reach tp_step (tp_init n) (pool s)"
proof (induction rule: reach.induct)
  case reach_refl
  then show ?case by (simp add: fut_init_def reach.reach_refl)
next
  case (reach_step s t s')
  from fut_pool [OF reach_step.hyps(2)] reach_step.IH show ?case by (metis reach.reach_step)
qed

subsection \<open>One shared state, one task\<close>

fun calling :: "'a at_code \<Rightarrow> 'a option" where
  "calling (Acq (Enq x)) = Some x"
| "calling (Crit (Enq x)) = Some x"
| "calling (Push x) = Some x"
| "calling _ = None"

definition calls_ok :: "('c, 'v) fut_sys \<Rightarrow> bool" where
  "calls_ok s \<longleftrightarrow> (\<forall>t k. code (pool s) t = Rel k \<longrightarrow> calling k = None) \<and>
     (\<forall>t x. calling (code (pool s) t) = Some x \<longrightarrow> x < made s \<and> x \<notin> set (given s) \<and>
        shared_state s x = Unready \<and> (\<forall>u. calling (code (pool s) u) = Some x \<longrightarrow> u = t))"

definition states_ok :: "('c \<Rightarrow> 'v outcome) \<Rightarrow> ('c, 'v) fut_sys \<Rightarrow> bool" where
  "states_ok ev s \<longleftrightarrow> escaped s = None \<and> given s = accepted (pool s) \<and> distinct (given s) \<and>
     (\<forall>x<made s. callable s x \<noteq> None) \<and>
     (\<forall>x\<in>set (given s). x < made s \<and> (\<exists>c. callable s x = Some c \<and>
        shared_state s x = (if x \<in> set (finished (pool s)) then Satisfied (ev c) else Unready))) \<and>
     (\<forall>x\<in>set (refused s). x < made s \<and> shared_state s x = Abandoned)"

text \<open>A task in the hands of a worker has not been run.\<close>

lemma running_unfinished:
  assumes r: "reach tp_step (tp_init n) b" and run: "code b t = Run x" and d: "distinct (accepted b)"
  shows "x \<in> set (accepted b)" "x \<notin> set (finished b)"
proof -
  have q: "accepted b = started b @ tasks_m (tp b)" using tp_reach_queue [OF r] by (simp add: fifo_ok_def)
  have m: "mset (started b) = mset (finished b) + in_progress n b" using tp_reach_runs [OF r] by (simp add: runs_ok_def)
  have "worker (code b t) \<longleftrightarrow> t < n" using tp_reach_runs [OF r] unfolding roles_ok_def by blast
  then have w: "t < n" using run by simp
  have "x \<in># in_progress n b"
    unfolding in_progress_def using w run by (auto simp: sum.remove [of "{..<n}" t])
  then obtain A where A: "in_progress n b = add_mset x A" by (metis mset_add)
  have "distinct (started b)" using d q by simp
  then have c: "count (mset (started b)) x \<le> 1" by (simp add: distinct_count_atmost_1)
  have "x \<in># mset (started b)" using m A by simp
  then show "x \<in> set (accepted b)" using q by simp
  show "x \<notin> set (finished b)"
  proof
    assume "x \<in> set (finished b)"
    then have "0 < count (mset (finished b)) x" by simp
    then show False using c m A by simp
  qed
qed

lemma calls_ok_goto:
  assumes inv: "calls_ok s" and b: "code (pool s') = (code (pool s))(t := c)"
    and none: "calling c = None \<or> calling c = calling (code (pool s) t)"
    and rel: "\<forall>k. c = Rel k \<longrightarrow> calling k = None" and made: "made s' = made s"
    and given: "\<And>u x. calling (((code (pool s))(t := c)) u) = Some x \<Longrightarrow> x \<notin> set (given s')"
    and sh: "\<And>u x. calling (((code (pool s))(t := c)) u) = Some x \<Longrightarrow> shared_state s' x = shared_state s x"
  shows "calls_ok s'"
  unfolding calls_ok_def b made
proof (intro conjI allI impI)
  show "calling k = None" if "((code (pool s))(t := c)) u = Rel k" for u k
    using that inv rel unfolding calls_ok_def by (cases "u = t") simp_all
  have old: "calling (code (pool s) u) = Some x" if "calling (((code (pool s))(t := c)) u) = Some x" for u x
    using that none by (cases "u = t") auto
  fix u x assume u: "calling (((code (pool s))(t := c)) u) = Some x"
  have i: "x < made s \<and> x \<notin> set (given s) \<and> shared_state s x = Unready \<and>
      (\<forall>v. calling (code (pool s) v) = Some x \<longrightarrow> v = u)"
    using inv old [OF u] unfolding calls_ok_def by blast
  show "x < made s" "x \<notin> set (given s')" "shared_state s' x = Unready" using i given [OF u] sh [OF u] by auto
  show "v = u" if "calling (((code (pool s))(t := c)) v) = Some x" for v
    using old [OF that] i by blast
qed

lemma callingD:
  assumes "calls_ok s" and "calling (code (pool s) t) = Some x"
  shows "x < made s" "x \<notin> set (given s)" "shared_state s x = Unready"
    "\<And>u. calling (code (pool s) u) = Some x \<Longrightarrow> u = t"
  using assms unfolding calls_ok_def by blast+

lemma plain_step:
  assumes step: "tp_step b t b'" and p: "plain b t b'" and rel: "\<And>k. code b t = Rel k \<Longrightarrow> calling k = None"
    and i: "inside_ok b"
  shows "accepted b' = accepted b \<and> finished b' = finished b \<and>
     (\<exists>c. code b' = (code b)(t := c) \<and> (calling c = None \<or> calling c = calling (code b t)) \<and>
       (\<forall>k. c = Rel k \<longrightarrow> calling k = None))"
  using step
proof cases
  case (locking j l)
  then have "code b' = (code b)(t := Acq j)" by auto
  then show ?thesis using locking by auto
next
  case (unlocking k)
  then have "calling k = None" by (intro rel)
  moreover have "\<not> inside k" using i unlocking(2) unfolding inside_ok_def by blast
  ultimately show ?thesis using unlocking(1) by auto
next
  case (locked j)
  have "calling (Crit j) = calling (Acq j)" by (cases j) simp_all
  then show ?thesis using locked by (intro conjI exI [of _ "Crit j"]) simp_all
qed (use p in \<open>auto simp: plain_def\<close>)

lemma states_distinct: "states_ok ev s \<Longrightarrow> distinct (accepted (pool s))"
  unfolding states_ok_def by metis

lemma states_unready:
  assumes "states_ok ev s" and "x \<in> set (accepted (pool s))" and "x \<notin> set (finished (pool s))"
  shows "shared_state s x = Unready"
proof -
  have "x \<in> set (given s)" using assms(1,2) by (simp add: states_ok_def)
  then obtain c where "shared_state s x = (if x \<in> set (finished (pool s)) then Satisfied (ev c) else Unready)"
    using assms(1) unfolding states_ok_def by metis
  then show ?thesis using assms(3) by simp
qed

lemma calls_step:
  assumes c: "calls_ok s" and ok: "states_ok ev s" and r: "reach tp_step (tp_init n) (pool s)"
    and step: "fut_step ev s t s'"
  shows "calls_ok s'"
  using step
proof cases
  case (f_make c')
  have old: "x < made s" if "calling (code (pool s) u) = Some x" for u x using callingD(1) [OF c that] .
  show ?thesis
    unfolding calls_ok_def
  proof (intro conjI allI impI)
    show "calling k = None" if "code (pool s') u = Rel k" for u k
      using that c f_make(1) unfolding calls_ok_def by (cases "u = t") simp_all
    fix u x assume u: "calling (code (pool s') u) = Some x"
    have giv: "\<forall>y\<in>set (given s). y < made s" using ok by (simp add: states_ok_def)
    have "x < made s' \<and> x \<notin> set (given s') \<and> shared_state s' x = Unready"
    proof (cases "u = t")
      case True
      then have "x = made s" using u f_make(1) by simp
      then show ?thesis using giv f_make(1) by auto
    next
      case False
      then have cu: "calling (code (pool s) u) = Some x" using u f_make(1) by simp
      then show ?thesis using callingD(1-3) [OF c cu] f_make(1) by simp
    qed
    then show "x < made s'" "x \<notin> set (given s')" "shared_state s' x = Unready" by simp_all
    show "v = u" if "calling (code (pool s') v) = Some x" for v
      using u that old [of u x] old [of v x] callingD(4) [OF c, of u x v] f_make(1) by (cases "u = t"; cases "v = t") auto
  qed
next
  case (f_throw x)
  show ?thesis
  proof (rule calls_ok_goto [OF c, where t = t and c = "Rel Idle"])
    fix u y assume u: "calling (((code (pool s))(t := Rel Idle)) u) = Some y"
    then have ut: "u \<noteq> t" and cu: "calling (code (pool s) u) = Some y" by (auto split: if_splits)
    have "calling (code (pool s) t) = Some x" using f_throw(2) by simp
    then have "y \<noteq> x" using callingD(4) [OF c cu, of t] ut by auto
    then show "shared_state s' y = shared_state s y" using f_throw(1) by simp
    show "y \<notin> set (given s')" using callingD(2) [OF c cu] f_throw(1) by simp
  qed (simp_all add: f_throw(1))
next
  case (f_push x b)
  have code: "code b = (code (pool s))(t := Rel Idle)" using f_push(3,2) by (auto elim: tp_stepE)
  show ?thesis
  proof (rule calls_ok_goto [OF c, where t = t and c = "Rel Idle"])
    fix u y assume u: "calling (((code (pool s))(t := Rel Idle)) u) = Some y"
    then have ut: "u \<noteq> t" and cu: "calling (code (pool s) u) = Some y" by (auto split: if_splits)
    have "calling (code (pool s) t) = Some x" using f_push(2) by simp
    then have "y \<noteq> x" using callingD(4) [OF c cu, of t] ut by auto
    then show "y \<notin> set (given s')" using callingD(2) [OF c cu] f_push(1) by simp
  qed (simp_all add: f_push(1) code)
next
  case (f_run x d p b)
  have code: "code b = (code (pool s))(t := Acq Work)" using f_run(5,2) by (auto elim: tp_stepE)
  have "distinct (accepted (pool s))" by (rule states_distinct [OF ok])
  from running_unfinished(1) [OF r f_run(2) this] have x: "x \<in> set (given s)" using ok by (simp add: states_ok_def)
  show ?thesis
  proof (rule calls_ok_goto [OF c, where t = t and c = "Acq Work"])
    fix u y assume u: "calling (((code (pool s))(t := Acq Work)) u) = Some y"
    then have cu: "calling (code (pool s) u) = Some y" by (auto split: if_splits)
    show "y \<notin> set (given s')" using callingD(2) [OF c cu] f_run(1) by simp
    have "y \<noteq> x" using callingD(2) [OF c cu] x by auto
    then show "shared_state s' y = shared_state s y" using f_run(1) by simp
  qed (simp_all add: f_run(1) code)
next
  case (f_escape x d f)
  then show ?thesis using c by (simp add: calls_ok_def)
next
  case (f_plain b)
  have rel: "calling k = None" if "code (pool s) t = Rel k" for k using c that unfolding calls_ok_def by blast
  obtain d where d: "code b = (code (pool s))(t := d)" "calling d = None \<or> calling d = calling (code (pool s) t)"
    "\<forall>k. d = Rel k \<longrightarrow> calling k = None"
    using plain_step [OF f_plain(2,3) rel tp_reach_inside [OF r]] by blast
  show ?thesis
  proof (rule calls_ok_goto [OF c _ d(2,3)])
    show "code (pool s') = (code (pool s))(t := d)" using f_plain(1) d(1) by simp
    fix u x assume "calling (((code (pool s))(t := d)) u) = Some x"
    then have "calling (code (pool s) u) = Some x" using d(2) by (cases "u = t") auto
    then show "x \<notin> set (given s')" using callingD(2) [OF c] f_plain(1) by simp
  qed (simp_all add: f_plain(1))
qed

lemma finished_accepted:
  assumes "reach tp_step (tp_init n) b"
  shows "set (finished b) \<subseteq> set (accepted b)"
proof -
  have "accepted b = started b @ tasks_m (tp b)" using tp_reach_queue [OF assms] by (simp add: fifo_ok_def)
  moreover have "mset (started b) = mset (finished b) + in_progress n b" using tp_reach_runs [OF assms] by (simp add: runs_ok_def)
  then have "set_mset (mset (finished b)) \<subseteq> set_mset (mset (started b))" by simp
  ultimately show ?thesis by auto
qed

lemma states_step:
  assumes c: "calls_ok s" and ok: "states_ok ev s" and r: "reach tp_step (tp_init n) (pool s)"
    and step: "fut_step ev s t s'"
  shows "states_ok ev s'"
  using step
proof cases
  case (f_make d)
  then show ?thesis using ok by (auto simp: states_ok_def less_Suc_eq)
next
  case (f_throw x)
  have x: "x < made s" "x \<notin> set (given s)" using callingD [OF c, of t x] f_throw(2) by simp_all
  then show ?thesis using ok f_throw(1) by (auto simp: states_ok_def)
next
  case (f_push x b)
  have b: "accepted b = accepted (pool s) @ [x]" "finished b = finished (pool s)"
    using f_push(3,2) by (auto elim: tp_stepE)
  have x: "x < made s" "x \<notin> set (given s)" "shared_state s x = Unready" using callingD [OF c, of t x] f_push(2) by simp_all
  have "x \<notin> set (finished (pool s))" using finished_accepted [OF r] x(2) ok by (auto simp: states_ok_def)
  then show ?thesis using ok x b f_push(1) by (auto simp: states_ok_def)
next
  case (f_run x d p b)
  have b: "accepted b = accepted (pool s)" "finished b = finished (pool s) @ [x]"
    using f_run(5,2) by (auto elim: tp_stepE)
  have "distinct (accepted (pool s))" by (rule states_distinct [OF ok])
  note u = running_unfinished [OF r f_run(2) this]
  have "shared_state s x = Unready" by (rule states_unready [OF ok u])
  then have "p = Satisfied (ev d)" using f_run(4) by (simp add: packaged_call_def)
  moreover have "x \<notin> set (refused s)" using ok u \<open>shared_state s x = Unready\<close> by (auto simp: states_ok_def)
  ultimately show ?thesis using ok b f_run(1,3) u(1) by (auto simp: states_ok_def)
next
  case (f_escape x d f)
  have "distinct (accepted (pool s))" by (rule states_distinct [OF ok])
  note u = running_unfinished [OF r f_escape(2) this]
  have "shared_state s x = Unready" by (rule states_unready [OF ok u])
  then show ?thesis using f_escape(4) by (simp add: packaged_call_def)
next
  case (f_plain b)
  have rel: "calling k = None" if "code (pool s) t = Rel k" for k using c that unfolding calls_ok_def by blast
  have "accepted b = accepted (pool s)" "finished b = finished (pool s)"
    using plain_step [OF f_plain(2,3) rel tp_reach_inside [OF r]] by simp_all
  then show ?thesis using ok f_plain(1) states_distinct [OF ok] by (auto simp: states_ok_def)
qed

lemma fut_reach:
  assumes "reach (fut_step ev) (fut_init n) s"
  shows "calls_ok s \<and> states_ok ev s \<and> reach tp_step (tp_init n) (pool s)"
  using assms
proof (induction rule: reach.induct)
  case reach_refl
  have "calls_ok (fut_init n)"
    unfolding calls_ok_def by (auto simp: fut_init_def tp_init_def split: if_splits)
  moreover have "states_ok ev (fut_init n)" by (simp add: states_ok_def fut_init_def tp_init_def)
  ultimately show ?case by (simp add: fut_init_def reach.reach_refl)
next
  case (reach_step s t s')
  have "reach tp_step (tp_init n) (pool s')"
    by (rule fut_reach_pool) (rule reach.reach_step [OF reach_step.hyps])
  then show ?case using reach_step.IH calls_step states_step reach_step.hyps(2) by blast
qed

subsection \<open>Schedules\<close>

text \<open>The next step of a thread; an idle one enqueues a callable, or destroys the pool.\<close>

fun fut_move :: "('c \<Rightarrow> 'v outcome) \<Rightarrow> ('c, 'v) fut_sys \<Rightarrow> nat \<times> 'c option \<Rightarrow> ('c, 'v) fut_sys" where
  "fut_move ev s (t, c) = (case code (pool s) t of
     Idle \<Rightarrow> (case c of
         None \<Rightarrow> s\<lparr>pool := goto (pool s) t (Acq Dtor)\<rparr>
       | Some d \<Rightarrow> s\<lparr>pool := goto (pool s) t (Acq (Enq (made s))), made := Suc (made s),
           callable := (callable s)(made s \<mapsto> d), shared_state := (shared_state s)(made s := Unready)\<rparr>)
   | Crit (Enq x) \<Rightarrow> if stop_m (tp (pool s))
       then s\<lparr>pool := goto (pool s) t (Rel Idle), shared_state := (shared_state s)(x := Abandoned), refused := refused s @ [x]\<rparr>
       else s\<lparr>pool := tp_move (pool s) (t, Dtor)\<rparr>
   | Push x \<Rightarrow> s\<lparr>pool := tp_move (pool s) (t, Dtor), given := given s @ [x]\<rparr>
   | Run x \<Rightarrow> (case callable s x of None \<Rightarrow> s | Some d \<Rightarrow>
       (case packaged_call (ev d) (shared_state s x) of
          Inl f \<Rightarrow> s\<lparr>escaped := Some f\<rparr>
        | Inr p \<Rightarrow> s\<lparr>pool := tp_move (pool s) (t, Dtor), shared_state := (shared_state s)(x := p)\<rparr>))
   | _ \<Rightarrow> s\<lparr>pool := tp_move (pool s) (t, Dtor)\<rparr>)"

lemma plain_move:
  assumes "plain (pool s) t (tp_move (pool s) (t, Dtor))"
  shows "s\<lparr>pool := tp_move (pool s) (t, Dtor)\<rparr> = s \<or> fut_step ev s t (s\<lparr>pool := tp_move (pool s) (t, Dtor)\<rparr>)"
proof (cases "tp_move (pool s) (t, Dtor) = pool s")
  case True
  then show ?thesis by simp
next
  case False
  then have "tp_step (pool s) t (tp_move (pool s) (t, Dtor))" using tp_move_step by blast
  then show ?thesis using f_plain assms by blast
qed

lemma fut_move_step: "fut_move ev s (t, c) = s \<or> fut_step ev s t (fut_move ev s (t, c))"
proof (cases "code (pool s) t")
  case Idle
  show ?thesis
  proof (cases c)
    case None
    then show ?thesis using Idle plain_move [of s t ev] by (simp add: plain_def)
  next
    case (Some d)
    then show ?thesis using Idle f_make [of s t ev d] by simp
  qed
next
  case (Crit j)
  show ?thesis
  proof (cases "\<exists>x. j = Enq x \<and> stop_m (tp (pool s))")
    case True
    then show ?thesis using Crit f_throw [of s t _ ev] by auto
  next
    case False
    then have "plain (pool s) t (tp_move (pool s) (t, Dtor))" using Crit by (cases j) (simp_all add: plain_def)
    then show ?thesis using plain_move [of s t ev] Crit False by (cases j) (simp_all del: tp_move.simps)
  qed
next
  case (Push x)
  then have "tp_step (pool s) t (tp_move (pool s) (t, Dtor))" by (simp add: tp_step.push)
  then show ?thesis using f_push [OF Push] Push by (simp del: tp_move.simps)
next
  case (Run x)
  then have st: "tp_step (pool s) t (tp_move (pool s) (t, Dtor))" by (simp add: run_task)
  show ?thesis
  proof (cases "callable s x")
    case None
    then show ?thesis using Run by simp
  next
    case (Some d)
    then show ?thesis using Run f_run [OF Run Some _ st, of ev] f_escape [OF Run Some, of ev]
      by (cases "packaged_call (ev d) (shared_state s x)") (simp_all del: tp_move.simps)
  qed
qed (use plain_move [of s t ev] in \<open>simp_all add: plain_def del: tp_move.simps\<close>)

lemma reach_fut_moves: "reach (fut_step ev) s0 s \<Longrightarrow> reach (fut_step ev) s0 (foldl (fut_move ev) s ms)"
proof (induction ms arbitrary: s)
  case (Cons m ms)
  obtain t c where m: "m = (t, c)" by (cases m)
  have "reach (fut_step ev) s0 (fut_move ev s (t, c))"
    using fut_move_step [of ev s t c] Cons.prems by (metis reach.reach_step)
  then show ?case using Cons.IH m by simp
qed simp

text \<open>One worker, a caller that enqueues the negation of 7, and the destructor.\<close>

definition future_run :: "(int, int) fut_sys" where
  "future_run = foldl (fut_move (\<lambda>c. Value (- c))) (fut_init 1)
     (replicate 8 (2, Some 7) @ replicate 8 (1, None) @ replicate 14 (0, None) @ [(1, None)])"

lemma reach_future_run: "reach (fut_step (\<lambda>c. Value (- c))) (fut_init 1) future_run"
  unfolding future_run_def by (rule reach_fut_moves [OF reach_refl])

lemma future_run_eval: "code (pool future_run) 1 = Destroyed \<and> given future_run = [0] \<and> callable future_run 0 = Some 7"
  by code_simp

subsection \<open>Properties\<close>

text \<open>
  C11. Every future gets the result of its own callable, once: in any interleaving of callers, workers and the
  destructor, the futures that \<open>Enqueue\<close> gives out are those of the accepted tasks, all different; each
  is ready exactly when a worker has run its task, and then holds what its callable gave (a value or an
  exception); no promise is satisfied twice and no exception leaves a worker.
\<close>

theorem futures_hold_results:
  assumes "reach (fut_step ev) (fut_init n) s"
  shows "escaped s = None \<and> given s = accepted (pool s) \<and> distinct (given s) \<and>
     (\<forall>x\<in>set (given s). \<exists>c. callable s x = Some c \<and>
        shared_state s x = (if x \<in> set (finished (pool s)) then Satisfied (ev c) else Unready)) \<and>
     (\<forall>x\<in>set (refused s). shared_state s x = Abandoned \<and> x \<notin> set (given s))"
proof -
  have ok: "states_ok ev s" using fut_reach [OF assms] by simp
  have "x \<notin> set (given s)" if "x \<in> set (refused s)" for x
  proof
    assume x: "x \<in> set (given s)"
    have "shared_state s x = Abandoned" using ok that by (simp add: states_ok_def)
    moreover obtain c where "shared_state s x = (if x \<in> set (finished (pool s)) then Satisfied (ev c) else Unready)"
      using ok x unfolding states_ok_def by metis
    ultimately show False by (simp split: if_splits)
  qed
  then show ?thesis using ok unfolding states_ok_def by blast
qed

theorem futures_hold_results_witness:
  "\<exists>s. reach (fut_step (\<lambda>c :: int. Value (- c))) (fut_init 1) s \<and> given s = [0] \<and> escaped s = None \<and> callable s 0 = Some 7"
  using futures_hold_results [OF reach_future_run] reach_future_run future_run_eval by blast

text \<open>
  C12. No future is left waiting: once the destructor of a pool with at least one worker has returned, every
  future that was given out is ready, with the result of its callable.
\<close>

theorem futures_all_ready:
  assumes "reach (fut_step ev) (fut_init n) s" and "code (pool s) d = Destroyed" and "0 < n" and "x \<in> set (given s)"
  shows "\<exists>c. callable s x = Some c \<and> shared_state s x = Satisfied (ev c)"
proof -
  have f: "states_ok ev s" "reach tp_step (tp_init n) (pool s)" using fut_reach [OF assms(1)] by simp_all
  have "mset (finished (pool s)) = mset (accepted (pool s))" using destroyed_state [OF f(2) assms(2,3)] by simp
  then have "x \<in> set (finished (pool s))" using f(1) assms(4) by (metis mset_eq_setD states_ok_def)
  then show ?thesis using f(1) assms(4) unfolding states_ok_def by metis
qed

theorem futures_all_ready_witness:
  "\<exists>s. reach (fut_step (\<lambda>c :: int. Value (- c))) (fut_init 1) s \<and> code (pool s) 1 = Destroyed \<and>
     shared_state s 0 = Satisfied (Value (- 7))"
proof -
  have "\<exists>c. callable future_run 0 = Some c \<and> shared_state future_run 0 = Satisfied (Value (- c))"
    by (rule futures_all_ready [OF reach_future_run, of 1]) (use future_run_eval in simp_all)
  then show ?thesis using reach_future_run future_run_eval by auto
qed

end
