(* ===== verification/Packet.thy ===== *)
theory Packet
  imports Memory
begin

section \<open>Datagram packets (udp_server/src/packet.hpp, packet.cpp)\<close>

text \<open>
  A \<open>Packet\<close> shares a \<open>data\<close> block: two \<open>short\<close>s and a body of \<open>MAX_PACKET_SIZE\<close> bytes,
  packed.  The constructors get the block from a pool and do not clear it, so what it holds
  before (\<open>fresh\<close>) is an argument.  The conversions are those of the code: \<open>(unsigned short)\<close>
  reads a \<open>short\<close> unsigned, comparison with \<open>MAX_PACKET_SIZE\<close> reads it signed, and as the
  length of \<open>memcpy\<close> it is sign-extended to \<open>size_t\<close>.
\<close>

definition MAX_PACKET_SIZE :: nat where
  "MAX_PACKET_SIZE = 65000"

record packet_data =
  size_m :: u16
  packet_type_m :: u16
  body_m :: "byte list"

definition is_block :: "packet_data \<Rightarrow> bool" where
  "is_block d \<longleftrightarrow> length (body_m d) = MAX_PACKET_SIZE"

text \<open>Reading a \<open>short\<close> from a byte array.\<close>

definition read_short :: "byte list \<Rightarrow> nat \<Rightarrow> u16 res" where
  "read_short bs i = (if i + 2 \<le> length bs then Inr (short_of_bytes (bs ! i) (bs ! (i + 1))) else Inl BadAccess)"

text \<open>\<open>Packet(short size, short packet_type, const char* data)\<close>\<close>

definition Packet_make :: "packet_data \<Rightarrow> u16 \<Rightarrow> u16 \<Rightarrow> byte list \<Rightarrow> packet_data res" where
  "Packet_make fresh sz packet_type data =
     (if MAX_PACKET_SIZE < unat sz then Inr fresh
      else let d = fresh\<lparr>size_m := sz, packet_type_m := packet_type\<rparr> in
        rbind (copy_range (body_m d) 0 data 0 (unat sz)) (\<lambda>b. Inr (d\<lparr>body_m := b\<rparr>)))"

text \<open>\<open>Packet(short size, short packet_type)\<close>\<close>

definition Packet_empty :: "packet_data \<Rightarrow> u16 \<Rightarrow> u16 \<Rightarrow> packet_data" where
  "Packet_empty fresh sz packet_type =
     (if int MAX_PACKET_SIZE < sint sz then fresh
      else fresh\<lparr>size_m := sz, packet_type_m := packet_type\<rparr>)"

text \<open>\<open>Packet(const char* data)\<close>\<close>

definition Packet_parse :: "packet_data \<Rightarrow> byte list \<Rightarrow> packet_data res" where
  "Packet_parse fresh data =
     rbind (read_short data 0) (\<lambda>sz.
     rbind (read_short data 2) (\<lambda>packet_type.
     let d = fresh\<lparr>size_m := sz, packet_type_m := packet_type\<rparr> in
     if int MAX_PACKET_SIZE < sint (size_m d) then Inr d
     else rbind (copy_range (body_m d) 0 data 4 (unat (scast (size_m d) :: u64))) (\<lambda>b.
          Inr (d\<lparr>body_m := b\<rparr>))))"

definition SetSize :: "u16 \<Rightarrow> packet_data \<Rightarrow> packet_data" where
  "SetSize sz d = d\<lparr>size_m := sz\<rparr>"

definition SetType :: "u16 \<Rightarrow> packet_data \<Rightarrow> packet_data" where
  "SetType type d = d\<lparr>packet_type_m := type\<rparr>"

definition Size :: "packet_data \<Rightarrow> u16" where
  "Size d = size_m d"

definition PacketType :: "packet_data \<Rightarrow> u16" where
  "PacketType d = packet_type_m d"

definition Data :: "packet_data \<Rightarrow> byte list" where
  "Data d = body_m d"

text \<open>The block as bytes, and what a send of it puts on the wire: \<open>(unsigned short)size + 4\<close> of them.\<close>

definition block_bytes :: "packet_data \<Rightarrow> byte list" where
  "block_bytes d = short_bytes (size_m d) @ short_bytes (packet_type_m d) @ body_m d"

definition wire :: "packet_data \<Rightarrow> byte list res" where
  "wire d = (let len = unat (size_m d) + 4 in
     if len \<le> length (block_bytes d) then Inr (take len (block_bytes d)) else Inl BadAccess)"

subsection \<open>Sharing of the block\<close>

text \<open>
  The handles to a block: \<open>std::shared_ptr\<close> counts them, the copying constructor of \<open>Packet\<close>
  adds one, the moving constructor swaps with an empty handle, and the last destructor hands
  the block to \<open>delete_data\<close>, which frees it.
\<close>

record packet_store =
  blocks_of :: "nat \<Rightarrow> packet_data option"
  use_count :: "nat \<Rightarrow> nat"

type_synonym packet = "nat option"

definition Packet_copy :: "packet \<Rightarrow> packet_store \<Rightarrow> packet \<times> packet_store" where
  "Packet_copy p S = (case p of
     None \<Rightarrow> (None, S)
   | Some h \<Rightarrow> (Some h, S\<lparr>use_count := (use_count S)(h := use_count S h + 1)\<rparr>))"

definition Packet_move :: "packet \<Rightarrow> packet \<times> packet" where
  "Packet_move p = (p, None)"

definition delete_data :: "nat \<Rightarrow> packet_store \<Rightarrow> packet_store" where
  "delete_data h S = S\<lparr>blocks_of := (blocks_of S)(h := None)\<rparr>"

definition Packet_dtor :: "packet \<Rightarrow> packet_store \<Rightarrow> packet_store" where
  "Packet_dtor p S = (case p of
     None \<Rightarrow> S
   | Some h \<Rightarrow>
       let S1 = S\<lparr>use_count := (use_count S)(h := use_count S h - 1)\<rparr>
       in if use_count S1 h = 0 then delete_data h S1 else S1)"

definition deref :: "packet \<Rightarrow> packet_store \<Rightarrow> packet_data res" where
  "deref p S = (case p of None \<Rightarrow> Inl NullDeref
   | Some h \<Rightarrow> (case blocks_of S h of None \<Rightarrow> Inl BadAccess | Some d \<Rightarrow> Inr d))"

lemma copy_then_drop:
  "use_count S h \<noteq> 0 \<Longrightarrow> Packet_dtor (fst (Packet_copy (Some h) S)) (snd (Packet_copy (Some h) S)) = S"
  by (simp add: Packet_copy_def Packet_dtor_def)

lemma last_drop_frees:
  "use_count S h = 1 \<Longrightarrow> deref (Some h) (Packet_dtor (Some h) S) = Inl BadAccess"
  by (simp add: Packet_dtor_def delete_data_def deref_def)

lemma moved_from_is_null: "deref (snd (Packet_move p)) S = Inl NullDeref"
  by (simp add: Packet_move_def deref_def)

subsection \<open>Sizes as the code reads them\<close>

lemma sint_u16_small: "unat (w :: u16) < 2 ^ 15 \<Longrightarrow> sint w = int (unat w)"
  unfolding sint_uint uint_nat by (simp add: signed_take_bit_int_eq_self)

lemma sint_u16_large:
  assumes "2 ^ 15 \<le> unat (w :: u16)"
  shows "sint w = int (unat w) - 2 ^ 16"
proof -
  have u: "uint w = int (unat w)" by (rule uint_nat)
  have "sint w = signed_take_bit 15 (uint w)" by (simp add: sint_uint)
  also have "\<dots> = signed_take_bit 15 (uint w - 2 ^ 16)"
    unfolding signed_take_bit_eq_iff_take_bit_eq by (simp add: take_bit_eq_mod)
  also have "\<dots> = uint w - 2 ^ 16"
  proof (rule signed_take_bit_int_eq_self)
    show "- (2 ^ 15) \<le> uint w - 2 ^ 16" using assms u by simp
    have "unat w < 2 ^ 16" using unsigned_less [of w, where ?'a = nat] by simp
    then show "uint w - 2 ^ 16 < 2 ^ 15" using u by simp
  qed
  finally show ?thesis using u by simp
qed

lemma sint_u16_max: "sint (w :: u16) < 2 ^ 15"
  using sint_lt [of w] by simp

lemma unat_scast: "unat (scast (w :: u16) :: u64) = nat (sint w mod 2 ^ 64)"
proof -
  have "uint (scast w :: u64) = sint w mod 2 ^ LENGTH(64)"
    unfolding scast_eq by (rule uint_word_of_int)
  then have "int (unat (scast w :: u64)) = sint w mod 2 ^ 64" unfolding uint_nat by simp
  then show ?thesis by (metis nat_int)
qed

lemma scast_small: "unat (w :: u16) < 2 ^ 15 \<Longrightarrow> unat (scast w :: u64) = unat w"
  unfolding unat_scast by (simp add: sint_u16_small)

lemma scast_large: "2 ^ 15 \<le> unat (w :: u16) \<Longrightarrow> unat (scast w :: u64) = 2 ^ 64 - 2 ^ 16 + unat w"
proof -
  assume l: "2 ^ 15 \<le> unat w"
  have u: "unat w < 2 ^ 16" using unsigned_less [of w, where ?'a = nat] by simp
  have "sint w mod 2 ^ 64 = (sint w + 2 ^ 64) mod 2 ^ 64" by simp
  also have "\<dots> = sint w + 2 ^ 64"
    by (rule mod_pos_pos_trivial) (use l u in \<open>simp_all add: sint_u16_large\<close>)
  finally show ?thesis using l u by (simp add: unat_scast sint_u16_large)
qed

subsection \<open>Packets on the wire\<close>

lemma unat_u16: "unat (w :: u16) < 65536"
  using unsigned_less [of w, where ?'a = nat] by simp

lemma Packet_make_ok:
  assumes "unat sz \<le> MAX_PACKET_SIZE" and "unat sz \<le> length data" and "is_block fresh"
  shows "Packet_make fresh sz ty data = Inr \<lparr>size_m = sz, packet_type_m = ty,
     body_m = take (unat sz) data @ drop (unat sz) (body_m fresh)\<rparr>"
  using assms by (simp add: Packet_make_def copy_range_def is_block_def Let_def)

lemma wire_ok:
  assumes "unat (size_m d) \<le> MAX_PACKET_SIZE" and "is_block d"
  shows "wire d = Inr (short_bytes (size_m d) @ short_bytes (packet_type_m d) @ take (unat (size_m d)) (body_m d))"
  using assms by (simp add: wire_def block_bytes_def is_block_def Let_def)

lemma read_header:
  "read_short (short_bytes v @ short_bytes w @ bs) 0 = Inr v"
  "read_short (short_bytes v @ short_bytes w @ bs) 2 = Inr w"
  by (simp_all add: read_short_def short_bytes_def)

lemma Packet_parse_header:
  assumes "read_short data 0 = Inr sz" and "read_short data 2 = Inr ty"
  shows "Packet_parse fresh data =
     rbind (copy_range (body_m fresh) 0 data 4 (unat (scast sz :: u64)))
       (\<lambda>b. Inr \<lparr>size_m = sz, packet_type_m = ty, body_m = b\<rparr>)"
proof -
  have "\<not> int MAX_PACKET_SIZE < sint sz" using sint_u16_max [of sz] by (simp add: MAX_PACKET_SIZE_def)
  then show ?thesis using assms by (cases fresh) (simp add: Packet_parse_def Let_def)
qed

lemma Packet_parse_ok:
  assumes "read_short data 0 = Inr sz" and "read_short data 2 = Inr ty"
    and "unat sz < 2 ^ 15" and "4 + unat sz \<le> length data" and "is_block fresh"
  shows "Packet_parse fresh data = Inr \<lparr>size_m = sz, packet_type_m = ty,
     body_m = take (unat sz) (drop 4 data) @ drop (unat sz) (body_m fresh)\<rparr>"
  using assms unfolding Packet_parse_header [OF assms(1,2)] scast_small [OF assms(3)]
  by (simp add: copy_range_def is_block_def MAX_PACKET_SIZE_def)

lemma Packet_parse_negative:
  assumes "read_short data 0 = Inr sz" and "read_short data 2 = Inr ty"
    and "2 ^ 15 \<le> unat sz" and "is_block fresh"
  shows "Packet_parse fresh data = Inl BadAccess"
  using assms unfolding Packet_parse_header [OF assms(1,2)] scast_large [OF assms(3)]
  by (simp add: copy_range_def is_block_def MAX_PACKET_SIZE_def)

lemma size_sign:
  assumes "is_block fresh" and "is_block fresh'" and "2 ^ 15 \<le> unat sz" and "unat sz \<le> length data"
  shows "unat sz \<le> MAX_PACKET_SIZE \<Longrightarrow>
      (\<exists>d w. Packet_make fresh sz ty data = Inr d \<and> wire d = Inr w \<and> Packet_parse fresh' w = Inl BadAccess)"
    and "MAX_PACKET_SIZE < unat sz \<Longrightarrow>
      Size (Packet_empty fresh sz ty) = sz \<and> wire (Packet_empty fresh sz ty) = Inl BadAccess"
proof -
  let ?d = "\<lparr>size_m = sz, packet_type_m = ty, body_m = take (unat sz) data @ drop (unat sz) (body_m fresh)\<rparr>"
  show "\<exists>d w. Packet_make fresh sz ty data = Inr d \<and> wire d = Inr w \<and> Packet_parse fresh' w = Inl BadAccess"
    if n: "unat sz \<le> MAX_PACKET_SIZE"
  proof -
    have d: "Packet_make fresh sz ty data = Inr ?d" by (rule Packet_make_ok [OF n assms(4,1)])
    have "is_block ?d" using assms(1,4) n by (simp add: is_block_def)
    then have w: "wire ?d = Inr (short_bytes sz @ short_bytes ty @ take (unat sz) data)"
      using wire_ok [of ?d] n assms(4) by simp
    show ?thesis using d w Packet_parse_negative [OF read_header assms(3,2)] by blast
  qed
  show "Size (Packet_empty fresh sz ty) = sz \<and> wire (Packet_empty fresh sz ty) = Inl BadAccess"
    if n: "MAX_PACKET_SIZE < unat sz"
  proof -
    have "sint sz < int MAX_PACKET_SIZE" using sint_u16_max [of sz] by (simp add: MAX_PACKET_SIZE_def)
    then have e: "Packet_empty fresh sz ty = fresh\<lparr>size_m := sz, packet_type_m := ty\<rparr>"
      by (simp add: Packet_empty_def)
    show ?thesis unfolding e using n assms(1)
      by (simp add: Size_def wire_def Let_def block_bytes_def is_block_def)
  qed
qed

subsection \<open>Properties\<close>

text \<open>
  C26. A packet survives the wire: for a size up to 32767, making a packet from data, sending it
  and parsing what arrives (into any block) never reads or writes out of bounds, puts
  exactly \<open>size + 4\<close> bytes on the wire, and gives back the size, the type and the data.
\<close>

theorem packet_roundtrip:
  assumes "unat sz < 2 ^ 15" and "unat sz \<le> length data" and "is_block fresh" and "is_block fresh'"
  shows "\<exists>d w d'. Packet_make fresh sz ty data = Inr d \<and> wire d = Inr w \<and> length w = unat sz + 4 \<and>
     Packet_parse fresh' w = Inr d' \<and> Size d' = sz \<and> PacketType d' = ty \<and>
     take (unat sz) (Data d') = take (unat sz) data"
proof -
  let ?d = "\<lparr>size_m = sz, packet_type_m = ty, body_m = take (unat sz) data @ drop (unat sz) (body_m fresh)\<rparr>"
  let ?w = "short_bytes sz @ short_bytes ty @ take (unat sz) data"
  have n: "unat sz \<le> MAX_PACKET_SIZE" using assms(1) by (simp add: MAX_PACKET_SIZE_def)
  have d: "Packet_make fresh sz ty data = Inr ?d" by (rule Packet_make_ok [OF n assms(2,3)])
  have b: "is_block ?d" using assms(2,3) n by (simp add: is_block_def)
  have w: "wire ?d = Inr ?w" using wire_ok [OF _ b] n assms(2) by simp
  have l: "length ?w = unat sz + 4" using assms(2) by simp
  have p: "Packet_parse fresh' ?w = Inr \<lparr>size_m = sz, packet_type_m = ty,
      body_m = take (unat sz) (drop 4 ?w) @ drop (unat sz) (body_m fresh')\<rparr>"
    by (rule Packet_parse_ok [OF read_header assms(1) _ assms(4)]) (use l in simp)
  have "drop 4 ?w = take (unat sz) data" by simp
  then show ?thesis using d w l p assms(2) by (simp add: Size_def PacketType_def Data_def)
qed

theorem packet_roundtrip_witness:
  "\<exists>d w d'. Packet_make \<lparr>size_m = 0, packet_type_m = 0, body_m = replicate MAX_PACKET_SIZE 9\<rparr> 2 5 [1, 2] = Inr d \<and>
     wire d = Inr w \<and> length w = 6 \<and>
     Packet_parse \<lparr>size_m = 7, packet_type_m = 0, body_m = replicate MAX_PACKET_SIZE 0\<rparr> w = Inr d' \<and>
     Size d' = 2 \<and> PacketType d' = 5 \<and> take 2 (Data d') = [1, 2]"
  using packet_roundtrip [of 2 "[1, 2]"
      "\<lparr>size_m = 0, packet_type_m = 0, body_m = replicate MAX_PACKET_SIZE 9\<rparr>"
      "\<lparr>size_m = 7, packet_type_m = 0, body_m = replicate MAX_PACKET_SIZE 0\<rparr>" 5]
  by (simp add: is_block_def)

text \<open>
  C39. Sizes beyond 32767 break the other side: a packet of 32768 to 65000 bytes is made and sent,
  but the constructor that parses it takes the size for negative, misses its guard and copies
  out of bounds; and \<open>Packet(size, type)\<close> accepts sizes above \<open>MAX_PACKET_SIZE\<close>, whose send
  reads behind the block.
\<close>

theorem packet_size_sign:
  assumes "is_block fresh" and "is_block fresh'" and "2 ^ 15 \<le> unat sz" and "unat sz \<le> length data"
  shows "if unat sz \<le> MAX_PACKET_SIZE
    then \<exists>d w. Packet_make fresh sz ty data = Inr d \<and> wire d = Inr w \<and> Packet_parse fresh' w = Inl BadAccess
    else Size (Packet_empty fresh sz ty) = sz \<and> wire (Packet_empty fresh sz ty) = Inl BadAccess"
  using size_sign [OF assms] by simp

theorem packet_size_sign_witness:
  "\<exists>fresh d w. is_block fresh \<and> Packet_make fresh 40000 0 (replicate 40000 1) = Inr d \<and> wire d = Inr w \<and>
     Packet_parse fresh w = Inl BadAccess \<and> wire (Packet_empty fresh 65533 0) = Inl BadAccess"
proof -
  let ?f = "\<lparr>size_m = 0, packet_type_m = 0, body_m = replicate MAX_PACKET_SIZE 0\<rparr>"
  have f: "is_block ?f" by (simp add: is_block_def)
  have u: "unat (40000 :: u16) = 40000" "unat (65533 :: u16) = 65533" by simp_all
  have "\<exists>d w. Packet_make ?f 40000 0 (replicate 40000 1) = Inr d \<and> wire d = Inr w \<and> Packet_parse ?f w = Inl BadAccess"
    using packet_size_sign [OF f f, of 40000 "replicate 40000 1" 0] by (simp add: u MAX_PACKET_SIZE_def)
  moreover have "wire (Packet_empty ?f 65533 0) = Inl BadAccess"
    using packet_size_sign [OF f f, of 65533 "replicate 65533 1" 0] by (simp add: u MAX_PACKET_SIZE_def)
  ultimately show ?thesis using f by blast
qed

text \<open>
  C27. Making a packet is safe for every size, and packets stay well formed.  The constructor refuses a size
  above 65000, read unsigned, by leaving the block exactly as it was, however little data is
  there; up to 65000 it takes over size, type and data, leaves the rest of the body, and faults
  exactly if the data is shorter than the size.  Whatever constructor or setter is
  used, the block keeps a body of \<open>MAX_PACKET_SIZE\<close> bytes, and a send of it puts exactly \<open>size + 4\<close>
  bytes on the wire, and reads behind the block exactly if the size, read unsigned, is above 65000.
\<close>

theorem packets_well_formed:
  assumes "is_block fresh"
  shows "(if MAX_PACKET_SIZE < unat sz then Packet_make fresh sz ty data = Inr fresh
       else if length data < unat sz then Packet_make fresh sz ty data = Inl BadAccess
       else \<exists>d. Packet_make fresh sz ty data = Inr d \<and> Size d = sz \<and> PacketType d = ty \<and>
         take (unat sz) (Data d) = take (unat sz) data \<and> drop (unat sz) (Data d) = drop (unat sz) (Data fresh)) \<and>
     (\<forall>d. Packet_make fresh sz ty data = Inr d \<or> Packet_parse fresh data = Inr d \<or>
       d = Packet_empty fresh sz ty \<or> d = SetSize sz fresh \<or> d = SetType ty fresh \<longrightarrow>
     is_block d \<and> (if unat (Size d) \<le> MAX_PACKET_SIZE
       then \<exists>w. wire d = Inr w \<and> length w = unat (Size d) + 4 else wire d = Inl BadAccess))"
proof (intro conjI allI impI)
  show "if MAX_PACKET_SIZE < unat sz then Packet_make fresh sz ty data = Inr fresh
       else if length data < unat sz then Packet_make fresh sz ty data = Inl BadAccess
       else \<exists>d. Packet_make fresh sz ty data = Inr d \<and> Size d = sz \<and> PacketType d = ty \<and>
         take (unat sz) (Data d) = take (unat sz) data \<and> drop (unat sz) (Data d) = drop (unat sz) (Data fresh)"
  proof (cases "MAX_PACKET_SIZE < unat sz \<or> length data < unat sz")
    case True
    then show ?thesis by (auto simp: Packet_make_def Let_def copy_range_def)
  next
    case False
    then show ?thesis
      using Packet_make_ok [OF _ _ assms, of sz data ty] by (simp add: Size_def PacketType_def Data_def)
  qed
next
  fix d
  assume d: "Packet_make fresh sz ty data = Inr d \<or> Packet_parse fresh data = Inr d \<or>
       d = Packet_empty fresh sz ty \<or> d = SetSize sz fresh \<or> d = SetType ty fresh"
  show "is_block d"
    using d assms by (auto simp: Packet_make_def Packet_parse_def Packet_empty_def SetSize_def SetType_def
        is_block_def copy_range_def Let_def split: if_splits)
  then show "if unat (Size d) \<le> MAX_PACKET_SIZE
       then \<exists>w. wire d = Inr w \<and> length w = unat (Size d) + 4 else wire d = Inl BadAccess"
    by (auto simp: Size_def wire_def is_block_def block_bytes_def Let_def)
qed

theorem packets_well_formed_witness:
  "\<exists>fresh d w. is_block fresh \<and> Packet_make fresh 3 1 [7, 8, 9] = Inr d \<and> is_block d \<and> wire d = Inr w \<and> length w = 7 \<and>
     Packet_make fresh 65001 1 [7, 8, 9] = Inr fresh \<and> Packet_make fresh 4 1 [7, 8, 9] = Inl BadAccess"
proof -
  let ?f = "\<lparr>size_m = 0, packet_type_m = 0, body_m = replicate MAX_PACKET_SIZE (0 :: byte)\<rparr>"
  have f: "is_block ?f" by (simp add: is_block_def)
  note c = packets_well_formed [OF f, of _ 1 "[7, 8, 9]"]
  obtain d where d: "Packet_make ?f 3 1 [7, 8, 9] = Inr d" "Size d = 3"
    using c [of 3] by (auto simp: MAX_PACKET_SIZE_def)
  have "is_block d \<and> (\<exists>w. wire d = Inr w \<and> length w = 7)"
    using c [of 3] d by (fastforce simp: MAX_PACKET_SIZE_def)
  moreover have "Packet_make ?f 65001 1 [7, 8, 9] = Inr ?f" "Packet_make ?f 4 1 [7, 8, 9] = Inl BadAccess"
    using c [of 65001] c [of 4] by (simp_all add: MAX_PACKET_SIZE_def)
  ultimately show ?thesis using d(1) f by blast
qed

end
