(* ===== verification/StdMap.thy ===== *)
theory StdMap
  imports Prelude
begin

section \<open>Ordered maps (std::map)\<close>

text \<open>
  The session tables are \<open>std::map\<close>s.  What the program uses of them: \<open>find\<close>, \<open>insert\<close> (which
  leaves an existing entry alone), \<open>erase\<close> through an iterator, and a traversal in the order
  of the keys.  The interface is the locale; the implementation is an association list with
  strictly increasing keys, and an iterator is the entry it points to: using one whose entry
  has been erased is a fault.
\<close>

locale std_map =
  fixes ok :: "'m \<Rightarrow> bool"
    and find :: "'m \<Rightarrow> 'k \<Rightarrow> 'v option"
    and ins :: "'m \<Rightarrow> 'k \<Rightarrow> 'v \<Rightarrow> 'm"
    and erase :: "'m \<Rightarrow> 'k \<times> 'v \<Rightarrow> 'm res"
  assumes ins_ok: "ok m \<Longrightarrow> ok (ins m k v)"
    and find_ins: "ok m \<Longrightarrow> find (ins m k v) j = (if j = k \<and> find m k = None then Some v else find m j)"
    and erase_some: "ok m \<Longrightarrow> find m k = Some v \<Longrightarrow>
      \<exists>m'. erase m (k, v) = Inr m' \<and> ok m' \<and> (\<forall>j. find m' j = (if j = k then None else find m j))"
    and erase_none: "ok m \<Longrightarrow> find m k \<noteq> Some v \<Longrightarrow> erase m (k, v) = Inl BadIterator"
begin

lemma ins_twice: "ok m \<Longrightarrow> find (ins (ins m k v) k w) j = find (ins m k v) j"
  by (simp add: find_ins ins_ok)

lemma erase_twice: "ok m \<Longrightarrow> erase m it = Inr m' \<Longrightarrow> erase m' it = Inl BadIterator"
proof -
  assume m: "ok m" and e: "erase m it = Inr m'"
  obtain k v where it: "it = (k, v)" by (cases it)
  have "find m k = Some v" using erase_none [OF m, of k v] e it by auto
  then have "ok m' \<and> find m' k = None" using erase_some [OF m, of k v] e it by auto
  then show ?thesis using erase_none [of m' k v] it by simp
qed

lemma erase_cases:
  assumes "ok m" and "erase m (k, v) = Inr m'"
  shows "find m k = Some v \<and> ok m' \<and> find m' = (find m)(k := None)"
proof -
  have f: "find m k = Some v" using erase_none [OF assms(1), of k v] assms(2) by auto
  then have "ok m' \<and> (\<forall>j. find m' j = (if j = k then None else find m j))"
    using erase_some [OF assms(1) f] assms(2) by auto
  then show ?thesis using f by (auto simp: fun_eq_iff)
qed

lemma find_ins_fun: "ok m \<Longrightarrow> find (ins m k v) = (if find m k = None then (find m)(k \<mapsto> v) else find m)"
  by (auto simp: fun_eq_iff find_ins)

end

subsection \<open>Association lists with increasing keys\<close>

fun map_insert :: "('k :: linorder \<times> 'v) list \<Rightarrow> 'k \<Rightarrow> 'v \<Rightarrow> ('k \<times> 'v) list" where
  "map_insert [] k v = [(k, v)]"
| "map_insert ((j, w) # m) k v =
     (if k < j then (k, v) # (j, w) # m else if j < k then (j, w) # map_insert m k v else (j, w) # m)"

definition map_find :: "('k \<times> 'v) list \<Rightarrow> 'k \<Rightarrow> 'v option" where
  "map_find m k = map_of m k"

definition map_erase :: "('k \<times> 'v) list \<Rightarrow> 'k \<times> 'v \<Rightarrow> ('k \<times> 'v) list res" where
  "map_erase m it =
     (if map_find m (fst it) = Some (snd it) then Inr (filter (\<lambda>e. fst e \<noteq> fst it) m)
      else Inl BadIterator)"

definition map_ok :: "('k :: linorder \<times> 'v) list \<Rightarrow> bool" where
  "map_ok m \<longleftrightarrow> sorted_wrt (<) (map fst m)"

lemma fst_map_insert: "fst ` set (map_insert m k v) = insert k (fst ` set m)"
  by (induction m k v rule: map_insert.induct) auto

lemma map_ok_insert: "map_ok m \<Longrightarrow> map_ok (map_insert m k v)"
proof (induction m k v rule: map_insert.induct)
  case (2 j w m k v)
  have "\<forall>x\<in>fst ` set (map_insert m k v). j < x" if "j < k"
    using "2.prems" that unfolding fst_map_insert by (auto simp: map_ok_def)
  with 2 show ?case by (auto simp: map_ok_def)
qed (simp add: map_ok_def)

lemma map_find_insert:
  "map_ok m \<Longrightarrow> map_find (map_insert m k v) j =
     (if j = k \<and> map_find m k = None then Some v else map_find m j)"
proof (induction m k v rule: map_insert.induct)
  case (1 k v)
  then show ?case by (simp add: map_find_def)
next
  case (2 i w m k v)
  have ok: "map_ok m" using "2.prems" by (simp add: map_ok_def)
  have small: "map_of m k = None" if "k < i"
    using "2.prems" that by (auto simp: map_ok_def map_of_eq_None_iff)
  consider "k < i" | "i < k" | "i = k" by fastforce
  then show ?case
  proof cases
    case 1
    then show ?thesis using small by (auto simp: map_find_def)
  next
    case 2
    then show ?thesis using "2.IH" ok by (auto simp: map_find_def)
  next
    case 3
    then show ?thesis by (auto simp: map_find_def)
  qed
qed

lemma map_ok_filter: "map_ok m \<Longrightarrow> map_ok (filter P m)"
  by (induction m) (auto simp: map_ok_def)

lemma map_find_filter_key:
  "map_find (filter (\<lambda>e. fst e \<noteq> k) m) j = (if j = k then None else map_find m j)"
  by (induction m) (auto simp: map_find_def)

interpretation om: std_map map_ok map_find map_insert map_erase
proof
  fix m :: "('k :: linorder \<times> 'v) list" and k v j
  assume m: "map_ok m"
  show "map_ok (map_insert m k v)" by (rule map_ok_insert [OF m])
  show "map_find (map_insert m k v) j = (if j = k \<and> map_find m k = None then Some v else map_find m j)"
    by (rule map_find_insert [OF m])
  show "\<exists>m'. map_erase m (k, v) = Inr m' \<and> map_ok m' \<and>
      (\<forall>j. map_find m' j = (if j = k then None else map_find m j))" if "map_find m k = Some v"
    using that map_ok_filter [OF m] by (simp add: map_erase_def map_find_filter_key)
  show "map_erase m (k, v) = Inl BadIterator" if "map_find m k \<noteq> Some v"
    using that by (simp add: map_erase_def)
qed

lemma map_find_set: "map_ok m \<Longrightarrow> map_find m k = Some v \<longleftrightarrow> (k, v) \<in> set m"
proof -
  assume "map_ok m"
  then have "sorted_wrt (<) (map fst m)" by (simp add: map_ok_def)
  then have "distinct (map fst m)" by (simp add: strict_sorted_iff)
  then show ?thesis by (simp add: map_find_def)
qed

end
