(* ===== verification/Endpoint.thy ===== *)
theory Endpoint
  imports StdMap
begin

section \<open>Endpoints (udp_server/src/endpoint.hpp)\<close>

text \<open>
  An \<open>Endpoint\<close> wraps a \<open>sockaddr_in\<close>, whose port and address are in network byte order, and
  keeps the port and the text of the address it was made from.  The default constructor
  only clears \<open>addr_\<close>: \<open>port_\<close> and \<open>IP_\<close> keep whatever was in memory, so they are arguments of
  the model.  \<open>InetPtonA\<close> is the system's: a parameter that gives the address in network
  order, or \<open>None\<close> for text it does not understand (then the zero of \<open>memset\<close> stays).
  \<open>operator<\<close> looks at address and port only; the ordered type of these keys is what the
  session tables are sorted by.
\<close>

record sockaddr_in =
  sin_family :: u16
  sin_port :: u16
  s_addr :: u32

record endpoint =
  addr_m :: sockaddr_in
  port_m :: u16
  IP_m :: string

definition AF_INET :: u16 where
  "AF_INET = 2"

definition htons :: "u16 \<Rightarrow> u16" where
  "htons p = push_bit 8 p OR drop_bit 8 p"

definition Endpoint_ctor :: "(string \<Rightarrow> u32 option) \<Rightarrow> u16 \<Rightarrow> string \<Rightarrow> endpoint" where
  "Endpoint_ctor InetPtonA port IP =
     \<lparr>addr_m = \<lparr>sin_family = AF_INET, sin_port = htons port,
        s_addr = (case InetPtonA IP of None \<Rightarrow> 0 | Some a \<Rightarrow> a)\<rparr>,
      port_m = port, IP_m = IP\<rparr>"

definition Endpoint_default :: "u16 \<Rightarrow> string \<Rightarrow> endpoint" where
  "Endpoint_default port IP =
     \<lparr>addr_m = \<lparr>sin_family = 0, sin_port = 0, s_addr = 0\<rparr>, port_m = port, IP_m = IP\<rparr>"

definition endpoint_less :: "endpoint \<Rightarrow> endpoint \<Rightarrow> bool" where
  "endpoint_less e rep \<longleftrightarrow> s_addr (addr_m e) < s_addr (addr_m rep) \<or>
     (s_addr (addr_m e) = s_addr (addr_m rep) \<and> sin_port (addr_m e) < sin_port (addr_m rep))"

definition endpoint_eq :: "endpoint \<Rightarrow> endpoint \<Rightarrow> bool" where
  "endpoint_eq e rep \<longleftrightarrow> s_addr (addr_m e) = s_addr (addr_m rep) \<and> sin_port (addr_m e) = sin_port (addr_m rep)"

definition Port :: "endpoint \<Rightarrow> u16" where
  "Port e = port_m e"

definition IP :: "endpoint \<Rightarrow> string" where
  "IP e = IP_m e"

definition Addr :: "endpoint \<Rightarrow> sockaddr_in" where
  "Addr e = addr_m e"

subsection \<open>The order of the keys\<close>

datatype addr_key = Key (key_addr: u32) (key_port: u16)

definition key :: "endpoint \<Rightarrow> addr_key" where
  "key e = Key (s_addr (addr_m e)) (sin_port (addr_m e))"

instantiation addr_key :: linorder
begin

definition less_addr_key :: "addr_key \<Rightarrow> addr_key \<Rightarrow> bool" where
  "less_addr_key a b \<longleftrightarrow> key_addr a < key_addr b \<or> (key_addr a = key_addr b \<and> key_port a < key_port b)"

definition less_eq_addr_key :: "addr_key \<Rightarrow> addr_key \<Rightarrow> bool" where
  "less_eq_addr_key a b \<longleftrightarrow> key_addr a < key_addr b \<or> (key_addr a = key_addr b \<and> key_port a \<le> key_port b)"

instance
proof
  fix a b c :: addr_key
  show "(a < b) = (a \<le> b \<and> \<not> b \<le> a)"
    by (auto simp: less_addr_key_def less_eq_addr_key_def)
  show "a \<le> a" by (simp add: less_eq_addr_key_def)
  show "a \<le> b \<Longrightarrow> b \<le> c \<Longrightarrow> a \<le> c" by (auto simp: less_eq_addr_key_def)
  show "a \<le> b \<Longrightarrow> b \<le> a \<Longrightarrow> a = b"
    by (cases a; cases b) (auto simp: less_eq_addr_key_def)
  show "a \<le> b \<or> b \<le> a" by (auto simp: less_eq_addr_key_def)
qed

end

lemma endpoint_less_key: "endpoint_less e f \<longleftrightarrow> key e < key f"
  by (simp add: endpoint_less_def key_def less_addr_key_def)

lemma endpoint_eq_key: "endpoint_eq e f \<longleftrightarrow> key e = key f"
  by (simp add: endpoint_eq_def key_def)

lemma htons_htons: "htons (htons p) = p"
  by (rule bit_word_eqI)
    (auto simp: htons_def bit_or_iff bit_push_bit_iff bit_drop_bit_eq not_le)

end
