(* ===== verification/UdpSocket.thy ===== *)
theory UdpSocket
  imports Packet Endpoint
begin

section \<open>The datagram socket (udp_server/src/socket.hpp, socket.cpp) and sessions (session.hpp)\<close>

text \<open>
  A \<open>Socket\<close> posts asynchronous receives and sends; the system completes them later through
  the completion port.  What the model keeps of the system is in \<open>net\<close>: how many receives
  are posted, what was handed to \<open>WSASendTo\<close> and to whom, and how many \<open>read_io_data\<close> and
  \<open>write_io_data\<close> objects are alive (their pools are the object pools of theory
  \<open>ObjectPool\<close>; here they are counted, not addressed).
\<close>

definition socket_buf_size :: nat where
  "socket_buf_size = 512"

record net =
  posted :: nat
  sent :: "(byte list \<times> sockaddr_in) list"
  read_io_live :: nat
  write_io_live :: nat

definition net_init :: net where
  "net_init = \<lparr>posted = 0, sent = [], read_io_live = 0, write_io_live = 0\<rparr>"

record udp_socket =
  is_with_iocp_m :: bool
  iocp_m :: "nat option"          \<comment> \<open>a handle, \<open>None\<close> for null\<close>
  local_m :: endpoint             \<comment> \<open>\<open>endpoint_\<close>\<close>

text \<open>
  The constructors.  \<open>assoc\<close> is whether \<open>CreateIoCompletionPort\<close> accepts the socket.  The two
  constructors that take a handle set \<open>is_with_iocp_\<close> only on success: otherwise it keeps the
  value of the uninitialised member (\<open>was\<close>); the last one does not store the handle it is
  given and tests the uninitialised member \<open>iocp_\<close> (\<open>was_iocp\<close>).
\<close>

definition Socket_endpoint :: "endpoint \<Rightarrow> udp_socket" where
  "Socket_endpoint e = \<lparr>is_with_iocp_m = False, iocp_m = None, local_m = e\<rparr>"

definition Socket_endpoint_iocp :: "bool \<Rightarrow> (nat \<Rightarrow> bool) \<Rightarrow> endpoint \<Rightarrow> nat option \<Rightarrow> udp_socket" where
  "Socket_endpoint_iocp was assoc e iocp =
     \<lparr>is_with_iocp_m = (case iocp of None \<Rightarrow> was | Some h \<Rightarrow> if assoc h then True else was),
      iocp_m = iocp, local_m = e\<rparr>"

definition Socket_plain :: "endpoint \<Rightarrow> udp_socket" where
  "Socket_plain none = \<lparr>is_with_iocp_m = False, iocp_m = None, local_m = none\<rparr>"

definition Socket_iocp :: "bool \<Rightarrow> nat option \<Rightarrow> (nat \<Rightarrow> bool) \<Rightarrow> endpoint \<Rightarrow> nat option \<Rightarrow> udp_socket" where
  "Socket_iocp was was_iocp assoc none iocp =
     \<lparr>is_with_iocp_m = (case was_iocp of None \<Rightarrow> was | Some h \<Rightarrow> if assoc h then True else was),
      iocp_m = was_iocp, local_m = none\<rparr>"

text \<open>
  The code does not look at what \<open>WSARecvFrom\<close> and \<open>WSASendTo\<close> return.  Here the system takes every receive and
  every datagram; one that it refuses at once would leave its I/O object behind with no completion to free it.
\<close>

definition Socket_Recv :: "udp_socket \<Rightarrow> net \<Rightarrow> net" where
  "Socket_Recv sk N =
     (if \<not> is_with_iocp_m sk then N
      else N\<lparr>posted := posted N + 1, read_io_live := read_io_live N + 1\<rparr>)"

definition Socket_Send :: "udp_socket \<Rightarrow> packet_data \<Rightarrow> endpoint \<Rightarrow> net \<Rightarrow> net res" where
  "Socket_Send sk packet remote N =
     (if \<not> is_with_iocp_m sk then Inr N
      else rbind (wire packet) (\<lambda>w.
        Inr (N\<lparr>sent := sent N @ [(w, Addr remote)], write_io_live := write_io_live N + 1\<rparr>)))"

definition Socket_GetEndpoint :: "udp_socket \<Rightarrow> endpoint" where
  "Socket_GetEndpoint sk = local_m sk"

text \<open>A \<open>send_request\<close> shares the block of its packet; moving one leaves an empty packet behind.\<close>

record send_request =
  request_packet :: packet
  request_endpoint :: endpoint

definition send_request_ctor :: "packet \<Rightarrow> endpoint \<Rightarrow> packet_store \<Rightarrow> send_request \<times> packet_store" where
  "send_request_ctor p e S = (let (q, S1) = Packet_copy p S in
     (\<lparr>request_packet = q, request_endpoint = e\<rparr>, S1))"

definition send_request_move :: "send_request \<Rightarrow> send_request \<times> send_request" where
  "send_request_move r = (let (q, rest) = Packet_move (request_packet r) in
     (\<lparr>request_packet = q, request_endpoint = request_endpoint r\<rparr>, r\<lparr>request_packet := rest\<rparr>))"

lemma request_moved:
  "use_count S h \<noteq> 0 \<Longrightarrow> send_request_ctor (Some h) e S = (r, S1) \<Longrightarrow> send_request_move r = (r1, r0) \<Longrightarrow>
   request_packet r0 = None \<and> Packet_dtor (request_packet r1) S1 = S"
  using copy_then_drop [of S h]
  by (auto simp: send_request_ctor_def send_request_move_def Packet_copy_def Packet_move_def)

subsection \<open>Sessions\<close>

record session =
  is_alive_m :: u16
  data_m :: nat                    \<comment> \<open>the user's \<open>void*\<close>, 0 for null\<close>
  endpoint_m :: endpoint

definition Session_ctor :: "endpoint \<Rightarrow> session" where
  "Session_ctor e = \<lparr>is_alive_m = 0, data_m = 0, endpoint_m = e\<rparr>"

definition Session_GetEndpoint :: "session \<Rightarrow> endpoint" where
  "Session_GetEndpoint s = endpoint_m s"

definition Session_Data :: "session \<Rightarrow> nat" where
  "Session_Data s = data_m s"

definition Session_Send :: "udp_socket \<Rightarrow> session \<Rightarrow> packet_data \<Rightarrow> net \<Rightarrow> net res" where
  "Session_Send manager_socket s packet N = Socket_Send manager_socket packet (endpoint_m s) N"

end
