(* ===== verification/SessionManager.thy ===== *)
theory SessionManager
  imports UdpSocket ObjectPoolSpec
begin

section \<open>The session manager (udp_server/src/session_manager.hpp, session_manager.cpp)\<close>

text \<open>
  Sessions are opened by a handshake (SYN, SYN-ACK, ACK), kept in two ordered tables
  (\<open>pending_sessions_\<close>, \<open>sessions_\<close>) under one lock each, and closed when nothing arrives for
  some time.  The session objects are chunks of the object pool \<open>session_pool_\<close> (theory
  \<open>ObjectPool\<close>); what is constructed in them is in \<open>session_at\<close>.

  A worker takes completions from the port and handles them; \<open>iocp_dispatch\<close> is one round of
  its loop.  \<open>continue\<close> in the source leaves the round before the end, where the receive
  buffer is freed and a new receive posted.  The threads that call the handlers are recorded
  in \<open>spawned\<close> with what their captured references name when they are created; they capture by
  reference, so what a handler is given depends on when its thread gets to run (\<open>handler_args\<close>).
\<close>

definition session_size :: nat where
  "session_size = 56"

datatype spawn = AcceptThread ptr | PacketThread ptr "byte list"

record manager =
  have_to_stop :: bool
  port_handle :: "nat option"                      \<comment> \<open>\<open>iocp_\<close>\<close>
  socket_m :: "udp_socket option"
  threads :: nat
  num_thread_m :: nat
  is_inited_all :: u16
  ahandler :: "nat option"
  dhandler :: "nat option"
  phandler :: "nat option"
  sessions :: "(addr_key \<times> ptr) list"
  pending_sessions :: "(addr_key \<times> ptr) list"
  lock_sessions :: spinlock
  lock_pending_sessions :: spinlock
  session_pool :: opool
  session_at :: "ptr \<Rightarrow> session option"
  io :: net
  spawned :: "spawn list"
  disconnected_calls :: "ptr list"                 \<comment> \<open>calls of \<open>dhandler_\<close>\<close>

text \<open>What a round depends on besides the manager: the thread, the system's memory, and what
  the block of the next packet holds.\<close>

record env =
  thread :: nat
  grants :: "nat \<Rightarrow> nat \<Rightarrow> bool"
  fresh_block :: packet_data

subsection \<open>Construction, handlers, Run\<close>

definition SessionManager_ctor ::
  "nat option \<Rightarrow> bool \<Rightarrow> (nat \<Rightarrow> bool) \<Rightarrow> endpoint \<Rightarrow> nat \<Rightarrow> opool \<Rightarrow> manager" where
  "SessionManager_ctor iocp was assoc e n sp =
     \<lparr>have_to_stop = False, port_handle = iocp,
      socket_m = (case iocp of None \<Rightarrow> None | Some h \<Rightarrow> Some (Socket_endpoint_iocp was assoc e (Some h))),
      threads = 0, num_thread_m = n,
      is_inited_all = (case iocp of None \<Rightarrow> 0x1000 | Some h \<Rightarrow> 0),
      ahandler = None, dhandler = None, phandler = None,
      sessions = [], pending_sessions = [], lock_sessions = Spinlock, lock_pending_sessions = Spinlock,
      session_pool = sp, session_at = (\<lambda>_. None), io = net_init, spawned = [], disconnected_calls = []\<rparr>"

definition SetAcceptHandler :: "nat option \<Rightarrow> manager \<Rightarrow> manager" where
  "SetAcceptHandler h S = S\<lparr>is_inited_all := is_inited_all S OR 0x01, ahandler := h\<rparr>"

definition SetDisconnectHandler :: "nat option \<Rightarrow> manager \<Rightarrow> manager" where
  "SetDisconnectHandler h S = S\<lparr>is_inited_all := is_inited_all S OR 0x10, dhandler := h\<rparr>"

definition SetPacketHandler :: "nat option \<Rightarrow> manager \<Rightarrow> manager" where
  "SetPacketHandler h S = S\<lparr>is_inited_all := is_inited_all S OR 0x100, phandler := h\<rparr>"

text \<open>\<open>Run\<close> starts \<open>num_thread_\<close> workers and the heartbeat thread; a worker begins with \<open>Recv\<close>.\<close>

definition Run :: "manager \<Rightarrow> bool \<times> manager" where
  "Run S = (if is_inited_all S \<noteq> 0x0111 then (False, S)
     else (True, S\<lparr>threads := threads S + num_thread_m S + 1\<rparr>))"

definition recv :: "manager \<Rightarrow> manager res" where
  "recv S = (case socket_m S of None \<Rightarrow> Inl NullDeref | Some sk \<Rightarrow> Inr (S\<lparr>io := Socket_Recv sk (io S)\<rparr>))"

definition worker_start :: "manager \<Rightarrow> manager res" where
  "worker_start S = recv S"

subsection \<open>Sections under a lock\<close>

text \<open>A section that finds its lock taken for ever does not return.\<close>

definition sessions_write :: "(manager \<Rightarrow> ('r \<times> manager) res) \<Rightarrow> manager \<Rightarrow> ('r \<times> manager) res" where
  "sessions_write f S = (case Lock (lock_sessions S) of
     None \<Rightarrow> Inl NoReturn
   | Some l \<Rightarrow> rbind (f (S\<lparr>lock_sessions := l\<rparr>)) (\<lambda>(r, S'). Inr (r, S'\<lparr>lock_sessions := Unlock (lock_sessions S')\<rparr>)))"

definition sessions_read :: "(manager \<Rightarrow> 'r) \<Rightarrow> manager \<Rightarrow> ('r \<times> manager) res" where
  "sessions_read f S = (case ReadLock (lock_sessions S) of
     None \<Rightarrow> Inl NoReturn
   | Some l \<Rightarrow> let S' = S\<lparr>lock_sessions := l\<rparr> in
       Inr (f S', S'\<lparr>lock_sessions := ReadUnlock (lock_sessions S')\<rparr>))"

definition pending_write :: "(manager \<Rightarrow> ('r \<times> manager) res) \<Rightarrow> manager \<Rightarrow> ('r \<times> manager) res" where
  "pending_write f S = (case Lock (lock_pending_sessions S) of
     None \<Rightarrow> Inl NoReturn
   | Some l \<Rightarrow> rbind (f (S\<lparr>lock_pending_sessions := l\<rparr>))
       (\<lambda>(r, S'). Inr (r, S'\<lparr>lock_pending_sessions := Unlock (lock_pending_sessions S')\<rparr>)))"

definition pending_read :: "(manager \<Rightarrow> 'r) \<Rightarrow> manager \<Rightarrow> ('r \<times> manager) res" where
  "pending_read f S = (case ReadLock (lock_pending_sessions S) of
     None \<Rightarrow> Inl NoReturn
   | Some l \<Rightarrow> let S' = S\<lparr>lock_pending_sessions := l\<rparr> in
       Inr (f S', S'\<lparr>lock_pending_sessions := ReadUnlock (lock_pending_sessions S')\<rparr>))"

definition session_of :: "manager \<Rightarrow> ptr \<Rightarrow> session res" where
  "session_of S p = (if p = Null then Inl NullDeref
     else case session_at S p of None \<Rightarrow> Inl BadAccess | Some s \<Rightarrow> Inr s)"

definition set_alive :: "ptr \<Rightarrow> session \<Rightarrow> u16 \<Rightarrow> manager \<Rightarrow> manager" where
  "set_alive p s a S = S\<lparr>session_at := (session_at S)(p \<mapsto> s\<lparr>is_alive_m := a\<rparr>)\<rparr>"

subsection \<open>The branches of a round\<close>

datatype flow = Next | Continue

text \<open>SYN: a new session, pending, and the answer.\<close>

definition insert_pending :: "addr_key \<Rightarrow> ptr \<Rightarrow> manager \<Rightarrow> (unit \<times> manager) res" where
  "insert_pending k p = pending_write (\<lambda>S. Inr ((), S\<lparr>pending_sessions := map_insert (pending_sessions S) k p\<rparr>))"

definition on_syn :: "env \<Rightarrow> byte list \<Rightarrow> endpoint \<Rightarrow> manager \<Rightarrow> (flow \<times> manager) res" where
  "on_syn E buffer remote S =
     rbind (ObjectPool_Malloc (grants E) session_size (thread E) (session_pool S)) (\<lambda>(p, sp).
     case socket_m S of None \<Rightarrow> Inl NullDeref | Some sk \<Rightarrow>
     let new_session = Session_ctor remote;
         S1 = S\<lparr>session_pool := sp, session_at := (session_at S)(p \<mapsto> new_session)\<rparr> in
     rbind (insert_pending (key (Session_GetEndpoint new_session)) p S1) (\<lambda>(_, S2).
     rbind (Packet_make (fresh_block E) 2 (- 2) (drop 4 buffer)) (\<lambda>packet.
     rbind (Session_Send sk new_session packet (io S2)) (\<lambda>N. Inr (Next, S2\<lparr>io := N\<rparr>)))))"

text \<open>ACK, in its four sections.\<close>

definition ack_find :: "endpoint \<Rightarrow> manager \<Rightarrow> (ptr option \<times> manager) res" where
  "ack_find remote = pending_read (\<lambda>S. map_find (pending_sessions S) (key remote))"

definition ack_erase :: "addr_key \<times> ptr \<Rightarrow> manager \<Rightarrow> (unit \<times> manager) res" where
  "ack_erase it = pending_write (\<lambda>S.
     rbind (map_erase (pending_sessions S) it) (\<lambda>m. Inr ((), S\<lparr>pending_sessions := m\<rparr>)))"

definition ack_insert :: "ptr \<Rightarrow> manager \<Rightarrow> (unit \<times> manager) res" where
  "ack_insert p = sessions_write (\<lambda>S. rbind (session_of S p) (\<lambda>s.
     Inr ((), S\<lparr>sessions := map_insert (sessions S) (key (Session_GetEndpoint s)) p\<rparr>)))"

definition on_ack :: "endpoint \<Rightarrow> manager \<Rightarrow> (flow \<times> manager) res" where
  "on_ack remote S =
     rbind (ack_find remote S) (\<lambda>(it, S1). case it of
       None \<Rightarrow> Inr (Continue, S1)
     | Some p \<Rightarrow>
         rbind (ack_erase (key remote, p) S1) (\<lambda>(_, S2).
         rbind (ack_insert p S2) (\<lambda>(_, S3).
         Inr (Next, S3\<lparr>spawned := spawned S3 @ [AcceptThread p]\<rparr>))))"

text \<open>Heartbeat and data: the session is looked up under the read lock and used after it.\<close>

definition find_session :: "endpoint \<Rightarrow> manager \<Rightarrow> (ptr option \<times> manager) res" where
  "find_session remote = sessions_read (\<lambda>S. map_find (sessions S) (key remote))"

definition on_heartbeat :: "endpoint \<Rightarrow> manager \<Rightarrow> (flow \<times> manager) res" where
  "on_heartbeat remote S =
     rbind (find_session remote S) (\<lambda>(it, S1). case it of
       None \<Rightarrow> Inr (Continue, S1)
     | Some p \<Rightarrow> rbind (session_of S1 p) (\<lambda>s. Inr (Next, set_alive p s (is_alive_m s + 1) S1)))"

definition on_data :: "byte list \<Rightarrow> endpoint \<Rightarrow> manager \<Rightarrow> (flow \<times> manager) res" where
  "on_data buffer remote S =
     rbind (find_session remote S) (\<lambda>(it, S1). case it of
       None \<Rightarrow> Inr (Continue, S1)
     | Some p \<Rightarrow> rbind (session_of S1 p) (\<lambda>s.
         let a = is_alive_m s + 1; S2 = set_alive p s a S1 in
         Inr (Next, if sint a > - 2 then S2\<lparr>spawned := spawned S2 @ [PacketThread p buffer]\<rparr> else S2)))"

text \<open>
  What the detached thread hands to its handler.  Its lambda holds references to \<open>session\<close> or
  \<open>pending_session\<close> and to \<open>read_io_data\<close>, variables of the worker's round, and parses the receive buffer
  itself: it gets the session and the packet only if it runs while the round's variables and its buffer
  live (\<open>fresh\<close> is what the packet's block holds before).  After the round the references dangle;
  theory \<open>IoPools\<close> shows what then lies where the buffer was.
\<close>

datatype moment = InRound | AfterRound

fun handler_args :: "packet_data \<Rightarrow> moment \<Rightarrow> spawn \<Rightarrow> (ptr \<times> packet_data option) res" where
  "handler_args fresh AfterRound x = Inl BadAccess"
| "handler_args fresh InRound (AcceptThread p) = Inr (p, None)"
| "handler_args fresh InRound (PacketThread p buffer) = rbind (Packet_parse fresh buffer) (\<lambda>d. Inr (p, Some d))"

text \<open>The end of the round: the buffer goes back to its pool and a receive is posted.\<close>

definition recycle :: "manager \<Rightarrow> manager res" where
  "recycle S = recv (S\<lparr>io := (io S)\<lparr>read_io_live := read_io_live (io S) - 1\<rparr>\<rparr>)"

definition on_read :: "env \<Rightarrow> u32 \<Rightarrow> byte list \<Rightarrow> endpoint \<Rightarrow> manager \<Rightarrow> manager res" where
  "on_read E bytes buffer remote S =
     rbind (read_short buffer 0) (\<lambda>sz.
     rbind (read_short buffer 2) (\<lambda>ty.
     rbind (if bytes = 6 \<and> sz = 2 \<and> ty = - 1 then on_syn E buffer remote S
            else if bytes = 6 \<and> sz = 2 \<and> ty = - 3 then on_ack remote S
            else if bytes = 4 \<and> sz = 0 \<and> ty = - 1 then on_heartbeat remote S
            else if word_of_int (sint sz + 4) = bytes then on_data buffer remote S
            else Inr (Next, S))
       (\<lambda>(f, S1). case f of Continue \<Rightarrow> Inr S1 | Next \<Rightarrow> recycle S1)))"

text \<open>
  A completion: whether the call succeeded, how many bytes, and the operation.  The system
  has already taken the operation off its list when the worker sees it.
\<close>

datatype io_data = ReadIo "byte list" endpoint | WriteIo

definition complete :: "io_data \<Rightarrow> manager \<Rightarrow> manager" where
  "complete d S = (case d of
     ReadIo _ _ \<Rightarrow> S\<lparr>io := (io S)\<lparr>posted := posted (io S) - 1\<rparr>\<rparr> | WriteIo \<Rightarrow> S)"

definition iocp_dispatch :: "env \<Rightarrow> bool \<Rightarrow> u32 \<Rightarrow> io_data \<Rightarrow> manager \<Rightarrow> manager res" where
  "iocp_dispatch E succ bytes d S0 =
     (let S = complete d S0 in
      if \<not> succ then Inr S
      else if bytes < 4 then Inr S
      else case d of
        ReadIo buffer remote \<Rightarrow> on_read E bytes buffer remote S
      | WriteIo \<Rightarrow> Inr (S\<lparr>io := (io S)\<lparr>write_io_live := write_io_live (io S) - 1\<rparr>\<rparr>))"

text \<open>The loop of a worker over the completions it gets.\<close>

fun iocp_task :: "(env \<times> bool \<times> u32 \<times> io_data) list \<Rightarrow> manager \<Rightarrow> manager res" where
  "iocp_task [] S = Inr S"
| "iocp_task ((E, succ, bytes, d) # cs) S =
     (if have_to_stop S then Inr S else rbind (iocp_dispatch E succ bytes d S) (iocp_task cs))"

subsection \<open>The heartbeat thread\<close>

text \<open>First loop, under the write lock: age every session, take out the silent ones.\<close>

fun age :: "(addr_key \<times> ptr) list \<Rightarrow> manager \<Rightarrow> (((addr_key \<times> ptr) list \<times> ptr list) \<times> manager) res" where
  "age [] S = Inr (([], []), S)"
| "age ((k, p) # m) S =
     rbind (session_of S p) (\<lambda>s.
     let a = is_alive_m s - 1; S1 = set_alive p s a S in
     rbind (age m S1) (\<lambda>((kept, gone), S2).
     if sint a < - 1 then Inr ((kept, p # gone), S2) else Inr (((k, p) # kept, gone), S2)))"

definition collect :: "ptr list \<Rightarrow> manager \<Rightarrow> (ptr list \<times> manager) res" where
  "collect disconnected = sessions_write (\<lambda>S.
     rbind (age (sessions S) S) (\<lambda>((kept, gone), S1). Inr (disconnected @ gone, S1\<lparr>sessions := kept\<rparr>)))"

text \<open>\<open>delete\<close> on a session: the memory goes to \<open>::free\<close>.\<close>

definition delete_session :: "ptr \<Rightarrow> manager \<Rightarrow> manager res" where
  "delete_session p S = rbind (sys_free (omem (session_pool S)) p) (\<lambda>m.
     Inr (S\<lparr>session_pool := (session_pool S)\<lparr>omem := m\<rparr>, session_at := (session_at S)(p := None)\<rparr>))"

definition disconnect :: "ptr \<Rightarrow> manager \<Rightarrow> (bool \<times> manager) res" where
  "disconnect p S =
     rbind (session_of S p) (\<lambda>s.
     let a = is_alive_m s - 1; S1 = set_alive p s a S in
     if a = - 3 then Inr (True, S1\<lparr>disconnected_calls := disconnected_calls S1 @ [p]\<rparr>) else Inr (False, S1))"

text \<open>Second loop: call the handler for, and delete, those that reach \<open>-3\<close>.\<close>

fun destroy :: "ptr list \<Rightarrow> manager \<Rightarrow> (ptr list \<times> manager) res" where
  "destroy [] S = Inr ([], S)"
| "destroy (p # ps) S =
     rbind (disconnect p S) (\<lambda>(drop, S1).
     if drop then rbind (delete_session p S1) (destroy ps)
     else rbind (destroy ps S1) (\<lambda>(rest, S2). Inr (p # rest, S2)))"

definition tick :: "ptr list \<Rightarrow> manager \<Rightarrow> (ptr list \<times> manager) res" where
  "tick disconnected S = rbind (collect disconnected S) (\<lambda>(ds, S1). destroy ds S1)"

partial_function (option) heartbeat :: "ptr list \<Rightarrow> manager \<Rightarrow> (ptr list \<times> manager) res option" where
  "heartbeat ds S = (case tick ds S of Inl e \<Rightarrow> Some (Inl e) | Inr r \<Rightarrow> heartbeat (fst r) (snd r))"

text \<open>
  The destructor sets \<open>have_to_stop_\<close> and joins every thread, the heartbeat thread last: it
  returns only if that thread's loop does.
\<close>

definition SessionManager_dtor :: "ptr list \<Rightarrow> manager \<Rightarrow> manager res option" where
  "SessionManager_dtor ds S =
     (let S1 = S\<lparr>have_to_stop := True\<rparr> in
      if threads S1 = 0 then Some (Inr S1)
      else map_option (\<lambda>r. rbind r (\<lambda>(_, S2). Inr S2)) (heartbeat ds S1))"

end
