(* ===== verification/SessionManagerSpec.thy ===== *)
theory SessionManagerSpec
  imports SessionManager
begin

section \<open>What the session manager does\<close>

text \<open>
  The invariant of the session tables, that every round and every heartbeat keeps it, the
  functional behaviour of the branches, and the ways the code goes wrong.
\<close>

subsection \<open>The invariant\<close>

definition locks_free :: "manager \<Rightarrow> bool" where
  "locks_free S \<longleftrightarrow> lock_sessions S = Spinlock \<and> lock_pending_sessions S = Spinlock"

definition entry_ok :: "manager \<Rightarrow> addr_key \<times> ptr \<Rightarrow> bool" where
  "entry_ok S e \<longleftrightarrow> (\<exists>s. session_at S (snd e) = Some s \<and> key (endpoint_m s) = fst e)"

definition tables_ok :: "manager \<Rightarrow> bool" where
  "tables_ok S \<longleftrightarrow> map_ok (sessions S) \<and> map_ok (pending_sessions S) \<and>
     (\<forall>e\<in>set (sessions S) \<union> set (pending_sessions S). entry_ok S e) \<and>
     snd ` set (sessions S) \<inter> snd ` set (pending_sessions S) = {}"

text \<open>The constructed sessions are exactly the chunks of the session pool in use.\<close>

definition manager_inv :: "manager \<Rightarrow> bool" where
  "manager_inv S \<longleftrightarrow> locks_free S \<and> tables_ok S \<and> socket_m S \<noteq> None \<and>
     opool_rel session_size (session_pool S) (dom (session_at S))"

lemma manager_inv_init:
  assumes "mem_ok m"
  shows "manager_inv (SessionManager_ctor (Some h) was assoc e n (opool_init m))"
proof -
  have "opool_rel session_size (opool_init m) {}"
    by (rule opool_init_rel [OF assms]) (simp add: session_size_def)
  then show ?thesis
    by (simp add: manager_inv_def locks_free_def tables_ok_def map_ok_def SessionManager_ctor_def)
qed

lemma session_of_eq:
  assumes "manager_inv S" and "session_at S p = Some s"
  shows "session_of S p = Inr s"
  using held_not_freeable [of session_size "session_pool S" "dom (session_at S)" p] assms
  by (auto simp: session_of_def manager_inv_def)

lemma find_entry:
  assumes "manager_inv S" and "map_find (sessions S) k = Some p \<or> map_find (pending_sessions S) k = Some p"
  shows "\<exists>s. session_at S p = Some s \<and> key (endpoint_m s) = k"
  using assms unfolding manager_inv_def tables_ok_def entry_ok_def
  by (metis Un_iff fst_conv map_find_set snd_conv)

subsection \<open>Sections under a free lock\<close>

lemma lock_free [simp]:
  "Lock Spinlock = Some (Spinlock\<lparr>lock_m := 1\<rparr>)" "Unlock (Spinlock\<lparr>lock_m := 1\<rparr>) = Spinlock"
  "ReadLock Spinlock = Some (Spinlock\<lparr>reader_m := 1\<rparr>)" "ReadUnlock (Spinlock\<lparr>reader_m := 1\<rparr>) = Spinlock"
  by (simp_all add: Lock_eq ReadLock_eq Unlock_def ReadUnlock_def Spinlock_def)

lemma manager_lock_same:
  "lock_sessions S = l \<Longrightarrow> S\<lparr>lock_sessions := l\<rparr> = S"
  "lock_pending_sessions S = l \<Longrightarrow> S\<lparr>lock_pending_sessions := l\<rparr> = S"
  by simp_all

lemma ack_find_eq:
  "locks_free S \<Longrightarrow> ack_find remote S = Inr (map_find (pending_sessions S) (key remote), S)"
  by (simp add: locks_free_def ack_find_def pending_read_def Let_def manager_lock_same)

lemma find_session_eq:
  "locks_free S \<Longrightarrow> find_session remote S = Inr (map_find (sessions S) (key remote), S)"
  by (simp add: locks_free_def find_session_def sessions_read_def Let_def manager_lock_same)

lemma insert_pending_eq:
  "locks_free S \<Longrightarrow> insert_pending k p S = Inr ((), S\<lparr>pending_sessions := map_insert (pending_sessions S) k p\<rparr>)"
  by (simp add: locks_free_def insert_pending_def pending_write_def)

lemma ack_erase_eq:
  "locks_free S \<Longrightarrow> ack_erase it S =
     rbind (map_erase (pending_sessions S) it) (\<lambda>m. Inr ((), S\<lparr>pending_sessions := m\<rparr>))"
  by (cases "map_erase (pending_sessions S) it") (simp_all add: locks_free_def ack_erase_def pending_write_def)

lemma ack_insert_eq:
  "locks_free S \<Longrightarrow> ack_insert p S = rbind (session_of S p) (\<lambda>s.
     Inr ((), S\<lparr>sessions := map_insert (sessions S) (key (Session_GetEndpoint s)) p\<rparr>))"
  by (cases "session_of S p")
    (simp_all add: locks_free_def ack_insert_def sessions_write_def session_of_def split: if_splits option.splits)

subsection \<open>The branches\<close>

text \<open>Changing how alive a session is changes nothing the invariant looks at.\<close>

lemma set_alive_sel [simp]:
  "sessions (set_alive p s a S) = sessions S" "pending_sessions (set_alive p s a S) = pending_sessions S"
  "lock_sessions (set_alive p s a S) = lock_sessions S"
  "lock_pending_sessions (set_alive p s a S) = lock_pending_sessions S"
  "socket_m (set_alive p s a S) = socket_m S" "session_pool (set_alive p s a S) = session_pool S"
  "session_at (set_alive p s a S) = (session_at S)(p \<mapsto> s\<lparr>is_alive_m := a\<rparr>)"
  "io (set_alive p s a S) = io S" "spawned (set_alive p s a S) = spawned S"
  "disconnected_calls (set_alive p s a S) = disconnected_calls S"
  by (simp_all add: set_alive_def)

lemma set_alive_inv:
  assumes "manager_inv S" and "session_at S p = Some s"
  shows "manager_inv (set_alive p s a S)"
proof -
  have "entry_ok (set_alive p s a S) e" if "entry_ok S e" for e
    using that assms(2) by (cases e) (auto simp: entry_ok_def)
  moreover have "dom (session_at (set_alive p s a S)) = dom (session_at S)"
    using assms(2) by (auto simp: set_alive_def)
  ultimately show ?thesis using assms(1)
    unfolding manager_inv_def tables_ok_def locks_free_def by (simp del: fun_upd_apply)
qed

lemma io_inv: "manager_inv (S\<lparr>io := N\<rparr>) = manager_inv S"
  by (simp add: manager_inv_def locks_free_def tables_ok_def entry_ok_def)

lemma spawned_inv: "manager_inv (S\<lparr>spawned := q\<rparr>) = manager_inv S"
  by (simp add: manager_inv_def locks_free_def tables_ok_def entry_ok_def)

lemma manager_inv_locks: "manager_inv S \<Longrightarrow> locks_free S"
  by (simp add: manager_inv_def)

lemma recv_inv: "manager_inv S \<Longrightarrow> \<exists>S'. recv S = Inr S' \<and> manager_inv S'"
  by (auto simp: recv_def io_inv manager_inv_def split: option.splits)
    (auto simp: manager_inv_def locks_free_def tables_ok_def entry_ok_def)

lemma recycle_inv: "manager_inv S \<Longrightarrow> \<exists>S'. recycle S = Inr S' \<and> manager_inv S'"
  unfolding recycle_def by (rule recv_inv) (simp add: io_inv)

lemma on_heartbeat_inv:
  assumes "manager_inv S"
  shows "\<exists>f S'. on_heartbeat remote S = Inr (f, S') \<and> manager_inv S'"
proof (cases "map_find (sessions S) (key remote)")
  case None
  then show ?thesis using assms by (simp add: on_heartbeat_def find_session_eq manager_inv_locks)
next
  case (Some p)
  then obtain s where "session_at S p = Some s" using find_entry [OF assms] by blast
  then show ?thesis using Some set_alive_inv [OF assms] session_of_eq [OF assms] assms
    by (simp add: on_heartbeat_def find_session_eq manager_inv_locks)
qed

lemma on_data_inv:
  assumes "manager_inv S"
  shows "\<exists>f S'. on_data buffer remote S = Inr (f, S') \<and> manager_inv S'"
proof (cases "map_find (sessions S) (key remote)")
  case None
  then show ?thesis using assms by (simp add: on_data_def find_session_eq manager_inv_locks)
next
  case (Some p)
  then obtain s where "session_at S p = Some s" using find_entry [OF assms] by blast
  then show ?thesis using Some set_alive_inv [OF assms] session_of_eq [OF assms] assms
    by (simp add: on_data_def find_session_eq manager_inv_locks spawned_inv Let_def)
qed

lemma map_insert_set: "set (map_insert m k v) \<subseteq> insert (k, v) (set m)"
  by (induction m k v rule: map_insert.induct) auto

text \<open>An ACK moves the entry of its sender from one table to the other.\<close>

lemma on_ack_eq:
  assumes inv: "manager_inv S" and it: "map_find (pending_sessions S) (key remote) = Some p"
  shows "\<exists>m. map_erase (pending_sessions S) (key remote, p) = Inr m \<and> map_ok m \<and>
     map_find m = (map_find (pending_sessions S))(key remote := None) \<and>
     on_ack remote S = Inr (Next, S\<lparr>pending_sessions := m, sessions := map_insert (sessions S) (key remote) p,
       spawned := spawned S @ [AcceptThread p]\<rparr>)"
proof -
  have lf: "locks_free S" using inv by (rule manager_inv_locks)
  have po: "map_ok (pending_sessions S)" using inv by (simp add: manager_inv_def tables_ok_def)
  obtain s where s: "session_at S p = Some s" "key (endpoint_m s) = key remote"
    using find_entry [OF inv] it by blast
  obtain m where m: "map_erase (pending_sessions S) (key remote, p) = Inr m" "map_ok m"
    "map_find m = (map_find (pending_sessions S))(key remote := None)"
    using om.erase_some [OF po it] om.erase_cases [OF po] by blast
  let ?S1 = "S\<lparr>pending_sessions := m\<rparr>"
  have l1: "locks_free ?S1" using lf by (simp add: locks_free_def)
  have so1: "session_of ?S1 p = Inr s"
    using session_of_eq [OF inv s(1)] by (simp add: session_of_def split: if_splits)
  show ?thesis
    using it m so1 s(2)
    by (simp add: on_ack_def ack_find_eq [OF lf] ack_erase_eq [OF lf] ack_insert_eq [OF l1] Session_GetEndpoint_def)
qed

lemma on_ack_inv:
  assumes inv: "manager_inv S"
  shows "\<exists>f S'. on_ack remote S = Inr (f, S') \<and> manager_inv S'"
proof (cases "map_find (pending_sessions S) (key remote)")
  case None
  then show ?thesis using inv by (simp add: on_ack_def ack_find_eq manager_inv_locks)
next
  case (Some p)
  have so: "map_ok (sessions S)" using inv by (simp add: manager_inv_def tables_ok_def)
  obtain s where s: "session_at S p = Some s" "key (endpoint_m s) = key remote"
    using find_entry [OF inv] Some by blast
  obtain m where m: "map_erase (pending_sessions S) (key remote, p) = Inr m" "map_ok m"
      "map_find m = (map_find (pending_sessions S))(key remote := None)"
    and run: "on_ack remote S = Inr (Next, S\<lparr>pending_sessions := m,
       sessions := map_insert (sessions S) (key remote) p, spawned := spawned S @ [AcceptThread p]\<rparr>)"
    using on_ack_eq [OF inv Some] by blast
  let ?S2 = "S\<lparr>pending_sessions := m, sessions := map_insert (sessions S) (key remote) p\<rparr>"
  have sub: "set m \<subseteq> set (pending_sessions S)"
    using m(1) by (auto simp: map_erase_def split: if_splits)
  have gone: "p \<notin> snd ` set m"
  proof
    assume "p \<in> snd ` set m"
    then obtain k where k: "(k, p) \<in> set m" by auto
    then have "entry_ok S (k, p)" using sub inv by (auto simp: manager_inv_def tables_ok_def)
    then have "k = key remote" using s by (simp add: entry_ok_def)
    then show False using k m(2,3) map_find_set [OF m(2), of k p] by simp
  qed
  have e: "entry_ok ?S2 x = entry_ok S x" for x by (simp add: entry_ok_def)
  have old: "\<forall>x\<in>set (sessions S) \<union> set (pending_sessions S). entry_ok S x"
    and apart: "snd ` set (sessions S) \<inter> snd ` set (pending_sessions S) = {}"
    using inv by (simp_all add: manager_inv_def tables_ok_def)
  have new: "set (sessions ?S2) \<subseteq> insert (key remote, p) (set (sessions S))"
    using map_insert_set by simp
  have "tables_ok ?S2"
    unfolding tables_ok_def
  proof (intro conjI ballI)
    show "map_ok (sessions ?S2)" "map_ok (pending_sessions ?S2)"
      using so m(2) by (simp_all add: map_ok_insert)
    show "entry_ok ?S2 x" if "x \<in> set (sessions ?S2) \<union> set (pending_sessions ?S2)" for x
    proof -
      have "x = (key remote, p) \<or> x \<in> set (sessions S) \<union> set (pending_sessions S)"
        using that new sub by auto
      then show ?thesis unfolding e using old s by (auto simp: entry_ok_def)
    qed
    have "snd ` set (sessions ?S2) \<subseteq> insert p (snd ` set (sessions S))" using image_mono [OF new, of snd] by simp
    moreover have "snd ` set m \<subseteq> snd ` set (pending_sessions S)" by (rule image_mono [OF sub])
    ultimately show "snd ` set (sessions ?S2) \<inter> snd ` set (pending_sessions ?S2) = {}"
      using apart gone by auto
  qed
  then have "manager_inv ?S2" using inv by (simp add: manager_inv_def locks_free_def)
  then have "manager_inv (?S2\<lparr>spawned := spawned S @ [AcceptThread p]\<rparr>)" by (simp only: spawned_inv)
  then show ?thesis using run by simp
qed

text \<open>What a SYN needs: room for the answer's bytes, and a chunk for the session.\<close>

definition serves :: "env \<Rightarrow> manager \<Rightarrow> bool" where
  "serves E S \<longleftrightarrow> is_block (fresh_block E) \<and>
     (\<exists>r. ObjectPool_Malloc (grants E) session_size (thread E) (session_pool S) = Inr r)"

text \<open>The answer to a SYN: four bytes of header and the two bytes the SYN carried.\<close>

definition syn_ack :: "byte list \<Rightarrow> byte list" where
  "syn_ack buffer = short_bytes 2 @ short_bytes (- 2) @ take 2 (drop 4 buffer)"

lemma answer_ok:
  assumes "is_block fresh" and "6 \<le> length buffer"
  shows "\<exists>d. Packet_make fresh 2 (- 2) (drop 4 buffer) = Inr d \<and> wire d = Inr (syn_ack buffer)"
proof -
  let ?d = "\<lparr>size_m = 2, packet_type_m = - 2, body_m = take 2 (drop 4 buffer) @ drop 2 (body_m fresh)\<rparr>"
  have "Packet_make fresh 2 (- 2) (drop 4 buffer) = Inr ?d"
    using Packet_make_ok [of 2 "drop 4 buffer" fresh "- 2"] assms by (simp add: MAX_PACKET_SIZE_def)
  moreover have "is_block ?d" using assms by (simp add: is_block_def MAX_PACKET_SIZE_def)
  then have "wire ?d = Inr (syn_ack buffer)"
    using wire_ok [of ?d] assms(2) by (simp add: MAX_PACKET_SIZE_def syn_ack_def)
  ultimately show ?thesis by blast
qed

text \<open>The state after a SYN from \<open>remote\<close> got the chunk \<open>p\<close>.\<close>

definition after_syn :: "endpoint \<Rightarrow> ptr \<Rightarrow> opool \<Rightarrow> manager \<Rightarrow> manager" where
  "after_syn remote p sp S = S\<lparr>session_pool := sp, session_at := (session_at S)(p \<mapsto> Session_ctor remote),
     pending_sessions := map_insert (pending_sessions S) (key remote) p\<rparr>"

lemma on_syn_eq:
  assumes inv: "manager_inv S" and blk: "is_block (fresh_block E)" and b: "6 \<le> length buffer"
    and m: "ObjectPool_Malloc (grants E) session_size (thread E) (session_pool S) = Inr (p, sp)"
    and sk: "socket_m S = Some sk"
  shows "on_syn E buffer remote S = Inr (Next, (after_syn remote p sp S)\<lparr>io := (if is_with_iocp_m sk
      then (io S)\<lparr>sent := sent (io S) @ [(syn_ack buffer, Addr remote)], write_io_live := write_io_live (io S) + 1\<rparr>
      else io S)\<rparr>)"
proof -
  let ?S1 = "S\<lparr>session_pool := sp, session_at := (session_at S)(p \<mapsto> Session_ctor remote)\<rparr>"
  have "locks_free ?S1" using manager_inv_locks [OF inv] by (simp add: locks_free_def)
  then have i: "insert_pending (key remote) p ?S1 = Inr ((), after_syn remote p sp S)"
    by (simp add: insert_pending_eq after_syn_def)
  obtain d where d: "Packet_make (fresh_block E) 2 (- 2) (drop 4 buffer) = Inr d" "wire d = Inr (syn_ack buffer)"
    using answer_ok [OF blk b] by blast
  have e: "Session_GetEndpoint (Session_ctor remote) = remote" "endpoint_m (Session_ctor remote) = remote"
    by (simp_all add: Session_GetEndpoint_def Session_ctor_def)
  have "io (after_syn remote p sp S) = io S" by (simp add: after_syn_def)
  then show ?thesis using m sk i d
    by (simp add: on_syn_def Let_def e Session_Send_def Socket_Send_def)
qed

lemma after_syn_inv:
  assumes inv: "manager_inv S"
    and m: "ObjectPool_Malloc grant session_size t (session_pool S) = Inr (p, sp)"
  shows "manager_inv (after_syn remote p sp S) \<and> session_at S p = None"
proof -
  let ?S = "after_syn remote p sp S"
  have rel: "opool_rel session_size (session_pool S) (dom (session_at S))"
    using inv by (simp add: manager_inv_def)
  have p: "p \<notin> dom (session_at S)" "opool_rel session_size sp (insert p (dom (session_at S)))"
    using Malloc_law [OF rel m] by simp_all
  have old: "\<forall>x\<in>set (sessions S) \<union> set (pending_sessions S). entry_ok S x"
    and apart: "snd ` set (sessions S) \<inter> snd ` set (pending_sessions S) = {}"
    and ok: "map_ok (sessions S)" "map_ok (pending_sessions S)"
    using inv by (simp_all add: manager_inv_def tables_ok_def)
  have e: "entry_ok ?S x" if "entry_ok S x" for x
    using that p(1) by (auto simp: entry_ok_def after_syn_def)
  have fresh: "p \<notin> snd ` set (sessions S)"
  proof
    assume "p \<in> snd ` set (sessions S)"
    then obtain k where "(k, p) \<in> set (sessions S)" by auto
    then have "entry_ok S (k, p)" using old by auto
    then show False using p(1) by (auto simp: entry_ok_def)
  qed
  have pe: "pending_sessions ?S = map_insert (pending_sessions S) (key remote) p" "sessions ?S = sessions S"
    by (simp_all add: after_syn_def)
  have new: "set (pending_sessions ?S) \<subseteq> insert (key remote, p) (set (pending_sessions S))"
    unfolding pe by (rule map_insert_set)
  have "tables_ok ?S"
    unfolding tables_ok_def
  proof (intro conjI ballI)
    show "map_ok (sessions ?S)" "map_ok (pending_sessions ?S)" using ok by (simp_all add: pe map_ok_insert)
    show "entry_ok ?S x" if "x \<in> set (sessions ?S) \<union> set (pending_sessions ?S)" for x
    proof -
      have "x = (key remote, p) \<or> x \<in> set (sessions S) \<union> set (pending_sessions S)"
        using that new pe(2) by auto
      moreover have "entry_ok ?S (key remote, p)" by (simp add: entry_ok_def after_syn_def Session_ctor_def)
      ultimately show ?thesis using old e [of x] by (elim disjE) simp_all
    qed
    have "snd ` set (pending_sessions ?S) \<subseteq> insert p (snd ` set (pending_sessions S))"
      using image_mono [OF new, of snd] by simp
    then show "snd ` set (sessions ?S) \<inter> snd ` set (pending_sessions ?S) = {}"
      using apart fresh unfolding pe(2) by auto
  qed
  moreover have "locks_free ?S" using manager_inv_locks [OF inv] by (simp add: locks_free_def after_syn_def)
  moreover have "socket_m ?S \<noteq> None" using inv by (simp add: manager_inv_def after_syn_def)
  moreover have "opool_rel session_size (session_pool ?S) (dom (session_at ?S))"
    using p(2) by (simp add: after_syn_def)
  ultimately show ?thesis using p(1) by (auto simp: manager_inv_def)
qed

lemma on_syn_inv:
  assumes "manager_inv S" and "serves E S" and "6 \<le> length buffer"
  shows "\<exists>f S'. on_syn E buffer remote S = Inr (f, S') \<and> manager_inv S'"
proof -
  obtain p sp where m: "ObjectPool_Malloc (grants E) session_size (thread E) (session_pool S) = Inr (p, sp)"
    using assms(2) by (auto simp: serves_def)
  obtain sk where sk: "socket_m S = Some sk" using assms(1) by (auto simp: manager_inv_def)
  have "is_block (fresh_block E)" using assms(2) by (simp add: serves_def)
  from on_syn_eq [OF assms(1) this assms(3) m sk] after_syn_inv [OF assms(1) m] show ?thesis
    by (simp add: io_inv)
qed

subsection \<open>Rounds\<close>

lemma read_short_ok: "i + 2 \<le> length bs \<Longrightarrow> \<exists>w. read_short bs i = Inr w"
  by (simp add: read_short_def)

lemma complete_sel [simp]:
  "socket_m (complete d S) = socket_m S" "sessions (complete d S) = sessions S"
  "pending_sessions (complete d S) = pending_sessions S" "session_at (complete d S) = session_at S"
  "session_pool (complete d S) = session_pool S" "spawned (complete d S) = spawned S"
  by (cases d; simp add: complete_def)+

lemma complete_inv: "manager_inv (complete d S) = manager_inv S"
  by (cases d) (simp_all add: complete_def io_inv)

lemma on_read_inv:
  assumes inv: "manager_inv S" and srv: "serves E S" and b: "length buffer = socket_buf_size"
  shows "\<exists>S'. on_read E bytes buffer remote S = Inr S' \<and> manager_inv S'"
proof -
  obtain sz ty where h: "read_short buffer 0 = Inr sz" "read_short buffer 2 = Inr ty"
    using read_short_ok [of 0 buffer] read_short_ok [of 2 buffer] b by (auto simp: socket_buf_size_def)
  let ?go = "if bytes = 6 \<and> sz = 2 \<and> ty = - 1 then on_syn E buffer remote S
            else if bytes = 6 \<and> sz = 2 \<and> ty = - 3 then on_ack remote S
            else if bytes = 4 \<and> sz = 0 \<and> ty = - 1 then on_heartbeat remote S
            else if word_of_int (sint sz + 4) = bytes then on_data buffer remote S
            else Inr (Next, S)"
  have "\<exists>f S'. ?go = Inr (f, S') \<and> manager_inv S'"
    using on_syn_inv [OF inv srv] on_ack_inv [OF inv] on_heartbeat_inv [OF inv] on_data_inv [OF inv] inv b
    by (simp add: socket_buf_size_def)
  then obtain f S1 where go: "?go = Inr (f, S1)" and i: "manager_inv S1" by blast
  show ?thesis
  proof (cases f)
    case Next
    then have "on_read E bytes buffer remote S = recycle S1"
      by (simp only: on_read_def h go rbind_Inr prod.case flow.case)
    then show ?thesis using recycle_inv [OF i] by simp
  next
    case Continue
    then have "on_read E bytes buffer remote S = Inr S1"
      by (simp only: on_read_def h go rbind_Inr prod.case flow.case)
    then show ?thesis using i by simp
  qed
qed

lemma dispatch_inv:
  assumes "manager_inv S" and "serves E S" and "\<forall>buffer remote. d = ReadIo buffer remote \<longrightarrow> length buffer = socket_buf_size"
  shows "\<exists>S'. iocp_dispatch E succ bytes d S = Inr S' \<and> manager_inv S'"
proof -
  have i: "manager_inv (complete d S)" using assms(1) by (simp add: complete_inv)
  have srv: "serves E (complete d S)" using assms(2) by (simp add: serves_def)
  show ?thesis
    using on_read_inv [OF i srv] i assms(3)
    by (cases d) (simp_all add: iocp_dispatch_def Let_def io_inv)
qed

subsection \<open>Aging\<close>

text \<open>\<open>age\<close> decrements every counter and splits the table at \<open>-1\<close>.\<close>

definition dead :: "(ptr \<Rightarrow> session option) \<Rightarrow> ptr \<Rightarrow> bool" where
  "dead st p = (case st p of None \<Rightarrow> False | Some s \<Rightarrow> sint (is_alive_m s - 1) < - 1)"

definition aged :: "ptr set \<Rightarrow> (ptr \<Rightarrow> session option) \<Rightarrow> ptr \<Rightarrow> session option" where
  "aged A st p = (if p \<in> A then map_option (\<lambda>s. s\<lparr>is_alive_m := is_alive_m s - 1\<rparr>) (st p) else st p)"

lemma age_eq:
  assumes "distinct (map snd m)" and "\<forall>e\<in>set m. snd e \<noteq> Null \<and> session_at S (snd e) \<noteq> None"
  shows "age m S = Inr ((filter (\<lambda>e. \<not> dead (session_at S) (snd e)) m,
      map snd (filter (\<lambda>e. dead (session_at S) (snd e)) m)),
    S\<lparr>session_at := aged (snd ` set m) (session_at S)\<rparr>)"
  using assms
proof (induction m arbitrary: S)
  case Nil
  have "aged {} (session_at S) = session_at S" by (simp add: aged_def fun_eq_iff)
  then show ?case by simp
next
  case (Cons e m)
  obtain k p where e: "e = (k, p)" by (cases e)
  obtain s where s: "session_at S p = Some s" "p \<noteq> Null" using Cons.prems(2) e by auto
  let ?S = "set_alive p s (is_alive_m s - 1) S"
  have p: "p \<notin> snd ` set m" using Cons.prems(1) e by simp
  have same: "session_at ?S q = session_at S q" if "q \<in> snd ` set m" for q using that p by auto
  have IH: "age m ?S = Inr ((filter (\<lambda>e. \<not> dead (session_at ?S) (snd e)) m,
      map snd (filter (\<lambda>e. dead (session_at ?S) (snd e)) m)),
    ?S\<lparr>session_at := aged (snd ` set m) (session_at ?S)\<rparr>)"
  proof (rule Cons.IH)
    show "distinct (map snd m)" using Cons.prems(1) by simp
    show "\<forall>e\<in>set m. snd e \<noteq> Null \<and> session_at ?S (snd e) \<noteq> None"
      using Cons.prems(2) by auto
  qed
  have f: "filter (\<lambda>e. dead (session_at ?S) (snd e)) m = filter (\<lambda>e. dead (session_at S) (snd e)) m"
    "filter (\<lambda>e. \<not> dead (session_at ?S) (snd e)) m = filter (\<lambda>e. \<not> dead (session_at S) (snd e)) m"
    by (rule filter_cong [OF refl], use same in \<open>simp add: dead_def\<close>)+
  have d: "dead (session_at S) p \<longleftrightarrow> sint (is_alive_m s - 1) < - 1" using s by (simp add: dead_def)
  have a: "aged (snd ` set m) (session_at ?S) = aged (snd ` set (e # m)) (session_at S)"
    using s p e by (auto simp: aged_def fun_eq_iff)
  have u: "?S\<lparr>session_at := f\<rparr> = S\<lparr>session_at := f\<rparr>" for f by (simp add: set_alive_def)
  have so: "session_of S p = Inr s" using s by (simp add: session_of_def)
  show ?case
    using so IH unfolding f a u by (simp add: e Let_def d)
qed

lemma table_ptrs_distinct:
  assumes "manager_inv S"
  shows "distinct (map snd (sessions S))"
proof -
  have ok: "\<forall>x\<in>set (sessions S). entry_ok S x" and m: "map_ok (sessions S)"
    using assms by (auto simp: manager_inv_def tables_ok_def)
  have d: "distinct (map fst (sessions S))" using m by (simp add: map_ok_def strict_sorted_iff)
  have "inj_on snd (set (sessions S))"
  proof (rule inj_onI)
    fix x y
    assume x: "x \<in> set (sessions S)" and y: "y \<in> set (sessions S)" and xy: "snd x = snd y"
    have "entry_ok S x" "entry_ok S y" using ok x y by blast+
    then have "fst x = fst y" using xy by (auto simp: entry_ok_def)
    then show "x = y" using xy by (rule prod_eqI)
  qed
  then show ?thesis using d by (simp add: distinct_map)
qed

lemma table_entry:
  assumes inv: "manager_inv S" and e: "e \<in> set (sessions S)"
  shows "snd e \<noteq> Null \<and> session_at S (snd e) \<noteq> None"
proof -
  have "entry_ok S e" using inv e by (simp add: manager_inv_def tables_ok_def)
  then obtain s where s: "session_at S (snd e) = Some s" by (auto simp: entry_ok_def)
  then show ?thesis using session_of_eq [OF inv s] by (auto simp: session_of_def)
qed

lemma collect_eq:
  assumes inv: "manager_inv S"
  shows "collect ds S = Inr (ds @ map snd (filter (\<lambda>e. dead (session_at S) (snd e)) (sessions S)),
     S\<lparr>session_at := aged (snd ` set (sessions S)) (session_at S),
       sessions := filter (\<lambda>e. \<not> dead (session_at S) (snd e)) (sessions S)\<rparr>)"
proof -
  let ?S = "S\<lparr>lock_sessions := Spinlock\<lparr>lock_m := 1\<rparr>\<rparr>"
  have l: "lock_sessions S = Spinlock" using manager_inv_locks [OF inv] by (simp add: locks_free_def)
  have "age (sessions ?S) ?S = Inr ((filter (\<lambda>e. \<not> dead (session_at S) (snd e)) (sessions S),
      map snd (filter (\<lambda>e. dead (session_at S) (snd e)) (sessions S))),
    ?S\<lparr>session_at := aged (snd ` set (sessions S)) (session_at S)\<rparr>)"
    using age_eq [of "sessions ?S" ?S] table_ptrs_distinct [OF inv] table_entry [OF inv] by simp
  then show ?thesis using l by (simp add: collect_def sessions_write_def)
qed

lemma collect_inv:
  assumes inv: "manager_inv S" and c: "collect ds S = Inr (ds', S')"
  shows "manager_inv S'"
proof -
  have S': "S' = S\<lparr>session_at := aged (snd ` set (sessions S)) (session_at S),
       sessions := filter (\<lambda>e. \<not> dead (session_at S) (snd e)) (sessions S)\<rparr>"
    using c collect_eq [OF inv, of ds] by simp
  have e: "entry_ok S' x" if "entry_ok S x" for x
    using that by (auto simp: S' entry_ok_def aged_def)
  have "dom (session_at S') = dom (session_at S)" by (auto simp: S' aged_def dom_def)
  moreover have "tables_ok S'"
    unfolding tables_ok_def
  proof (intro conjI ballI)
    have t: "tables_ok S" using inv by (simp add: manager_inv_def)
    then show "map_ok (sessions S')" "map_ok (pending_sessions S')" by (simp_all add: S' tables_ok_def map_ok_filter)
    show "entry_ok S' x" if "x \<in> set (sessions S') \<union> set (pending_sessions S')" for x
      using e [of x] t that by (auto simp: S' tables_ok_def)
    show "snd ` set (sessions S') \<inter> snd ` set (pending_sessions S') = {}"
      using t by (auto simp: S' tables_ok_def)
  qed
  ultimately show ?thesis using inv by (simp add: manager_inv_def locks_free_def S')
qed

subsection \<open>Datagrams\<close>

text \<open>A receive buffer whose first four bytes are the header \<open>sz\<close>, \<open>ty\<close>.\<close>

definition datagram :: "byte list \<Rightarrow> u16 \<Rightarrow> u16 \<Rightarrow> bool" where
  "datagram buffer sz ty \<longleftrightarrow> length buffer = socket_buf_size \<and>
     read_short buffer 0 = Inr sz \<and> read_short buffer 2 = Inr ty"

text \<open>What the branch for data tests: a size that matches the bytes received.\<close>

definition data_bytes :: "u16 \<Rightarrow> u16 \<Rightarrow> u32 \<Rightarrow> bool" where
  "data_bytes sz ty bytes \<longleftrightarrow> \<not> bytes < 4 \<and> word_of_int (sint sz + 4) = bytes \<and> ty \<noteq> - 1 \<and> ty \<noteq> - 3"

text \<open>The state once the round has ended with a recycled buffer.\<close>

lemma recycle_eq:
  "socket_m S = Some sk \<Longrightarrow> is_with_iocp_m sk \<Longrightarrow> recycle S = Inr (S\<lparr>io := (io S)
     \<lparr>read_io_live := read_io_live (io S) - 1 + 1, posted := posted (io S) + 1\<rparr>\<rparr>)"
  by (simp add: recycle_def recv_def Socket_Recv_def)

lemma dispatch_read:
  assumes "\<not> bytes < 4"
  shows "iocp_dispatch E True bytes (ReadIo buffer remote) S =
     on_read E bytes buffer remote (complete (ReadIo buffer remote) S)"
  using assms by (simp add: iocp_dispatch_def Let_def)

lemma on_read_syn:
  "datagram buffer 2 (- 1) \<Longrightarrow> on_syn E buffer remote S = Inr (Next, S') \<Longrightarrow>
   on_read E 6 buffer remote S = recycle S'"
  by (simp add: on_read_def datagram_def)

lemma on_read_ack:
  "datagram buffer 2 (- 3) \<Longrightarrow> on_ack remote S = Inr (Next, S') \<Longrightarrow>
   on_read E 6 buffer remote S = recycle S'"
  by (simp add: on_read_def datagram_def)

lemma on_read_data:
  assumes "datagram buffer sz ty" and "data_bytes sz ty bytes"
  shows "on_read E bytes buffer remote S =
     rbind (on_data buffer remote S) (\<lambda>(f, S1). case f of Continue \<Rightarrow> Inr S1 | Next \<Rightarrow> recycle S1)"
  using assms by (simp add: on_read_def datagram_def data_bytes_def)

text \<open>A data datagram that fits the receive buffer has the size its header says.\<close>

lemma data_size:
  assumes "data_bytes sz ty bytes" and "unat bytes \<le> socket_buf_size"
  shows "unat sz + 4 = unat bytes"
proof -
  have b: "uint bytes = (sint sz + 4) mod 2 ^ 32"
  proof -
    have "bytes = word_of_int (sint sz + 4)" using assms(1) unfolding data_bytes_def by metis
    then show ?thesis by (simp only: uint_word_of_int) simp
  qed
  have u: "uint bytes = int (unat bytes)" by (rule uint_nat)
  have four: "4 \<le> unat bytes"
    using assms(1) by (simp add: data_bytes_def not_less word_le_nat_alt)
  show ?thesis
  proof (cases "unat sz < 2 ^ 15")
    case True
    then show ?thesis using b u by (simp add: sint_u16_small)
  next
    case False
    then have l: "2 ^ 15 \<le> unat sz" by simp
    have s: "sint sz = int (unat sz) - 2 ^ 16" by (rule sint_u16_large [OF l])
    have lt: "unat sz < 2 ^ 16" using unat_u16 by simp
    show ?thesis
    proof (cases "sint sz + 4 < 0")
      case True
      have "(sint sz + 4) mod 2 ^ 32 = (sint sz + 4 + 2 ^ 32) mod 2 ^ 32" by (rule mod_add_self2 [symmetric])
      also have "\<dots> = sint sz + 4 + 2 ^ 32" by (rule mod_pos_pos_trivial) (use True s l in simp_all)
      finally show ?thesis using b u assms(2) s l by (simp add: socket_buf_size_def)
    next
      case False
      then have "(sint sz + 4) mod 2 ^ 32 = sint sz + 4" using s lt by (intro mod_pos_pos_trivial) simp_all
      then have "int (unat bytes) = sint sz + 4" using b u by simp
      then show ?thesis using four s lt by simp
    qed
  qed
qed

subsection \<open>A small instance\<close>

definition demo_endpoint :: endpoint where
  "demo_endpoint = \<lparr>addr_m = \<lparr>sin_family = AF_INET, sin_port = 7, s_addr = 9\<rparr>, port_m = 0, IP_m = []\<rparr>"

definition demo_env :: env where
  "demo_env = \<lparr>thread = 0, grants = (\<lambda>_ _. True),
     fresh_block = \<lparr>size_m = 0, packet_type_m = 0, body_m = replicate MAX_PACKET_SIZE 0\<rparr>\<rparr>"

definition demo :: manager where
  "demo = (SessionManager_ctor (Some 1) False (\<lambda>_. True) demo_endpoint 1 (opool_init empty_mem))
     \<lparr>io := \<lparr>posted = 1, sent = [], read_io_live = 1, write_io_live = 0\<rparr>\<rparr>"

definition demo_socket :: udp_socket where
  "demo_socket = \<lparr>is_with_iocp_m = True, iocp_m = Some 1, local_m = demo_endpoint\<rparr>"

lemma demo_sel:
  "socket_m demo = Some demo_socket" "sessions demo = []" "pending_sessions demo = []"
  "have_to_stop demo = False" "spawned demo = []" "disconnected_calls demo = []"
  "io demo = \<lparr>posted = 1, sent = [], read_io_live = 1, write_io_live = 0\<rparr>"
  "session_pool demo = opool_init empty_mem" "session_at demo = Map.empty" "locks_free demo"
  by (simp_all add: demo_def SessionManager_ctor_def Socket_endpoint_iocp_def demo_socket_def locks_free_def)

lemma demo_inv: "manager_inv demo"
  unfolding demo_def io_inv by (rule manager_inv_init [OF mem_ok_empty])

lemma demo_malloc:
  "\<exists>sp. ObjectPool_Malloc (\<lambda>_ _. True) session_size 0 (session_pool demo) = Inr (Ptr 0 8, sp)"
  using first_malloc [of session_size 0] by (auto simp: demo_sel session_size_def)

lemma demo_serves: "serves demo_env demo"
  using demo_malloc by (auto simp: serves_def demo_env_def is_block_def)

text \<open>The same with one open session that is heard of \<open>a\<close> times more than heartbeats.\<close>

lemma demo_open:
  "\<exists>S. manager_inv S \<and> sessions S = [(key demo_endpoint, Ptr 0 8)] \<and> pending_sessions S = [] \<and>
     session_at S (Ptr 0 8) = Some ((Session_ctor demo_endpoint)\<lparr>is_alive_m := a\<rparr>) \<and>
     socket_m S = Some demo_socket \<and> io S = io demo \<and> spawned S = [] \<and> disconnected_calls S = [] \<and>
     have_to_stop S = False"
proof -
  obtain sp where m: "ObjectPool_Malloc (\<lambda>_ _. True) session_size 0 (session_pool demo) = Inr (Ptr 0 8, sp)"
    using demo_malloc by blast
  let ?S = "demo\<lparr>session_pool := sp, sessions := [(key demo_endpoint, Ptr 0 8)],
     session_at := [Ptr 0 8 \<mapsto> (Session_ctor demo_endpoint)\<lparr>is_alive_m := a\<rparr>]\<rparr>"
  have "opool_rel session_size (session_pool demo) (dom (session_at demo))"
    using demo_inv by (simp add: manager_inv_def)
  then have "opool_rel session_size sp {Ptr 0 8}" using Malloc_law [OF _ m] by (simp add: demo_sel)
  then have "manager_inv ?S"
    using demo_sel(10) by (simp add: manager_inv_def tables_ok_def entry_ok_def map_ok_def locks_free_def
        demo_sel Session_ctor_def)
  then show ?thesis by (intro exI [of _ ?S]) (simp add: demo_sel)
qed

subsection \<open>Whole rounds\<close>

lemma syn_round:
  assumes inv: "manager_inv S" and sk: "socket_m S = Some sk" "is_with_iocp_m sk" and srv: "serves E S"
    and syn: "datagram syn 2 (- 1)" and post: "1 \<le> posted (io S)"
    and none: "map_find (pending_sessions S) (key r) = None"
  shows "\<exists>S1 p. iocp_dispatch E True 6 (ReadIo syn r) S = Inr S1 \<and> manager_inv S1 \<and>
     session_at S p = None \<and> map_find (pending_sessions S1) (key r) = Some p \<and>
     session_at S1 p = Some (Session_ctor r) \<and> sessions S1 = sessions S \<and> spawned S1 = spawned S \<and>
     socket_m S1 = Some sk \<and> posted (io S1) = posted (io S) \<and>
     sent (io S1) = sent (io S) @ [(syn_ack syn, Addr r)]"
proof -
  obtain p sp where m: "ObjectPool_Malloc (grants E) session_size (thread E) (session_pool S) = Inr (p, sp)"
    using srv by (auto simp: serves_def)
  have blk: "is_block (fresh_block E)" using srv by (simp add: serves_def)
  have len: "6 \<le> length syn" using syn by (simp add: datagram_def socket_buf_size_def)
  let ?C = "complete (ReadIo syn r) S"
  have ci: "manager_inv ?C" using inv by (simp add: complete_inv)
  let ?T = "(after_syn r p sp ?C)\<lparr>io := (io ?C)
      \<lparr>sent := sent (io ?C) @ [(syn_ack syn, Addr r)], write_io_live := write_io_live (io ?C) + 1\<rparr>\<rparr>"
  have go: "on_syn E syn r ?C = Inr (Next, ?T)"
    using on_syn_eq [OF ci blk len, of p sp sk r] m sk by simp
  have tinv: "manager_inv ?T" and new: "session_at S p = None"
    using after_syn_inv [OF ci, of "grants E" "thread E" p sp r] m by (simp_all add: io_inv)
  have "socket_m ?T = Some sk" using sk(1) by (simp add: after_syn_def)
  from recycle_eq [OF this sk(2)] obtain S1 where s1: "recycle ?T = Inr S1"
    and S1: "S1 = ?T\<lparr>io := (io ?T)\<lparr>read_io_live := read_io_live (io ?T) - 1 + 1, posted := posted (io ?T) + 1\<rparr>\<rparr>"
    by blast
  have "iocp_dispatch E True 6 (ReadIo syn r) S = Inr S1"
    using dispatch_read [of 6] on_read_syn [OF syn go] s1 by simp
  moreover have "manager_inv S1" using tinv by (simp only: S1 io_inv)
  moreover have "map_ok (pending_sessions S)" using inv by (simp add: manager_inv_def tables_ok_def)
  then have "map_find (pending_sessions S1) (key r) = Some p"
    using om.find_ins [of "pending_sessions S" "key r" p "key r"] none by (simp add: S1 after_syn_def)
  ultimately show ?thesis using new sk(1) post
    by (intro exI [of _ S1] exI [of _ p]) (simp add: S1 after_syn_def complete_def)
qed

lemma ack_round:
  assumes inv: "manager_inv S" and sk: "socket_m S = Some sk" "is_with_iocp_m sk"
    and ack: "datagram ack 2 (- 3)" and post: "1 \<le> posted (io S)"
    and it: "map_find (pending_sessions S) (key r) = Some p" and none: "map_find (sessions S) (key r) = None"
  shows "\<exists>S2. iocp_dispatch E True 6 (ReadIo ack r) S = Inr S2 \<and> manager_inv S2 \<and>
     map_find (sessions S2) (key r) = Some p \<and> map_find (pending_sessions S2) (key r) = None \<and>
     session_at S2 = session_at S \<and> spawned S2 = spawned S @ [AcceptThread p] \<and>
     posted (io S2) = posted (io S)"
proof -
  let ?D = "complete (ReadIo ack r) S"
  have di: "manager_inv ?D" using inv by (simp add: complete_inv)
  obtain q where q: "map_find q = (map_find (pending_sessions ?D))(key r := None)"
    and go: "on_ack r ?D = Inr (Next, ?D\<lparr>pending_sessions := q, sessions := map_insert (sessions ?D) (key r) p,
       spawned := spawned ?D @ [AcceptThread p]\<rparr>)"
    using on_ack_eq [OF di, of r p] it by auto
  let ?U = "?D\<lparr>pending_sessions := q, sessions := map_insert (sessions ?D) (key r) p,
       spawned := spawned ?D @ [AcceptThread p]\<rparr>"
  have uinv: "manager_inv ?U" using on_ack_inv [OF di, of r] go by simp
  have "socket_m ?U = Some sk" using sk(1) by simp
  from recycle_eq [OF this sk(2)] obtain S2 where s2: "recycle ?U = Inr S2"
    and S2: "S2 = ?U\<lparr>io := (io ?U)\<lparr>read_io_live := read_io_live (io ?U) - 1 + 1, posted := posted (io ?U) + 1\<rparr>\<rparr>"
    by blast
  have "iocp_dispatch E True 6 (ReadIo ack r) S = Inr S2"
    using dispatch_read [of 6] on_read_ack [OF ack go] s2 by simp
  moreover have "manager_inv S2" using uinv by (simp only: S2 io_inv)
  moreover have "map_ok (sessions S)" using inv by (simp add: manager_inv_def tables_ok_def)
  then have "map_find (sessions S2) (key r) = Some p"
    using om.find_ins [of "sessions S" "key r" p "key r"] none by (simp add: S2)
  ultimately show ?thesis using q post by (intro exI [of _ S2]) (simp add: S2 complete_def)
qed

subsection \<open>Rounds that end early\<close>

text \<open>
  A completion after which the round takes a \<open>continue\<close>: a failed or short receive, or data
  from an address without a session.
\<close>

definition stray :: "(addr_key \<times> ptr) list \<Rightarrow> env \<times> bool \<times> u32 \<times> io_data \<Rightarrow> bool" where
  "stray tab c = (case c of (E, succ, bytes, d) \<Rightarrow> \<exists>buffer r sz ty. d = ReadIo buffer r \<and>
     datagram buffer sz ty \<and>
     (\<not> succ \<or> bytes < 4 \<or> data_bytes sz ty bytes \<and> map_find tab (key r) = None))"

lemma stray_dispatch:
  assumes lf: "locks_free S" and c: "stray (sessions S) (E, succ, bytes, d)"
  shows "iocp_dispatch E succ bytes d S = Inr (S\<lparr>io := (io S)\<lparr>posted := posted (io S) - 1\<rparr>\<rparr>)"
proof -
  obtain buffer r sz ty where d: "d = ReadIo buffer r" and dg: "datagram buffer sz ty"
    and w: "\<not> succ \<or> bytes < 4 \<or> data_bytes sz ty bytes \<and> map_find (sessions S) (key r) = None"
    using c by (auto simp: stray_def)
  have cd: "complete d S = S\<lparr>io := (io S)\<lparr>posted := posted (io S) - 1\<rparr>\<rparr>" by (simp add: complete_def d)
  show ?thesis
  proof (cases "succ \<and> \<not> bytes < 4")
    case False
    then show ?thesis unfolding iocp_dispatch_def Let_def cd by (cases succ) simp_all
  next
    case True
    then have db: "data_bytes sz ty bytes" and none: "map_find (sessions S) (key r) = None" using w by auto
    have "locks_free (complete d S)" using lf by (simp add: cd locks_free_def)
    then have "on_data buffer r (complete d S) = Inr (Continue, complete d S)"
      using none by (simp add: on_data_def find_session_eq)
    then have "on_read E bytes buffer r (complete d S) = Inr (complete d S)"
      using on_read_data [OF dg db] by simp
    then show ?thesis using True dispatch_read [of bytes] d cd by simp
  qed
qed

lemma stray_run:
  assumes "locks_free S" and "\<not> have_to_stop S" and "\<forall>c\<in>set cs. stray (sessions S) c"
  shows "iocp_task cs S = Inr (S\<lparr>io := (io S)\<lparr>posted := posted (io S) - length cs\<rparr>\<rparr>)"
  using assms
proof (induction cs arbitrary: S)
  case Nil
  then show ?case by simp
next
  case (Cons c cs)
  obtain E succ bytes d where c: "c = (E, succ, bytes, d)" by (cases c)
  let ?S = "S\<lparr>io := (io S)\<lparr>posted := posted (io S) - 1\<rparr>\<rparr>"
  have "iocp_task cs ?S = Inr (?S\<lparr>io := (io ?S)\<lparr>posted := posted (io ?S) - length cs\<rparr>\<rparr>)"
    by (rule Cons.IH) (use Cons.prems in \<open>simp_all add: locks_free_def\<close>)
  then show ?case using stray_dispatch [OF Cons.prems(1), of E succ bytes d] Cons.prems(2,3) c by simp
qed

subsection \<open>Silence\<close>

text \<open>One heartbeat on a session that was last heard of \<open>a\<close> ticks ahead.\<close>

lemma collect_single:
  assumes "manager_inv S" and "sessions S = [(k, p)]" and "session_at S p = Some s"
  shows "collect ds S = Inr (if sint (is_alive_m s - 1) < - 1 then ds @ [p] else ds,
     S\<lparr>session_at := (session_at S)(p \<mapsto> s\<lparr>is_alive_m := is_alive_m s - 1\<rparr>),
       sessions := (if sint (is_alive_m s - 1) < - 1 then [] else [(k, p)])\<rparr>)"
proof -
  have "aged {p} (session_at S) = (session_at S)(p \<mapsto> s\<lparr>is_alive_m := is_alive_m s - 1\<rparr>)"
    using assms(3) by (auto simp: aged_def fun_eq_iff)
  then show ?thesis using collect_eq [OF assms(1), of ds] assms(2,3) by (simp add: dead_def)
qed

text \<open>A session that reaches \<open>-3\<close> is handed to the disconnect handler and then deleted.\<close>

lemma disconnect_dead:
  assumes "manager_inv S" and "session_at S p = Some s" and "is_alive_m s = - 2"
  shows "disconnect p S = Inr (True, (set_alive p s (- 3) S)\<lparr>disconnected_calls := disconnected_calls S @ [p]\<rparr>)"
  using assms(3) session_of_eq [OF assms(1,2)] by (simp add: disconnect_def Let_def)

lemma delete_faults:
  assumes "manager_inv S" and "session_at S p = Some s"
  shows "delete_session p ((set_alive p t a S)\<lparr>disconnected_calls := ds\<rparr>) = Inl BadFree"
proof -
  have "opool_rel session_size (session_pool S) (dom (session_at S))" "p \<in> dom (session_at S)"
    using assms by (auto simp: manager_inv_def)
  then have "sys_free (omem (session_pool S)) p = Inl BadFree" using held_not_freeable by blast
  then show ?thesis by (simp add: delete_session_def)
qed

lemma heartbeat_never: "heartbeat ds S = Some r \<Longrightarrow> \<exists>e. r = Inl e"
  by (rule heartbeat.raw_induct [where P = "\<lambda>ds S r. \<exists>e. r = Inl e"]) (auto split: sum.splits dest: sym)

subsection \<open>Properties\<close>

text \<open>
  C9. The session tables stay consistent: a round of a worker, on any completion, returns as soon
  as the session pool can serve it, and keeps the invariant: both tables are ordered by their
  keys, an entry points to a constructed session of the same address, no session is in both
  tables, the constructed sessions are exactly the chunks of the session pool in use, and
  both locks are free again.
\<close>

theorem dispatch_safe:
  assumes "manager_inv S" and "serves E S"
    and "\<forall>buffer remote. d = ReadIo buffer remote \<longrightarrow> length buffer = socket_buf_size"
  shows "\<exists>S'. iocp_dispatch E succ bytes d S = Inr S' \<and> manager_inv S'"
  using assms by (rule dispatch_inv)

theorem dispatch_safe_witness:
  "\<exists>S'. iocp_dispatch demo_env True 6 (ReadIo (short_bytes 2 @ short_bytes (- 1) @ replicate 508 0) demo_endpoint) demo
       = Inr S' \<and> manager_inv S'"
  by (rule dispatch_safe [OF demo_inv demo_serves]) (simp add: socket_buf_size_def)

text \<open>
  C17. The handshake opens a session: a SYN from an unknown address is answered with the bytes it
  carried, under type -2, and makes a new pending session; the ACK from the same address
  makes that session an open one, starts the accept handler for it, and leaves nothing
  pending for the address.  After both rounds as many receives are posted as before.
\<close>

theorem handshake:
  assumes "manager_inv S" and "socket_m S = Some sk" and "is_with_iocp_m sk" and "serves E S"
    and "datagram syn 2 (- 1)" and "datagram ack 2 (- 3)" and "endpoint_eq r r'" and "1 \<le> posted (io S)"
    and "map_find (pending_sessions S) (key r) = None" and "map_find (sessions S) (key r) = None"
  shows "\<exists>S1 S2 p. iocp_dispatch E True 6 (ReadIo syn r) S = Inr S1 \<and>
     sent (io S1) = sent (io S) @ [(syn_ack syn, Addr r)] \<and>
     session_at S p = None \<and> map_find (pending_sessions S1) (key r) = Some p \<and>
     iocp_dispatch E' True 6 (ReadIo ack r') S1 = Inr S2 \<and>
     map_find (sessions S2) (key r) = Some p \<and> map_find (pending_sessions S2) (key r) = None \<and>
     session_at S2 p = Some (Session_ctor r) \<and> spawned S2 = spawned S @ [AcceptThread p] \<and>
     posted (io S2) = posted (io S) \<and> manager_inv S2"
proof -
  obtain S1 p where S1: "iocp_dispatch E True 6 (ReadIo syn r) S = Inr S1" "manager_inv S1"
    "session_at S p = None" "map_find (pending_sessions S1) (key r) = Some p"
    "session_at S1 p = Some (Session_ctor r)" "sessions S1 = sessions S" "spawned S1 = spawned S"
    "socket_m S1 = Some sk" "posted (io S1) = posted (io S)" "sent (io S1) = sent (io S) @ [(syn_ack syn, Addr r)]"
    using syn_round [OF assms(1-5,8,9)] by blast
  have kr: "key r' = key r" using assms(7) by (simp add: endpoint_eq_key)
  obtain S2 where "iocp_dispatch E' True 6 (ReadIo ack r') S1 = Inr S2" "manager_inv S2"
    "map_find (sessions S2) (key r) = Some p" "map_find (pending_sessions S2) (key r) = None"
    "session_at S2 = session_at S1" "spawned S2 = spawned S1 @ [AcceptThread p]"
    "posted (io S2) = posted (io S1)"
    using ack_round [OF S1(2,8) assms(3,6), of r' p E'] S1 assms(8,10) kr by auto
  then show ?thesis using S1 by (intro exI [of _ S1] exI [of _ S2] exI [of _ p]) simp
qed

theorem handshake_witness:
  "\<exists>S1 S2 p syn ack. iocp_dispatch demo_env True 6 (ReadIo syn demo_endpoint) demo = Inr S1 \<and>
     iocp_dispatch demo_env True 6 (ReadIo ack demo_endpoint) S1 = Inr S2 \<and>
     map_find (sessions S2) (key demo_endpoint) = Some p \<and> spawned S2 = [AcceptThread p]"
proof -
  let ?syn = "short_bytes 2 @ short_bytes (- 1) @ replicate 508 0"
    and ?ack = "short_bytes 2 @ short_bytes (- 3) @ replicate 508 0"
  have d: "datagram ?syn 2 (- 1)" "datagram ?ack 2 (- 3)"
    by (simp_all add: datagram_def read_header socket_buf_size_def)
  have "endpoint_eq demo_endpoint demo_endpoint" by (simp add: endpoint_eq_def)
  then show ?thesis
    using handshake [OF demo_inv demo_sel(1) _ demo_serves d, of demo_endpoint demo_endpoint demo_env]
    by (simp add: demo_sel demo_socket_def map_find_def) blast
qed

text \<open>
  C18. Data find their session and, in time, their handler: when a datagram whose size field matches the bytes
  received (at most a receive buffer) comes from the address of an open session, that session's count
  goes up by one (in 16 bits), and a receive is posted again.  If the count is then below -1 nothing else
  happens.  Otherwise a thread is started for the packet handler: if it runs before the round gives the
  buffer back, it calls the handler with that session and a packet with the size, the type and the
  body that were received, parsed in bounds; if it runs later, its references dangle.
\<close>

theorem data_delivery:
  assumes inv: "manager_inv S" and sk: "socket_m S = Some sk" "is_with_iocp_m sk" and post: "1 \<le> posted (io S)"
    and it: "map_find (sessions S) (key r) = Some p" and s: "session_at S p = Some s"
    and dg: "datagram buffer sz ty" "data_bytes sz ty bytes" "unat bytes \<le> socket_buf_size" and blk: "is_block fresh"
  shows "\<exists>S'. iocp_dispatch E True bytes (ReadIo buffer r) S = Inr S' \<and>
     session_at S' = (session_at S)(p \<mapsto> s\<lparr>is_alive_m := is_alive_m s + 1\<rparr>) \<and> posted (io S') = posted (io S) \<and>
     (if sint (is_alive_m s + 1) < - 1 then spawned S' = spawned S
      else \<exists>x d. spawned S' = spawned S @ [x] \<and> handler_args fresh InRound x = Inr (p, Some d) \<and>
        Size d = sz \<and> PacketType d = ty \<and> unat sz + 4 = unat bytes \<and>
        take (unat sz) (Data d) = take (unat sz) (drop 4 buffer) \<and> handler_args fresh AfterRound x = Inl BadAccess)"
proof -
  have sz: "unat sz + 4 = unat bytes" by (rule data_size [OF dg(2,3)])
  let ?C = "complete (ReadIo buffer r) S"
  have ci: "manager_inv ?C" using inv by (simp add: complete_inv)
  let ?A = "set_alive p s (is_alive_m s + 1) ?C"
  let ?B = "if sint (is_alive_m s + 1) > - 2 then ?A\<lparr>spawned := spawned ?A @ [PacketThread p buffer]\<rparr> else ?A"
  have "on_data buffer r ?C = Inr (Next, ?B)"
    using it s session_of_eq [OF ci, of p s] by (simp add: on_data_def find_session_eq [OF manager_inv_locks [OF ci]] Let_def)
  moreover have "\<not> bytes < 4" using dg(2) by (simp add: data_bytes_def)
  moreover have "socket_m ?B = Some sk" using sk(1) by simp
  ultimately have run: "iocp_dispatch E True bytes (ReadIo buffer r) S = Inr (?B\<lparr>io := (io ?B)
      \<lparr>read_io_live := read_io_live (io ?B) - 1 + 1, posted := posted (io ?B) + 1\<rparr>\<rparr>)"
    using on_read_data [OF dg(1,2)] dispatch_read [of bytes] recycle_eq [of ?B sk] sk(2) by simp
  have "Packet_parse fresh buffer = Inr \<lparr>size_m = sz, packet_type_m = ty,
      body_m = take (unat sz) (drop 4 buffer) @ drop (unat sz) (body_m fresh)\<rparr>"
    by (rule Packet_parse_ok) (use dg sz blk in \<open>simp_all add: datagram_def socket_buf_size_def\<close>)
  then have "\<exists>d. handler_args fresh InRound (PacketThread p buffer) = Inr (p, Some d) \<and>
        Size d = sz \<and> PacketType d = ty \<and> take (unat sz) (Data d) = take (unat sz) (drop 4 buffer)"
    using sz dg(1,3) by (simp add: Size_def PacketType_def Data_def datagram_def)
  then show ?thesis using run post sz by (simp add: complete_def)
qed

theorem data_delivery_witness:
  "\<exists>S S' x d buffer. iocp_dispatch demo_env True 7 (ReadIo buffer demo_endpoint) S = Inr S' \<and>
     spawned S' = [x] \<and> handler_args (fresh_block demo_env) InRound x = Inr (Ptr 0 8, Some d) \<and> Size d = 3 \<and>
     take 3 (Data d) = [5, 5, 5]"
proof -
  obtain S where S: "manager_inv S" "sessions S = [(key demo_endpoint, Ptr 0 8)]"
    "session_at S (Ptr 0 8) = Some ((Session_ctor demo_endpoint)\<lparr>is_alive_m := 0\<rparr>)"
    "socket_m S = Some demo_socket" "io S = io demo" "spawned S = []"
    using demo_open [of 0] by blast
  let ?b = "short_bytes 3 @ short_bytes 1 @ replicate 508 5"
  have d: "datagram ?b 3 1" "data_bytes 3 1 7"
    by (simp_all add: datagram_def read_header socket_buf_size_def data_bytes_def)
  have m: "map_find (sessions S) (key demo_endpoint) = Some (Ptr 0 8)" using S(2) by (simp add: map_find_def)
  have b: "take 3 (drop 4 ?b) = [5, 5, 5]" by (simp add: eval_nat_numeral short_bytes_def)
  have l: "is_with_iocp_m demo_socket" "1 \<le> posted (io S)" "unat (7 :: u32) \<le> socket_buf_size" "is_block (fresh_block demo_env)"
    using S(5) by (simp_all add: demo_socket_def demo_sel demo_env_def is_block_def socket_buf_size_def)
  from data_delivery [OF S(1,4) l(1,2) m S(3) d l(3,4), of demo_env] S(6) b
  show ?thesis by (auto simp: Session_ctor_def)
qed

text \<open>
  The server can be made deaf: a round that takes a \<open>continue\<close> neither frees its buffer nor
  posts a new receive.  As many datagrams as there are posted receives, from addresses
  without a session, leave no receive posted and every buffer in use, and change nothing
  else.
\<close>

theorem receive_starvation:
  assumes "manager_inv S" and "\<not> have_to_stop S" and "length cs = posted (io S)"
    and "\<forall>c\<in>set cs. stray (sessions S) c"
  shows "\<exists>S'. iocp_task cs S = Inr S' \<and> posted (io S') = 0 \<and> read_io_live (io S') = read_io_live (io S) \<and>
     S' = S\<lparr>io := (io S)\<lparr>posted := 0\<rparr>\<rparr>"
  using stray_run [OF manager_inv_locks [OF assms(1)] assms(2,4)] assms(3) by simp

theorem receive_starvation_witness:
  "\<exists>buffer. iocp_task [(demo_env, True, 5, ReadIo buffer demo_endpoint)] demo =
     Inr (demo\<lparr>io := (io demo)\<lparr>posted := 0\<rparr>\<rparr>)"
proof -
  let ?b = "short_bytes 1 @ short_bytes 0 @ replicate 508 5"
  have "datagram ?b 1 0" "data_bytes 1 0 5"
    by (simp_all add: datagram_def read_header socket_buf_size_def data_bytes_def)
  then have "stray (sessions demo) (demo_env, True, 5, ReadIo ?b demo_endpoint)"
    unfolding stray_def by (auto simp: demo_sel map_find_def)
  then have "\<forall>c\<in>set [(demo_env, True, 5, ReadIo ?b demo_endpoint)]. stray (sessions demo) c" by simp
  from receive_starvation [OF demo_inv _ _ this] show ?thesis
    unfolding demo_sel(4,7) by fastforce
qed

text \<open>
  C34. The first time-out is fatal: a session from which nothing arrives after the handshake
  survives one heartbeat; the next takes it out of the table and calls the disconnect
  handler, and then \<open>delete\<close> hands a chunk of the session pool to \<open>::free\<close>, which is a fault.
\<close>

theorem silent_session_fatal:
  assumes inv: "manager_inv S" and ses: "sessions S = [(k, p)]" and s: "session_at S p = Some s"
    and zero: "is_alive_m s = 0"
  shows "\<exists>S1 S2 S3. tick [] S = Inr ([], S1) \<and> sessions S1 = [(k, p)] \<and>
     collect [] S1 = Inr ([p], S2) \<and> sessions S2 = [] \<and>
     disconnect p S2 = Inr (True, S3) \<and> disconnected_calls S3 = disconnected_calls S @ [p] \<and>
     tick [] S1 = Inl BadFree"
proof -
  let ?S1 = "S\<lparr>session_at := (session_at S)(p \<mapsto> s\<lparr>is_alive_m := - 1\<rparr>), sessions := [(k, p)]\<rparr>"
  let ?S2 = "?S1\<lparr>session_at := (session_at ?S1)(p \<mapsto> s\<lparr>is_alive_m := - 2\<rparr>), sessions := []\<rparr>"
  have c1: "collect [] S = Inr ([], ?S1)" using collect_single [OF inv ses s, of "[]"] zero by simp
  have i1: "manager_inv ?S1" by (rule collect_inv [OF inv c1])
  have c2: "collect [] ?S1 = Inr ([p], ?S2)" using collect_single [OF i1, of k p "s\<lparr>is_alive_m := - 1\<rparr>" "[]"] by simp
  have i2: "manager_inv ?S2" by (rule collect_inv [OF i1 c2])
  have a2: "session_at ?S2 p = Some (s\<lparr>is_alive_m := - 2\<rparr>)" by simp
  note d = disconnect_dead [OF i2 a2]
  have "tick [] S = Inr ([], ?S1)" using c1 by (simp add: tick_def)
  moreover have "tick [] ?S1 = Inl BadFree" using c2 d delete_faults [OF i2 a2] by (simp add: tick_def)
  ultimately show ?thesis
    by (intro exI conjI) (fact | rule c2 d | simp)+
qed

theorem silent_session_fatal_witness:
  "\<exists>S S1. manager_inv S \<and> tick [] S = Inr ([], S1) \<and> tick [] S1 = Inl BadFree"
proof -
  obtain S where S: "manager_inv S" "sessions S = [(key demo_endpoint, Ptr 0 8)]"
    "session_at S (Ptr 0 8) = Some ((Session_ctor demo_endpoint)\<lparr>is_alive_m := 0\<rparr>)"
    using demo_open [of 0] by blast
  from silent_session_fatal [OF S] S(1) show ?thesis by auto
qed

text \<open>
  Two workers that handle an ACK of the same client race: both can find the pending session
  before either erases it (the read lock is released in between), and then the second erases
  an iterator whose entry is gone.
\<close>

theorem ack_race:
  assumes "manager_inv S" and "map_find (pending_sessions S) (key r) = Some p"
  shows "\<exists>S1. ack_find r S = Inr (Some p, S) \<and> ack_erase (key r, p) S = Inr ((), S1) \<and>
     ack_erase (key r, p) S1 = Inl BadIterator"
proof -
  have lf: "locks_free S" using assms(1) by (rule manager_inv_locks)
  have po: "map_ok (pending_sessions S)" using assms(1) by (simp add: manager_inv_def tables_ok_def)
  obtain m where m: "map_erase (pending_sessions S) (key r, p) = Inr m"
    using om.erase_some [OF po assms(2)] by blast
  have "map_erase m (key r, p) = Inl BadIterator" by (rule om.erase_twice [OF po m])
  moreover have "locks_free (S\<lparr>pending_sessions := m\<rparr>)" using lf by (simp add: locks_free_def)
  ultimately show ?thesis
    using m assms(2) by (simp add: ack_find_eq [OF lf] ack_erase_eq [OF lf] ack_erase_eq)
qed

theorem ack_race_witness:
  "\<exists>S S1 p. ack_find demo_endpoint S = Inr (Some p, S) \<and>
     ack_erase (key demo_endpoint, p) S = Inr ((), S1) \<and> ack_erase (key demo_endpoint, p) S1 = Inl BadIterator"
proof -
  let ?syn = "short_bytes 2 @ short_bytes (- 1) @ replicate 508 0"
  have "datagram ?syn 2 (- 1)" by (simp add: datagram_def read_header socket_buf_size_def)
  from syn_round [OF demo_inv demo_sel(1) _ demo_serves this, of demo_endpoint]
  obtain S p where "manager_inv S" "map_find (pending_sessions S) (key demo_endpoint) = Some p"
    by (auto simp: demo_sel demo_socket_def map_find_def)
  from ack_race [OF this] show ?thesis by blast
qed

text \<open>
  C37. The destructor of a manager that is running never returns: it joins the heartbeat thread,
  whose loop looks at no flag and can only end in a fault.
\<close>

theorem dtor_never_returns:
  assumes "0 < threads S"
  shows "SessionManager_dtor ds S \<noteq> Some (Inr S')"
proof
  assume d: "SessionManager_dtor ds S = Some (Inr S')"
  then obtain r where r: "heartbeat ds (S\<lparr>have_to_stop := True\<rparr>) = Some r" "rbind r (\<lambda>(_, S2). Inr S2) = Inr S'"
    using assms by (auto simp: SessionManager_dtor_def Let_def)
  then show False using heartbeat_never [OF r(1)] by auto
qed

theorem dtor_never_returns_witness:
  "\<forall>S'. SessionManager_dtor [] (snd (Run (SetPacketHandler (Some 3) (SetDisconnectHandler (Some 2)
     (SetAcceptHandler (Some 1) demo))))) \<noteq> Some (Inr S')"
  by (rule allI, rule dtor_never_returns)
    (simp add: Run_def SetPacketHandler_def SetDisconnectHandler_def SetAcceptHandler_def
      demo_def SessionManager_ctor_def)

text \<open>\<open>Run\<close> starts the threads exactly when the port was created and all three handlers are set.\<close>

lemma Run_ready:
  "is_inited_all S = 0 \<Longrightarrow>
   fst (Run (SetPacketHandler c (SetDisconnectHandler b (SetAcceptHandler a S))))"
  by (simp add: Run_def SetPacketHandler_def SetDisconnectHandler_def SetAcceptHandler_def)

lemma Run_no_port:
  "\<not> fst (Run (SetPacketHandler c (SetDisconnectHandler b (SetAcceptHandler a (SessionManager_ctor None was assoc e n sp)))))"
  by (simp add: Run_def SetPacketHandler_def SetDisconnectHandler_def SetAcceptHandler_def SessionManager_ctor_def)

end
