(* ===== verification/Protocol.thy ===== *)
theory Protocol
  imports SessionManagerSpec
begin

section \<open>The session protocol, one peer at a time\<close>

text \<open>
  What the session manager is for, without tables, pointers, locks or buffers: every peer address
  has a state of its own, datagrams from that address move it, and the user is told of accepted
  sessions and delivered data.  A peer is half open after a SYN, open after the ACK, and an open one
  carries the counter that data and heartbeats raise and every ten seconds lower.  The rounds of
  theory \<open>SessionManager\<close> refine this, for all peers at once.
\<close>

datatype event = Syn | Ack | Beat | Data | Junk

text \<open>How a round reads the first four bytes and the number of bytes received.\<close>

definition classify :: "u32 \<Rightarrow> byte list \<Rightarrow> event" where
  "classify bytes buffer =
     (case (read_short buffer 0, read_short buffer 2) of
        (Inr sz, Inr ty) \<Rightarrow>
          if bytes = 6 \<and> sz = 2 \<and> ty = - 1 then Syn
          else if bytes = 6 \<and> sz = 2 \<and> ty = - 3 then Ack
          else if bytes = 4 \<and> sz = 0 \<and> ty = - 1 then Beat
          else if word_of_int (sint sz + 4) = bytes then Data else Junk
      | _ \<Rightarrow> Junk)"

record peer =
  half_open :: "u16 option"
  opened :: "u16 option"

text \<open>
  A second SYN changes nothing; the ACK of a half open peer opens it, but does not replace a session
  that is open already; data and heartbeats count for open peers only.
\<close>

fun peer_step :: "event \<Rightarrow> peer \<Rightarrow> peer" where
  "peer_step Syn c = c\<lparr>half_open := (case half_open c of None \<Rightarrow> Some 0 | Some a \<Rightarrow> Some a)\<rparr>"
| "peer_step Ack c = (case half_open c of
     None \<Rightarrow> c
   | Some a \<Rightarrow> \<lparr>half_open = None, opened = (case opened c of None \<Rightarrow> Some a | Some b \<Rightarrow> Some b)\<rparr>)"
| "peer_step Beat c = c\<lparr>opened := map_option (\<lambda>a. a + 1) (opened c)\<rparr>"
| "peer_step Data c = c\<lparr>opened := map_option (\<lambda>a. a + 1) (opened c)\<rparr>"
| "peer_step Junk c = c"

definition peer_age :: "peer \<Rightarrow> peer" where
  "peer_age c = c\<lparr>opened := (case opened c of
     None \<Rightarrow> None | Some a \<Rightarrow> if sint (a - 1) < - 1 then None else Some (a - 1))\<rparr>"

text \<open>What the user hears.\<close>

datatype notice = Accepted | Delivered "byte list"

fun notices :: "event \<Rightarrow> byte list \<Rightarrow> peer \<Rightarrow> notice list" where
  "notices Ack buffer c = (if half_open c = None then [] else [Accepted])"
| "notices Data buffer c = (case opened c of
     None \<Rightarrow> [] | Some a \<Rightarrow> if sint (a + 1) > - 2 then [Delivered buffer] else [])"
| "notices _ buffer c = []"

subsection \<open>The view of a manager\<close>

definition alive_at :: "manager \<Rightarrow> ptr option \<Rightarrow> u16 option" where
  "alive_at S q = (case q of None \<Rightarrow> None | Some p \<Rightarrow> map_option is_alive_m (session_at S p))"

definition peer_of :: "manager \<Rightarrow> addr_key \<Rightarrow> peer" where
  "peer_of S k = \<lparr>half_open = alive_at S (map_find (pending_sessions S) k),
     opened = alive_at S (map_find (sessions S) k)\<rparr>"

fun notice_of :: "spawn \<Rightarrow> notice" where
  "notice_of (AcceptThread p) = Accepted"
| "notice_of (PacketThread p buffer) = Delivered buffer"

definition heard :: "manager \<Rightarrow> notice list" where
  "heard S = map notice_of (spawned S)"

text \<open>\<open>moved k ev buffer S S'\<close>: from \<open>S\<close> to \<open>S'\<close> peer \<open>k\<close> makes the step \<open>ev\<close>, the others make none.\<close>

definition moved :: "addr_key \<Rightarrow> event \<Rightarrow> byte list \<Rightarrow> manager \<Rightarrow> manager \<Rightarrow> bool" where
  "moved k ev buffer S S' \<longleftrightarrow> manager_inv S' \<and> have_to_stop S' = have_to_stop S \<and>
     (\<forall>j. peer_of S' j = (if j = k then peer_step ev (peer_of S k) else peer_of S j)) \<and>
     heard S' = heard S @ notices ev buffer (peer_of S k)"

lemma alive_at_simps [simp]:
  "alive_at S None = None" "session_at S p = Some s \<Longrightarrow> alive_at S (Some p) = Some (is_alive_m s)"
  by (simp_all add: alive_at_def)

lemma view_io [simp]: "peer_of (S\<lparr>io := N\<rparr>) = peer_of S" "heard (S\<lparr>io := N\<rparr>) = heard S"
  by (simp_all add: fun_eq_iff peer_of_def alive_at_def heard_def split: option.splits)

lemma moved_io: "moved k ev buffer S (S'\<lparr>io := N\<rparr>) = moved k ev buffer S S'"
  by (simp add: moved_def io_inv)

lemma moved_from_io: "moved k ev buffer (S\<lparr>io := N\<rparr>) S' = moved k ev buffer S S'"
  by (simp add: moved_def)

lemma moved_none: "manager_inv S \<Longrightarrow> peer_step ev (peer_of S k) = peer_of S k \<Longrightarrow>
    notices ev buffer (peer_of S k) = [] \<Longrightarrow> moved k ev buffer S S"
  by (simp add: moved_def)

text \<open>In a consistent manager what a table finds is a constructed session.\<close>

lemma pending_entry:
  assumes "manager_inv S" and "map_find (pending_sessions S) k = Some p"
  obtains s where "session_at S p = Some s" "half_open (peer_of S k) = Some (is_alive_m s)"
  using find_entry [OF assms(1)] assms(2) by (auto simp: peer_of_def)

lemma open_entry:
  assumes "manager_inv S" and "map_find (sessions S) k = Some p"
  obtains s where "session_at S p = Some s" "opened (peer_of S k) = Some (is_alive_m s)"
  using find_entry [OF assms(1)] assms(2) by (auto simp: peer_of_def)

text \<open>One session, one address, one table.\<close>

lemma entry_unique:
  assumes inv: "manager_inv S" and p: "map_find (sessions S) k = Some p"
  shows "map_find (sessions S) j = Some p \<Longrightarrow> j = k" and "map_find (pending_sessions S) j \<noteq> Some p"
proof -
  have ok: "map_ok (sessions S)" "map_ok (pending_sessions S)"
    and apart: "snd ` set (sessions S) \<inter> snd ` set (pending_sessions S) = {}"
    using inv by (simp_all add: manager_inv_def tables_ok_def)
  obtain s where s: "session_at S p = Some s" "key (endpoint_m s) = k" using find_entry [OF inv] p by blast
  show "j = k" if j: "map_find (sessions S) j = Some p"
  proof -
    obtain s' where "session_at S p = Some s'" "key (endpoint_m s') = j"
      using find_entry [OF inv disjI1 [OF j]] by blast
    then show ?thesis using s by simp
  qed
  have "p \<in> snd ` set (sessions S)" using map_find_set [OF ok(1), of k p] p by (metis imageI snd_conv)
  moreover have "p \<in> snd ` set (pending_sessions S)" if "map_find (pending_sessions S) j = Some p"
    using map_find_set [OF ok(2), of j p] that by (metis imageI snd_conv)
  ultimately show "map_find (pending_sessions S) j \<noteq> Some p" using apart by blast
qed

subsection \<open>The branches\<close>

lemma alive_at_set:
  "alive_at (set_alive p s a S) q = (if q = Some p then Some a else alive_at S q)"
  by (cases q) (simp_all add: alive_at_def)

lemma alive_moved:
  assumes inv: "manager_inv S" and p: "map_find (sessions S) k = Some p" and s: "session_at S p = Some s"
  shows "peer_of (set_alive p s a S) j = (if j = k then (peer_of S k)\<lparr>opened := Some a\<rparr> else peer_of S j)"
proof -
  have "map_find (pending_sessions S) j \<noteq> Some p" by (rule entry_unique(2) [OF inv p])
  moreover have "map_find (sessions S) j = Some p \<longleftrightarrow> j = k"
    using entry_unique(1) [OF inv p, of j] p by metis
  ultimately show ?thesis by (simp add: peer_of_def alive_at_set)
qed

lemma beat_moved:
  assumes inv: "manager_inv S" and go: "on_heartbeat r S = Inr (f, S')"
  shows "moved (key r) Beat buffer S S'"
proof (cases "map_find (sessions S) (key r)")
  case None
  then have "S' = S" using go by (simp add: on_heartbeat_def find_session_eq [OF manager_inv_locks [OF inv]])
  moreover have "opened (peer_of S (key r)) = None" using None by (simp add: peer_of_def)
  ultimately show ?thesis by (simp add: moved_none inv)
next
  case (Some p)
  obtain s where s: "session_at S p = Some s" "opened (peer_of S (key r)) = Some (is_alive_m s)"
    by (rule open_entry [OF inv Some])
  then have S': "S' = set_alive p s (is_alive_m s + 1) S"
    using go Some session_of_eq [OF inv s(1)]
    by (simp add: on_heartbeat_def find_session_eq [OF manager_inv_locks [OF inv]])
  have "have_to_stop S' = have_to_stop S" "heard S' = heard S" by (simp_all add: S' set_alive_def heard_def)
  then show ?thesis
    using alive_moved [OF inv Some s(1), of "is_alive_m s + 1"] set_alive_inv [OF inv s(1)] s(2)
    by (simp add: moved_def S')
qed

lemma data_moved:
  assumes inv: "manager_inv S" and go: "on_data buffer r S = Inr (f, S')"
  shows "moved (key r) Data buffer S S'"
proof (cases "map_find (sessions S) (key r)")
  case None
  then have "S' = S" using go by (simp add: on_data_def find_session_eq [OF manager_inv_locks [OF inv]])
  moreover have "opened (peer_of S (key r)) = None" using None by (simp add: peer_of_def)
  ultimately show ?thesis by (simp add: moved_none inv)
next
  case (Some p)
  obtain s where s: "session_at S p = Some s" "opened (peer_of S (key r)) = Some (is_alive_m s)"
    by (rule open_entry [OF inv Some])
  let ?a = "is_alive_m s + 1" and ?S = "set_alive p s (is_alive_m s + 1) S"
  have S': "S' = (if sint ?a > - 2 then ?S\<lparr>spawned := spawned ?S @ [PacketThread p buffer]\<rparr> else ?S)"
    using go Some session_of_eq [OF inv s(1)]
    by (simp add: on_data_def find_session_eq [OF manager_inv_locks [OF inv]] Let_def split del: if_split)
  have v: "peer_of (T\<lparr>spawned := q\<rparr>) = peer_of T" for T q
    by (simp add: fun_eq_iff peer_of_def alive_at_def split: option.splits)
  have "have_to_stop S' = have_to_stop S" by (simp add: S' set_alive_def)
  moreover have "heard S' = heard S @ notices Data buffer (peer_of S (key r))"
    using s(2) by (simp add: S' heard_def)
  moreover have "manager_inv S'" using set_alive_inv [OF inv s(1), of ?a] by (simp add: S' spawned_inv)
  moreover have "peer_of S' j = (if j = key r then peer_step Data (peer_of S (key r)) else peer_of S j)" for j
  proof -
    have "peer_of S' j = peer_of ?S j" by (simp add: S' v)
    moreover have "peer_step Data (peer_of S (key r)) = (peer_of S (key r))\<lparr>opened := Some ?a\<rparr>"
      using s(2) by simp
    ultimately show ?thesis using alive_moved [OF inv Some s(1), of ?a j] by simp
  qed
  ultimately show ?thesis by (simp add: moved_def)
qed

lemma ack_moved:
  assumes inv: "manager_inv S" and go: "on_ack r S = Inr (f, S')"
  shows "moved (key r) Ack buffer S S'"
proof (cases "map_find (pending_sessions S) (key r)")
  case None
  then have "S' = S" using go by (simp add: on_ack_def ack_find_eq [OF manager_inv_locks [OF inv]])
  moreover have "half_open (peer_of S (key r)) = None" using None by (simp add: peer_of_def)
  ultimately show ?thesis by (simp add: moved_none inv)
next
  case (Some p)
  obtain s where s: "session_at S p = Some s" "half_open (peer_of S (key r)) = Some (is_alive_m s)"
    by (rule pending_entry [OF inv Some])
  obtain m where m: "map_find m = (map_find (pending_sessions S))(key r := None)"
    and S': "S' = S\<lparr>pending_sessions := m, sessions := map_insert (sessions S) (key r) p,
       spawned := spawned S @ [AcceptThread p]\<rparr>"
    using on_ack_eq [OF inv Some] go by auto
  have ok: "map_ok (sessions S)" using inv by (simp add: manager_inv_def tables_ok_def)
  have al: "alive_at S' = alive_at S" by (simp add: S' alive_at_def fun_eq_iff split: option.splits)
  have ss: "map_find (sessions S') j = (if j = key r \<and> map_find (sessions S) (key r) = None
      then Some p else map_find (sessions S) j)" for j
    using om.find_ins [OF ok, of "key r" p j] by (simp add: S')
  have ps: "map_find (pending_sessions S') j = (if j = key r then None else map_find (pending_sessions S) j)" for j
    using m by (simp add: S')
  have "peer_of S' j = (if j = key r then peer_step Ack (peer_of S (key r)) else peer_of S j)" for j
  proof (cases "map_find (sessions S) (key r)")
    case None
    then have "opened (peer_of S (key r)) = None" by (simp add: peer_of_def)
    then show ?thesis using None s by (simp add: peer_of_def al ss ps)
  next
    case (Some q)
    obtain s' where "session_at S q = Some s'" "opened (peer_of S (key r)) = Some (is_alive_m s')"
      by (rule open_entry [OF inv Some])
    then show ?thesis using Some s by (simp add: peer_of_def al ss ps)
  qed
  moreover have "manager_inv S'" using on_ack_inv [OF inv, of r] go by simp
  ultimately show ?thesis using s(2) by (simp add: moved_def heard_def) (simp add: S')
qed

lemma syn_moved:
  assumes inv: "manager_inv S" and blk: "is_block (fresh_block E)" and b: "6 \<le> length buffer"
    and go: "on_syn E buffer r S = Inr (f, S')"
  shows "moved (key r) Syn buffer S S'"
proof -
  obtain p sp where m: "ObjectPool_Malloc (grants E) session_size (thread E) (session_pool S) = Inr (p, sp)"
    using go by (cases "ObjectPool_Malloc (grants E) session_size (thread E) (session_pool S)")
      (auto simp: on_syn_def)
  obtain sk where sk: "socket_m S = Some sk" using inv by (auto simp: manager_inv_def)
  let ?T = "after_syn r p sp S"
  obtain N where S': "S' = ?T\<lparr>io := N\<rparr>"
    using trans [OF go [symmetric] on_syn_eq [OF inv blk b m sk, of r]] by blast
  have ok: "map_ok (pending_sessions S)" using inv by (simp add: manager_inv_def tables_ok_def)
  have ti: "manager_inv ?T" and new: "session_at S p = None" using after_syn_inv [OF inv m] by simp_all
  have np: "q \<noteq> p" if "map_find (sessions S) j = Some q \<or> map_find (pending_sessions S) j = Some q" for j q
    using find_entry [OF inv that] new by auto
  have al: "alive_at ?T x = alive_at S x" if "x \<noteq> Some p" for x
    using that by (cases x) (auto simp: alive_at_def after_syn_def)
  have alp: "alive_at ?T (Some p) = Some 0" by (simp add: alive_at_def after_syn_def Session_ctor_def)
  have se: "alive_at ?T (map_find (sessions S) j) = alive_at S (map_find (sessions S) j)" for j
    by (rule al) (use np in auto)
  have pe: "alive_at ?T (map_find (pending_sessions S) j) = alive_at S (map_find (pending_sessions S) j)" for j
    by (rule al) (use np in auto)
  have f: "sessions ?T = sessions S" "pending_sessions ?T = map_insert (pending_sessions S) (key r) p"
    "heard ?T = heard S" "have_to_stop ?T = have_to_stop S"
    by (simp_all add: after_syn_def heard_def)
  have "peer_of ?T j = (if j = key r then peer_step Syn (peer_of S (key r)) else peer_of S j)" for j
  proof (cases "map_find (pending_sessions S) (key r)")
    case None
    then show ?thesis using om.find_ins [OF ok, of "key r" p j]
      by (simp add: peer_of_def f se pe alp)
  next
    case (Some q)
    then obtain s where "session_at S q = Some s" using find_entry [OF inv] by blast
    then show ?thesis using Some om.find_ins [OF ok, of "key r" p j] pe [of "key r"]
      by (simp add: peer_of_def f se pe)
  qed
  then have "moved (key r) Syn buffer S ?T" using ti f by (simp add: moved_def)
  then show ?thesis unfolding S' moved_io .
qed


subsection \<open>Rounds\<close>

lemma recycle_io: "recycle S = Inr S' \<Longrightarrow> \<exists>N. S' = S\<lparr>io := N\<rparr>"
  by (auto simp: recycle_def recv_def split: option.splits)

text \<open>The datagram a completion brings, if it brings one that the round looks at.\<close>

definition event_of :: "env \<times> bool \<times> u32 \<times> io_data \<Rightarrow> (addr_key \<times> event \<times> byte list) option" where
  "event_of c = (case c of (E, succ, bytes, d) \<Rightarrow> (case d of
     ReadIo buffer r \<Rightarrow> if \<not> succ \<or> bytes < 4 then None else Some (key r, classify bytes buffer, buffer)
   | WriteIo \<Rightarrow> None))"

definition whole :: "env \<times> bool \<times> u32 \<times> io_data \<Rightarrow> bool" where
  "whole c = (case c of (E, succ, bytes, d) \<Rightarrow> is_block (fresh_block E) \<and>
     (case d of ReadIo buffer r \<Rightarrow> length buffer = socket_buf_size | WriteIo \<Rightarrow> True))"

lemma read_moved:
  assumes inv: "manager_inv S" and blk: "is_block (fresh_block E)" and len: "length buffer = socket_buf_size"
    and go: "on_read E bytes buffer r S = Inr S'"
  shows "moved (key r) (classify bytes buffer) buffer S S'"
proof -
  obtain sz ty where h: "read_short buffer 0 = Inr sz" "read_short buffer 2 = Inr ty"
    using read_short_ok [of 0 buffer] read_short_ok [of 2 buffer] len by (auto simp: socket_buf_size_def)
  let ?go = "if bytes = 6 \<and> sz = 2 \<and> ty = - 1 then on_syn E buffer r S
            else if bytes = 6 \<and> sz = 2 \<and> ty = - 3 then on_ack r S
            else if bytes = 4 \<and> sz = 0 \<and> ty = - 1 then on_heartbeat r S
            else if word_of_int (sint sz + 4) = bytes then on_data buffer r S
            else Inr (Next, S)"
  have "on_read E bytes buffer r S =
      rbind ?go (\<lambda>(f, S1). case f of Continue \<Rightarrow> Inr S1 | Next \<Rightarrow> recycle S1)"
    by (simp only: on_read_def h rbind_Inr)
  then obtain f S1 where g: "?go = Inr (f, S1)" and e: "(case f of Continue \<Rightarrow> Inr S1 | Next \<Rightarrow> recycle S1) = Inr S'"
    using go by (cases ?go) auto
  have c: "classify bytes buffer = (if bytes = 6 \<and> sz = 2 \<and> ty = - 1 then Syn
      else if bytes = 6 \<and> sz = 2 \<and> ty = - 3 then Ack
      else if bytes = 4 \<and> sz = 0 \<and> ty = - 1 then Beat
      else if word_of_int (sint sz + 4) = bytes then Data else Junk)"
    by (simp only: classify_def h prod.case sum.case)
  have b: "6 \<le> length buffer" using len by (simp add: socket_buf_size_def)
  have junk: "moved (key r) Junk buffer S S" by (rule moved_none [OF inv]) simp_all
  consider (syn) "bytes = 6 \<and> sz = 2 \<and> ty = - 1" "on_syn E buffer r S = Inr (f, S1)" "classify bytes buffer = Syn"
    | (ack) "on_ack r S = Inr (f, S1)" "classify bytes buffer = Ack"
    | (beat) "on_heartbeat r S = Inr (f, S1)" "classify bytes buffer = Beat"
    | (data) "on_data buffer r S = Inr (f, S1)" "classify bytes buffer = Data"
    | (junk) "S = S1" "classify bytes buffer = Junk"
    using g unfolding c by (simp split: if_split_asm)
  then have "moved (key r) (classify bytes buffer) buffer S S1"
    by cases (use syn_moved [OF inv blk b] ack_moved [OF inv] beat_moved [OF inv] data_moved [OF inv] junk in simp_all)
  moreover have "\<exists>N. S' = S1\<lparr>io := N\<rparr>"
  proof (cases f)
    case Next
    then show ?thesis using e recycle_io by simp
  next
    case Continue
    then have "S' = S1\<lparr>io := io S1\<rparr>" using e by simp
    then show ?thesis ..
  qed
  ultimately show ?thesis by (auto simp: moved_io)
qed

lemma complete_io: "\<exists>N. complete d S = S\<lparr>io := N\<rparr>"
proof (cases d)
  case WriteIo
  then have "complete d S = S\<lparr>io := io S\<rparr>" by (simp add: complete_def)
  then show ?thesis ..
qed (auto simp: complete_def)

subsection \<open>The specification of a run\<close>

text \<open>Every peer's state, and what the user was told so far; one completion after the other.\<close>

fun protocol_step :: "env \<times> bool \<times> u32 \<times> io_data \<Rightarrow> (addr_key \<Rightarrow> peer) \<times> notice list \<Rightarrow>
    (addr_key \<Rightarrow> peer) \<times> notice list" where
  "protocol_step c (w, h) = (case event_of c of
     None \<Rightarrow> (w, h)
   | Some (k, ev, buffer) \<Rightarrow> (w(k := peer_step ev (w k)), h @ notices ev buffer (w k)))"

definition shown :: "manager \<Rightarrow> (addr_key \<Rightarrow> peer) \<times> notice list" where
  "shown S = (peer_of S, heard S)"

lemma shown_io [simp]: "shown (S\<lparr>io := N\<rparr>) = shown S"
  by (simp add: shown_def)

lemma dispatch_moved:
  assumes inv: "manager_inv S" and w: "whole (E, succ, bytes, d)"
    and go: "iocp_dispatch E succ bytes d S = Inr S'"
  shows "manager_inv S' \<and> have_to_stop S' = have_to_stop S \<and>
    shown S' = protocol_step (E, succ, bytes, d) (shown S)"
proof -
  obtain N where N: "complete d S = S\<lparr>io := N\<rparr>" using complete_io by blast
  show ?thesis
  proof (cases "event_of (E, succ, bytes, d)")
    case None
    then have "\<exists>M. S' = S\<lparr>io := M\<rparr>"
      using go unfolding iocp_dispatch_def Let_def N
      by (cases d) (auto simp: event_of_def split: if_split_asm)
    then obtain M where "S' = S\<lparr>io := M\<rparr>" ..
    then show ?thesis using None inv by (simp add: io_inv shown_def)
  next
    case (Some a)
    then obtain buffer r where d: "d = ReadIo buffer r" and a: "a = (key r, classify bytes buffer, buffer)"
      and s: "succ" "\<not> bytes < 4"
      by (cases d) (auto simp: event_of_def split: if_split_asm)
    have i: "manager_inv (S\<lparr>io := N\<rparr>)" using inv by (simp add: io_inv)
    have g: "on_read E bytes buffer r (S\<lparr>io := N\<rparr>) = Inr S'"
      using go s N d by (simp add: iocp_dispatch_def Let_def)
    have "moved (key r) (classify bytes buffer) buffer (S\<lparr>io := N\<rparr>) S'"
      using read_moved [OF i _ _ g] w d by (simp add: whole_def)
    then have "moved (key r) (classify bytes buffer) buffer S S'" by (simp add: moved_from_io)
    then show ?thesis using Some a by (simp add: moved_def shown_def fun_eq_iff)
  qed
qed

lemma task_moved:
  assumes "manager_inv S" and "\<not> have_to_stop S" and "\<forall>c\<in>set cs. whole c" and "iocp_task cs S = Inr S'"
  shows "manager_inv S' \<and> shown S' = fold protocol_step cs (shown S)"
  using assms
proof (induction cs arbitrary: S)
  case (Cons c cs)
  obtain E succ bytes d where c: "c = (E, succ, bytes, d)" by (cases c)
  obtain S1 where S1: "iocp_dispatch E succ bytes d S = Inr S1" "iocp_task cs S1 = Inr S'"
    using Cons.prems(2,4) by (cases "iocp_dispatch E succ bytes d S") (simp_all add: c)
  have "manager_inv S1" "have_to_stop S1 = have_to_stop S" "shown S1 = protocol_step c (shown S)"
    using dispatch_moved [OF Cons.prems(1) _ S1(1)] Cons.prems(3) by (simp_all add: c)
  then show ?case using Cons.IH [of S1] S1(2) Cons.prems(2,3) by simp
qed simp

subsection \<open>Heartbeats\<close>

lemma alive_collected:
  assumes inv: "manager_inv S" and c: "collect ds S = Inr (ds', S')"
  shows "peer_of S' j = peer_age (peer_of S j)"
proof -
  have S': "S' = S\<lparr>session_at := aged (snd ` set (sessions S)) (session_at S),
       sessions := filter (\<lambda>e. \<not> dead (session_at S) (snd e)) (sessions S)\<rparr>"
    using c collect_eq [OF inv, of ds] by simp
  have ok: "map_ok (sessions S)" "map_ok (sessions S')" "map_ok (pending_sessions S)"
    using inv by (simp_all add: manager_inv_def tables_ok_def S' map_ok_filter)
  have apart: "snd ` set (sessions S) \<inter> snd ` set (pending_sessions S) = {}"
    using inv by (simp add: manager_inv_def tables_ok_def)
  have "half_open (peer_of S' j) = half_open (peer_of S j)"
  proof (cases "map_find (pending_sessions S) j")
    case (Some p)
    then have "p \<in> snd ` set (pending_sessions S)" using map_find_set [OF ok(3), of j p] by (metis imageI snd_conv)
    then have "p \<notin> snd ` set (sessions S)" using apart by blast
    then show ?thesis using Some by (simp add: peer_of_def alive_at_def S' aged_def)
  qed (simp add: peer_of_def S')
  moreover have "opened (peer_of S' j) = opened (peer_age (peer_of S j))"
  proof (cases "map_find (sessions S) j")
    case None
    have "map_find (sessions S') j \<noteq> Some q" for q
      using None map_find_set [OF ok(1), of j q] map_find_set [OF ok(2), of j q] by (auto simp: S')
    then have "map_find (sessions S') j = None" by (metis option.exhaust)
    then show ?thesis using None by (simp add: peer_of_def peer_age_def)
  next
    case (Some p)
    obtain s where s: "session_at S p = Some s" using find_entry [OF inv] Some by blast
    have set: "(j, p) \<in> set (sessions S)" using Some map_find_set [OF ok(1)] by blast
    then have p: "p \<in> snd ` set (sessions S)" by (metis imageI snd_conv)
    have "map_find (sessions S') j = (if sint (is_alive_m s - 1) < - 1 then None else Some p)"
    proof (cases "dead (session_at S) p")
      case True
      have "map_find (sessions S') j \<noteq> Some q" for q
      proof
        assume "map_find (sessions S') j = Some q"
        then have "(j, q) \<in> set (sessions S')" using map_find_set [OF ok(2)] by blast
        then have "(j, q) \<in> set (sessions S)" "\<not> dead (session_at S) q" by (simp_all add: S')
        then show False using map_find_set [OF ok(1), of j q] Some True by simp
      qed
      then have "map_find (sessions S') j = None" by (metis option.exhaust)
      then show ?thesis using True s by (simp add: dead_def)
    next
      case False
      then have "(j, p) \<in> set (sessions S')" using set by (simp add: S')
      then show ?thesis using False s map_find_set [OF ok(2)] by (simp add: dead_def)
    qed
    then show ?thesis using s p Some
      by (simp add: peer_of_def peer_age_def alive_at_def) (simp add: S' aged_def)
  qed
  ultimately show ?thesis by (simp add: peer_age_def)
qed


lemma collected_ptrs:
  assumes inv: "manager_inv S"
  shows "p \<in> set (map snd (filter (\<lambda>e. dead (session_at S) (snd e)) (sessions S))) \<longleftrightarrow>
     (\<exists>k. map_find (sessions S) k = Some p \<and> opened (peer_age (peer_of S k)) = None)"
proof -
  have ok: "map_ok (sessions S)" using inv by (simp add: manager_inv_def tables_ok_def)
  have d: "dead (session_at S) p \<longleftrightarrow> opened (peer_age (peer_of S k)) = None"
    if k: "map_find (sessions S) k = Some p" for k
  proof -
    obtain s where "session_at S p = Some s" "opened (peer_of S k) = Some (is_alive_m s)"
      by (rule open_entry [OF inv k])
    then show ?thesis by (simp add: dead_def peer_age_def)
  qed
  have "p \<in> set (map snd (filter (\<lambda>e. dead (session_at S) (snd e)) (sessions S))) \<longleftrightarrow>
      (\<exists>k. (k, p) \<in> set (sessions S)) \<and> dead (session_at S) p" by force
  also have "\<dots> \<longleftrightarrow> (\<exists>k. map_find (sessions S) k = Some p) \<and> dead (session_at S) p"
    by (simp only: map_find_set [OF ok])
  finally show ?thesis using d by blast
qed

subsection \<open>Counting what a peer sent\<close>

text \<open>The datagrams of a run that count for peer \<open>k\<close> once it is open.\<close>

definition counts :: "addr_key \<Rightarrow> env \<times> bool \<times> u32 \<times> io_data \<Rightarrow> bool" where
  "counts k c = (case event_of c of None \<Rightarrow> False | Some (j, ev, buffer) \<Rightarrow> j = k \<and> (ev = Beat \<or> ev = Data))"

lemma step_opened:
  assumes "opened (w k) = Some a"
  shows "opened (fst (protocol_step c (w, h)) k) = Some (if counts k c then a + 1 else a)"
proof (cases "event_of c")
  case (Some e)
  obtain j ev buffer where e: "e = (j, ev, buffer)" by (cases e)
  show ?thesis using assms Some e by (cases ev) (auto simp: counts_def split: option.splits)
qed (use assms in \<open>simp add: counts_def\<close>)

lemma run_opened:
  assumes "opened (w k) = Some a"
  shows "opened (fst (fold protocol_step cs (w, h)) k) = Some (a + of_nat (length (filter (counts k) cs)))"
  using assms
proof (induction cs arbitrary: w h a)
  case (Cons c cs)
  obtain w' h' where w: "protocol_step c (w, h) = (w', h')" by (cases "protocol_step c (w, h)")
  have "opened (w' k) = Some (if counts k c then a + 1 else a)"
    using step_opened [where w = w, OF Cons.prems, of c h] w by simp
  from Cons.IH [where w = w', OF this, of h'] show ?case by (simp only: fold_simps comp_apply w) (simp add: add.assoc)
qed simp

lemma sint_counted:
  fixes a :: u16
  assumes "- 1 \<le> sint a" and "1 \<le> n" and "sint a + int n < 2 ^ 15"
  shows "sint (a + of_nat n - 1) = sint a + int n - 1"
proof -
  have "a + of_nat n - 1 = word_of_int (sint a + int n - 1)" by simp
  then have "sint (a + of_nat n - 1) = signed_take_bit 15 (sint a + int n - 1)"
    by (simp only: sint_sbintrunc') simp
  also have "\<dots> = sint a + int n - 1" by (rule signed_take_bit_int_eq_self) (use assms in simp_all)
  finally show ?thesis .
qed

subsection \<open>Runs that are served\<close>

text \<open>A SYN finds a chunk for its session, in the state the rounds before left; nothing else can fail.\<close>

definition got_chunk :: "'a res \<Rightarrow> bool" where
  "got_chunk r = (case r of Inl e \<Rightarrow> False | Inr x \<Rightarrow> True)"

definition served :: "env \<times> bool \<times> u32 \<times> io_data \<Rightarrow> manager \<Rightarrow> bool" where
  "served c S = (case event_of c of
     Some (k, Syn, buffer) \<Rightarrow>
       got_chunk (ObjectPool_Malloc (grants (fst c)) session_size (thread (fst c)) (session_pool S))
   | _ \<Rightarrow> True)"

fun all_served :: "(env \<times> bool \<times> u32 \<times> io_data) list \<Rightarrow> manager \<Rightarrow> bool" where
  "all_served [] S = True"
| "all_served ((E, succ, bytes, d) # cs) S = (served (E, succ, bytes, d) S \<and>
     (case iocp_dispatch E succ bytes d S of Inl e \<Rightarrow> True | Inr S1 \<Rightarrow> all_served cs S1))"

lemma read_returns:
  assumes inv: "manager_inv S" and blk: "is_block (fresh_block E)" and len: "length buffer = socket_buf_size"
    and syn: "classify bytes buffer = Syn \<Longrightarrow>
      got_chunk (ObjectPool_Malloc (grants E) session_size (thread E) (session_pool S))"
  shows "\<exists>S'. on_read E bytes buffer r S = Inr S'"
proof (cases "classify bytes buffer = Syn")
  case True
  then have "serves E S" using syn blk by (auto simp: serves_def got_chunk_def split: sum.splits)
  then show ?thesis using on_read_inv [OF inv _ len] by blast
next
  case False
  obtain sz ty where h: "read_short buffer 0 = Inr sz" "read_short buffer 2 = Inr ty"
    using read_short_ok [of 0 buffer] read_short_ok [of 2 buffer] len by (auto simp: socket_buf_size_def)
  have n: "\<not> (bytes = 6 \<and> sz = 2 \<and> ty = - 1)" using False unfolding classify_def h by (auto split: if_splits)
  let ?go = "if bytes = 6 \<and> sz = 2 \<and> ty = - 3 then on_ack r S
            else if bytes = 4 \<and> sz = 0 \<and> ty = - 1 then on_heartbeat r S
            else if word_of_int (sint sz + 4) = bytes then on_data buffer r S
            else Inr (Next, S)"
  have "\<exists>f S'. ?go = Inr (f, S') \<and> manager_inv S'"
    using on_ack_inv [OF inv] on_heartbeat_inv [OF inv] on_data_inv [OF inv] inv by simp
  then obtain f S1 where go: "?go = Inr (f, S1)" and i: "manager_inv S1" by blast
  have "on_read E bytes buffer r S = (case f of Continue \<Rightarrow> Inr S1 | Next \<Rightarrow> recycle S1)"
    by (simp only: on_read_def h rbind_Inr if_not_P [OF n] go prod.case)
  then show ?thesis using recycle_inv [OF i] by (cases f) auto
qed

lemma dispatch_returns:
  assumes inv: "manager_inv S" and w: "whole (E, succ, bytes, d)" and s: "served (E, succ, bytes, d) S"
  shows "\<exists>S'. iocp_dispatch E succ bytes d S = Inr S'"
proof (cases "event_of (E, succ, bytes, d)")
  case None
  then show ?thesis by (cases d) (auto simp: event_of_def iocp_dispatch_def Let_def split: if_split_asm)
next
  case (Some a)
  then obtain buffer r where d: "d = ReadIo buffer r" and a: "a = (key r, classify bytes buffer, buffer)"
    and g: "succ" "\<not> bytes < 4"
    by (cases d) (auto simp: event_of_def split: if_split_asm)
  have "\<exists>S'. on_read E bytes buffer r (complete d S) = Inr S'"
    by (rule read_returns) (use inv w s Some d a in \<open>auto simp: complete_inv whole_def served_def\<close>)
  then show ?thesis using d g by (simp add: iocp_dispatch_def Let_def)
qed

lemma served_returns:
  assumes "manager_inv S" and "\<not> have_to_stop S" and "\<forall>c\<in>set cs. whole c" and "all_served cs S"
  shows "\<exists>S'. iocp_task cs S = Inr S'"
  using assms
proof (induction cs arbitrary: S)
  case (Cons c cs)
  obtain E succ bytes d where c: "c = (E, succ, bytes, d)" by (cases c)
  obtain S1 where S1: "iocp_dispatch E succ bytes d S = Inr S1"
    using dispatch_returns [OF Cons.prems(1), of E succ bytes d] Cons.prems(3,4) by (auto simp: c)
  have "manager_inv S1" "\<not> have_to_stop S1"
    using dispatch_moved [OF Cons.prems(1) _ S1] Cons.prems(2,3) by (simp_all add: c)
  then have "\<exists>S'. iocp_task cs S1 = Inr S'" using Cons S1 by (simp add: c)
  then show ?case using S1 by (simp add: c)
qed simp

subsection \<open>Properties\<close>

text \<open>
  C5. The rounds of a worker refine the protocol: as long as the session pool can serve them, a run
  over any completions returns and keeps the invariant; afterwards each peer is in the state that its own
  datagrams, in order, lead to (nobody else's touch it), and the threads started for the accept and
  packet handlers are, in order, exactly the notices the protocol gives.
\<close>

theorem rounds_refine_protocol:
  assumes "manager_inv S" and "\<not> have_to_stop S" and "\<forall>c\<in>set cs. whole c" and "all_served cs S"
  shows "\<exists>S'. iocp_task cs S = Inr S' \<and> manager_inv S' \<and>
     (peer_of S', heard S') = fold protocol_step cs (peer_of S, heard S)"
  using served_returns [OF assms(1-4)] task_moved [OF assms(1-3)] unfolding shown_def by blast

theorem rounds_refine_protocol_witness:
  "\<exists>S' syn. iocp_task [(demo_env, True, 6, ReadIo syn demo_endpoint)] demo = Inr S' \<and>
     classify 6 syn = Syn \<and> half_open (peer_of S' (key demo_endpoint)) = Some 0"
proof -
  let ?syn = "short_bytes 2 @ short_bytes (- 1) @ replicate 508 0"
  let ?c = "(demo_env, True, 6, ReadIo ?syn demo_endpoint)"
  have c: "classify 6 ?syn = Syn" by (simp add: classify_def read_header)
  have w: "\<forall>c\<in>set [?c]. whole c" using demo_serves by (simp add: whole_def serves_def socket_buf_size_def)
  have "served ?c demo"
    using demo_serves by (auto simp: served_def event_of_def c serves_def got_chunk_def)
  then have "all_served [?c] demo" by (simp split: sum.split)
  from rounds_refine_protocol [OF demo_inv _ w this] obtain S' where
    S': "iocp_task [?c] demo = Inr S'"
      "(peer_of S', heard S') = fold protocol_step [?c] (peer_of demo, heard demo)"
    by (auto simp: demo_sel)
  have "event_of ?c = Some (key demo_endpoint, Syn, ?syn)" using c by (simp add: event_of_def)
  then have "half_open (peer_of S' (key demo_endpoint)) = Some 0"
    using S'(2) by (simp add: peer_of_def demo_sel map_find_def)
  then show ?thesis using S'(1) c by blast
qed

text \<open>
  C24. A heartbeat ages every peer once: its first loop returns, keeps the invariant, lowers the
  counter of each open peer by one, closes those that fall below -1 and hands over exactly their
  sessions; half open peers are never aged, and nobody is told of anything.
\<close>

theorem heartbeat_ages_peers:
  assumes "manager_inv S"
  shows "\<exists>gone S'. collect ds S = Inr (ds @ gone, S') \<and> manager_inv S' \<and>
     (\<forall>k. peer_of S' k = peer_age (peer_of S k)) \<and> heard S' = heard S \<and>
     (\<forall>p. p \<in> set gone \<longleftrightarrow>
        (\<exists>k. map_find (sessions S) k = Some p \<and> opened (peer_age (peer_of S k)) = None))"
proof -
  obtain gone S' where c: "collect ds S = Inr (ds @ gone, S')" and h: "spawned S' = spawned S"
    and g: "gone = map snd (filter (\<lambda>e. dead (session_at S) (snd e)) (sessions S))"
    using collect_eq [OF assms, of ds] by simp
  have "heard S' = heard S" using h by (simp add: heard_def)
  then show ?thesis
    using c collect_inv [OF assms c] alive_collected [OF assms c] collected_ptrs [OF assms] unfolding g by blast
qed

theorem heartbeat_ages_peers_witness:
  "\<exists>S ds S'. opened (peer_of S (key demo_endpoint)) = Some (- 1) \<and> collect [] S = Inr (ds, S') \<and>
     opened (peer_of S' (key demo_endpoint)) = None"
proof -
  obtain S where S: "manager_inv S" "sessions S = [(key demo_endpoint, Ptr 0 8)]"
    "session_at S (Ptr 0 8) = Some ((Session_ctor demo_endpoint)\<lparr>is_alive_m := - 1\<rparr>)"
    using demo_open [of "- 1"] by blast
  have "opened (peer_of S (key demo_endpoint)) = Some (- 1)"
    using S by (simp add: peer_of_def map_find_def)
  moreover obtain gone S' where "collect [] S = Inr (gone, S')"
    "peer_of S' (key demo_endpoint) = peer_age (peer_of S (key demo_endpoint))"
    using heartbeat_ages_peers [OF S(1), of "[]"] by auto
  ultimately show ?thesis by (auto simp: peer_age_def)
qed

text \<open>
  C23. A peer that is heard of stays, up to a bound: if between two heartbeats at least one heartbeat or data
  datagram comes from the address of an open peer, and the count with all of them is below 32768, so that
  its 16 bit counter does not overflow, the next heartbeat keeps the session, and its counter is not below
  -1, whatever other datagrams arrive, from this peer or any other.
\<close>

theorem heard_peer_stays:
  assumes "manager_inv S" and "\<not> have_to_stop S" and "\<forall>c\<in>set cs. whole c" and "all_served cs S"
    and "opened (peer_of S k) = Some a" and "- 1 \<le> sint a"
    and "1 \<le> length (filter (counts k) cs)" and "sint a + int (length (filter (counts k) cs)) < 2 ^ 15"
  shows "\<exists>S1 ds S2 b. iocp_task cs S = Inr S1 \<and> collect [] S1 = Inr (ds, S2) \<and>
     opened (peer_of S2 k) = Some b \<and> sint b = sint a + int (length (filter (counts k) cs)) - 1 \<and> - 1 \<le> sint b"
proof -
  let ?n = "length (filter (counts k) cs)"
  let ?b = "a + of_nat ?n - 1"
  obtain S1 where S1: "iocp_task cs S = Inr S1" using served_returns [OF assms(1-4)] by blast
  have m: "manager_inv S1" "shown S1 = fold protocol_step cs (shown S)"
    using task_moved [OF assms(1-3) S1] by simp_all
  have o: "opened (peer_of S1 k) = Some (a + of_nat ?n)"
    using run_opened [where w = "peer_of S" and h = "heard S", OF assms(5)] m(2) by (metis fst_conv shown_def)
  obtain ds S2 where S2: "collect [] S1 = Inr (ds, S2)" using collect_eq [OF m(1), of "[]"] by blast
  have "sint ?b = sint a + int ?n - 1"
    by (rule sint_counted) (use assms(6-8) in simp_all)
  moreover have "opened (peer_of S2 k) = Some ?b"
    using alive_collected [OF m(1) S2, of k] o calculation assms(6,7) by (simp add: peer_age_def)
  ultimately show ?thesis using S1 S2 assms(6,7) by auto
qed

theorem heard_peer_stays_witness:
  "\<exists>S S1 ds S2 beat. iocp_task [(demo_env, True, 4, ReadIo beat demo_endpoint)] S = Inr S1 \<and>
     opened (peer_of S (key demo_endpoint)) = Some (- 1) \<and> collect [] S1 = Inr (ds, S2) \<and>
     opened (peer_of S2 (key demo_endpoint)) = Some (- 1)"
proof -
  obtain S where S: "manager_inv S" "sessions S = [(key demo_endpoint, Ptr 0 8)]" "\<not> have_to_stop S"
    "session_at S (Ptr 0 8) = Some ((Session_ctor demo_endpoint)\<lparr>is_alive_m := - 1\<rparr>)"
    using demo_open [of "- 1"] by blast
  let ?beat = "short_bytes 0 @ short_bytes (- 1) @ replicate 508 0"
  let ?c = "(demo_env, True, 4, ReadIo ?beat demo_endpoint)"
  have ev: "event_of ?c = Some (key demo_endpoint, Beat, ?beat)"
    by (simp add: event_of_def classify_def read_header)
  have w: "\<forall>c\<in>set [?c]. whole c" using demo_serves by (simp add: whole_def serves_def socket_buf_size_def)
  have a: "all_served [?c] S" by (simp add: served_def ev split: sum.split)
  have o: "opened (peer_of S (key demo_endpoint)) = Some (- 1)"
    using S by (simp add: peer_of_def map_find_def)
  have n: "length (filter (counts (key demo_endpoint)) [?c]) = 1" by (simp add: counts_def ev)
  obtain S1 ds S2 b where r: "iocp_task [?c] S = Inr S1" "collect [] S1 = Inr (ds, S2)"
    "opened (peer_of S2 (key demo_endpoint)) = Some b" "sint b = sint (- 1 :: u16)"
    using heard_peer_stays [OF S(1,3) w a o] n by auto
  have "b = - 1" using r(4) by (metis signed_minus_1 signed_word_eqI)
  then show ?thesis using r(1-3) o by blast
qed

lemma sint_wrapped:
  fixes a :: u16
  assumes "2 ^ 15 < sint a + int n" and "sint a + int n < 2 ^ 16"
  shows "sint (a + of_nat n - 1) = sint a + int n - 1 - 2 ^ 16"
proof -
  have "a + of_nat n - 1 = word_of_int (sint a + int n - 1)" by simp
  then have "sint (a + of_nat n - 1) = signed_take_bit 15 (sint a + int n - 1)"
    by (simp only: sint_sbintrunc') simp
  also have "\<dots> = signed_take_bit 15 (sint a + int n - 1 - 2 ^ Suc 15)"
    by (simp only: signed_take_bit_eq_iff_take_bit_eq take_bit_eq_mod minus_mod_self2)
  also have "\<dots> = signed_take_bit 15 (sint a + int n - 1 - 2 ^ 16)" by simp
  also have "\<dots> = sint a + int n - 1 - 2 ^ 16"
    by (rule signed_take_bit_int_eq_self) (use assms in simp_all)
  finally show ?thesis .
qed

lemma all_served_calm: "\<forall>c\<in>set cs. \<forall>S. served c S \<Longrightarrow> all_served cs S"
  by (induction cs S rule: all_served.induct) (auto split: sum.split)



end
