(* ===== verification/IoPools.thy ===== *)
theory IoPools
  imports UdpSocket ObjectPoolSpec Refinement
begin

section \<open>The objects of asynchronous operations (udp_server/src/socket.hpp, socket.cpp, packet.hpp)\<close>

text \<open>
  Theory \<open>UdpSocket\<close> counts the \<open>read_io_data\<close> and \<open>write_io_data\<close> objects; here they have
  addresses.  Each kind lives in chunks of a static object pool (\<open>r_io_data_pool_\<close>, \<open>w_io_data_pool_\<close>),
  and so do the packet blocks (\<open>data_pool_\<close>).  A \<open>Packet\<close> and a \<open>write_io_data\<close> both hold a
  \<open>shared_ptr\<close> to their block: \<open>uses\<close> is its count, \<open>handles\<close> the number of \<open>Packet\<close> objects the program
  has for the block.  The worker gives both kinds of objects back with \<open>Free\<close>, which runs no
  destructor.  The chunk sizes are the template arguments of the pools; 608, 72 and 65004 bytes of them
  are the objects in a 64-bit build, so every object lies before the thread number of its chunk.
\<close>

definition read_io_size :: nat where
  "read_io_size = 614"

definition write_io_size :: nat where
  "write_io_size = 78"

definition packet_block_size :: nat where
  "packet_block_size = 4 + MAX_PACKET_SIZE"

record read_io =
  read_buf_len :: u32            \<comment> \<open>\<open>wsa_buf.len\<close>\<close>
  from_len :: nat
  remote_endpoint :: endpoint
  read_buffer :: "byte list"

record write_io =
  data_of :: ptr                 \<comment> \<open>\<open>data_\<close>, and \<open>wsa_buf.buf\<close>\<close>
  write_buf_len :: u32

definition read_io_data :: "u16 \<Rightarrow> string \<Rightarrow> byte list \<Rightarrow> read_io" where
  "read_io_data junk_port junk_IP junk =
     \<lparr>read_buf_len = of_nat socket_buf_size, from_len = 16, remote_endpoint = Endpoint_default junk_port junk_IP,
      read_buffer = junk\<rparr>"

definition write_io_data :: "ptr \<Rightarrow> packet_data \<Rightarrow> write_io" where
  "write_io_data p d = \<lparr>data_of = p, write_buf_len = ucast (size_m d) + 4\<rparr>"

record io_world =
  r_pool :: opool
  w_pool :: opool
  d_pool :: opool
  read_at :: "ptr \<Rightarrow> read_io option"
  write_at :: "ptr \<Rightarrow> write_io option"
  block_at :: "ptr \<Rightarrow> packet_data option"
  uses :: "ptr \<Rightarrow> nat"
  handles :: "ptr \<Rightarrow> nat"
  posted_reads :: "ptr list"
  wire_log :: "(byte list \<times> sockaddr_in) list"

text \<open>The static pools before their first use.\<close>

definition io_world_init :: io_world where
  "io_world_init = \<lparr>r_pool = opool_init empty_mem, w_pool = opool_init empty_mem, d_pool = opool_init empty_mem,
     read_at = (\<lambda>_. None), write_at = (\<lambda>_. None), block_at = (\<lambda>_. None), uses = (\<lambda>_. 0),
     handles = (\<lambda>_. 0), posted_reads = [], wire_log = []\<rparr>"

subsection \<open>Packets in the block pool\<close>

text \<open>A constructor of \<open>Packet\<close>; \<open>fresh\<close> is what the block holds before.\<close>

definition make_packet ::
  "(nat \<Rightarrow> nat \<Rightarrow> bool) \<Rightarrow> nat \<Rightarrow> packet_data \<Rightarrow> u16 \<Rightarrow> u16 \<Rightarrow> byte list \<Rightarrow> io_world \<Rightarrow> (ptr \<times> io_world) res" where
  "make_packet grant t fresh sz ty data W =
     rbind (ObjectPool_Malloc grant packet_block_size t (d_pool W)) (\<lambda>(p, P).
     rbind (Packet_make fresh sz ty data) (\<lambda>d.
     Inr (p, W\<lparr>d_pool := P, block_at := (block_at W)(p \<mapsto> d), uses := (uses W)(p := 1),
       handles := (handles W)(p := 1)\<rparr>)))"

text \<open>The end of a \<open>Packet\<close>: the last handle of a block calls \<open>delete_data\<close>.\<close>

definition drop_packet :: "nat \<Rightarrow> ptr \<Rightarrow> io_world \<Rightarrow> io_world res" where
  "drop_packet t p W =
     (let W1 = W\<lparr>uses := (uses W)(p := uses W p - 1), handles := (handles W)(p := handles W p - 1)\<rparr> in
      if uses W1 p = 0
      then rbind (ObjectPool_Free packet_block_size t (d_pool W1) p) (\<lambda>P.
             Inr (W1\<lparr>d_pool := P, block_at := (block_at W1)(p := None)\<rparr>))
      else Inr W1)"

subsection \<open>Posting operations\<close>

definition recv_at ::
  "(nat \<Rightarrow> nat \<Rightarrow> bool) \<Rightarrow> nat \<Rightarrow> udp_socket \<Rightarrow> read_io \<Rightarrow> io_world \<Rightarrow> io_world res" where
  "recv_at grant t sk new W =
     (if \<not> is_with_iocp_m sk then Inr W
      else rbind (ObjectPool_Malloc grant read_io_size t (r_pool W)) (\<lambda>(q, P).
        Inr (W\<lparr>r_pool := P, read_at := (read_at W)(q \<mapsto> new), posted_reads := posted_reads W @ [q]\<rparr>)))"

text \<open>The result names the operation handed to the system, if any.\<close>

definition send_at ::
  "(nat \<Rightarrow> nat \<Rightarrow> bool) \<Rightarrow> nat \<Rightarrow> udp_socket \<Rightarrow> ptr \<Rightarrow> endpoint \<Rightarrow> io_world \<Rightarrow> (ptr option \<times> io_world) res" where
  "send_at grant t sk p remote W =
     (if \<not> is_with_iocp_m sk then Inr (None, W)
      else rbind (ObjectPool_Malloc grant write_io_size t (w_pool W)) (\<lambda>(q, P).
        case block_at W p of None \<Rightarrow> Inl BadAccess | Some d \<Rightarrow>
        rbind (wire d) (\<lambda>w.
        Inr (Some q, W\<lparr>w_pool := P, write_at := (write_at W)(q \<mapsto> write_io_data p d),
          uses := (uses W)(p := uses W p + 1), wire_log := wire_log W @ [(w, Addr remote)]\<rparr>))))"

subsection \<open>What the worker does with completions\<close>

definition read_done :: "ptr \<Rightarrow> io_world \<Rightarrow> io_world" where
  "read_done q W = W\<lparr>posted_reads := remove1 q (posted_reads W)\<rparr>"

definition free_read :: "nat \<Rightarrow> ptr \<Rightarrow> io_world \<Rightarrow> io_world res" where
  "free_read t q W = rbind (ObjectPool_Free read_io_size t (r_pool W) q) (\<lambda>P.
     Inr (W\<lparr>r_pool := P, read_at := (read_at W)(q := None)\<rparr>))"

definition free_write :: "nat \<Rightarrow> ptr \<Rightarrow> io_world \<Rightarrow> io_world res" where
  "free_write t q W = rbind (ObjectPool_Free write_io_size t (w_pool W) q) (\<lambda>P.
     Inr (W\<lparr>w_pool := P, write_at := (write_at W)(q := None)\<rparr>))"

text \<open>
  The detached thread that calls \<open>phandler_\<close> parses the receive buffer when it gets to run: it
  holds no copy, only the address of the operation.
\<close>

definition handler_packet :: "packet_data \<Rightarrow> ptr \<Rightarrow> io_world \<Rightarrow> packet_data res" where
  "handler_packet fresh q W = (case read_at W q of
     None \<Rightarrow> Inl BadAccess
   | Some x \<Rightarrow> Packet_parse fresh (read_buffer x))"

text \<open>What the threads of a server with socket \<open>sk\<close> do, in any order.\<close>

inductive io_step :: "udp_socket \<Rightarrow> io_world \<Rightarrow> nat \<Rightarrow> io_world \<Rightarrow> bool" for sk where
  io_recv: "recv_at grant t sk (read_io_data junk_port junk_IP junk) W = Inr W' \<Longrightarrow> io_step sk W t W'"
| io_send: "0 < handles W p \<Longrightarrow> send_at grant t sk p remote W = Inr (x, W') \<Longrightarrow> io_step sk W t W'"
| io_read_done: "q \<in> set (posted_reads W) \<Longrightarrow> io_step sk W t (read_done q W)"
| io_free_read: "q \<in> dom (read_at W) - set (posted_reads W) \<Longrightarrow> free_read t q W = Inr W' \<Longrightarrow> io_step sk W t W'"
| io_free_write: "q \<in> dom (write_at W) \<Longrightarrow> free_write t q W = Inr W' \<Longrightarrow> io_step sk W t W'"
| io_make: "make_packet grant t fresh sz ty data W = Inr (p, W') \<Longrightarrow> io_step sk W t W'"
| io_drop: "0 < handles W p \<Longrightarrow> drop_packet t p W = Inr W' \<Longrightarrow> io_step sk W t W'"

inductive_cases io_stepE: "io_step sk W t W'"

subsection \<open>The invariant\<close>

definition writes_of :: "ptr \<Rightarrow> (ptr \<Rightarrow> write_io option) \<Rightarrow> ptr set" where
  "writes_of p M = {q. map_option data_of (M q) = Some p}"

definition counts_ok :: "io_world \<Rightarrow> bool" where
  "counts_ok W \<longleftrightarrow> dom (block_at W) = {p. 0 < uses W p} \<and>
     (\<forall>p. handles W p + card (writes_of p (write_at W)) \<le> uses W p)"

definition io_ok :: "io_world \<Rightarrow> bool" where
  "io_ok W \<longleftrightarrow> finite (dom (read_at W)) \<and> finite (dom (write_at W)) \<and> distinct (posted_reads W) \<and>
     set (posted_reads W) \<subseteq> dom (read_at W) \<and>
     opool_rel read_io_size (r_pool W) (dom (read_at W)) \<and>
     opool_rel write_io_size (w_pool W) (dom (write_at W)) \<and>
     opool_rel packet_block_size (d_pool W) (dom (block_at W)) \<and> counts_ok W"

lemma io_ok_init: "io_ok io_world_init"
  by (simp add: mem_ok_empty io_ok_def io_world_init_def opool_init_rel read_io_size_def write_io_size_def
      packet_block_size_def MAX_PACKET_SIZE_def counts_ok_def writes_of_def)

lemma io_ok_counts:
  assumes "io_ok W"
  shows "block_at W p = None \<longleftrightarrow> uses W p = 0" and "handles W p + card (writes_of p (write_at W)) \<le> uses W p"
proof -
  have d: "dom (block_at W) = {p. 0 < uses W p}" using assms by (simp add: io_ok_def counts_ok_def)
  have "p \<in> dom (block_at W) \<longleftrightarrow> 0 < uses W p" unfolding d by simp
  then show "block_at W p = None \<longleftrightarrow> uses W p = 0" by auto
  show "handles W p + card (writes_of p (write_at W)) \<le> uses W p"
    using assms by (simp add: io_ok_def counts_ok_def)
qed

lemma writes_of_finite: "finite (dom M) \<Longrightarrow> finite (writes_of p M)"
  by (rule finite_subset [of _ "dom M"]) (auto simp: writes_of_def)

lemma writes_of_new:
  "M q = None \<Longrightarrow> writes_of p (M(q \<mapsto> w)) = (if data_of w = p then insert q (writes_of p M) else writes_of p M)"
  by (auto simp: writes_of_def)

lemma writes_of_gone: "writes_of p (M(q := None)) = writes_of p M - {q}"
  by (auto simp: writes_of_def)

lemma recv_at_ok:
  assumes ok: "io_ok W" and r: "recv_at grant t sk new W = Inr W'"
  shows "io_ok W' \<and> uses W' = uses W \<and> handles W' = handles W"
proof (cases "is_with_iocp_m sk")
  case True
  then obtain q P where m: "ObjectPool_Malloc grant read_io_size t (r_pool W) = Inr (q, P)"
    and W': "W' = W\<lparr>r_pool := P, read_at := (read_at W)(q \<mapsto> new), posted_reads := posted_reads W @ [q]\<rparr>"
    using r by (auto simp: recv_at_def)
  have rel: "opool_rel read_io_size (r_pool W) (dom (read_at W))" using ok by (simp add: io_ok_def)
  from Malloc_law [OF rel m] have "q \<notin> dom (read_at W)" "opool_rel read_io_size P (insert q (dom (read_at W)))"
    by simp_all
  then show ?thesis using ok by (auto simp: io_ok_def W' counts_ok_def)
qed (use assms in \<open>simp add: recv_at_def\<close>)

lemma send_at_ok:
  assumes ok: "io_ok W" and r: "send_at grant t sk p remote W = Inr (x, W')"
  shows "io_ok W' \<and> handles W' = handles W \<and>
     uses W' = (if is_with_iocp_m sk then (uses W)(p := uses W p + 1) else uses W)"
proof (cases "is_with_iocp_m sk")
  case True
  then obtain q P d w where m: "ObjectPool_Malloc grant write_io_size t (w_pool W) = Inr (q, P)"
    and d: "block_at W p = Some d"
    and W': "W' = W\<lparr>w_pool := P, write_at := (write_at W)(q \<mapsto> write_io_data p d),
          uses := (uses W)(p := uses W p + 1), wire_log := wire_log W @ [(w, Addr remote)]\<rparr>"
    using r by (auto simp: send_at_def split: option.splits)
  have rel: "opool_rel write_io_size (w_pool W) (dom (write_at W))" using ok by (simp add: io_ok_def)
  have q: "write_at W q = None" and rel': "opool_rel write_io_size P (insert q (dom (write_at W)))"
    using Malloc_law [OF rel m] by (auto simp: dom_def)
  have fin: "finite (dom (write_at W))" using ok by (simp add: io_ok_def)
  have "counts_ok W'"
    unfolding counts_ok_def
  proof (intro conjI allI)
    have "uses W p \<noteq> 0" using io_ok_counts(1) [OF ok, of p] d by simp
    moreover have "dom (block_at W) = {p. 0 < uses W p}" using ok by (simp add: io_ok_def counts_ok_def)
    ultimately show "dom (block_at W') = {p. 0 < uses W' p}" by (auto simp: W')
    fix j
    have le: "handles W j + card (writes_of j (write_at W)) \<le> uses W j"
      using ok by (simp add: io_ok_def counts_ok_def)
    have "q \<notin> writes_of j (write_at W)" using q by (simp add: writes_of_def)
    then have "card (writes_of j (write_at W')) = card (writes_of j (write_at W)) + (if j = p then 1 else 0)"
      using writes_of_finite [OF fin, of j] by (auto simp: W' writes_of_new [of "write_at W" q, OF q] write_io_data_def)
    then show "handles W' j + card (writes_of j (write_at W')) \<le> uses W' j"
      using le by (cases "j = p") (simp_all add: W')
  qed
  then show ?thesis using ok rel' True by (simp add: io_ok_def W')
qed (use assms in \<open>simp add: send_at_def\<close>)

lemma free_read_ok:
  assumes ok: "io_ok W" and q: "q \<in> dom (read_at W) - set (posted_reads W)" and r: "free_read t q W = Inr W'"
  shows "io_ok W' \<and> uses W' = uses W \<and> handles W' = handles W"
proof -
  obtain P where m: "ObjectPool_Free read_io_size t (r_pool W) q = Inr P"
    and W': "W' = W\<lparr>r_pool := P, read_at := (read_at W)(q := None)\<rparr>"
    using r by (auto simp: free_read_def)
  have rel: "opool_rel read_io_size (r_pool W) (dom (read_at W))" using ok by (simp add: io_ok_def)
  have "opool_rel read_io_size P (dom (read_at W) - {q})" using Free_law [OF rel _ m] q by simp
  then show ?thesis using ok q by (auto simp: io_ok_def W' counts_ok_def)
qed

lemma free_write_ok:
  assumes ok: "io_ok W" and q: "q \<in> dom (write_at W)" and r: "free_write t q W = Inr W'"
  shows "io_ok W' \<and> uses W' = uses W \<and> handles W' = handles W"
proof -
  obtain P where m: "ObjectPool_Free write_io_size t (w_pool W) q = Inr P"
    and W': "W' = W\<lparr>w_pool := P, write_at := (write_at W)(q := None)\<rparr>"
    using r by (auto simp: free_write_def)
  have rel: "opool_rel write_io_size (w_pool W) (dom (write_at W))" using ok by (simp add: io_ok_def)
  have rel': "opool_rel write_io_size P (dom (write_at W) - {q})" by (rule Free_law [OF rel q m])
  have "card (writes_of p (write_at W) - {q}) \<le> card (writes_of p (write_at W))" for p
    using ok by (intro card_mono writes_of_finite) (auto simp: io_ok_def)
  then have "handles W p + card (writes_of p (write_at W) - {q}) \<le> uses W p" for p
    using io_ok_counts(2) [OF ok, of p] by (meson add_left_mono order_trans)
  then have "counts_ok W'" using ok by (simp add: io_ok_def counts_ok_def W' writes_of_gone)
  then show ?thesis using ok rel' by (simp add: io_ok_def W')
qed

lemma make_packet_ok:
  assumes ok: "io_ok W" and r: "make_packet grant t fresh sz ty data W = Inr (p, W')"
  shows "io_ok W' \<and> block_at W p = None \<and> uses W' = (uses W)(p := 1) \<and> handles W' = (handles W)(p := 1) \<and>
     read_at W' = read_at W \<and> write_at W' = write_at W \<and> posted_reads W' = posted_reads W \<and> wire_log W' = wire_log W \<and>
     (\<exists>d. Packet_make fresh sz ty data = Inr d \<and> block_at W' = (block_at W)(p \<mapsto> d))"
proof -
  obtain P d where m: "ObjectPool_Malloc grant packet_block_size t (d_pool W) = Inr (p, P)"
    and d: "Packet_make fresh sz ty data = Inr d"
    and W': "W' = W\<lparr>d_pool := P, block_at := (block_at W)(p \<mapsto> d), uses := (uses W)(p := 1),
       handles := (handles W)(p := 1)\<rparr>"
    using r by (auto simp: make_packet_def)
  have rel: "opool_rel packet_block_size (d_pool W) (dom (block_at W))" using ok by (simp add: io_ok_def)
  have p: "block_at W p = None" and rel': "opool_rel packet_block_size P (insert p (dom (block_at W)))"
    using Malloc_law [OF rel m] by (auto simp: dom_def)
  have c: "dom (block_at W) = {p. 0 < uses W p}" "\<And>j. handles W j + card (writes_of j (write_at W)) \<le> uses W j"
    using ok by (auto simp: io_ok_def counts_ok_def)
  have "uses W p = 0" using io_ok_counts(1) [OF ok, of p] p by simp
  then have "card (writes_of p (write_at W)) = 0" using c(2) [of p] by simp
  then have "counts_ok W'" using c by (auto simp: counts_ok_def W')
  then show ?thesis using ok rel' p d by (simp add: io_ok_def W')
qed

lemma drop_packet_ok:
  assumes ok: "io_ok W" and h: "0 < handles W p" and r: "drop_packet t p W = Inr W'"
  shows "io_ok W' \<and> uses W' = (uses W)(p := uses W p - 1) \<and> handles W' = (handles W)(p := handles W p - 1) \<and>
     read_at W' = read_at W \<and> write_at W' = write_at W \<and> posted_reads W' = posted_reads W \<and> wire_log W' = wire_log W \<and>
     block_at W' = (if uses W p = 1 then (block_at W)(p := None) else block_at W)"
proof -
  let ?W1 = "W\<lparr>uses := (uses W)(p := uses W p - 1), handles := (handles W)(p := handles W p - 1)\<rparr>"
  have c: "dom (block_at W) = {p. 0 < uses W p}" "\<And>j. handles W j + card (writes_of j (write_at W)) \<le> uses W j"
    and rel: "opool_rel packet_block_size (d_pool W) (dom (block_at W))"
    using ok by (auto simp: io_ok_def counts_ok_def)
  have u: "0 < uses W p" using c(2) [of p] h by simp
  have n: "handles ?W1 j + card (writes_of j (write_at ?W1)) \<le> uses ?W1 j" for j
  proof (cases "j = p")
    case True
    then have "handles W p - 1 + card (writes_of p (write_at W)) \<le> uses W p - 1" using c(2) [of p] h by linarith
    then show ?thesis using True by simp
  qed (use c(2) [of j] in simp)
  show ?thesis
  proof (cases "uses W p = 1")
    case True
    then obtain P where m: "ObjectPool_Free packet_block_size t (d_pool W) p = Inr P"
      and W': "W' = ?W1\<lparr>d_pool := P, block_at := (block_at W)(p := None)\<rparr>"
      using r by (auto simp: drop_packet_def Let_def)
    have "opool_rel packet_block_size P (dom (block_at W) - {p})" using Free_law [OF rel _ m] u c(1) by simp
    moreover have "counts_ok W'" using c(1) n True by (auto simp: counts_ok_def W')
    ultimately show ?thesis using ok True by (simp add: io_ok_def W')
  next
    case False
    then have W': "W' = ?W1" using r u by (simp add: drop_packet_def Let_def)
    have "{j. 0 < uses ?W1 j} = {j. 0 < uses W j}" using u False by auto
    then have "counts_ok W'" using c(1) n by (simp add: counts_ok_def W')
    then show ?thesis using ok False by (simp add: io_ok_def W')
  qed
qed

lemma read_done_ok:
  assumes "io_ok W" and "q \<in> set (posted_reads W)"
  shows "io_ok (read_done q W)"
proof -
  have "distinct (remove1 q (posted_reads W))" "set (remove1 q (posted_reads W)) \<subseteq> dom (read_at W)"
    using assms set_remove1_subset [of q "posted_reads W"] by (auto simp: io_ok_def)
  then show ?thesis using assms(1) by (auto simp: io_ok_def read_done_def counts_ok_def)
qed

lemma io_step_ok:
  assumes "io_step sk W t W'" and "io_ok W"
  shows "io_ok W'"
  using assms(1)
proof cases
  case (io_recv grant junk_port junk_IP junk)
  then show ?thesis using recv_at_ok [OF assms(2)] by blast
next
  case (io_send p grant remote x)
  then show ?thesis using send_at_ok [OF assms(2)] by blast
next
  case (io_read_done q)
  then show ?thesis using read_done_ok [OF assms(2)] by simp
next
  case (io_free_read q)
  then show ?thesis using free_read_ok [OF assms(2)] by blast
next
  case (io_free_write q)
  then show ?thesis using free_write_ok [OF assms(2)] by blast
next
  case (io_make grant fresh sz ty data p)
  then show ?thesis using make_packet_ok [OF assms(2)] by blast
next
  case (io_drop p)
  then show ?thesis using drop_packet_ok [OF assms(2)] by blast
qed

end
