(* ===== verification/IoPoolsSpec.thy ===== *)
theory IoPoolsSpec
  imports IoPools
begin

section \<open>What the I/O objects implement, and what they leak\<close>

text \<open>
  The counters of theory \<open>UdpSocket\<close> are a correct abstraction of the addressed objects, in any
  interleaving of the threads; no operation uses memory that was given back; and the block of a
  packet that was sent once is never given back.
\<close>

definition net_of :: "io_world \<Rightarrow> net" where
  "net_of W = \<lparr>posted = length (posted_reads W), sent = wire_log W, read_io_live = card (dom (read_at W)),
     write_io_live = card (dom (write_at W))\<rparr>"

definition io_view :: "io_world \<Rightarrow> net \<times> (ptr \<Rightarrow> packet_data option)" where
  "io_view W = (net_of W, block_at W)"

text \<open>The specification: counted objects, and blocks that come and go.\<close>

inductive net_step :: "udp_socket \<Rightarrow> net \<times> (ptr \<Rightarrow> packet_data option) \<Rightarrow>
    net \<times> (ptr \<Rightarrow> packet_data option) \<Rightarrow> bool" for sk where
  net_recv: "net_step sk (N, B) (Socket_Recv sk N, B)"
| net_send: "B p = Some d \<Longrightarrow> Socket_Send sk d remote N = Inr N' \<Longrightarrow> net_step sk (N, B) (N', B)"
| net_arrive: "0 < posted N \<Longrightarrow> net_step sk (N, B) (N\<lparr>posted := posted N - 1\<rparr>, B)"
| net_free_read: "posted N < read_io_live N \<Longrightarrow>
    net_step sk (N, B) (N\<lparr>read_io_live := read_io_live N - 1\<rparr>, B)"
| net_free_write: "0 < write_io_live N \<Longrightarrow>
    net_step sk (N, B) (N\<lparr>write_io_live := write_io_live N - 1\<rparr>, B)"
| net_make: "B p = None \<Longrightarrow> Packet_make fresh sz ty data = Inr d \<Longrightarrow> net_step sk (N, B) (N, B(p \<mapsto> d))"
| net_gone: "net_step sk (N, B) (N, B(p := None))"

lemma io_reach_ok:
  assumes "reach (io_step sk) W W'" and "io_ok W"
  shows "io_ok W'"
  using assms by (induction rule: reach.induct) (blast intro: io_step_ok)+

lemma io_reach_step: "reach (io_step sk) W W' \<Longrightarrow> io_step sk W' t W'' \<Longrightarrow> reach (io_step sk) W W''"
  by (rule reach.reach_step)

lemma io_reach_self: "reach (io_step sk) W W"
  by (rule reach.reach_refl)

lemma recv_view:
  assumes ok: "io_ok W" and r: "recv_at grant t sk new W = Inr W'"
  shows "io_view W' = (Socket_Recv sk (net_of W), block_at W)"
proof (cases "is_with_iocp_m sk")
  case True
  then obtain q P where m: "ObjectPool_Malloc grant read_io_size t (r_pool W) = Inr (q, P)"
    and W': "W' = W\<lparr>r_pool := P, read_at := (read_at W)(q \<mapsto> new), posted_reads := posted_reads W @ [q]\<rparr>"
    using r by (auto simp: recv_at_def)
  have rel: "opool_rel read_io_size (r_pool W) (dom (read_at W))" and fin: "finite (dom (read_at W))"
    using ok by (simp_all add: io_ok_def)
  have "q \<notin> dom (read_at W)" using Malloc_law [OF rel m] by simp
  then have "card (dom (read_at W')) = card (dom (read_at W)) + 1" using fin by (simp add: W')
  then show ?thesis using True by (simp add: io_view_def net_of_def Socket_Recv_def) (simp add: W')
qed (use r in \<open>simp add: recv_at_def io_view_def Socket_Recv_def\<close>)

lemma send_view:
  assumes ok: "io_ok W" and h: "0 < handles W p" and r: "send_at grant t sk p remote W = Inr (x, W')"
  shows "\<exists>d. block_at W p = Some d \<and> Socket_Send sk d remote (net_of W) = Inr (net_of W') \<and> block_at W' = block_at W"
proof -
  have "0 < uses W p" using io_ok_counts(2) [OF ok, of p] h by simp
  then obtain d where d: "block_at W p = Some d" using io_ok_counts(1) [OF ok, of p] by auto
  show ?thesis
  proof (cases "is_with_iocp_m sk")
    case True
    then obtain q P w where m: "ObjectPool_Malloc grant write_io_size t (w_pool W) = Inr (q, P)"
      and w: "wire d = Inr w"
      and W': "W' = W\<lparr>w_pool := P, write_at := (write_at W)(q \<mapsto> write_io_data p d),
            uses := (uses W)(p := uses W p + 1), wire_log := wire_log W @ [(w, Addr remote)]\<rparr>"
      using r d by (auto simp: send_at_def)
    have rel: "opool_rel write_io_size (w_pool W) (dom (write_at W))" and fin: "finite (dom (write_at W))"
      using ok by (simp_all add: io_ok_def)
    have "q \<notin> dom (write_at W)" using Malloc_law [OF rel m] by simp
    then have "card (dom (write_at W')) = card (dom (write_at W)) + 1" using fin by (simp add: W')
    moreover have "block_at W' = block_at W" "posted_reads W' = posted_reads W" "read_at W' = read_at W"
      "wire_log W' = wire_log W @ [(w, Addr remote)]" by (simp_all add: W')
    ultimately show ?thesis using True d w by (simp add: net_of_def Socket_Send_def)
  qed (use r d in \<open>simp add: send_at_def Socket_Send_def\<close>)
qed

lemma free_read_view:
  assumes ok: "io_ok W" and q: "q \<in> dom (read_at W) - set (posted_reads W)" and r: "free_read t q W = Inr W'"
  shows "net_step sk (io_view W) (io_view W')"
proof -
  obtain P where W': "W' = W\<lparr>r_pool := P, read_at := (read_at W)(q := None)\<rparr>"
    using r by (auto simp: free_read_def)
  have fin: "finite (dom (read_at W))" and d: "distinct (posted_reads W)"
    and s: "insert q (set (posted_reads W)) \<subseteq> dom (read_at W)" using ok q by (auto simp: io_ok_def)
  have "card (insert q (set (posted_reads W))) \<le> card (dom (read_at W))" by (rule card_mono [OF fin s])
  then have "posted (net_of W) < read_io_live (net_of W)" using d q by (simp add: net_of_def distinct_card)
  from net_free_read [OF this] show ?thesis using fin q
    by (simp add: io_view_def net_of_def W')
qed

lemma free_write_view:
  assumes ok: "io_ok W" and q: "q \<in> dom (write_at W)" and r: "free_write t q W = Inr W'"
  shows "net_step sk (io_view W) (io_view W')"
proof -
  obtain P where W': "W' = W\<lparr>w_pool := P, write_at := (write_at W)(q := None)\<rparr>"
    using r by (auto simp: free_write_def)
  have fin: "finite (dom (write_at W))" using ok by (simp add: io_ok_def)
  then have "0 < write_io_live (net_of W)" using q by (auto simp: net_of_def card_gt_0_iff)
  from net_free_write [OF this] show ?thesis using fin q
    by (simp add: io_view_def net_of_def W')
qed

lemma io_simulates:
  assumes ok: "io_ok W" and step: "io_step sk W t W'"
  shows "io_view W' = io_view W \<or> net_step sk (io_view W) (io_view W')"
  using step
proof cases
  case (io_recv grant junk_port junk_IP junk)
  then show ?thesis using recv_view [OF ok io_recv] net_recv by (simp add: io_view_def)
next
  case (io_send p grant remote x)
  then show ?thesis using send_view [OF ok io_send] net_send by (metis io_view_def)
next
  case (io_read_done q)
  then have "0 < posted (net_of W)" by (auto simp: net_of_def)
  from net_arrive [OF this] show ?thesis using io_read_done
    by (simp add: io_view_def net_of_def read_done_def length_remove1)
next
  case (io_free_read q)
  then show ?thesis using free_read_view [OF ok io_free_read] by blast
next
  case (io_free_write q)
  then show ?thesis using free_write_view [OF ok io_free_write] by blast
next
  case (io_make grant fresh sz ty data p)
  obtain d where d: "block_at W p = None" "Packet_make fresh sz ty data = Inr d" "block_at W' = (block_at W)(p \<mapsto> d)"
    and n: "net_of W' = net_of W" using make_packet_ok [OF ok io_make] by (auto simp: net_of_def)
  from net_make [where B = "block_at W", OF d(1,2)] show ?thesis by (simp add: io_view_def d(3) n)
next
  case (io_drop p)
  have d: "block_at W' = (if uses W p = 1 then (block_at W)(p := None) else block_at W)"
    and n: "net_of W' = net_of W" using drop_packet_ok [OF ok io_drop] by (simp_all add: net_of_def)
  show ?thesis using net_gone by (simp add: io_view_def d n)
qed

interpretation io: refines io_world_init "io_step sk" "(net_init, \<lambda>_. None)" "net_step sk" io_view for sk
proof
  show "io_view io_world_init = (net_init, \<lambda>_. None)"
    by (simp add: io_view_def net_of_def io_world_init_def net_init_def)
  fix W t W'
  assume "reach (io_step sk) io_world_init W" and "io_step sk W t W'"
  then show "io_view W' = io_view W \<or> net_step sk (io_view W) (io_view W')"
    by (intro io_simulates io_reach_ok [OF _ io_ok_init])
qed

subsection \<open>The lost share of a sent block\<close>

text \<open>A block with more shares than \<open>Packet\<close> objects stays that way: only a destructor that
  nobody runs could give the surplus share back.\<close>

lemma surplus_step:
  assumes "io_step sk W t W'" and ok: "io_ok W" and s: "handles W p < uses W p"
  shows "handles W' p < uses W' p"
  using assms(1)
proof cases
  case (io_recv grant junk_port junk_IP junk)
  then show ?thesis using recv_at_ok [OF ok io_recv] s by simp
next
  case (io_send q grant remote x)
  then show ?thesis using send_at_ok [OF ok io_send(2)] s by (auto split: if_splits)
next
  case (io_read_done q)
  then show ?thesis using s by (simp add: read_done_def)
next
  case (io_free_read q)
  then show ?thesis using free_read_ok [OF ok io_free_read] s by simp
next
  case (io_free_write q)
  then show ?thesis using free_write_ok [OF ok io_free_write] s by simp
next
  case (io_make grant fresh sz ty data q)
  have "block_at W q = None" "uses W' = (uses W)(q := 1)" "handles W' = (handles W)(q := 1)"
    using make_packet_ok [OF ok io_make] by simp_all
  then show ?thesis using s io_ok_counts(1) [OF ok, of q] by (auto simp: fun_upd_def)
next
  case (io_drop q)
  have "uses W' = (uses W)(q := uses W q - 1)" "handles W' = (handles W)(q := handles W q - 1)"
    using drop_packet_ok [OF ok io_drop] by simp_all
  then show ?thesis using s io_drop(1) by (cases "p = q") simp_all
qed

lemma surplus_reach:
  assumes "reach (io_step sk) W W'" and "io_ok W" and "handles W p < uses W p"
  shows "handles W' p < uses W' p"
  using assms
proof (induction rule: reach.induct)
  case (reach_step W1 t W2)
  then show ?case using surplus_step io_reach_ok by blast
qed simp


subsection \<open>Properties\<close>

text \<open>
  C15. The counters stand for real objects: in any interleaving of workers that post, complete and
  free operations and make, send and drop packets, from the first use of the static pools on, every
  step is a step of the counting model or changes nothing it shows; every posted receive has its
  object, every unfinished send has its object and a live packet block, and the three pools hold
  exactly the objects that were constructed and not freed.
\<close>

theorem io_objects_refine_counts:
  assumes "reach (io_step sk) io_world_init W"
  shows "rtranclp (net_step sk) (net_init, \<lambda>_. None) (io_view W) \<and>
     (\<forall>t W'. io_step sk W t W' \<longrightarrow> io_view W' = io_view W \<or> net_step sk (io_view W) (io_view W')) \<and>
     (\<forall>q\<in>set (posted_reads W). read_at W q \<noteq> None) \<and>
     (\<forall>q w. write_at W q = Some w \<longrightarrow> block_at W (data_of w) \<noteq> None) \<and>
     opool_rel read_io_size (r_pool W) (dom (read_at W)) \<and>
     opool_rel write_io_size (w_pool W) (dom (write_at W)) \<and>
     opool_rel packet_block_size (d_pool W) (dom (block_at W))"
proof -
  have ok: "io_ok W" by (rule io_reach_ok [OF assms io_ok_init])
  have "block_at W (data_of w) \<noteq> None" if q: "write_at W q = Some w" for q w
  proof -
    have "finite (writes_of (data_of w) (write_at W))" "q \<in> writes_of (data_of w) (write_at W)"
      using ok q by (simp_all add: io_ok_def writes_of_finite) (simp add: writes_of_def)
    then have "0 < card (writes_of (data_of w) (write_at W))" by (auto simp: card_gt_0_iff)
    then have "uses W (data_of w) \<noteq> 0" using io_ok_counts(2) [OF ok, of "data_of w"] by simp
    then show ?thesis using io_ok_counts(1) [OF ok] by simp
  qed
  moreover have "\<forall>q\<in>set (posted_reads W). read_at W q \<noteq> None" using ok by (auto simp: io_ok_def)
  ultimately show ?thesis using io.reach_view [OF assms] io_simulates [OF ok] ok
    unfolding io_ok_def by blast
qed

lemma demo_recv:
  "\<exists>W. recv_at (\<lambda>_ _. True) t \<lparr>is_with_iocp_m = True, iocp_m = Some 1, local_m = e\<rparr> new io_world_init = Inr W \<and>
     posted_reads W = [Ptr 0 8]"
  using first_malloc [of read_io_size t] by (auto simp: recv_at_def io_world_init_def read_io_size_def)

theorem io_objects_refine_counts_witness:
  "\<exists>W. posted_reads W = [Ptr 0 8] \<and> read_at W (Ptr 0 8) \<noteq> None \<and>
     rtranclp (net_step \<lparr>is_with_iocp_m = True, iocp_m = Some 1, local_m = Endpoint_default 0 []\<rparr>)
       (net_init, \<lambda>_. None) (io_view W)"
proof -
  obtain W where W: "recv_at (\<lambda>_ _. True) 0 \<lparr>is_with_iocp_m = True, iocp_m = Some 1, local_m = Endpoint_default 0 []\<rparr>
      (read_io_data 0 [] []) io_world_init = Inr W" "posted_reads W = [Ptr 0 8]"
    using demo_recv by blast
  from io_objects_refine_counts [OF io_reach_step [OF io_reach_self io_recv [OF W(1)]]] W(2)
  show ?thesis by auto
qed

text \<open>
  C28. Every packet that is sent leaks its block: once \<open>Send\<close> has taken a share of a packet's block,
  then whatever the threads do afterwards, completions, \<open>Free\<close> of the operation and the end of
  every \<open>Packet\<close> included, the block is never handed to \<open>delete_data\<close>: its count stays above the
  number of \<open>Packet\<close> objects, and its 65004 bytes stay in use in their pool.
\<close>

theorem sent_block_leaks:
  assumes "reach (io_step sk) io_world_init W" and "is_with_iocp_m sk" and "0 < handles W p"
    and "send_at grant t sk p remote W = Inr (x, W1)" and "reach (io_step sk) W1 W2"
  shows "block_at W2 p \<noteq> None \<and> handles W2 p < uses W2 p \<and>
     opool_rel packet_block_size (d_pool W2) (insert p (dom (block_at W2) - {p}))"
proof -
  have ok: "io_ok W" by (rule io_reach_ok [OF assms(1) io_ok_init])
  have W1: "io_ok W1" "handles W1 = handles W" "uses W1 = (uses W)(p := uses W p + 1)"
    using send_at_ok [OF ok assms(4)] assms(2) by simp_all
  have "handles W1 p < uses W1 p" using io_ok_counts(2) [OF ok, of p] W1 by simp
  then have s: "handles W2 p < uses W2 p" by (rule surplus_reach [OF assms(5) W1(1)])
  have ok2: "io_ok W2" by (rule io_reach_ok [OF assms(5) W1(1)])
  have b: "block_at W2 p \<noteq> None" using io_ok_counts(1) [OF ok2, of p] s by simp
  then have "insert p (dom (block_at W2) - {p}) = dom (block_at W2)" by auto
  then show ?thesis using b s ok2 by (simp add: io_ok_def)
qed

theorem sent_block_leaks_witness:
  "\<exists>W1 W2 W3 W4 p q. make_packet (\<lambda>_ _. True) 0 \<lparr>size_m = 0, packet_type_m = 0, body_m = replicate MAX_PACKET_SIZE 0\<rparr>
       2 (- 2) [1, 2] io_world_init = Inr (p, W1) \<and>
     send_at (\<lambda>_ _. True) 0 \<lparr>is_with_iocp_m = True, iocp_m = Some 1, local_m = Endpoint_default 0 []\<rparr> p
       (Endpoint_default 0 []) W1 = Inr (Some q, W2) \<and>
     drop_packet 0 p W2 = Inr W3 \<and> free_write 0 q W3 = Inr W4 \<and>
     handles W4 p = 0 \<and> write_at W4 = Map.empty \<and> block_at W4 p \<noteq> None"
proof -
  let ?f = "\<lparr>size_m = 0, packet_type_m = 0, body_m = replicate MAX_PACKET_SIZE (0 :: byte)\<rparr>"
  let ?sk = "\<lparr>is_with_iocp_m = True, iocp_m = Some 1, local_m = Endpoint_default 0 []\<rparr>"
  let ?d = "\<lparr>size_m = 2, packet_type_m = - 2, body_m = take 2 [1, 2] @ drop 2 (body_m ?f)\<rparr>"
  have d: "Packet_make ?f 2 (- 2) [1, 2] = Inr ?d"
    using Packet_make_ok [of 2 "[1, 2]" ?f "- 2"] by (simp add: is_block_def MAX_PACKET_SIZE_def)
  obtain P where P: "ObjectPool_Malloc (\<lambda>_ _. True) packet_block_size 0 (opool_init empty_mem) = Inr (Ptr 0 8, P)"
    using first_malloc [of packet_block_size 0] by (auto simp: packet_block_size_def MAX_PACKET_SIZE_def)
  obtain W1 where m: "make_packet (\<lambda>_ _. True) 0 ?f 2 (- 2) [1, 2] io_world_init = Inr (Ptr 0 8, W1)"
    and W1: "W1 = io_world_init\<lparr>d_pool := P, block_at := [Ptr 0 8 \<mapsto> ?d], uses := (\<lambda>_. 0)(Ptr 0 8 := 1),
       handles := (\<lambda>_. 0)(Ptr 0 8 := 1)\<rparr>"
    using P d by (simp add: make_packet_def io_world_init_def)
  have r1: "reach (io_step ?sk) io_world_init W1" by (rule io_reach_step [OF io_reach_self io_make [OF m]])
  obtain Q where Q: "ObjectPool_Malloc (\<lambda>_ _. True) write_io_size 0 (opool_init empty_mem) = Inr (Ptr 0 8, Q)"
    "object_pool_m Q 0 = Some 1"
    using first_malloc [of write_io_size 0] by (auto simp: write_io_size_def)
  obtain w where w: "wire ?d = Inr w"
    using wire_ok [of ?d] by (simp add: is_block_def MAX_PACKET_SIZE_def)
  let ?W2 = "W1\<lparr>w_pool := Q, write_at := [Ptr 0 8 \<mapsto> write_io_data (Ptr 0 8) ?d],
     uses := (\<lambda>_. 0)(Ptr 0 8 := Suc (Suc 0)), wire_log := [(w, Addr (Endpoint_default 0 []))]\<rparr>"
  have s: "send_at (\<lambda>_ _. True) 0 ?sk (Ptr 0 8) (Endpoint_default 0 []) W1 = Inr (Some (Ptr 0 8), ?W2)"
    using Q w by (simp add: send_at_def W1 io_world_init_def)
  let ?W3 = "?W2\<lparr>uses := (\<lambda>_. 0)(Ptr 0 8 := 1), handles := \<lambda>_. 0\<rparr>"
  have dr: "drop_packet 0 (Ptr 0 8) ?W2 = Inr ?W3"
    by (simp add: drop_packet_def W1 fun_upd_def cong: if_cong)
  have h: "0 < handles W1 (Ptr 0 8)" "0 < handles ?W2 (Ptr 0 8)" by (simp_all add: W1)
  have i2: "io_ok ?W2" using send_at_ok [OF io_reach_ok [OF r1 io_ok_init] s] by (rule conjunct1)
  have "io_ok ?W3" using drop_packet_ok [OF i2 h(2) dr] by (rule conjunct1)
  then have rel: "opool_rel write_io_size Q {Ptr 0 8}" by (simp add: io_ok_def)
  obtain Q' where Q': "ObjectPool_Free write_io_size 0 Q (Ptr 0 8) = Inr Q'"
    using Free_returns [OF rel _ Q(2)] by auto
  let ?W4 = "?W3\<lparr>w_pool := Q', write_at := Map.empty\<rparr>"
  have f: "free_write 0 (Ptr 0 8) ?W3 = Inr ?W4" using Q' by (simp add: free_write_def)
  have "reach (io_step ?sk) ?W2 ?W4"
    by (rule io_reach_step [OF io_reach_step [OF io_reach_self io_drop [OF h(2) dr]] io_free_write [OF _ f]])
      simp
  from sent_block_leaks [OF r1 _ h(1) s this] m s dr f show ?thesis by fastforce
qed


text \<open>
  C29. The packet handler can read the wrong datagram: a worker that handles its own receive ends the
  round by freeing the operation and posting the next; if the detached handler thread runs between the
  two, it reads memory that was given back, and if it runs after them, the address it holds is
  that of the new operation: it parses whatever the next datagram leaves there.
\<close>

theorem late_handler_reads_next:
  assumes "reach (io_step sk) io_world_init W" and "is_with_iocp_m sk"
    and "recv_at grant t sk new W = Inr W1" and "posted_reads W1 = posted_reads W @ [q]"
  shows "\<exists>W2 W3. free_read t q (read_done q W1) = Inr W2 \<and> handler_packet fresh q W2 = Inl BadAccess \<and>
     recv_at grant' t sk next_read W2 = Inr W3 \<and>
     handler_packet fresh q W3 = Packet_parse fresh (read_buffer next_read)"
proof -
  have ok: "io_ok W" by (rule io_reach_ok [OF assms(1) io_ok_init])
  then have rel: "opool_rel read_io_size (r_pool W) (dom (read_at W))" by (simp add: io_ok_def)
  obtain P where m: "ObjectPool_Malloc grant read_io_size t (r_pool W) = Inr (q, P)" and W1: "r_pool W1 = P"
    using assms(2-4) by (auto simp: recv_at_def)
  obtain P2 P3 where f: "ObjectPool_Free read_io_size t P q = Inr P2"
    and n: "ObjectPool_Malloc grant' read_io_size t P2 = Inr (q, P3)"
    using malloc_again [OF rel m, of grant'] by blast
  let ?D = "read_done q W1"
  let ?W2 = "?D\<lparr>r_pool := P2, read_at := (read_at ?D)(q := None)\<rparr>"
  let ?W3 = "?W2\<lparr>r_pool := P3, read_at := (read_at ?W2)(q \<mapsto> next_read), posted_reads := posted_reads ?W2 @ [q]\<rparr>"
  have "r_pool ?D = P" using W1 by (simp add: read_done_def)
  then have "free_read t q ?D = Inr ?W2" using f by (simp add: free_read_def)
  moreover have "recv_at grant' t sk next_read ?W2 = Inr ?W3" using n assms(2) by (simp add: recv_at_def)
  moreover have "handler_packet fresh q ?W2 = Inl BadAccess" by (simp add: handler_packet_def)
  moreover have "handler_packet fresh q ?W3 = Packet_parse fresh (read_buffer next_read)"
    by (simp add: handler_packet_def)
  ultimately show ?thesis by blast
qed

theorem late_handler_reads_next_witness:
  "\<exists>W1 W2. recv_at (\<lambda>_ _. True) 0 \<lparr>is_with_iocp_m = True, iocp_m = Some 1, local_m = Endpoint_default 0 []\<rparr>
       (read_io_data 0 [] []) io_world_init = Inr W1 \<and>
     free_read 0 (Ptr 0 8) (read_done (Ptr 0 8) W1) = Inr W2 \<and>
     handler_packet \<lparr>size_m = 0, packet_type_m = 0, body_m = []\<rparr> (Ptr 0 8) W2 = Inl BadAccess"
proof -
  let ?sk = "\<lparr>is_with_iocp_m = True, iocp_m = Some 1, local_m = Endpoint_default 0 []\<rparr>"
  obtain W1 where W1: "recv_at (\<lambda>_ _. True) 0 ?sk (read_io_data 0 [] []) io_world_init = Inr W1"
    "posted_reads W1 = [Ptr 0 8]"
    using demo_recv by blast
  have "posted_reads W1 = posted_reads io_world_init @ [Ptr 0 8]" using W1(2) by (simp add: io_world_init_def)
  from late_handler_reads_next [OF io_reach_self _ W1(1) this] W1(1) show ?thesis by fastforce
qed

end
