(* ===== verification/UdpServer.thy ===== *)
theory UdpServer
  imports SessionManagerSpec
begin

section \<open>The datagram server (udp_server/src/server.hpp, server.cpp)\<close>

text \<open>
  A front for the session manager.  The constructor binds it to 127.0.0.1 and the port, passed on
  as \<open>unsigned short\<close>; \<open>Run\<close> waits for ever once the manager runs.
\<close>

record udp_server =
  session_manager_m :: manager
  server_port :: u16
  server_threads :: u16            \<comment> \<open>\<open>num_thread_\<close>, a \<open>short\<close>\<close>

definition Server_make ::
  "(string \<Rightarrow> u32 option) \<Rightarrow> nat option \<Rightarrow> bool \<Rightarrow> (nat \<Rightarrow> bool) \<Rightarrow> u16 \<Rightarrow> nat \<Rightarrow> opool \<Rightarrow> udp_server" where
  "Server_make InetPtonA iocp was assoc port num_thread sp =
     \<lparr>session_manager_m =
        SessionManager_ctor iocp was assoc (Endpoint_ctor InetPtonA port ''127.0.0.1'') num_thread sp,
      server_port = port, server_threads = of_nat num_thread\<rparr>"

definition Server_SetAcceptHandler :: "nat option \<Rightarrow> udp_server \<Rightarrow> udp_server" where
  "Server_SetAcceptHandler h U = U\<lparr>session_manager_m := SetAcceptHandler h (session_manager_m U)\<rparr>"

definition Server_SetDisconnectHandler :: "nat option \<Rightarrow> udp_server \<Rightarrow> udp_server" where
  "Server_SetDisconnectHandler h U = U\<lparr>session_manager_m := SetDisconnectHandler h (session_manager_m U)\<rparr>"

definition Server_SetPacketHandler :: "nat option \<Rightarrow> udp_server \<Rightarrow> udp_server" where
  "Server_SetPacketHandler h U = U\<lparr>session_manager_m := SetPacketHandler h (session_manager_m U)\<rparr>"

text \<open>\<open>while (1);\<close>\<close>

partial_function (option) forever :: "'a \<Rightarrow> 'b option" where
  "forever x = forever x"

definition Server_RunNonBlock :: "udp_server \<Rightarrow> bool \<times> udp_server" where
  "Server_RunNonBlock U = (let (ret, M) = Run (session_manager_m U) in (ret, U\<lparr>session_manager_m := M\<rparr>))"

definition Server_Run :: "udp_server \<Rightarrow> (bool \<times> udp_server) option" where
  "Server_Run U = (let (ret, M) = Run (session_manager_m U) in
     if ret = False then Some (False, U\<lparr>session_manager_m := M\<rparr>) else forever M)"

lemma forever_returns: "forever x = Some y \<Longrightarrow> False"
  by (rule forever.raw_induct [where P = "\<lambda>x y. False"])

lemma forever_None: "(forever x :: 'b option) = None"
proof (rule ccontr)
  assume "(forever x :: 'b option) \<noteq> None"
  then obtain y :: 'b where "forever x = Some y" by auto
  then show False by (rule forever_returns)
qed

lemma Server_Run_eq:
  "Server_Run U = (if is_inited_all (session_manager_m U) = 0x0111 then None else Some (False, U))"
  by (simp add: Server_Run_def Run_def forever_None)

text \<open>With the three handlers set, \<open>RunNonBlock\<close> succeeds exactly if the port was created.\<close>

lemma RunNonBlock_ready:
  "fst (Server_RunNonBlock (Server_SetPacketHandler c (Server_SetDisconnectHandler b (Server_SetAcceptHandler a
     (Server_make InetPtonA iocp was assoc port n sp))))) \<longleftrightarrow> iocp \<noteq> None"
  by (cases iocp) (simp_all add: Server_RunNonBlock_def Run_def Server_SetPacketHandler_def
      Server_SetDisconnectHandler_def Server_SetAcceptHandler_def SetPacketHandler_def
      SetDisconnectHandler_def SetAcceptHandler_def Server_make_def SessionManager_ctor_def)

end
