(* ===== verification/SessionRace.thy ===== *)
theory SessionRace
  imports SessionManagerSpec
begin

section \<open>The threads of the session manager, interleaved (udp_server/src/session_manager.cpp)\<close>

text \<open>
  \<open>Run\<close> starts \<open>num_thread_\<close> workers and the heartbeat thread on one manager.  Here each of them is
  somewhere in its loop, and a step is one section under an exclusive lock, one interlocked access of a counter,
  one call into a pool or the system, or, for the heartbeat thread, one access of its loop while it holds
  the lock of the sessions.  A section under a shared lock is two steps: \<open>ReadLock\<close> reads \<open>lock_\<close>, and then, with no
  further test, the reader counts itself in \<open>reader_\<close>, searches the table and leaves again.  A writer that takes the
  lock between the two sees no reader, so reader and writer can be in the table together (theory \<open>Spinlock\<close>
  shows it of the lock alone): that is a data race on the \<open>std::map\<close>, and a fault of its own.  A writer whose
  lock is taken waits.  The first fault of any thread ends the program.
\<close>

subsection \<open>Workers\<close>

text \<open>
  Where a worker is: at the test of \<open>have_to_stop_\<close>, waiting for a completion, before one of the pieces of a
  round, or at the end of its thread.
\<close>

datatype worker_at =
    Starting                          \<comment> \<open>\<open>this->socket_->Recv()\<close> before the loop\<close>
  | Loop                              \<comment> \<open>\<open>while (!have_to_stop_)\<close>\<close>
  | Idle                              \<comment> \<open>in \<open>GetQueuedCompletionStatus\<close>\<close>
  | Gone
  | SynNew "byte list" endpoint
  | SynInsert "byte list" ptr
  | SynSend "byte list" ptr
  | AckTest endpoint                  \<comment> \<open>in \<open>ReadLock\<close>, before it has read \<open>lock_\<close> as 0\<close>
  | AckFind endpoint                  \<comment> \<open>\<open>lock_\<close> was 0, \<open>reader_\<close> is not yet counted\<close>
  | AckErase addr_key ptr             \<comment> \<open>holds the iterator \<open>it\<close> and \<open>pending_session\<close>\<close>
  | AckInsert ptr
  | AckSpawn ptr
  | BeatTest endpoint
  | BeatFind endpoint
  | BeatInc ptr
  | DataTest "byte list" endpoint
  | DataFind "byte list" endpoint
  | DataInc "byte list" ptr
  | DataSpawn "byte list" ptr
  | FreeRead
  | Repost
  | FreeWrite

text \<open>What a worker does with a completion, up to the first shared access.\<close>

definition arrival :: "bool \<Rightarrow> u32 \<Rightarrow> io_data \<Rightarrow> worker_at res" where
  "arrival succ bytes d =
     (if \<not> succ then Inr Loop
      else if bytes < 4 then Inr Loop
      else case d of
        WriteIo \<Rightarrow> Inr FreeWrite
      | ReadIo buffer remote \<Rightarrow>
          rbind (read_short buffer 0) (\<lambda>sz.
          rbind (read_short buffer 2) (\<lambda>ty.
          Inr (if bytes = 6 \<and> sz = 2 \<and> ty = - 1 then SynNew buffer remote
               else if bytes = 6 \<and> sz = 2 \<and> ty = - 3 then AckTest remote
               else if bytes = 4 \<and> sz = 0 \<and> ty = - 1 then BeatTest remote
               else if word_of_int (sint sz + 4) = bytes then DataTest buffer remote
               else FreeRead))))"

text \<open>
  One piece; \<open>Inl NoReturn\<close> is a lock that is taken, or a thread that has ended.  The piece at \<open>Idle\<close> is the
  wait that times out (\<open>wait_time\<close>).  In the three \<open>Find\<close> pieces \<open>reader_\<close> goes up and down again.
\<close>

fun worker_piece :: "env \<Rightarrow> worker_at \<Rightarrow> manager \<Rightarrow> (worker_at \<times> manager) res" where
  "worker_piece E Starting S = rbind (recv S) (\<lambda>S1. Inr (Loop, S1))"
| "worker_piece E Loop S = Inr (if have_to_stop S then Gone else Idle, S)"
| "worker_piece E Idle S = Inr (Loop, S)"
| "worker_piece E Gone S = Inl NoReturn"
| "worker_piece E (SynNew buffer remote) S =
     rbind (ObjectPool_Malloc (grants E) session_size (thread E) (session_pool S)) (\<lambda>(p, sp).
     case socket_m S of None \<Rightarrow> Inl NullDeref | Some sk \<Rightarrow>
     Inr (SynInsert buffer p, S\<lparr>session_pool := sp, session_at := (session_at S)(p \<mapsto> Session_ctor remote)\<rparr>))"
| "worker_piece E (SynInsert buffer p) S =
     rbind (session_of S p) (\<lambda>s.
     rbind (insert_pending (key (Session_GetEndpoint s)) p S) (\<lambda>(_, S1). Inr (SynSend buffer p, S1)))"
| "worker_piece E (SynSend buffer p) S =
     rbind (Packet_make (fresh_block E) 2 (- 2) (drop 4 buffer)) (\<lambda>packet.
     rbind (session_of S p) (\<lambda>s.
     case socket_m S of None \<Rightarrow> Inl NullDeref | Some sk \<Rightarrow>
     rbind (Session_Send sk s packet (io S)) (\<lambda>N. Inr (FreeRead, S\<lparr>io := N\<rparr>))))"
| "worker_piece E (AckTest remote) S =
     (if lock_m (lock_pending_sessions S) = 0 then Inr (AckFind remote, S) else Inl NoReturn)"
| "worker_piece E (AckFind remote) S =
     Inr (case map_find (pending_sessions S) (key remote) of None \<Rightarrow> Loop | Some p \<Rightarrow> AckErase (key remote) p, S)"
| "worker_piece E (AckErase k p) S = rbind (ack_erase (k, p) S) (\<lambda>(_, S1). Inr (AckInsert p, S1))"
| "worker_piece E (AckInsert p) S = rbind (ack_insert p S) (\<lambda>(_, S1). Inr (AckSpawn p, S1))"
| "worker_piece E (AckSpawn p) S = Inr (FreeRead, S\<lparr>spawned := spawned S @ [AcceptThread p]\<rparr>)"
| "worker_piece E (BeatTest remote) S =
     (if lock_m (lock_sessions S) = 0 then Inr (BeatFind remote, S) else Inl NoReturn)"
| "worker_piece E (BeatFind remote) S =
     Inr (case map_find (sessions S) (key remote) of None \<Rightarrow> Loop | Some p \<Rightarrow> BeatInc p, S)"
| "worker_piece E (BeatInc p) S =
     rbind (session_of S p) (\<lambda>s. Inr (FreeRead, set_alive p s (is_alive_m s + 1) S))"
| "worker_piece E (DataTest buffer remote) S =
     (if lock_m (lock_sessions S) = 0 then Inr (DataFind buffer remote, S) else Inl NoReturn)"
| "worker_piece E (DataFind buffer remote) S =
     Inr (case map_find (sessions S) (key remote) of None \<Rightarrow> Loop | Some p \<Rightarrow> DataInc buffer p, S)"
| "worker_piece E (DataInc buffer p) S =
     rbind (session_of S p) (\<lambda>s. let a = is_alive_m s + 1 in
     Inr (if sint a > - 2 then DataSpawn buffer p else FreeRead, set_alive p s a S))"
| "worker_piece E (DataSpawn buffer p) S = Inr (FreeRead, S\<lparr>spawned := spawned S @ [PacketThread p buffer]\<rparr>)"
| "worker_piece E FreeRead S = Inr (Repost, S\<lparr>io := (io S)\<lparr>read_io_live := read_io_live (io S) - 1\<rparr>\<rparr>)"
| "worker_piece E Repost S = rbind (recv S) (\<lambda>S1. Inr (Loop, S1))"
| "worker_piece E FreeWrite S = Inr (Loop, S\<lparr>io := (io S)\<lparr>write_io_live := write_io_live (io S) - 1\<rparr>\<rparr>)"

subsection \<open>The heartbeat thread\<close>

text \<open>
  \<open>HbDec\<close> and \<open>HbTest\<close> are inside the first loop, under the write lock, the iterator standing at the first of
  the entries listed; \<open>disconnected\<close> is \<open>ds\<close>.  In the second loop the iterator stands between \<open>kept\<close> and
  the rest.
\<close>

datatype heartbeat_at =
    HbSleep "ptr list"
  | HbDec "(addr_key \<times> ptr) list" "ptr list"
  | HbTest addr_key ptr "(addr_key \<times> ptr) list" "ptr list"
  | HbWalk "ptr list" "ptr list"
  | HbDelete ptr "ptr list" "ptr list"

fun heartbeat_piece :: "heartbeat_at \<Rightarrow> manager \<Rightarrow> (heartbeat_at \<times> manager) res" where
  "heartbeat_piece (HbSleep ds) S = (case Lock (lock_sessions S) of
     None \<Rightarrow> Inl NoReturn
   | Some l \<Rightarrow> Inr (HbDec (sessions S) ds, S\<lparr>lock_sessions := l\<rparr>))"
| "heartbeat_piece (HbDec [] ds) S = Inr (HbWalk [] ds, S\<lparr>lock_sessions := Unlock (lock_sessions S)\<rparr>)"
| "heartbeat_piece (HbDec ((k, p) # m) ds) S =
     rbind (session_of S p) (\<lambda>s. Inr (HbTest k p m ds, set_alive p s (is_alive_m s - 1) S))"
| "heartbeat_piece (HbTest k p m ds) S =
     rbind (session_of S p) (\<lambda>s.
     if sint (is_alive_m s) < - 1
     then rbind (map_erase (sessions S) (k, p)) (\<lambda>t. Inr (HbDec m (ds @ [p]), S\<lparr>sessions := t\<rparr>))
     else Inr (HbDec m ds, S))"
| "heartbeat_piece (HbWalk kept []) S = Inr (HbSleep kept, S)"
| "heartbeat_piece (HbWalk kept (p # ps)) S =
     rbind (disconnect p S) (\<lambda>(drop, S1). Inr (if drop then HbDelete p kept ps else HbWalk (kept @ [p]) ps, S1))"
| "heartbeat_piece (HbDelete p kept ps) S = rbind (delete_session p S) (\<lambda>S1. Inr (HbWalk kept ps, S1))"

subsection \<open>All threads\<close>

text \<open>
  Threads below \<open>n\<close> are the workers, thread \<open>n\<close> is the heartbeat, and thread \<open>n + 1\<close> the one that
  destroys the manager.  A read completes only if one is posted; every receive buffer has its 512 bytes.
\<close>

record session_sys =
  mgr :: manager
  worker_of :: "nat \<Rightarrow> worker_at"
  hb :: heartbeat_at
  crash :: "(nat \<times> fault) option"

definition can_complete :: "io_data \<Rightarrow> manager \<Rightarrow> bool" where
  "can_complete d S = (case d of
     ReadIo buffer remote \<Rightarrow> 0 < posted (io S) \<and> length buffer = socket_buf_size
   | WriteIo \<Rightarrow> True)"

text \<open>
  Which table a worker reads once it counts itself in, and which one a thread is about to change: a worker
  that can take the lock, or the heartbeat thread, which holds it, at an \<open>erase\<close>.
\<close>

datatype table = PendingTable | SessionTable

fun reading :: "worker_at \<Rightarrow> table option" where
  "reading (AckFind remote) = Some PendingTable"
| "reading (BeatFind remote) = Some SessionTable"
| "reading (DataFind buffer remote) = Some SessionTable"
| "reading _ = None"

fun changing :: "worker_at \<Rightarrow> table option" where
  "changing (SynInsert buffer p) = Some PendingTable"
| "changing (AckErase k p) = Some PendingTable"
| "changing (AckInsert p) = Some SessionTable"
| "changing _ = None"

fun table_lock :: "table \<Rightarrow> manager \<Rightarrow> spinlock" where
  "table_lock PendingTable S = lock_pending_sessions S"
| "table_lock SessionTable S = lock_sessions S"

fun erasing :: "heartbeat_at \<Rightarrow> manager \<Rightarrow> bool" where
  "erasing (HbTest k p m ds) S = (case session_at S p of Some s \<Rightarrow> sint (is_alive_m s) < - 1 | None \<Rightarrow> False)"
| "erasing _ S = False"

definition writing :: "nat \<Rightarrow> session_sys \<Rightarrow> nat \<Rightarrow> table \<Rightarrow> bool" where
  "writing n s u T \<longleftrightarrow>
     u < n \<and> changing (worker_of s u) = Some T \<and> lock_m (table_lock T (mgr s)) = 0 \<or>
     u = n \<and> T = SessionTable \<and> erasing (hb s) (mgr s)"

inductive session_step :: "nat \<Rightarrow> session_sys \<Rightarrow> nat \<Rightarrow> session_sys \<Rightarrow> bool" for n :: nat where
  arrive: "crash s = None \<Longrightarrow> t < n \<Longrightarrow> worker_of s t = Idle \<Longrightarrow>
    can_complete d (mgr s) \<Longrightarrow> arrival succ bytes d = Inr w \<Longrightarrow>
    session_step n s t (s\<lparr>mgr := complete d (mgr s), worker_of := (worker_of s)(t := w)\<rparr>)"
| work: "crash s = None \<Longrightarrow> t < n \<Longrightarrow> thread E = t \<Longrightarrow> is_block (fresh_block E) \<Longrightarrow>
    worker_piece E (worker_of s t) (mgr s) = Inr (w, S) \<Longrightarrow>
    session_step n s t (s\<lparr>mgr := S, worker_of := (worker_of s)(t := w)\<rparr>)"
| work_fault: "crash s = None \<Longrightarrow> t < n \<Longrightarrow> thread E = t \<Longrightarrow> is_block (fresh_block E) \<Longrightarrow>
    worker_piece E (worker_of s t) (mgr s) = Inl f \<Longrightarrow> f \<noteq> NoReturn \<Longrightarrow>
    session_step n s t (s\<lparr>crash := Some (t, f)\<rparr>)"
| overlap: "crash s = None \<Longrightarrow> t < n \<Longrightarrow> reading (worker_of s t) = Some T \<Longrightarrow> writing n s u T \<Longrightarrow>
    session_step n s t (s\<lparr>crash := Some (t, DataRace)\<rparr>)"
| beat: "crash s = None \<Longrightarrow> heartbeat_piece (hb s) (mgr s) = Inr (h, S) \<Longrightarrow>
    session_step n s n (s\<lparr>mgr := S, hb := h\<rparr>)"
| beat_fault: "crash s = None \<Longrightarrow> heartbeat_piece (hb s) (mgr s) = Inl f \<Longrightarrow> f \<noteq> NoReturn \<Longrightarrow>
    session_step n s n (s\<lparr>crash := Some (n, f)\<rparr>)"
| stop: "crash s = None \<Longrightarrow> session_step n s (Suc n) (s\<lparr>mgr := (mgr s)\<lparr>have_to_stop := True\<rparr>\<rparr>)"

definition session_start :: "manager \<Rightarrow> session_sys" where
  "session_start S = \<lparr>mgr = S, worker_of = (\<lambda>_. Starting), hb = HbSleep [], crash = None\<rparr>"

end
