(* ===== verification/SessionRaceInv.thy ===== *)
theory SessionRaceInv
  imports SessionRace
begin

section \<open>The session tables under concurrency\<close>

text \<open>
  The invariant of all threads together, and that every step keeps it.  A pointer is \<open>loose\<close> while a worker
  has taken a session out of one place and not yet put it into the next: then it is in no table and
  nobody else has it loose.
\<close>

subsection \<open>The manager's part, whoever holds the lock of the sessions\<close>

definition core_inv :: "manager \<Rightarrow> bool" where
  "core_inv S \<longleftrightarrow> lock_pending_sessions S = Spinlock \<and> tables_ok S \<and> socket_m S \<noteq> None \<and>
     opool_rel session_size (session_pool S) (dom (session_at S))"

lemma core_manager: "core_inv S \<longleftrightarrow> manager_inv (S\<lparr>lock_sessions := Spinlock\<rparr>)"
  by (simp add: core_inv_def manager_inv_def locks_free_def tables_ok_def entry_ok_def)

lemma manager_core: "manager_inv S \<longleftrightarrow> core_inv S \<and> lock_sessions S = Spinlock"
  by (auto simp: core_inv_def manager_inv_def locks_free_def)

text \<open>What the invariant does not look at.\<close>

lemma core_frame [simp]:
  "core_inv (S\<lparr>lock_sessions := l\<rparr>) = core_inv S" "core_inv (S\<lparr>io := N\<rparr>) = core_inv S"
  "core_inv (S\<lparr>spawned := q\<rparr>) = core_inv S" "core_inv (S\<lparr>have_to_stop := b\<rparr>) = core_inv S"
  "core_inv (S\<lparr>disconnected_calls := c\<rparr>) = core_inv S"
  by (simp_all add: core_inv_def tables_ok_def entry_ok_def)

lemma core_alive:
  assumes "core_inv S" and "session_at S p = Some s"
  shows "core_inv (set_alive p s a S)"
proof -
  have "manager_inv (set_alive p s a (S\<lparr>lock_sessions := Spinlock\<rparr>))"
    by (rule set_alive_inv) (use assms in \<open>simp_all add: core_manager\<close>)
  moreover have "set_alive p s a (S\<lparr>lock_sessions := Spinlock\<rparr>) = (set_alive p s a S)\<lparr>lock_sessions := Spinlock\<rparr>"
    by (simp add: set_alive_def)
  ultimately show ?thesis by (simp only: core_manager)
qed

lemma core_session_of:
  assumes "core_inv S" and "p \<in> dom (session_at S)"
  obtains s where "session_at S p = Some s" "session_of S p = Inr s"
proof -
  obtain s where s: "session_at S p = Some s" using assms(2) by blast
  have "session_of (S\<lparr>lock_sessions := Spinlock\<rparr>) p = Inr s"
    by (rule session_of_eq) (use assms s in \<open>simp_all add: core_manager\<close>)
  moreover have "session_of (S\<lparr>lock_sessions := Spinlock\<rparr>) p = session_of S p" by (simp add: session_of_def)
  ultimately have "session_of S p = Inr s" by simp
  with s show ?thesis by (rule that)
qed

text \<open>The pointers in the tables; all of them are constructed sessions.\<close>

definition table_ptrs :: "manager \<Rightarrow> ptr set" where
  "table_ptrs S = snd ` set (sessions S) \<union> snd ` set (pending_sessions S)"

lemma table_ptrs_frame [simp]:
  "table_ptrs (S\<lparr>lock_sessions := l\<rparr>) = table_ptrs S" "table_ptrs (S\<lparr>io := N\<rparr>) = table_ptrs S"
  "table_ptrs (S\<lparr>spawned := q\<rparr>) = table_ptrs S" "table_ptrs (set_alive p s a S) = table_ptrs S"
  "table_ptrs (S\<lparr>disconnected_calls := c\<rparr>) = table_ptrs S" "table_ptrs (S\<lparr>have_to_stop := b\<rparr>) = table_ptrs S"
  "table_ptrs (S\<lparr>session_pool := sp, session_at := f\<rparr>) = table_ptrs S"
  by (simp_all add: table_ptrs_def)

lemma core_tables:
  assumes "core_inv S"
  shows "map_ok (sessions S)" "map_ok (pending_sessions S)"
    "\<And>e. e \<in> set (sessions S) \<Longrightarrow> entry_ok S e" "\<And>e. e \<in> set (pending_sessions S) \<Longrightarrow> entry_ok S e"
    "snd ` set (sessions S) \<inter> snd ` set (pending_sessions S) = {}"
  using assms by (simp_all add: core_inv_def tables_ok_def)

lemma table_constructed:
  assumes "core_inv S"
  shows "table_ptrs S \<subseteq> dom (session_at S)"
  using core_tables(3,4) [OF assms] by (fastforce simp: table_ptrs_def entry_ok_def)

lemma found_ptr:
  assumes "core_inv S" and "map_find (sessions S) k = Some p \<or> map_find (pending_sessions S) k = Some p"
  shows "p \<in> table_ptrs S"
  using assms(2) map_find_set [OF core_tables(1) [OF assms(1)], of k p]
    map_find_set [OF core_tables(2) [OF assms(1)], of k p]
  by (auto simp: table_ptrs_def intro: image_eqI [where x = "(k, p)"])

subsection \<open>Changes of the tables\<close>

text \<open>The tables may be replaced by any with the same kind of entries.\<close>

lemma core_retable:
  assumes c: "core_inv S" and m: "map_ok m" "map_ok q"
    and new: "\<And>e. e \<in> set m \<Longrightarrow> entry_ok S e" "\<And>e. e \<in> set q \<Longrightarrow> entry_ok S e"
    and apart: "snd ` set m \<inter> snd ` set q = {}"
  shows "core_inv (S\<lparr>sessions := m, pending_sessions := q\<rparr>)"
  using c m new apart by (auto simp: core_inv_def tables_ok_def entry_ok_def)

lemma insert_ptrs: "snd ` set (map_insert m k p) \<subseteq> insert p (snd ` set m)"
  using image_mono [OF map_insert_set [of m k p], of snd] by simp

lemma insert_entries:
  assumes "entry_ok S (k, p)" and "\<And>e. e \<in> set m \<Longrightarrow> entry_ok S e" and "e \<in> set (map_insert m k p)"
  shows "entry_ok S e"
  using subsetD [OF map_insert_set assms(3)] assms(1,2) by blast

lemma core_pend:
  assumes c: "core_inv S" and s: "session_at S p = Some s" "k = key (endpoint_m s)" and p: "p \<notin> table_ptrs S"
  shows "core_inv (S\<lparr>pending_sessions := map_insert (pending_sessions S) k p\<rparr>)"
    and "table_ptrs (S\<lparr>pending_sessions := map_insert (pending_sessions S) k p\<rparr>) \<subseteq> insert p (table_ptrs S)"
proof -
  have e: "entry_ok S (k, p)" using s by (simp add: entry_ok_def)
  have "core_inv (S\<lparr>sessions := sessions S, pending_sessions := map_insert (pending_sessions S) k p\<rparr>)"
  proof (rule core_retable [OF c])
    show "entry_ok S x" if "x \<in> set (map_insert (pending_sessions S) k p)" for x
      using insert_entries [OF e core_tables(4) [OF c] that] .
    show "snd ` set (sessions S) \<inter> snd ` set (map_insert (pending_sessions S) k p) = {}"
      using insert_ptrs [of "pending_sessions S" k p] core_tables(5) [OF c] p unfolding table_ptrs_def by blast
  qed (use core_tables(1-3) [OF c] in \<open>simp_all add: map_ok_insert\<close>)
  then show "core_inv (S\<lparr>pending_sessions := map_insert (pending_sessions S) k p\<rparr>)" by simp
  show "table_ptrs (S\<lparr>pending_sessions := map_insert (pending_sessions S) k p\<rparr>) \<subseteq> insert p (table_ptrs S)"
    using insert_ptrs [of "pending_sessions S" k p] by (auto simp: table_ptrs_def)
qed

lemma core_open:
  assumes c: "core_inv S" and s: "session_at S p = Some s" "k = key (endpoint_m s)" and p: "p \<notin> table_ptrs S"
  shows "core_inv (S\<lparr>sessions := map_insert (sessions S) k p\<rparr>)"
    and "table_ptrs (S\<lparr>sessions := map_insert (sessions S) k p\<rparr>) \<subseteq> insert p (table_ptrs S)"
proof -
  have e: "entry_ok S (k, p)" using s by (simp add: entry_ok_def)
  have "core_inv (S\<lparr>sessions := map_insert (sessions S) k p, pending_sessions := pending_sessions S\<rparr>)"
  proof (rule core_retable [OF c])
    show "entry_ok S x" if "x \<in> set (map_insert (sessions S) k p)" for x
      using insert_entries [OF e core_tables(3) [OF c] that] .
    show "snd ` set (map_insert (sessions S) k p) \<inter> snd ` set (pending_sessions S) = {}"
      using insert_ptrs [of "sessions S" k p] core_tables(5) [OF c] p unfolding table_ptrs_def by blast
  qed (use core_tables(1,2,4) [OF c] in \<open>simp_all add: map_ok_insert\<close>)
  then show "core_inv (S\<lparr>sessions := map_insert (sessions S) k p\<rparr>)" by simp
  show "table_ptrs (S\<lparr>sessions := map_insert (sessions S) k p\<rparr>) \<subseteq> insert p (table_ptrs S)"
    using insert_ptrs [of "sessions S" k p] by (auto simp: table_ptrs_def)
qed

lemma erase_subset: "map_erase m e = Inr m' \<Longrightarrow> set m' \<subseteq> set m"
  by (auto simp: map_erase_def split: if_splits)

lemma core_unpend:
  assumes c: "core_inv S" and m: "map_erase (pending_sessions S) (k, p) = Inr m"
  shows "core_inv (S\<lparr>pending_sessions := m\<rparr>)"
    and "table_ptrs (S\<lparr>pending_sessions := m\<rparr>) \<subseteq> table_ptrs S - {p}" and "p \<in> snd ` set (pending_sessions S)"
proof -
  note t = core_tables [OF c]
  note sub = erase_subset [OF m]
  have m': "map_find (pending_sessions S) k = Some p" "map_ok m" "map_find m = (map_find (pending_sessions S))(k := None)"
    using om.erase_cases [OF t(2) m] by simp_all
  have "core_inv (S\<lparr>sessions := sessions S, pending_sessions := m\<rparr>)"
    by (rule core_retable [OF c]) (use t(1,3,4,5) sub m'(2) image_mono [OF sub, of snd] in blast)+
  then show "core_inv (S\<lparr>pending_sessions := m\<rparr>)" by simp
  have set: "(k, p) \<in> set (pending_sessions S)" using m'(1) map_find_set [OF t(2)] by simp
  have "p \<notin> snd ` set (sessions S)" using set t(5) by force
  moreover have "p \<notin> snd ` set m"
  proof
    assume "p \<in> snd ` set m"
    then obtain j where j: "(j, p) \<in> set m" by auto
    then have "j = k" using t(4) [of "(j, p)"] t(4) [OF set] sub by (auto simp: entry_ok_def)
    then show False using j m'(3) map_find_set [OF m'(2), of k p] by simp
  qed
  ultimately show "table_ptrs (S\<lparr>pending_sessions := m\<rparr>) \<subseteq> table_ptrs S - {p}"
    using sub by (auto simp: table_ptrs_def)
  show "p \<in> snd ` set (pending_sessions S)" using set by force
qed

lemma core_drop:
  assumes c: "core_inv S" and m: "map_erase (sessions S) e = Inr m"
  shows "core_inv (S\<lparr>sessions := m\<rparr>)" and "table_ptrs (S\<lparr>sessions := m\<rparr>) \<subseteq> table_ptrs S"
proof -
  note t = core_tables [OF c]
  note sub = erase_subset [OF m]
  have "map_ok m" using om.erase_cases [OF t(1), of "fst e" "snd e" m] m by simp
  then have "core_inv (S\<lparr>sessions := m, pending_sessions := pending_sessions S\<rparr>)"
    by (intro core_retable [OF c]) (use t(2-5) sub image_mono [OF sub, of snd] in blast)+
  then show "core_inv (S\<lparr>sessions := m\<rparr>)" by simp
  show "table_ptrs (S\<lparr>sessions := m\<rparr>) \<subseteq> table_ptrs S" using sub by (auto simp: table_ptrs_def)
qed

text \<open>A new session.\<close>

lemma core_alloc:
  assumes c: "core_inv S" and m: "ObjectPool_Malloc grant session_size t (session_pool S) = Inr (p, sp)"
  shows "core_inv (S\<lparr>session_pool := sp, session_at := (session_at S)(p \<mapsto> s)\<rparr>)" and "p \<notin> dom (session_at S)"
proof -
  let ?S = "S\<lparr>session_pool := sp, session_at := (session_at S)(p \<mapsto> s)\<rparr>"
  have "opool_rel session_size (session_pool S) (dom (session_at S))" using c by (simp add: core_inv_def)
  from Malloc_law [OF this m] have p: "p \<notin> dom (session_at S)" "opool_rel session_size sp (insert p (dom (session_at S)))"
    by simp_all
  show "p \<notin> dom (session_at S)" by (rule p(1))
  have "entry_ok ?S e" if "entry_ok S e" for e using that p(1) by (auto simp: entry_ok_def)
  then have "tables_ok ?S" using c by (simp add: core_inv_def tables_ok_def del: fun_upd_apply)
  then show "core_inv ?S" using c p(2) by (simp add: core_inv_def)
qed

text \<open>\<open>delete\<close> never succeeds on a session.\<close>

lemma core_delete:
  assumes "core_inv S" and "p \<in> dom (session_at S)"
  shows "delete_session p S = Inl BadFree"
proof -
  have "opool_rel session_size (session_pool S) (dom (session_at S))" using assms(1) by (simp add: core_inv_def)
  from held_not_freeable [OF this assms(2)] show ?thesis by (simp add: delete_session_def)
qed

subsection \<open>Sections and their locks\<close>

abbreviation held :: spinlock where
  "held \<equiv> Spinlock\<lparr>lock_m := 1\<rparr>"

lemma held_facts [simp]:
  "Lock held = None" "ReadLock held = None" "held \<noteq> Spinlock" "Spinlock \<noteq> held"
  by (simp_all add: Lock_eq ReadLock_eq Spinlock_def)

lemma pending_sections:
  assumes "lock_pending_sessions S = Spinlock"
  shows "ack_find r S = Inr (map_find (pending_sessions S) (key r), S)"
    and "insert_pending k p S = Inr ((), S\<lparr>pending_sessions := map_insert (pending_sessions S) k p\<rparr>)"
    and "ack_erase it S = rbind (map_erase (pending_sessions S) it) (\<lambda>m. Inr ((), S\<lparr>pending_sessions := m\<rparr>))"
  using assms by (simp_all add: ack_find_def pending_read_def Let_def manager_lock_same insert_pending_def
      pending_write_def ack_erase_def rbind_assoc)

lemma session_sections:
  assumes "lock_sessions S = Spinlock"
  shows "find_session r S = Inr (map_find (sessions S) (key r), S)"
    and "ack_insert p S = rbind (session_of S p) (\<lambda>s.
      Inr ((), S\<lparr>sessions := map_insert (sessions S) (key (Session_GetEndpoint s)) p\<rparr>))"
  using assms by (simp_all add: find_session_def sessions_read_def Let_def manager_lock_same ack_insert_def
      sessions_write_def rbind_assoc session_of_def)

lemma sections_wait:
  assumes "lock_sessions S = held"
  shows "find_session r S = Inl NoReturn" and "ack_insert p S = Inl NoReturn"
  using assms by (simp_all add: find_session_def sessions_read_def ack_insert_def sessions_write_def)

subsection \<open>The invariant\<close>

fun loose :: "worker_at \<Rightarrow> ptr option" where
  "loose (SynInsert buffer p) = Some p"
| "loose (AckInsert p) = Some p"
| "loose _ = None"

text \<open>The sessions a worker has a pointer to.\<close>

fun refers :: "worker_at \<Rightarrow> ptr set" where
  "refers (SynInsert buffer p) = {p}"
| "refers (SynSend buffer p) = {p}"
| "refers (AckErase k p) = {p}"
| "refers (AckInsert p) = {p}"
| "refers (AckSpawn p) = {p}"
| "refers (BeatInc p) = {p}"
| "refers (DataInc buffer p) = {p}"
| "refers (DataSpawn buffer p) = {p}"
| "refers _ = {}"

fun whole_syn :: "worker_at \<Rightarrow> bool" where
  "whole_syn (SynNew buffer r) = (length buffer = socket_buf_size)"
| "whole_syn (SynInsert buffer p) = (length buffer = socket_buf_size)"
| "whole_syn (SynSend buffer p) = (length buffer = socket_buf_size)"
| "whole_syn _ = True"

text \<open>The sessions a worker has found open and is about to count for.\<close>

fun counted :: "worker_at \<Rightarrow> ptr set" where
  "counted (BeatInc p) = {p}"
| "counted (DataInc buffer p) = {p}"
| "counted _ = {}"

definition workers_ok :: "nat \<Rightarrow> manager \<Rightarrow> (nat \<Rightarrow> worker_at) \<Rightarrow> bool" where
  "workers_ok n S W \<longleftrightarrow> (\<forall>t<n. refers (W t) \<subseteq> dom (session_at S) \<and> whole_syn (W t) \<and>
     (\<forall>p. loose (W t) = Some p \<longrightarrow> p \<notin> table_ptrs S \<and> (\<forall>u<n. loose (W u) = Some p \<longrightarrow> u = t)))"

fun in_loop :: "heartbeat_at \<Rightarrow> bool" where
  "in_loop (HbDec m ds) = True"
| "in_loop (HbTest k p m ds) = True"
| "in_loop _ = False"

text \<open>The entries the heartbeat thread still has before it, and the sessions it has a pointer to.\<close>

fun ahead :: "heartbeat_at \<Rightarrow> (addr_key \<times> ptr) list" where
  "ahead (HbDec m ds) = m"
| "ahead (HbTest k p m ds) = (k, p) # m"
| "ahead _ = []"

fun expired :: "heartbeat_at \<Rightarrow> ptr list" where
  "expired (HbSleep ds) = ds"
| "expired (HbDec m ds) = ds"
| "expired (HbTest k p m ds) = ds"
| "expired (HbWalk kept ps) = kept @ ps"
| "expired (HbDelete p kept ps) = p # kept @ ps"

definition beat_ok :: "manager \<Rightarrow> heartbeat_at \<Rightarrow> bool" where
  "beat_ok S h \<longleftrightarrow> set (expired h) \<subseteq> dom (session_at S) \<and> map_ok (ahead h) \<and> set (ahead h) \<subseteq> set (sessions S)"

text \<open>Sessions that were open are neither pending nor loose again.\<close>

definition pending_ptrs :: "manager \<Rightarrow> ptr set" where
  "pending_ptrs S = snd ` set (pending_sessions S)"

definition apart :: "nat \<Rightarrow> manager \<Rightarrow> (nat \<Rightarrow> worker_at) \<Rightarrow> heartbeat_at \<Rightarrow> bool" where
  "apart n S W h \<longleftrightarrow> (\<forall>p\<in>(\<Union>t<n. counted (W t)) \<union> set (expired h).
     p \<notin> pending_ptrs S \<and> (\<forall>t<n. loose (W t) \<noteq> Some p))"

definition session_ok :: "nat \<Rightarrow> session_sys \<Rightarrow> bool" where
  "session_ok n s \<longleftrightarrow> core_inv (mgr s) \<and> lock_sessions (mgr s) = (if in_loop (hb s) then held else Spinlock) \<and>
     workers_ok n (mgr s) (worker_of s) \<and> beat_ok (mgr s) (hb s) \<and> apart n (mgr s) (worker_of s) (hb s)"

lemma pending_ptrs_frame [simp]:
  "pending_ptrs (S\<lparr>lock_sessions := l\<rparr>) = pending_ptrs S" "pending_ptrs (S\<lparr>io := N\<rparr>) = pending_ptrs S"
  "pending_ptrs (S\<lparr>spawned := q\<rparr>) = pending_ptrs S" "pending_ptrs (set_alive p s a S) = pending_ptrs S"
  "pending_ptrs (S\<lparr>disconnected_calls := c\<rparr>) = pending_ptrs S" "pending_ptrs (S\<lparr>have_to_stop := b\<rparr>) = pending_ptrs S"
  "pending_ptrs (S\<lparr>session_pool := sp, session_at := f\<rparr>) = pending_ptrs S" "pending_ptrs (S\<lparr>sessions := m\<rparr>) = pending_ptrs S"
  by (simp_all add: pending_ptrs_def)

subsection \<open>The pieces of a worker\<close>

text \<open>What a worker may rely on before a piece, and what it owes the others after it.\<close>

definition ready :: "worker_at \<Rightarrow> manager \<Rightarrow> bool" where
  "ready w S \<longleftrightarrow> core_inv S \<and> (lock_sessions S = Spinlock \<or> lock_sessions S = held) \<and>
     refers w \<subseteq> dom (session_at S) \<and> whole_syn w \<and> (\<forall>p. loose w = Some p \<longrightarrow> p \<notin> table_ptrs S)"

definition keeps_order :: "worker_at \<Rightarrow> manager \<Rightarrow> worker_at \<Rightarrow> manager \<Rightarrow> bool" where
  "keeps_order w S w' S' \<longleftrightarrow> ready w' S' \<and> lock_sessions S' = lock_sessions S \<and>
     dom (session_at S) \<subseteq> dom (session_at S') \<and> table_ptrs S' \<subseteq> table_ptrs S \<union> set_option (loose w) \<and>
     pending_ptrs S' \<subseteq> pending_ptrs S \<union> set_option (loose w) \<and>
     counted w' \<subseteq> counted w \<union> snd ` set (sessions S) \<and>
     (\<forall>p. loose w' = Some p \<longrightarrow> loose w = Some p \<or> p \<in> pending_ptrs S \<or> p \<notin> dom (session_at S)) \<and>
     (lock_sessions S = held \<longrightarrow> sessions S' = sessions S)"

text \<open>Pieces that leave tables and sessions alone.\<close>

lemma keeps_frame:
  assumes "ready w S" and "refers w' \<subseteq> refers w" and "counted w' = {}" and "loose w' = None" and "whole_syn w'"
  shows "keeps_order w S w' (S\<lparr>io := N\<rparr>)" and "keeps_order w S w' (S\<lparr>spawned := q\<rparr>)" and "keeps_order w S w' S"
  using assms by (auto simp: keeps_order_def ready_def)

lemma keeps_found:
  assumes "ready w S" and "map_find (sessions S) k = Some p \<or> map_find (pending_sessions S) k = Some p"
    and "counted w' = {} \<or> map_find (sessions S) k = Some p"
    and "refers w' = {p}" and "loose w' = None" and "whole_syn w'"
  shows "keeps_order w S w' S"
proof -
  have c: "core_inv S" using assms(1) by (simp add: ready_def)
  have "p \<in> dom (session_at S)" using found_ptr [OF c assms(2)] table_constructed [OF c] by blast
  moreover have "counted w' \<subseteq> snd ` set (sessions S)"
  proof (cases "counted w' = {}")
    case False
    then have "(k, p) \<in> set (sessions S)" using assms(3) map_find_set [OF core_tables(1) [OF c]] by blast
    moreover have "counted w' \<subseteq> refers w'" by (cases w') simp_all
    ultimately show ?thesis using assms(4) by force
  qed simp
  ultimately show ?thesis using assms by (auto simp: keeps_order_def ready_def)
qed

lemma keeps_counted:
  assumes "ready w S" and "session_at S p = Some s" and "refers w' \<subseteq> refers w" and "counted w' = {}" and "loose w' = None" and "whole_syn w'"
  shows "keeps_order w S w' (set_alive p s a S)"
  using assms core_alive [of S p s a] by (auto simp: keeps_order_def ready_def)

lemma recv_frame: "recv S = Inr S' \<Longrightarrow> \<exists>N. S' = S\<lparr>io := N\<rparr>"
  by (auto simp: recv_def split: option.splits)

lemma send_frame:
  assumes "worker_piece E (SynSend buffer p) S = Inr (w', S')"
  shows "(\<exists>N. S' = S\<lparr>io := N\<rparr>) \<and> w' = FreeRead"
proof -
  obtain d where d: "Packet_make (fresh_block E) 2 (- 2) (drop 4 buffer) = Inr d"
    using assms by (cases "Packet_make (fresh_block E) 2 (- 2) (drop 4 buffer)") simp_all
  obtain s where s: "session_of S p = Inr s" using assms d by (cases "session_of S p") simp_all
  obtain sk where sk: "socket_m S = Some sk" using assms d s by (cases "socket_m S") simp_all
  show ?thesis using assms d s sk by (cases "Session_Send sk s d (io S)") auto
qed

lemma new_piece:
  assumes "worker_piece E (SynNew buffer r) S = Inr (w', S')"
  obtains p sp where "ObjectPool_Malloc (grants E) session_size (thread E) (session_pool S) = Inr (p, sp)"
    "w' = SynInsert buffer p" "S' = S\<lparr>session_pool := sp, session_at := (session_at S)(p \<mapsto> Session_ctor r)\<rparr>"
proof (cases "ObjectPool_Malloc (grants E) session_size (thread E) (session_pool S)")
  case (Inl e)
  then show ?thesis using assms by simp
next
  case (Inr x)
  obtain p sp where x: "x = (p, sp)" by (cases x)
  then show ?thesis using assms Inr that [of p sp] by (cases "socket_m S") simp_all
qed
lemma keeps_new:
  assumes r: "ready (SynNew buffer remote) S"
    and m: "ObjectPool_Malloc grant session_size t (session_pool S) = Inr (p, sp)"
    and S': "S' = S\<lparr>session_pool := sp, session_at := (session_at S)(p \<mapsto> s)\<rparr>"
  shows "keeps_order (SynNew buffer remote) S (SynInsert buffer p) S'"
proof -
  have c: "core_inv S" using r by (simp add: ready_def)
  note a = core_alloc(1) [OF c m, of s] core_alloc(2) [OF c m]
  have "p \<notin> table_ptrs S" using a(2) table_constructed [OF c] by blast
  then show ?thesis using r a unfolding S' by (auto simp: keeps_order_def ready_def)
qed

lemma keeps_pend:
  assumes r: "ready (SynInsert buffer p) S" and s: "session_at S p = Some s"
  shows "keeps_order (SynInsert buffer p) S (SynSend buffer p)
     (S\<lparr>pending_sessions := map_insert (pending_sessions S) (key (endpoint_m s)) p\<rparr>)"
proof -
  have "core_inv S" "p \<notin> table_ptrs S" using r by (simp_all add: ready_def)
  note a = core_pend [OF this(1) s refl this(2)]
  have "pending_ptrs (S\<lparr>pending_sessions := map_insert (pending_sessions S) (key (endpoint_m s)) p\<rparr>) \<subseteq>
      insert p (pending_ptrs S)"
    using insert_ptrs by (simp add: pending_ptrs_def)
  then show ?thesis using r s a by (auto simp: keeps_order_def ready_def)
qed

lemma keeps_erase:
  assumes r: "ready (AckErase k p) S" and m: "map_erase (pending_sessions S) (k, p) = Inr m"
  shows "keeps_order (AckErase k p) S (AckInsert p) (S\<lparr>pending_sessions := m\<rparr>)"
proof -
  have "core_inv S" using r by (simp add: ready_def)
  note a = core_unpend [OF this m]
  have "pending_ptrs (S\<lparr>pending_sessions := m\<rparr>) \<subseteq> pending_ptrs S" "p \<in> pending_ptrs S"
    using image_mono [OF erase_subset [OF m], of snd] a(3) by (simp_all add: pending_ptrs_def)
  then show ?thesis using r a by (auto simp: keeps_order_def ready_def)
qed

lemma keeps_open:
  assumes r: "ready (AckInsert p) S" and s: "session_at S p = Some s" and l: "lock_sessions S = Spinlock"
  shows "keeps_order (AckInsert p) S (AckSpawn p)
     (S\<lparr>sessions := map_insert (sessions S) (key (endpoint_m s)) p\<rparr>)"
proof -
  have "core_inv S" "p \<notin> table_ptrs S" using r by (simp_all add: ready_def)
  note a = core_open [OF this(1) s refl this(2)]
  show ?thesis using r s a l by (auto simp: keeps_order_def ready_def)
qed

lemma piece_keeps:
  assumes r: "ready w S" and go: "worker_piece E w S = Inr (w', S')"
  shows "keeps_order w S w' S'"
proof -
  have c: "core_inv S" and l: "lock_sessions S = Spinlock \<or> lock_sessions S = held" and f: "refers w \<subseteq> dom (session_at S)"
    using r by (simp_all add: ready_def)
  have pl: "lock_pending_sessions S = Spinlock" using c by (simp add: core_inv_def)
  have so: "\<exists>s. session_at S p = Some s \<and> session_of S p = Inr s" if "p \<in> refers w" for p
    using core_session_of [OF c, of p] f that by blast
  note frame = keeps_frame [OF r] and found = keeps_found [OF r disjI1] keeps_found [OF r disjI2]
  show ?thesis
  proof (cases w)
    case Starting
    then show ?thesis using go r recv_frame [of S] by (auto intro!: keeps_frame)
  next
    case Idle
    then show ?thesis using go r by (auto intro!: keeps_frame)
  next
    case (SynNew buffer remote)
    then show ?thesis using go r by (auto split: option.splits intro!: keeps_new)
  next
    case (SynInsert buffer p)
    then show ?thesis using go r so [of p] keeps_pend [of buffer p S]
      by (auto simp: pending_sections [OF pl] Session_GetEndpoint_def)
  next
    case (SynSend buffer p)
    then obtain N where "S' = S\<lparr>io := N\<rparr>" "w' = FreeRead" using go send_frame by blast
    then show ?thesis using SynSend r by (auto intro!: keeps_frame)
  next
    case Loop
    then show ?thesis using go r by (auto intro!: keeps_frame split: if_splits)
  next
    case Gone
    then show ?thesis using go by simp
  next
    case (AckTest remote)
    then show ?thesis using go r by (auto intro!: keeps_frame split: if_splits)
  next
    case (BeatTest remote)
    then show ?thesis using go r by (auto intro!: keeps_frame split: if_splits)
  next
    case (DataTest buffer remote)
    then show ?thesis using go r by (auto intro!: keeps_frame split: if_splits)
  next
    case (AckFind remote)
    then show ?thesis using go frame(3) found(2) [of "key remote"]
      by (cases "map_find (pending_sessions S) (key remote)") auto
  next
    case (AckErase k p)
    then show ?thesis using go r by (auto simp: pending_sections [OF pl] intro: keeps_erase)
  next
    case (AckInsert p)
    have "lock_sessions S = Spinlock" using l go AckInsert sections_wait(2) [of S p] by auto
    then show ?thesis using AckInsert go r so [of p] keeps_open [of p S]
      by (auto simp: session_sections Session_GetEndpoint_def)
  next
    case (AckSpawn p)
    then show ?thesis using go r by (auto intro!: keeps_frame)
  next
    case (BeatFind remote)
    then show ?thesis using go frame(3) found(1) [of "key remote"]
      by (cases "map_find (sessions S) (key remote)") auto
  next
    case (BeatInc p)
    then show ?thesis using go r so [of p] by (auto intro!: keeps_counted)
  next
    case (DataFind buffer remote)
    then show ?thesis using go frame(3) found(1) [of "key remote"]
      by (cases "map_find (sessions S) (key remote)") auto
  next
    case (DataInc buffer p)
    then show ?thesis using go r so [of p] by (auto simp: Let_def intro!: keeps_counted split: if_splits)
  next
    case (DataSpawn buffer p)
    then show ?thesis using go r by (auto intro!: keeps_frame)
  next
    case FreeRead
    then show ?thesis using go r by (auto intro!: keeps_frame)
  next
    case Repost
    then show ?thesis using go r recv_frame [of S] by (auto intro!: keeps_frame)
  next
    case FreeWrite
    then show ?thesis using go r by (auto intro!: keeps_frame)
  qed
qed

text \<open>
  What can go wrong in a piece: the erase of an entry that is gone, and a new session for which the pool
  has no chunk.
\<close>

lemma send_ok:
  assumes "length buffer = socket_buf_size" and "is_block (fresh_block E)" and "session_of S p = Inr s"
    and "socket_m S = Some sk"
  shows "\<exists>x. worker_piece E (SynSend buffer p) S = Inr x"
proof -
  obtain d where "Packet_make (fresh_block E) 2 (- 2) (drop 4 buffer) = Inr d" "wire d = Inr (syn_ack buffer)"
    using answer_ok [OF assms(2), of buffer] assms(1) by (auto simp: socket_buf_size_def)
  then show ?thesis using assms(3,4) by (auto simp: Session_Send_def Socket_Send_def)
qed

lemma piece_faults:
  assumes r: "ready w S" and blk: "is_block (fresh_block E)"
    and go: "worker_piece E w S = Inl f" and f: "f \<noteq> NoReturn"
  shows "(\<exists>k p. w = AckErase k p \<and> f = BadIterator \<and> map_find (pending_sessions S) k \<noteq> Some p) \<or>
     (\<exists>buffer remote. w = SynNew buffer remote \<and>
        ObjectPool_Malloc (grants E) session_size (thread E) (session_pool S) = Inl f)"
proof -
  have c: "core_inv S" and l: "lock_sessions S = Spinlock \<or> lock_sessions S = held" and ref: "refers w \<subseteq> dom (session_at S)"
    using r by (simp_all add: ready_def)
  have pl: "lock_pending_sessions S = Spinlock" using c by (simp add: core_inv_def)
  obtain sk where sk: "socket_m S = Some sk" using c by (auto simp: core_inv_def)
  have so: "\<exists>s. session_of S p = Inr s" if "p \<in> refers w" for p
    using core_session_of [OF c, of p] ref that by blast
  have opens: "\<exists>e. session_of S p = Inl e" if "ack_insert p S = Inl f" for p
    using that l f sections_wait(2) [of S p] by (cases "session_of S p") (auto simp: session_sections)
  show ?thesis
  proof (cases w)
    case (SynSend buffer p)
    then obtain s where "session_of S p = Inr s" using so [of p] by auto
    then show ?thesis using SynSend r go send_ok [OF _ blk _ sk, of buffer p] by (auto simp: ready_def)
  next
    case (AckErase k p)
    then show ?thesis using go by (auto simp: pending_sections [OF pl] map_erase_def split: if_splits)
  next
    case (AckInsert p)
    then have "ack_insert p S = Inl f" using go by (cases "ack_insert p S") auto
    then show ?thesis using AckInsert opens [of p] so [of p] by auto
  next
    case (SynNew buffer remote)
    then show ?thesis using go sk
      by (cases "ObjectPool_Malloc (grants E) session_size (thread E) (session_pool S)") auto
  next
    case (SynInsert buffer p)
    then show ?thesis using go so [of p] by (auto simp: pending_sections [OF pl])
  next
    case (BeatInc p)
    then show ?thesis using go so [of p] by auto
  next
    case (DataInc buffer p)
    then show ?thesis using go so [of p] by (auto simp: Let_def)
  qed (use go f sk in \<open>auto simp: recv_def pending_sections [OF pl] split: option.splits if_splits\<close>)
qed

subsection \<open>The pieces of the heartbeat thread\<close>

definition beat_ready :: "heartbeat_at \<Rightarrow> manager \<Rightarrow> bool" where
  "beat_ready h S \<longleftrightarrow> core_inv S \<and> lock_sessions S = (if in_loop h then held else Spinlock) \<and> beat_ok S h"

definition beat_keeps :: "heartbeat_at \<Rightarrow> manager \<Rightarrow> heartbeat_at \<Rightarrow> manager \<Rightarrow> bool" where
  "beat_keeps h S h' S' \<longleftrightarrow> beat_ready h' S' \<and> dom (session_at S') = dom (session_at S) \<and> table_ptrs S' \<subseteq> table_ptrs S \<and>
     pending_sessions S' = pending_sessions S \<and> set (expired h') \<subseteq> set (expired h) \<union> snd ` set (sessions S)"

lemma set_alive_dom: "session_at S p = Some s \<Longrightarrow> dom (session_at (set_alive p s a S)) = dom (session_at S)"
  by auto

lemma ahead_constructed:
  assumes "beat_ready h S" and "e \<in> set (ahead h)"
  shows "snd e \<in> dom (session_at S)"
proof -
  have "core_inv S" "e \<in> set (sessions S)" using assms by (auto simp: beat_ready_def beat_ok_def)
  from core_tables(3) [OF this] show ?thesis by (auto simp: entry_ok_def)
qed

lemma erase_others: "map_erase m (k, p) = Inr t \<Longrightarrow> e \<in> set m \<Longrightarrow> fst e \<noteq> k \<Longrightarrow> e \<in> set t"
  by (auto simp: map_erase_def split: if_splits)

lemma dec_keeps:
  assumes r: "beat_ready (HbDec ((k, p) # m) ds) S" and go: "heartbeat_piece (HbDec ((k, p) # m) ds) S = Inr (h', S')"
  shows "beat_keeps (HbDec ((k, p) # m) ds) S h' S'"
proof -
  have c: "core_inv S" using r by (simp add: beat_ready_def)
  have p: "p \<in> dom (session_at S)" using ahead_constructed [OF r, of "(k, p)"] by simp
  obtain s where s: "session_at S p = Some s" "session_of S p = Inr s" by (rule core_session_of [OF c p])
  have e: "h' = HbTest k p m ds" "S' = set_alive p s (is_alive_m s - 1) S" using go s(2) by simp_all
  show ?thesis
    using r core_alive [OF c s(1)] set_alive_dom [OF s(1)] unfolding e beat_keeps_def beat_ready_def beat_ok_def
    by (simp del: set_alive_sel(7))
qed

lemma test_keeps:
  assumes r: "beat_ready (HbTest k p m ds) S" and go: "heartbeat_piece (HbTest k p m ds) S = Inr (h', S')"
  shows "beat_keeps (HbTest k p m ds) S h' S'"
proof -
  have c: "core_inv S" and b: "map_ok ((k, p) # m)" "set ((k, p) # m) \<subseteq> set (sessions S)" "lock_sessions S = held"
    "set ds \<subseteq> dom (session_at S)"
    using r by (simp_all add: beat_ready_def beat_ok_def)
  have p: "p \<in> dom (session_at S)" using ahead_constructed [OF r, of "(k, p)"] by simp
  obtain s where s: "session_at S p = Some s" "session_of S p = Inr s" by (rule core_session_of [OF c p])
  have mo: "map_ok m" "\<forall>e\<in>set m. fst e \<noteq> k" using b(1) by (auto simp: map_ok_def)
  show ?thesis
  proof (cases "sint (is_alive_m s) < - 1")
    case True
    then obtain t where t: "map_erase (sessions S) (k, p) = Inr t" and e: "h' = HbDec m (ds @ [p])" "S' = S\<lparr>sessions := t\<rparr>"
      using go s(2) by auto
    have "set m \<subseteq> set t" "p \<in> snd ` set (sessions S)" using erase_others [OF t] b(2) mo(2) by force+
    then show ?thesis using core_drop [OF c t] b(3,4) p mo(1)
      by (simp add: e beat_keeps_def beat_ready_def beat_ok_def)
  next
    case False
    then have "h' = HbDec m ds" "S' = S" using go s(2) by simp_all
    then show ?thesis using r mo(1) by (simp add: beat_keeps_def beat_ready_def beat_ok_def)
  qed
qed

lemma walk_keeps:
  assumes r: "beat_ready (HbWalk kept (p # ps)) S" and go: "heartbeat_piece (HbWalk kept (p # ps)) S = Inr (h', S')"
  shows "beat_keeps (HbWalk kept (p # ps)) S h' S'"
proof -
  have c: "core_inv S" and p: "p \<in> dom (session_at S)" and rest: "set kept \<subseteq> dom (session_at S)" "set ps \<subseteq> dom (session_at S)"
    and l: "lock_sessions S = Spinlock"
    using r by (simp_all add: beat_ready_def beat_ok_def)
  obtain s where s: "session_at S p = Some s" "session_of S p = Inr s" by (rule core_session_of [OF c p])
  let ?T = "set_alive p s (is_alive_m s - 1) S"
  obtain c' where e: "S' = ?T\<lparr>disconnected_calls := c'\<rparr>"
    and h: "h' = HbDelete p kept ps \<or> h' = HbWalk (kept @ [p]) ps"
  proof (cases "is_alive_m s - 1 = - 3")
    case True
    then have "S' = ?T\<lparr>disconnected_calls := disconnected_calls ?T @ [p]\<rparr>" "h' = HbDelete p kept ps"
      using go s(2) by (simp_all add: disconnect_def Let_def)
    then show ?thesis using that by blast
  next
    case False
    then have "S' = ?T\<lparr>disconnected_calls := disconnected_calls ?T\<rparr>" "h' = HbWalk (kept @ [p]) ps"
      using go s(2) by (simp_all add: disconnect_def Let_def)
    then show ?thesis using that by blast
  qed
  have d: "dom (session_at S') = dom (session_at S)" using set_alive_dom [OF s(1)] by (simp add: e)
  have cS: "core_inv S'" "table_ptrs S' = table_ptrs S" "lock_sessions S' = Spinlock" "pending_sessions S' = pending_sessions S"
    using core_alive [OF c s(1)] l by (simp_all add: e)
  have "beat_ok S' h'" using h p rest d by (auto simp: beat_ok_def map_ok_def)
  then show ?thesis using cS d h by (auto simp: beat_keeps_def beat_ready_def)
qed

lemma heartbeat_keeps:
  assumes r: "beat_ready h S" and go: "heartbeat_piece h S = Inr (h', S')"
  shows "beat_keeps h S h' S'"
proof (cases h)
  case (HbSleep ds)
  have "core_inv S" using r by (simp add: beat_ready_def)
  then show ?thesis using HbSleep r go core_tables(1) [of S]
    by (auto simp: beat_keeps_def beat_ready_def beat_ok_def)
next
  case (HbDec m ds)
  show ?thesis
  proof (cases m)
    case Nil
    then show ?thesis using HbDec r go by (auto simp: beat_keeps_def beat_ready_def beat_ok_def)
  next
    case (Cons e m')
    then show ?thesis using HbDec r go dec_keeps by (cases e) metis
  qed
next
  case (HbTest k p m ds)
  then show ?thesis using r go test_keeps by simp
next
  case (HbWalk kept ps)
  then show ?thesis
  proof (cases ps)
    case Nil
    then show ?thesis using HbWalk r go by (auto simp: beat_keeps_def beat_ready_def beat_ok_def)
  next
    case (Cons p ps')
    then show ?thesis using HbWalk r go walk_keeps by simp
  qed
next
  case (HbDelete p kept ps)
  have "core_inv S" "p \<in> dom (session_at S)" using r HbDelete by (simp_all add: beat_ready_def beat_ok_def)
  then have "delete_session p S = Inl BadFree" by (rule core_delete)
  then show ?thesis using go HbDelete by simp
qed

lemma heartbeat_faults:
  assumes r: "beat_ready h S" and go: "heartbeat_piece h S = Inl f"
  shows "f = BadFree \<and> (\<exists>p kept ps. h = HbDelete p kept ps)"
proof -
  have c: "core_inv S" using r by (simp add: beat_ready_def)
  have so: "\<exists>s. session_of S p = Inr s" if "p \<in> dom (session_at S)" for p
    using core_session_of [OF c that] by blast
  show ?thesis
  proof (cases h)
    case (HbSleep ds)
    then show ?thesis using r go by (simp add: beat_ready_def)
  next
    case (HbDec m ds)
    then show ?thesis using r go so [of "snd (hd m)"] ahead_constructed [OF r, of "hd m"] by (cases m) auto
  next
    case (HbTest k p m ds)
    then obtain s where s: "session_of S p = Inr s" using so ahead_constructed [OF r, of "(k, p)"] by auto
    have "(k, p) \<in> set (sessions S)" using HbTest r by (simp add: beat_ready_def beat_ok_def)
    then have "map_find (sessions S) k = Some p" using map_find_set [OF core_tables(1) [OF c]] by blast
    then have "\<exists>t. map_erase (sessions S) (k, p) = Inr t" by (simp add: map_erase_def)
    then show ?thesis using HbTest s go by (auto split: if_splits)
  next
    case (HbWalk kept ps)
    then show ?thesis
    proof (cases ps)
      case (Cons p ps')
      then obtain s where "session_of S p = Inr s" using so [of p] HbWalk r by (auto simp: beat_ready_def beat_ok_def)
      then show ?thesis using HbWalk Cons go by (auto simp: disconnect_def Let_def split: if_splits)
    qed (use HbWalk go in simp)
  next
    case (HbDelete p kept ps)
    then have "p \<in> dom (session_at S)" using r by (simp add: beat_ready_def beat_ok_def)
    from core_delete [OF c this] show ?thesis using HbDelete go by simp
  qed
qed

end
