(* ===== verification/SessionRaceSpec.thy ===== *)
theory SessionRaceSpec
  imports SessionRaceInv Protocol
begin

section \<open>What the session manager's threads promise together\<close>

text \<open>
  Every interleaving keeps the invariant; the only faults a run can end in; the runs in which two
  acknowledgements of one peer, or a reader and a writer of a table, meet; and how many receives stay posted.
\<close>

subsection \<open>Every step keeps the invariant\<close>

lemma workers_step:
  assumes ok: "workers_ok n S W" and c: "core_inv S" and t: "t < n" and k: "keeps_order (W t) S w' S'"
  shows "workers_ok n S' (W(t := w'))"
  unfolding workers_ok_def
proof (intro allI impI conjI)
  have d: "dom (session_at S) \<subseteq> dom (session_at S')" and tp: "table_ptrs S' \<subseteq> table_ptrs S \<union> set_option (loose (W t))"
    and r: "ready w' S'" and src: "\<And>p. loose w' = Some p \<Longrightarrow> loose (W t) = Some p \<or> p \<in> table_ptrs S \<or> p \<notin> dom (session_at S)"
    using k by (auto simp: keeps_order_def table_ptrs_def pending_ptrs_def)
  have l: "p \<in> dom (session_at S) \<and> p \<notin> table_ptrs S \<and> (\<forall>v<n. loose (W v) = Some p \<longrightarrow> v = u)"
    if "loose (W u) = Some p" "u < n" for u p
  proof -
    have "p \<in> refers (W u)" using that by (cases "W u") simp_all
    moreover have "refers (W u) \<subseteq> dom (session_at S)" using ok that(2) by (simp add: workers_ok_def)
    moreover have "p \<notin> table_ptrs S \<and> (\<forall>v<n. loose (W v) = Some p \<longrightarrow> v = u)"
      using ok that unfolding workers_ok_def by blast
    ultimately show ?thesis by blast
  qed
  fix u assume u: "u < n"
  have old: "refers (W u) \<subseteq> dom (session_at S)" "whole_syn (W u)" using ok u by (simp_all add: workers_ok_def)
  have "refers w' \<subseteq> dom (session_at S')" "whole_syn w'" using r by (simp_all add: ready_def)
  then show "refers ((W(t := w')) u) \<subseteq> dom (session_at S')" "whole_syn ((W(t := w')) u)"
    using subset_trans [OF old(1) d] old(2) by simp_all
  fix p assume p: "loose ((W(t := w')) u) = Some p"
  show "p \<notin> table_ptrs S'"
  proof (cases "u = t")
    case False
    then have q: "loose (W u) = Some p" using p by simp
    have "p \<notin> table_ptrs S" using l [OF q u] by blast
    moreover have "loose (W t) \<noteq> Some p"
    proof
      assume "loose (W t) = Some p"
      then show False using l [OF q u] t False by blast
    qed
    ultimately show ?thesis using tp by auto
  qed (use p r in \<open>simp add: ready_def\<close>)
  fix v assume v: "v < n" and q: "loose ((W(t := w')) v) = Some p"
  have one: False if "loose w' = Some p" "loose (W x) = Some p" "x < n" "x \<noteq> t" for x
  proof -
    note lx = l [OF that(2,3)]
    have "loose (W t) \<noteq> Some p" using lx t that(4) by blast
    then show False using src [OF that(1)] lx by blast
  qed
  show "v = u"
  proof (cases "u = t \<or> v = t")
    case True
    then show ?thesis using p q one [of u] one [of v] u v by (cases "u = t"; cases "v = t") simp_all
  next
    case False
    then have "loose (W u) = Some p" "loose (W v) = Some p" using p q by simp_all
    then show ?thesis using l [OF _ u] v by blast
  qed
qed

text \<open>A session that is, or was, in the table of open sessions.\<close>

definition settled :: "nat \<Rightarrow> manager \<Rightarrow> (nat \<Rightarrow> worker_at) \<Rightarrow> ptr \<Rightarrow> bool" where
  "settled n S W p \<longleftrightarrow> p \<in> dom (session_at S) \<and> p \<notin> pending_ptrs S \<and> (\<forall>t<n. loose (W t) \<noteq> Some p)"

lemma open_settled:
  assumes "workers_ok n S W" and "core_inv S" and "p \<in> snd ` set (sessions S)"
  shows "settled n S W p"
proof -
  have "p \<in> table_ptrs S" using assms(3) by (simp add: table_ptrs_def)
  then have "p \<in> dom (session_at S)" "\<forall>t<n. loose (W t) \<noteq> Some p"
    using table_constructed [OF assms(2)] assms(1) by (auto simp: workers_ok_def)
  then show ?thesis using core_tables(5) [OF assms(2)] assms(3) by (auto simp: settled_def pending_ptrs_def)
qed

lemma counted_refers: "counted w \<subseteq> refers w"
  by (cases w) simp_all

lemma apart_settled:
  assumes "apart n S W h" and "workers_ok n S W" and "beat_ok S h" and "p \<in> (\<Union>t<n. counted (W t)) \<union> set (expired h)"
  shows "settled n S W p"
proof -
  have "p \<in> dom (session_at S)"
    using assms(2-4) counted_refers by (fastforce simp: workers_ok_def beat_ok_def)
  then show ?thesis using assms(1,4) by (simp add: apart_def settled_def)
qed

lemma settled_step:
  assumes p: "settled n S W p" and k: "keeps_order (W t) S w' S'" and t: "t < n"
  shows "settled n S' (W(t := w')) p"
proof -
  have "loose (W t) \<noteq> Some p" "p \<in> dom (session_at S)" "p \<notin> pending_ptrs S" using p t by (simp_all add: settled_def)
  then have "loose w' \<noteq> Some p" "p \<notin> pending_ptrs S'" "p \<in> dom (session_at S')"
    using k by (auto simp: keeps_order_def)
  then show ?thesis using p by (simp add: settled_def)
qed

lemma apart_step:
  assumes a: "apart n S W h" and w: "workers_ok n S W" and b: "beat_ok S h" and c: "core_inv S"
    and t: "t < n" and k: "keeps_order (W t) S w' S'"
  shows "apart n S' (W(t := w')) h"
proof -
  have "settled n S' (W(t := w')) p" if p: "p \<in> (\<Union>u<n. counted ((W(t := w')) u)) \<union> set (expired h)" for p
  proof -
    have "counted w' \<subseteq> counted (W t) \<union> snd ` set (sessions S)" using k by (simp add: keeps_order_def)
    then have "p \<in> (\<Union>u<n. counted (W u)) \<union> set (expired h) \<or> p \<in> snd ` set (sessions S)"
      using p t by (auto split: if_splits)
    then have "settled n S W p" using apart_settled [OF a w b] open_settled [OF w c] by blast
    then show ?thesis by (rule settled_step [where W = W and S = S, OF _ k t])
  qed
  then show ?thesis by (auto simp: apart_def settled_def)
qed

lemma session_okD:
  assumes "session_ok n s"
  shows "core_inv (mgr s)" "beat_ready (hb s) (mgr s)" "t < n \<Longrightarrow> ready (worker_of s t) (mgr s)"
  using assms by (auto simp: session_ok_def beat_ready_def ready_def workers_ok_def)

lemma beat_ok_keeps:
  assumes "beat_ready h S" and "dom (session_at S) \<subseteq> dom (session_at S')" and "lock_sessions S = held \<longrightarrow> sessions S' = sessions S"
  shows "beat_ok S' h"
proof (cases "in_loop h")
  case False
  then have "ahead h = []" by (cases h) simp_all
  then show ?thesis using assms(1) subset_trans [OF _ assms(2)] by (simp add: beat_ready_def beat_ok_def)
next
  case True
  then have "lock_sessions S = held" "set (expired h) \<subseteq> dom (session_at S)" "map_ok (ahead h)"
    "set (ahead h) \<subseteq> set (sessions S)" using assms(1) by (simp_all add: beat_ready_def beat_ok_def)
  then show ?thesis using assms(3) subset_trans [OF _ assms(2)] by (simp add: beat_ok_def)
qed

lemma arrival_ok:
  assumes "arrival succ bytes d = Inr w" and "can_complete d S"
  shows "refers w = {} \<and> counted w = {} \<and> loose w = None \<and> whole_syn w"
  using assms by (cases d) (auto simp: arrival_def can_complete_def split: if_splits)

lemma keeps_session_ok:
  assumes ok: "session_ok n s" and t: "t < n" and k: "keeps_order (worker_of s t) (mgr s) w S"
  shows "session_ok n (s\<lparr>mgr := S, worker_of := (worker_of s)(t := w)\<rparr>)"
proof -
  have "beat_ok S (hb s)"
    by (rule beat_ok_keeps [OF session_okD(2) [OF ok]]) (use k in \<open>auto simp: keeps_order_def\<close>)
  moreover have "workers_ok n S ((worker_of s)(t := w))"
    by (rule workers_step [where W = "worker_of s" and S = "mgr s", OF _ session_okD(1) [OF ok] t k]) (use ok in \<open>simp add: session_ok_def\<close>)
  moreover have "apart n S ((worker_of s)(t := w)) (hb s)"
    by (rule apart_step [where W = "worker_of s" and S = "mgr s", OF _ _ _ session_okD(1) [OF ok] t k])
      (use ok in \<open>simp_all add: session_ok_def\<close>)
  ultimately show ?thesis using ok k by (simp add: session_ok_def keeps_order_def ready_def)
qed

lemma session_ok_crash: "session_ok n (s\<lparr>crash := c\<rparr>) = session_ok n s"
  by (simp add: session_ok_def)

lemma step_ok:
  assumes ok: "session_ok n s" and step: "session_step n s t s'"
  shows "session_ok n s'"
  using step
proof cases
  case (arrive d succ bytes w)
  obtain N where N: "complete d (mgr s) = (mgr s)\<lparr>io := N\<rparr>" using complete_io by blast
  have "keeps_order (worker_of s t) (mgr s) w ((mgr s)\<lparr>io := N\<rparr>)"
    using keeps_frame(1) [OF session_okD(3) [OF ok arrive(3)]] arrival_ok [OF arrive(6,5)] by simp
  then show ?thesis using keeps_session_ok [OF ok arrive(3)] arrive(1) N by simp
next
  case (work E w S)
  then show ?thesis using keeps_session_ok [OF ok] piece_keeps [OF session_okD(3) [OF ok]] by metis
next
  case (beat h S)
  have "beat_keeps (hb s) (mgr s) h S" by (rule heartbeat_keeps [OF session_okD(2) [OF ok] beat(4)])
  then have b: "beat_ready h S" "dom (session_at S) = dom (session_at (mgr s))" "table_ptrs S \<subseteq> table_ptrs (mgr s)"
    "pending_sessions S = pending_sessions (mgr s)" "set (expired h) \<subseteq> set (expired (hb s)) \<union> snd ` set (sessions (mgr s))"
    by (simp_all add: beat_keeps_def)
  have w: "workers_ok n (mgr s) (worker_of s)" "apart n (mgr s) (worker_of s) (hb s)" "beat_ok (mgr s) (hb s)"
    using ok by (simp_all add: session_ok_def)
  have "workers_ok n S (worker_of s)"
    using w(1) b(3) unfolding workers_ok_def b(2) by blast
  moreover have "settled n (mgr s) (worker_of s) p" if "p \<in> (\<Union>u<n. counted (worker_of s u)) \<union> set (expired h)" for p
  proof -
    have "p \<in> (\<Union>u<n. counted (worker_of s u)) \<union> set (expired (hb s)) \<or> p \<in> snd ` set (sessions (mgr s))"
      using that b(5) by blast
    then show ?thesis using apart_settled [OF w(2,1,3)] open_settled [OF w(1) session_okD(1) [OF ok]] by blast
  qed
  then have "apart n S (worker_of s) h" using b(4) by (auto simp: apart_def settled_def pending_ptrs_def)
  ultimately show ?thesis using b(1) beat(2) by (simp add: session_ok_def beat_ready_def)
next
  case stop
  have "workers_ok n ((mgr s)\<lparr>have_to_stop := True\<rparr>) (worker_of s) = workers_ok n (mgr s) (worker_of s)"
    by (simp add: workers_ok_def)
  then show ?thesis using ok unfolding stop(2) by (simp add: session_ok_def beat_ok_def apart_def)
next
  case (work_fault E f)
  then show ?thesis using ok by (simp add: session_ok_crash)
next
  case (beat_fault f)
  then show ?thesis using ok by (simp add: session_ok_crash)
next
  case (overlap T u)
  then show ?thesis using ok by (simp add: session_ok_crash)
qed

lemma start_ok:
  assumes "manager_inv S"
  shows "session_ok n (session_start S)"
  using assms by (auto simp: session_ok_def session_start_def manager_core workers_ok_def beat_ok_def map_ok_def apart_def)

lemma session_reach_ok:
  assumes "manager_inv S" and "reach (session_step n) (session_start S) s"
  shows "session_ok n s"
  using assms(2) by (rule reach_induct_inv) (use start_ok [OF assms(1)] step_ok in blast)+

subsection \<open>Acknowledgements of one address, one at a time\<close>

text \<open>No two workers stand between finding and erasing the same pending session.\<close>

definition one_ack :: "nat \<Rightarrow> session_sys \<Rightarrow> bool" where
  "one_ack n s \<longleftrightarrow> (\<forall>t<n. \<forall>u<n. \<forall>k p q. worker_of s t = AckErase k p \<longrightarrow> worker_of s u = AckErase k q \<longrightarrow> t = u)"

definition erase_ok :: "nat \<Rightarrow> session_sys \<Rightarrow> bool" where
  "erase_ok n s \<longleftrightarrow> (\<forall>t<n. \<forall>k p. worker_of s t = AckErase k p \<longrightarrow> map_find (pending_sessions (mgr s)) k = Some p)"

lemma recv_pending: "recv S = Inr S' \<Longrightarrow> pending_sessions S' = pending_sessions S"
  by (auto simp: recv_def split: option.splits)

lemma piece_pending:
  assumes r: "ready w S" and go: "worker_piece E w S = Inr (w', S')"
    and j: "map_find (pending_sessions S) j = Some q" and w: "\<forall>p. w \<noteq> AckErase j p"
  shows "map_find (pending_sessions S') j = Some q"
proof -
  have c: "core_inv S" and l: "lock_sessions S = Spinlock \<or> lock_sessions S = held" using r by (simp_all add: ready_def)
  have pl: "lock_pending_sessions S = Spinlock" using c by (simp add: core_inv_def)
  note mo = core_tables(2) [OF c]
  show ?thesis
  proof (cases w)
    case (SynInsert buffer p)
    then show ?thesis using go j om.find_ins [OF mo, where j = j] by (auto simp: pending_sections [OF pl])
  next
    case (SynSend buffer p)
    then show ?thesis using go j send_frame [of E buffer p S w' S'] by auto
  next
    case (AckErase k p)
    then obtain m where m: "map_erase (pending_sessions S) (k, p) = Inr m" "S' = S\<lparr>pending_sessions := m\<rparr>"
      using go by (auto simp: pending_sections [OF pl])
    have "k \<noteq> j" using w AckErase by auto
    then show ?thesis using om.erase_cases [OF mo m(1)] j by (simp add: m(2))
  next
    case (AckInsert p)
    have "lock_sessions S = Spinlock" using l go AckInsert sections_wait(2) [of S p] by auto
    then show ?thesis using AckInsert go j by (auto simp: session_sections)
  qed (use go j recv_pending in \<open>auto simp: pending_sections [OF pl] Let_def split: option.splits if_splits\<close>)
qed

lemma piece_found:
  assumes r: "ready w S" and go: "worker_piece E w S = Inr (AckErase k p, S')"
  shows "map_find (pending_sessions S') k = Some p"
proof -
  have c: "core_inv S" using r by (simp add: ready_def)
  then have pl: "lock_pending_sessions S = Spinlock" by (simp add: core_inv_def)
  show ?thesis
  proof (cases w)
    case (SynSend buffer p)
    then show ?thesis using go send_frame by blast
  qed (use go in \<open>auto simp: pending_sections [OF pl] Let_def split: option.splits if_splits\<close>)
qed

lemma heartbeat_pending:
  assumes "heartbeat_piece h S = Inr (h', S')"
  shows "pending_sessions S' = pending_sessions S"
  using assms by (cases rule: heartbeat_piece.cases [of "(h, S)"])
    (auto simp: disconnect_def delete_session_def Let_def split: option.splits if_splits)

lemma pending_stays:
  assumes ok: "session_ok n s" and step: "session_step n s t s'" and p: "map_find (pending_sessions (mgr s)) k = Some p"
    and w: "\<forall>q. worker_of s t \<noteq> AckErase k q"
  shows "map_find (pending_sessions (mgr s')) k = Some p"
  using step
proof cases
  case (work E w S)
  then show ?thesis using piece_pending [OF session_okD(3) [OF ok work(3)] work(6) p] assms(4) by simp
next
  case (beat h S)
  then show ?thesis using heartbeat_pending [OF beat(4)] p by simp
qed (use p in simp_all)

lemma arrival_erase: "arrival succ bytes d \<noteq> Inr (AckErase k p)"
  by (cases d) (auto simp: arrival_def split: if_split_asm)

lemma one_ack_step:
  assumes ok: "session_ok n s" and e: "erase_ok n s" and c: "one_ack n s" and step: "session_step n s t s'"
  shows "erase_ok n s'"
  using step
proof cases
  case (arrive d succ bytes w)
  have "w \<noteq> AckErase k p" for k p using arrival_erase arrive(6) by auto
  then show ?thesis using e arrive(1) by (auto simp: erase_ok_def)
next
  case (work E w S)
  note r = session_okD(3) [OF ok work(3)]
  show ?thesis
    unfolding erase_ok_def
  proof (intro allI impI)
    fix u k p assume u: "u < n" "worker_of s' u = AckErase k p"
    show "map_find (pending_sessions (mgr s')) k = Some p"
    proof (cases "u = t")
      case True
      then have "w = AckErase k p" using u work(1) by simp
      then show ?thesis using piece_found [OF r] work(1,6) by simp
    next
      case False
      then have o: "worker_of s u = AckErase k p" using u work(1) by simp
      have "worker_of s t \<noteq> AckErase k q" for q
      proof
        assume "worker_of s t = AckErase k q"
        then have "u = t" using c o u(1) work(3) unfolding one_ack_def by blast
        then show False using False by simp
      qed
      then show ?thesis using piece_pending [OF r work(6)] e o u(1) work(1) by (simp add: erase_ok_def)
    qed
  qed
next
  case (beat h S)
  then show ?thesis using e heartbeat_pending [OF beat(4)] by (simp add: erase_ok_def)
qed (use e in \<open>simp_all add: erase_ok_def\<close>)

definition one_ack_step_of :: "nat \<Rightarrow> session_sys \<Rightarrow> nat \<Rightarrow> session_sys \<Rightarrow> bool" where
  "one_ack_step_of n s t s' \<longleftrightarrow> session_step n s t s' \<and> one_ack n s'"

lemma one_ack_reach:
  assumes inv: "manager_inv S" and r: "reach (one_ack_step_of n) (session_start S) s"
  shows "session_ok n s \<and> erase_ok n s \<and> one_ack n s"
  using r
proof (induction rule: reach.induct)
  case reach_refl
  then show ?case using start_ok [OF inv] by (simp add: erase_ok_def one_ack_def session_start_def)
next
  case (reach_step s t s')
  then show ?case using step_ok one_ack_step unfolding one_ack_step_of_def by blast
qed

subsection \<open>How a run can end\<close>

text \<open>
  A pending session was erased twice.  No chunk for a new session: the worker's pool is empty and the system
  refuses to grow it, or the worker is one more than there are slots for in \<open>object_pool_array_\<close>.  A reader was
  in a table that another thread changed.  The heartbeat thread deleted an expired session.
\<close>

definition erased_twice :: "nat \<Rightarrow> session_sys \<Rightarrow> nat \<Rightarrow> fault \<Rightarrow> bool" where
  "erased_twice n s t f \<longleftrightarrow> t < n \<and> f = BadIterator \<and>
     (\<exists>k p. worker_of s t = AckErase k p \<and> map_find (pending_sessions (mgr s)) k \<noteq> Some p)"

definition memory_refused :: "nat \<Rightarrow> session_sys \<Rightarrow> nat \<Rightarrow> fault \<Rightarrow> bool" where
  "memory_refused n s t f \<longleftrightarrow> t < n \<and> f = NullDeref \<and>
     (\<exists>buffer remote. worker_of s t = SynNew buffer remote) \<and>
     (\<exists>h T P grant. object_pool session_size t (session_pool (mgr s)) = Inr (h, T) \<and> objs T h = Some P \<and>
        Empty P \<and> \<not> granted grant P (omem T))"

definition no_slot :: "nat \<Rightarrow> session_sys \<Rightarrow> nat \<Rightarrow> fault \<Rightarrow> bool" where
  "no_slot n s t f \<longleftrightarrow> t < n \<and> f = BadAccess \<and>
     (\<exists>buffer remote. worker_of s t = SynNew buffer remote) \<and>
     object_pool_m (session_pool (mgr s)) t = None \<and> nobjs (session_pool (mgr s)) = max_thread_num"

definition overlapped :: "nat \<Rightarrow> session_sys \<Rightarrow> nat \<Rightarrow> fault \<Rightarrow> bool" where
  "overlapped n s t f \<longleftrightarrow> t < n \<and> f = DataRace \<and>
     (\<exists>T u. reading (worker_of s t) = Some T \<and> writing n s u T)"

definition deleted_expired :: "nat \<Rightarrow> session_sys \<Rightarrow> nat \<Rightarrow> fault \<Rightarrow> bool" where
  "deleted_expired n s t f \<longleftrightarrow> t = n \<and> f = BadFree \<and> (\<exists>p kept ps. hb s = HbDelete p kept ps)"

definition crash_why :: "nat \<Rightarrow> session_sys \<Rightarrow> bool" where
  "crash_why n s \<longleftrightarrow> (\<forall>t f. crash s = Some (t, f) \<longrightarrow> erased_twice n s t f \<or> memory_refused n s t f \<or>
     no_slot n s t f \<or> overlapped n s t f \<or> deleted_expired n s t f)"

lemmas crash_defs = erased_twice_def memory_refused_def no_slot_def overlapped_def deleted_expired_def

text \<open>What a recorded fault says does not depend on the record.\<close>

lemma crash_same [simp]:
  "erased_twice n (s\<lparr>crash := c\<rparr>) = erased_twice n s" "memory_refused n (s\<lparr>crash := c\<rparr>) = memory_refused n s"
  "no_slot n (s\<lparr>crash := c\<rparr>) = no_slot n s" "overlapped n (s\<lparr>crash := c\<rparr>) = overlapped n s"
  "deleted_expired n (s\<lparr>crash := c\<rparr>) = deleted_expired n s"
  by (simp_all add: crash_defs writing_def fun_eq_iff)

lemma chunk_fault:
  assumes c: "core_inv (mgr s)" and t: "t < n" and w: "worker_of s t = SynNew buffer remote"
    and m: "ObjectPool_Malloc grant session_size t (session_pool (mgr s)) = Inl f"
  shows "memory_refused n s t f \<or> no_slot n s t f"
proof -
  have "opool_rel session_size (session_pool (mgr s)) (dom (session_at (mgr s)))" using c by (simp add: core_inv_def)
  from Malloc_faults [OF this m] show ?thesis
    using t w unfolding memory_refused_def no_slot_def by (elim disjE conjE exE) blast+
qed

lemma step_alive: "session_step n s t s' \<Longrightarrow> crash s = None"
  by (cases rule: session_step.cases) auto

lemma crash_step:
  assumes ok: "session_ok n s" and step: "session_step n s t s'"
  shows "crash_why n s'"
  using step
proof cases
  case (work_fault E f)
  have "(\<exists>k p. worker_of s t = AckErase k p \<and> f = BadIterator \<and> map_find (pending_sessions (mgr s)) k \<noteq> Some p) \<or>
     (\<exists>buffer remote. worker_of s t = SynNew buffer remote \<and>
        ObjectPool_Malloc (grants E) session_size (thread E) (session_pool (mgr s)) = Inl f)"
    by (rule piece_faults [OF session_okD(3) [OF ok] work_fault(5,6,7)]) (rule work_fault(3))
  then have "erased_twice n s t f \<or> memory_refused n s t f \<or> no_slot n s t f"
  proof
    assume "\<exists>buffer remote. worker_of s t = SynNew buffer remote \<and>
        ObjectPool_Malloc (grants E) session_size (thread E) (session_pool (mgr s)) = Inl f"
    then obtain buffer remote where "worker_of s t = SynNew buffer remote"
      "ObjectPool_Malloc (grants E) session_size t (session_pool (mgr s)) = Inl f" using work_fault(4) by blast
    from chunk_fault [OF session_okD(1) [OF ok] work_fault(3) this] show ?thesis by blast
  qed (use work_fault(3) in \<open>auto simp: erased_twice_def\<close>)
  then show ?thesis using work_fault(1) by (auto simp: crash_why_def)
next
  case (overlap T u)
  then have "overlapped n s t DataRace" by (auto simp: overlapped_def)
  then show ?thesis using overlap(1) by (simp add: crash_why_def)
next
  case (beat_fault f)
  have "deleted_expired n s n f"
    using heartbeat_faults [OF session_okD(2) [OF ok] beat_fault(4)] by (simp add: deleted_expired_def)
  then show ?thesis using beat_fault(1,2) by (simp add: crash_why_def)
qed (use step_alive [OF step] in \<open>simp_all add: crash_why_def\<close>)

lemma crash_reach:
  assumes "manager_inv S" and "reach (session_step n) (session_start S) s"
  shows "crash_why n s"
  using assms(2)
proof (cases rule: reach.cases)
  case reach_refl
  then show ?thesis by (simp add: crash_why_def session_start_def)
next
  case (reach_step s1 t)
  then show ?thesis using crash_step session_reach_ok [OF assms(1)] by blast
qed

subsection \<open>Slots of the object pool\<close>

text \<open>The slots taken, and one for every worker that has none yet: this never grows.\<close>

definition slots :: "nat \<Rightarrow> manager \<Rightarrow> nat" where
  "slots n S = nobjs (session_pool S) + card {t. t < n \<and> object_pool_m (session_pool S) t = None}"

lemma slots_cong: "session_pool S' = session_pool S \<Longrightarrow> slots n S' = slots n S"
  by (simp add: slots_def)

lemma Malloc_keeps_slots:
  assumes rel: "opool_rel RS (session_pool S) L" and t: "t < n"
    and m: "ObjectPool_Malloc grant RS t (session_pool S) = Inr (p, session_pool S')"
  shows "slots n S' = slots n S"
proof -
  let ?P = "session_pool S" and ?P' = "session_pool S'"
  let ?N = "{u. u < n \<and> object_pool_m ?P u = None}" and ?N' = "{u. u < n \<and> object_pool_m ?P' u = None}"
  note k = Malloc_slots [OF rel m]
  have N: "?N' = ?N - {t}" using k(2) by (auto split: if_splits)
  show ?thesis
  proof (cases "object_pool_m ?P t")
    case None
    then have "t \<in> ?N" "finite ?N" using t by simp_all
    then have "Suc (card ?N') = card ?N" unfolding N by (rule card_Suc_Diff1 [rotated])
    then show ?thesis using k(1) None by (simp add: slots_def)
  next
    case (Some h)
    then have "?N' = ?N" using N by auto
    then show ?thesis using k(1) Some by (simp add: slots_def)
  qed
qed

lemma recv_pool: "recv S = Inr S' \<Longrightarrow> session_pool S' = session_pool S"
  using recv_frame [of S S'] by auto

lemma piece_slots:
  assumes r: "ready w S" and t: "thread E < n" and go: "worker_piece E w S = Inr (w', S')"
  shows "slots n S' = slots n S"
proof -
  have c: "core_inv S" and l: "lock_sessions S = Spinlock \<or> lock_sessions S = held" using r by (simp_all add: ready_def)
  have pl: "lock_pending_sessions S = Spinlock" using c by (simp add: core_inv_def)
  have "session_pool S' = session_pool S" if "\<not> (\<exists>buffer remote. w = SynNew buffer remote)"
  proof (cases w)
    case (SynNew buffer remote)
    then show ?thesis using that by blast
  next
    case (SynSend buffer p)
    then show ?thesis using go send_frame [of E buffer p S w' S'] by auto
  next
    case (AckInsert p)
    have "lock_sessions S = Spinlock" using l go AckInsert sections_wait(2) [of S p] by auto
    then show ?thesis using AckInsert go by (auto simp: session_sections)
  qed (use go recv_pool in \<open>auto simp: pending_sections [OF pl] Let_def split: option.splits if_splits\<close>)
  moreover have "slots n S' = slots n S" if w: "w = SynNew buffer remote" for buffer remote
  proof -
    have "opool_rel session_size (session_pool S) (dom (session_at S))" using c by (simp add: core_inv_def)
    moreover have "\<exists>p. ObjectPool_Malloc (grants E) session_size (thread E) (session_pool S) = Inr (p, session_pool S')"
      by (rule new_piece [OF go [unfolded w]]) auto
    ultimately show ?thesis using Malloc_keeps_slots [OF _ t] by blast
  qed
  ultimately show ?thesis using slots_cong by blast
qed

lemma heartbeat_slots:
  assumes "heartbeat_piece h S = Inr (h', S')"
  shows "slots n S' = slots n S"
proof -
  have "thread_id_counter (session_pool S') = thread_id_counter (session_pool S) \<and>
      object_pool_m (session_pool S') = object_pool_m (session_pool S)"
    using assms by (cases rule: heartbeat_piece.cases [of "(h, S)"])
      (auto simp: disconnect_def delete_session_def Let_def split: option.splits if_splits)
  then show ?thesis by (simp add: slots_def)
qed

lemma slots_step:
  assumes ok: "session_ok n s" and step: "session_step n s t s'"
  shows "slots n (mgr s') = slots n (mgr s)"
  using step
proof cases
  case (arrive d succ bytes w)
  then show ?thesis using complete_io [of d "mgr s"] by (auto simp: slots_def)
next
  case (work E w S)
  then show ?thesis using piece_slots [OF session_okD(3) [OF ok work(3)], of E n] by simp
next
  case (beat h S)
  then show ?thesis using heartbeat_slots [OF beat(4)] by simp
qed (simp_all add: slots_def)

lemma slots_reach:
  assumes "manager_inv S" and "reach (session_step n) (session_start S) s"
  shows "slots n (mgr s) = slots n S"
  using assms(2)
proof (induction rule: reach.induct)
  case reach_refl
  then show ?case by (simp add: session_start_def)
next
  case (reach_step s1 t s2)
  then show ?case using slots_step session_reach_ok [OF assms(1)] by metis
qed

text \<open>So the array is too short only if there are more workers than slots left.\<close>

lemma no_slot_many:
  assumes "manager_inv S" and "reach (session_step n) (session_start S) s" and "no_slot n s t f"
  shows "max_thread_num < nobjs (session_pool S) + n"
proof -
  let ?P = "session_pool (mgr s)"
  have t: "t < n" "object_pool_m ?P t = None" "nobjs ?P = max_thread_num" using assms(3) by (simp_all add: no_slot_def)
  have "0 < card {u. u < n \<and> object_pool_m ?P u = None}" using t by (auto simp: card_gt_0_iff)
  then have "max_thread_num < slots n S" using slots_reach [OF assms(1,2)] t(3) by (simp add: slots_def)
  moreover have "card {u. u < n \<and> object_pool_m (session_pool S) u = None} \<le> card {..<n}"
    by (rule card_mono) auto
  ultimately show ?thesis by (simp add: slots_def)
qed

lemma one_ack_reach_steps: "reach (one_ack_step_of n) s0 s \<Longrightarrow> reach (session_step n) s0 s"
  by (induction rule: reach.induct) (auto simp: one_ack_step_of_def intro: reach.intros)

subsection \<open>A run in which it goes wrong\<close>

lemma more: "reach (session_step n) s s1 \<Longrightarrow> session_step n s1 t s2 \<Longrightarrow> reach (session_step n) s s2"
  by (rule reach_step)

lemma one_ack_more:
  "reach (one_ack_step_of n) s s1 \<Longrightarrow> session_step n s1 t s2 \<Longrightarrow> one_ack n s2 \<Longrightarrow> reach (one_ack_step_of n) s s2"
  by (rule reach_step [where t = t]) (simp_all add: one_ack_step_of_def)

lemma test_one:
  assumes ok: "session_ok n s" and alive: "crash s = None" and t: "t < n" and at: "worker_of s t = AckTest r"
  shows "session_step n s t (s\<lparr>worker_of := (worker_of s)(t := AckFind r)\<rparr>)"
proof -
  let ?E = "demo_env\<lparr>thread := t\<rparr>"
  have pl: "lock_pending_sessions (mgr s) = Spinlock" using ok by (simp add: session_ok_def core_inv_def)
  have blk: "is_block (fresh_block ?E)" using demo_serves by (simp add: serves_def)
  have "worker_piece ?E (worker_of s t) (mgr s) = Inr (AckFind r, mgr s)"
    by (simp add: at pl Spinlock_def)
  from session_step.work [OF alive t _ blk this] show ?thesis by simp
qed

lemma find_one:
  assumes alive: "crash s = None" and t: "t < n" and at: "worker_of s t = AckFind r"
    and p: "map_find (pending_sessions (mgr s)) (key r) = Some p"
  shows "session_step n s t (s\<lparr>worker_of := (worker_of s)(t := AckErase (key r) p)\<rparr>)"
proof -
  let ?E = "demo_env\<lparr>thread := t\<rparr>"
  have blk: "is_block (fresh_block ?E)" using demo_serves by (simp add: serves_def)
  have "worker_piece ?E (worker_of s t) (mgr s) = Inr (AckErase (key r) p, mgr s)" using p by (simp add: at)
  from session_step.work [OF alive t _ blk this] show ?thesis by simp
qed

lemma erase_one:
  assumes ok: "session_ok n s" and alive: "crash s = None" and t: "t < n" and at: "worker_of s t = AckErase k p"
    and m: "map_erase (pending_sessions (mgr s)) (k, p) = Inr m"
  shows "session_step n s t (s\<lparr>mgr := (mgr s)\<lparr>pending_sessions := m\<rparr>, worker_of := (worker_of s)(t := AckInsert p)\<rparr>)"
proof -
  let ?E = "demo_env\<lparr>thread := t\<rparr>"
  have pl: "lock_pending_sessions (mgr s) = Spinlock" using ok by (simp add: session_ok_def core_inv_def)
  have blk: "is_block (fresh_block ?E)" using demo_serves by (simp add: serves_def)
  have "worker_piece ?E (worker_of s t) (mgr s) = Inr (AckInsert p, (mgr s)\<lparr>pending_sessions := m\<rparr>)"
    using m by (simp add: at pending_sections(3) [OF pl])
  from session_step.work [OF alive t _ blk this] show ?thesis by simp
qed

lemma erase_fault:
  assumes ok: "session_ok n s" and alive: "crash s = None" and t: "t < n" and at: "worker_of s t = AckErase k p"
    and m: "map_find (pending_sessions (mgr s)) k \<noteq> Some p"
  shows "session_step n s t (s\<lparr>crash := Some (t, BadIterator)\<rparr>)"
proof -
  let ?E = "demo_env\<lparr>thread := t\<rparr>"
  have pl: "lock_pending_sessions (mgr s) = Spinlock" using ok by (simp add: session_ok_def core_inv_def)
  have blk: "is_block (fresh_block ?E)" using demo_serves by (simp add: serves_def)
  have "worker_piece ?E (worker_of s t) (mgr s) = Inl BadIterator"
    using m by (simp add: at pending_sections(3) [OF pl] map_erase_def)
  from session_step.work_fault [OF alive t _ blk this] show ?thesis by simp
qed

text \<open>Two workers that have looked up the same pending session; and a reader beside a writer.\<close>

lemma two_erase:
  assumes ok: "session_ok n s" and alive: "crash s = None" and tu: "t < n" "u < n" "t \<noteq> u"
    and at: "worker_of s t = AckFind r" "worker_of s u = AckFind r"
    and p: "map_find (pending_sessions (mgr s)) (key r) = Some p"
  shows "\<exists>s'. reach (session_step n) s s' \<and> crash s' = Some (u, BadIterator)"
proof -
  let ?s1 = "s\<lparr>worker_of := (worker_of s)(t := AckErase (key r) p)\<rparr>"
  let ?s2 = "?s1\<lparr>worker_of := (worker_of ?s1)(u := AckErase (key r) p)\<rparr>"
  have c: "core_inv (mgr s)" using ok by (simp add: session_ok_def)
  note mo = core_tables(2) [OF c]
  obtain m where m: "map_erase (pending_sessions (mgr s)) (key r, p) = Inr m"
    using om.erase_some [OF mo p] by blast
  then have gone: "map_find m (key r) = None" using om.erase_cases [OF mo m] by simp
  let ?s3 = "?s2\<lparr>mgr := (mgr ?s2)\<lparr>pending_sessions := m\<rparr>, worker_of := (worker_of ?s2)(t := AckInsert p)\<rparr>"
  let ?s4 = "?s3\<lparr>crash := Some (u, BadIterator)\<rparr>"
  have st1: "session_step n s t ?s1" by (rule find_one [OF alive tu(1) at(1) p])
  have st2: "session_step n ?s1 u ?s2" by (rule find_one) (use alive tu at p in simp_all)
  note ok2 = step_ok [OF step_ok [OF ok st1] st2]
  have st3: "session_step n ?s2 t ?s3" by (rule erase_one [OF ok2]) (use alive tu m in simp_all)
  note ok3 = step_ok [OF ok2 st3]
  have st4: "session_step n ?s3 u ?s4" by (rule erase_fault [OF ok3, of u "key r" p]) (use alive tu gone in simp_all)
  have "reach (session_step n) s ?s1" by (rule more [OF reach_refl st1])
  then have "reach (session_step n) s ?s2" by (rule more) (rule st2)
  then have "reach (session_step n) s ?s3" by (rule more) (rule st3)
  then have "reach (session_step n) s ?s4" by (rule more) (rule st4)
  then show ?thesis by (intro exI [of _ ?s4]) simp
qed

lemma find_meets_erase:
  assumes ok: "session_ok n s" and alive: "crash s = None" and tu: "t < n" "u < n" "t \<noteq> u"
    and at: "worker_of s t = AckFind r" "worker_of s u = AckFind r"
    and p: "map_find (pending_sessions (mgr s)) (key r) = Some p"
  shows "\<exists>s'. reach (session_step n) s s' \<and> crash s' = Some (u, DataRace)"
proof -
  let ?s1 = "s\<lparr>worker_of := (worker_of s)(t := AckErase (key r) p)\<rparr>"
  let ?s2 = "?s1\<lparr>crash := Some (u, DataRace)\<rparr>"
  have st1: "session_step n s t ?s1" by (rule find_one [OF alive tu(1) at(1) p])
  have "lock_pending_sessions (mgr s) = Spinlock" using ok by (simp add: session_ok_def core_inv_def)
  then have w: "writing n ?s1 t PendingTable" using tu(1) by (simp add: writing_def Spinlock_def)
  have st2: "session_step n ?s1 u ?s2"
    by (rule session_step.overlap [OF _ tu(2) _ w]) (use alive tu(3) at(2) in simp_all)
  have "reach (session_step n) s ?s1" by (rule more [OF reach_refl st1])
  then have "reach (session_step n) s ?s2" by (rule more) (rule st2)
  then show ?thesis by (intro exI [of _ ?s2]) simp
qed

lemma arrive_ack:
  assumes alive: "crash s = None" and t: "t < n" "worker_of s t = Idle"
    and post: "0 < posted (io (mgr s))" and dg: "datagram buffer 2 (- 3)"
  shows "session_step n s t (s\<lparr>mgr := complete (ReadIo buffer r) (mgr s), worker_of := (worker_of s)(t := AckTest r)\<rparr>)"
proof -
  have a: "arrival True 6 (ReadIo buffer r) = Inr (AckTest r)" using dg by (simp add: arrival_def datagram_def)
  have "can_complete (ReadIo buffer r) (mgr s)" using post dg by (simp add: can_complete_def datagram_def)
  from session_step.arrive [OF alive t this a] show ?thesis .
qed

text \<open>Two waiting workers take two acknowledgements of one address, and both pass \<open>ReadLock\<close>.\<close>

lemma two_acks:
  assumes ok: "session_ok n s" and alive: "crash s = None"
    and tu: "t < n" "u < n" "t \<noteq> u" and idle: "worker_of s t = Idle" "worker_of s u = Idle"
    and post: "2 \<le> posted (io (mgr s))" and dg: "datagram ack 2 (- 3)"
    and p: "map_find (pending_sessions (mgr s)) (key r) = Some p"
  obtains s' where "reach (session_step n) s s'" "session_ok n s'" "crash s' = None"
    "worker_of s' t = AckFind r" "worker_of s' u = AckFind r" "map_find (pending_sessions (mgr s')) (key r) = Some p"
proof -
  let ?d = "ReadIo ack r"
  let ?s1 = "s\<lparr>mgr := complete ?d (mgr s), worker_of := (worker_of s)(t := AckTest r)\<rparr>"
  let ?s2 = "?s1\<lparr>mgr := complete ?d (mgr ?s1), worker_of := (worker_of ?s1)(u := AckTest r)\<rparr>"
  let ?s3 = "?s2\<lparr>worker_of := (worker_of ?s2)(t := AckFind r)\<rparr>"
  let ?s4 = "?s3\<lparr>worker_of := (worker_of ?s3)(u := AckFind r)\<rparr>"
  have st1: "session_step n s t ?s1" by (rule arrive_ack) (use alive tu idle post dg in simp_all)
  note ok1 = step_ok [OF ok st1]
  have st2: "session_step n ?s1 u ?s2"
    by (rule arrive_ack) (use alive tu idle post dg in \<open>simp_all add: complete_def\<close>)
  note ok2 = step_ok [OF ok1 st2]
  have st3: "session_step n ?s2 t ?s3" by (rule test_one [OF ok2]) (use alive tu in simp_all)
  note ok3 = step_ok [OF ok2 st3]
  have st4: "session_step n ?s3 u ?s4" by (rule test_one [OF ok3]) (use alive tu in simp_all)
  note ok4 = step_ok [OF ok3 st4]
  have "reach (session_step n) s ?s1" by (rule more [OF reach_refl st1])
  then have "reach (session_step n) s ?s2" by (rule more) (rule st2)
  then have "reach (session_step n) s ?s3" by (rule more) (rule st3)
  then have r: "reach (session_step n) s ?s4" by (rule more) (rule st4)
  show ?thesis by (rule that [OF r ok4]) (use alive tu p in simp_all)
qed

subsection \<open>Posted receives\<close>

text \<open>A receive is posted, or a worker has its buffer and will post the next, or will post its first.\<close>

fun has_receive :: "worker_at \<Rightarrow> nat" where
  "has_receive Loop = 0"
| "has_receive Idle = 0"
| "has_receive Gone = 0"
| "has_receive FreeWrite = 0"
| "has_receive _ = 1"

definition receives :: "nat \<Rightarrow> session_sys \<Rightarrow> nat" where
  "receives n s = posted (io (mgr s)) + (\<Sum>t<n. has_receive (worker_of s t))"

lemma recv_posted: "recv S = Inr S' \<Longrightarrow> posted (io S') \<le> Suc (posted (io S))"
  by (auto simp: recv_def Socket_Recv_def split: option.splits if_splits)

lemma send_posted:
  assumes "worker_piece E (SynSend buffer p) S = Inr (w', S')"
  shows "posted (io S') = posted (io S)"
proof -
  obtain d where d: "Packet_make (fresh_block E) 2 (- 2) (drop 4 buffer) = Inr d"
    using assms by (cases "Packet_make (fresh_block E) 2 (- 2) (drop 4 buffer)") simp_all
  obtain s where s: "session_of S p = Inr s" using assms d by (cases "session_of S p") simp_all
  obtain sk where sk: "socket_m S = Some sk" using assms d s by (cases "socket_m S") simp_all
  obtain N where N: "Session_Send sk s d (io S) = Inr N" and S': "S' = S\<lparr>io := N\<rparr>"
    using assms d s sk by (cases "Session_Send sk s d (io S)") auto
  have "posted N = posted (io S)" using N by (auto simp: Session_Send_def Socket_Send_def split: if_splits)
  then show ?thesis by (simp add: S')
qed

lemma section_io:
  assumes "lock_pending_sessions S = Spinlock" and "lock_sessions S = Spinlock \<or> lock_sessions S = held"
  shows "insert_pending k p S = Inr (u, S1) \<Longrightarrow> io S1 = io S"
    "ack_erase e S = Inr (u, S1) \<Longrightarrow> io S1 = io S"
    "ack_insert p S = Inr (u, S1) \<Longrightarrow> io S1 = io S"
  using assms(2) by (auto simp: pending_sections [OF assms(1)] session_sections sections_wait)

lemma piece_posted:
  assumes r: "ready w S" and go: "worker_piece E w S = Inr (w', S')"
  shows "posted (io S') + has_receive w' \<le> posted (io S) + has_receive w"
proof -
  have l: "lock_pending_sessions S = Spinlock" "lock_sessions S = Spinlock \<or> lock_sessions S = held"
    using r by (simp_all add: ready_def core_inv_def)
  note sec = section_io [OF l]
  show ?thesis
  proof (cases w)
    case (SynSend buffer p)
    then show ?thesis using go send_posted [of E buffer p S w' S'] send_frame [of E buffer p S w' S']
      by (auto simp del: worker_piece.simps)
  next
    case Starting
    then show ?thesis using go recv_posted by fastforce
  next
    case Repost
    then show ?thesis using go recv_posted by fastforce
  next
    case (AckFind remote)
    then show ?thesis using go by (auto split: option.splits)
  next
    case (BeatFind remote)
    then show ?thesis using go by (auto split: option.splits)
  next
    case (DataFind buffer remote)
    then show ?thesis using go by (auto split: option.splits)
  next
    case (DataInc buffer p)
    then show ?thesis using go by (auto simp: Let_def split: if_splits)
  next
    case (SynNew buffer remote)
    then show ?thesis using go by (auto split: option.splits)
  next
    case (SynInsert buffer p)
    then show ?thesis using go sec(1) by auto
  next
    case (AckErase k p)
    then show ?thesis using go sec(2) by auto
  next
    case (AckInsert p)
    then show ?thesis using go sec(3) by auto
  qed (use go in \<open>auto split: if_splits\<close>)
qed

lemma sum_update:
  fixes f :: "nat \<Rightarrow> 'a :: comm_monoid_add"
  assumes "t < (n :: nat)"
  shows "(\<Sum>u<n. f u) = f t + (\<Sum>u\<in>{..<n} - {t}. f u)"
  using assms by (simp add: sum.remove)

lemma has_receive_update:
  assumes "t < (n::nat)" and "S' + has_receive w \<le> S + has_receive (W t)"
  shows "S' + (\<Sum>u<n. has_receive ((W(t := w)) u)) \<le> S + (\<Sum>u<n. has_receive (W u))"
proof -
  have "(\<Sum>u\<in>{..<n} - {t}. has_receive ((W(t := w)) u)) = (\<Sum>u\<in>{..<n} - {t}. has_receive (W u))"
    by (rule sum.cong) simp_all
  then show ?thesis
    using assms(2) sum_update [OF assms(1), of "\<lambda>u. has_receive (W u)"]
      sum_update [OF assms(1), of "\<lambda>u. has_receive ((W(t := w)) u)"] by simp
qed

lemma heartbeat_io: "heartbeat_piece h S = Inr (h', S') \<Longrightarrow> io S' = io S"
  by (cases rule: heartbeat_piece.cases [of "(h, S)"])
    (auto simp: disconnect_def delete_session_def Let_def split: option.splits if_splits)

lemma receives_step:
  assumes ok: "session_ok n s" and step: "session_step n s t s'"
  shows "receives n s' \<le> receives n s"
  using step
proof cases
  case (arrive d succ bytes w)
  have "posted (io (complete d (mgr s))) + has_receive w \<le> posted (io (mgr s)) + has_receive (worker_of s t)"
  proof (cases d)
    case (ReadIo buffer r)
    have "has_receive w \<le> 1" by (cases w) simp_all
    then show ?thesis using arrive(5) ReadIo by (simp add: complete_def can_complete_def)
  next
    case WriteIo
    then have "has_receive w = 0" using arrive(6) by (auto simp: arrival_def split: if_splits)
    then show ?thesis using WriteIo by (simp add: complete_def)
  qed
  from has_receive_update [where W = "worker_of s", OF arrive(3) this] show ?thesis using arrive(1) by (simp add: receives_def)
next
  case (work E w S)
  from has_receive_update [where W = "worker_of s", OF work(3) piece_posted [OF session_okD(3) [OF ok work(3)] work(6)]]
  show ?thesis using work(1) by (simp add: receives_def)
next
  case (beat h S)
  then show ?thesis using heartbeat_io [OF beat(4)] by (simp add: receives_def)
qed (simp_all add: receives_def)

lemma receives_reach:
  assumes "session_ok n s" and "reach (session_step n) s s'"
  shows "receives n s' \<le> receives n s \<and> session_ok n s'"
  using assms(2)
proof (induction rule: reach.induct)
  case (reach_step s1 t s2)
  then show ?case using receives_step [of n s1 t s2] step_ok [of n s1 t s2] by auto
qed (use assms(1) in simp)

lemma receives_start: "posted (io S) = 0 \<Longrightarrow> receives n (session_start S) = n"
  by (simp add: receives_def session_start_def)

subsection \<open>Properties\<close>

text \<open>The first steps of a system with workers, for the witnesses.\<close>

lemma demo_start:
  "session_step 2 (session_start demo) 0 (s\<lparr>mgr := S1, worker_of := (worker_of s)(0 := Loop)\<rparr>)"
  if "s = session_start demo" and "recv demo = Inr S1" for s S1
proof -
  have "is_block (fresh_block demo_env)" "thread demo_env = 0" using demo_serves by (simp_all add: serves_def demo_env_def)
  moreover have "worker_piece demo_env (worker_of s 0) (mgr s) = Inr (Loop, S1)"
    using that by (simp add: session_start_def)
  ultimately show ?thesis using session_step.work [of s 0 2 demo_env Loop S1] that(1) by (simp add: session_start_def)
qed

lemma demo_first:
  "\<exists>s. session_step 2 (session_start demo) 0 s \<and> worker_of s 0 = Loop \<and> worker_of s 1 = Starting \<and> posted (io (mgr s)) = 2"
proof -
  have r: "recv demo = Inr (demo\<lparr>io := (io demo)\<lparr>posted := 2, read_io_live := 2\<rparr>\<rparr>)"
    by (simp add: recv_def demo_sel Socket_Recv_def demo_socket_def)
  show ?thesis using demo_start [OF refl r] by (auto simp: session_start_def demo_sel)
qed




text \<open>A worker whose session pool gets no memory.\<close>

lemma no_memory: "ObjectPool_Malloc (\<lambda>_ _. False) session_size 0 (opool_init empty_mem) = Inl NullDeref"
  by (simp add: ObjectPool_Malloc_def object_pool_def opool_init_def Let_def array_index_def max_thread_num_def
      obj_malloc_def the_obj_def Malloc_def resize_and_malloc_def sys_malloc_def store_short_Null Pool_ctor_def Empty_def seg_empty_def)

lemma demo_crash: "\<exists>s. reach (one_ack_step_of 1) (session_start demo) s \<and> crash s = Some (0, NullDeref)"
proof -
  let ?E = "demo_env\<lparr>grants := (\<lambda>_ _. False)\<rparr>"
  let ?syn = "short_bytes 2 @ short_bytes (- 1) @ replicate 508 0"
  have E: "is_block (fresh_block ?E)" "thread ?E = 0" using demo_serves by (simp_all add: serves_def demo_env_def)
  let ?s0 = "session_start demo"
  let ?S1 = "demo\<lparr>io := (io demo)\<lparr>posted := 2, read_io_live := 2\<rparr>\<rparr>"
  let ?s1 = "?s0\<lparr>mgr := ?S1, worker_of := (worker_of ?s0)(0 := Loop)\<rparr>"
  let ?s2 = "?s1\<lparr>mgr := ?S1, worker_of := (worker_of ?s1)(0 := Idle)\<rparr>"
  let ?d = "ReadIo ?syn demo_endpoint"
  let ?s3 = "?s2\<lparr>mgr := complete ?d (mgr ?s2), worker_of := (worker_of ?s2)(0 := SynNew ?syn demo_endpoint)\<rparr>"
  let ?s4 = "?s3\<lparr>crash := Some (0, NullDeref)\<rparr>"
  have r: "worker_piece ?E (worker_of ?s0 0) (mgr ?s0) = Inr (Loop, ?S1)"
    by (simp add: session_start_def recv_def demo_sel Socket_Recv_def demo_socket_def)
  have st1: "session_step 1 ?s0 0 ?s1"
    by (rule session_step.work [OF _ _ _ _ r]) (use E in \<open>simp_all add: session_start_def\<close>)
  have l: "worker_piece ?E (worker_of ?s1 0) (mgr ?s1) = Inr (Idle, ?S1)" by (simp add: demo_sel)
  have st2: "session_step 1 ?s1 0 ?s2"
    by (rule session_step.work [OF _ _ _ _ l]) (use E in \<open>simp_all add: session_start_def\<close>)
  have a: "arrival True 6 ?d = Inr (SynNew ?syn demo_endpoint)" by (simp add: arrival_def read_header)
  have st3: "session_step 1 ?s2 0 ?s3"
    by (rule session_step.arrive [OF _ _ _ _ a])
      (simp_all add: session_start_def demo_sel can_complete_def socket_buf_size_def)
  have m: "worker_piece ?E (worker_of ?s3 0) (mgr ?s3) = Inl NullDeref"
    using no_memory E(2) by (simp add: demo_sel)
  have st4: "session_step 1 ?s3 0 ?s4"
    by (rule session_step.work_fault [OF _ _ _ _ m]) (use E in \<open>simp_all add: session_start_def\<close>)
  have c: "one_ack 1 ?s1" "one_ack 1 ?s2" "one_ack 1 ?s3" "one_ack 1 ?s4" by (simp_all add: one_ack_def)
  have "reach (one_ack_step_of 1) ?s0 ?s1" by (rule one_ack_more [OF reach_refl st1 c(1)])
  then have "reach (one_ack_step_of 1) ?s0 ?s2" by (rule one_ack_more) (rule st2, rule c(2))
  then have "reach (one_ack_step_of 1) ?s0 ?s3" by (rule one_ack_more) (rule st3, rule c(3))
  then have "reach (one_ack_step_of 1) ?s0 ?s4" by (rule one_ack_more) (rule st4, rule c(4))
  then show ?thesis by (intro exI [of _ ?s4]) simp
qed


text \<open>Two waiting workers, two posted receives and a pending session, for the next two witnesses.\<close>

lemma demo_two_workers:
  "\<exists>s p. session_ok 2 s \<and> crash s = None \<and> worker_of s = (\<lambda>_. Idle) \<and> posted (io (mgr s)) = 2 \<and>
     map_find (pending_sessions (mgr s)) (key demo_endpoint) = Some p"
proof -
  let ?syn = "short_bytes 2 @ short_bytes (- 1) @ replicate 508 0"
  have d: "datagram ?syn 2 (- 1)" by (simp add: datagram_def read_header socket_buf_size_def)
  from syn_round [OF demo_inv demo_sel(1) _ demo_serves d, of demo_endpoint]
  obtain S p where S: "manager_inv S" "map_find (pending_sessions S) (key demo_endpoint) = Some p"
    by (auto simp: demo_sel demo_socket_def map_find_def)
  let ?S = "S\<lparr>io := (io S)\<lparr>posted := 2\<rparr>\<rparr>"
  let ?s = "(session_start ?S)\<lparr>worker_of := (\<lambda>_. Idle)\<rparr>"
  have "core_inv ?S" "lock_sessions ?S = Spinlock" using S(1) by (simp_all add: manager_core)
  then have "session_ok 2 ?s"
    by (simp add: session_ok_def session_start_def workers_ok_def beat_ok_def map_ok_def apart_def)
  then show ?thesis using S(2) by (intro exI [of _ ?s] exI [of _ p]) (simp add: session_start_def)
qed

text \<open>
  C35. One duplicated acknowledgement can bring the server down: with two workers waiting, two receives
  posted and a pending session, there is an interleaving of the rounds of two ACKs from its
  address that ends in the erase of an iterator whose entry is gone.
\<close>

theorem duplicate_ack_crash:
  assumes ok: "session_ok n s" and alive: "crash s = None"
    and tu: "t < n" "u < n" "t \<noteq> u" and idle: "worker_of s t = Idle" "worker_of s u = Idle"
    and post: "2 \<le> posted (io (mgr s))" and dg: "datagram ack 2 (- 3)"
    and p: "map_find (pending_sessions (mgr s)) (key r) = Some p"
  shows "\<exists>s'. reach (session_step n) s s' \<and> crash s' = Some (u, BadIterator)"
proof -
  obtain s1 where s1: "reach (session_step n) s s1" "session_ok n s1" "crash s1 = None"
    "worker_of s1 t = AckFind r" "worker_of s1 u = AckFind r" "map_find (pending_sessions (mgr s1)) (key r) = Some p"
    by (rule two_acks [OF ok alive tu idle post dg p])
  obtain s' where s': "reach (session_step n) s1 s'" "crash s' = Some (u, BadIterator)"
    using two_erase [OF s1(2,3) tu s1(4-6)] by blast
  have "reach (session_step n) s s'" by (rule reach_trans [OF s'(1) s1(1)])
  then show ?thesis using s'(2) by blast
qed

theorem duplicate_ack_crash_witness:
  "\<exists>s s'. reach (session_step 2) s s' \<and> session_ok 2 s \<and> crash s = None \<and> crash s' = Some (1, BadIterator)"
proof -
  let ?ack = "short_bytes 2 @ short_bytes (- 3) @ replicate 508 0"
  have d: "datagram ?ack 2 (- 3)" by (simp add: datagram_def read_header socket_buf_size_def)
  obtain s p where s: "session_ok 2 s" "crash s = None" "worker_of s = (\<lambda>_. Idle)" "posted (io (mgr s)) = 2"
    "map_find (pending_sessions (mgr s)) (key demo_endpoint) = Some p" using demo_two_workers by blast
  have "\<exists>s'. reach (session_step 2) s s' \<and> crash s' = Some (1, BadIterator)"
    by (rule duplicate_ack_crash [OF s(1,2) _ _ _ _ _ _ d s(5), of 0]) (simp_all add: s(3,4))
  then show ?thesis using s(1,2) by blast
qed

text \<open>
  C36. \<open>ReadLock\<close> does not keep a reader away from a writer, and the session manager can fall over it: in the same
  situation there is an interleaving in which one worker has passed the test of \<open>lock_\<close> and
  is about to count itself in, while the other finds the session, takes the lock, sees no reader and
  erases the entry; \<open>find\<close> and \<open>erase\<close> then run on the \<open>std::map\<close> of the pending sessions together.
\<close>

theorem reader_meets_writer:
  assumes ok: "session_ok n s" and alive: "crash s = None"
    and tu: "t < n" "u < n" "t \<noteq> u" and idle: "worker_of s t = Idle" "worker_of s u = Idle"
    and post: "2 \<le> posted (io (mgr s))" and dg: "datagram ack 2 (- 3)"
    and p: "map_find (pending_sessions (mgr s)) (key r) = Some p"
  shows "\<exists>s'. reach (session_step n) s s' \<and> crash s' = Some (u, DataRace)"
proof -
  obtain s1 where s1: "reach (session_step n) s s1" "session_ok n s1" "crash s1 = None"
    "worker_of s1 t = AckFind r" "worker_of s1 u = AckFind r" "map_find (pending_sessions (mgr s1)) (key r) = Some p"
    by (rule two_acks [OF ok alive tu idle post dg p])
  obtain s' where s': "reach (session_step n) s1 s'" "crash s' = Some (u, DataRace)"
    using find_meets_erase [OF s1(2,3) tu s1(4-6)] by blast
  have "reach (session_step n) s s'" by (rule reach_trans [OF s'(1) s1(1)])
  then show ?thesis using s'(2) by blast
qed

theorem reader_meets_writer_witness:
  "\<exists>s s'. reach (session_step 2) s s' \<and> session_ok 2 s \<and> crash s = None \<and> crash s' = Some (1, DataRace)"
proof -
  let ?ack = "short_bytes 2 @ short_bytes (- 3) @ replicate 508 0"
  have d: "datagram ?ack 2 (- 3)" by (simp add: datagram_def read_header socket_buf_size_def)
  obtain s p where s: "session_ok 2 s" "crash s = None" "worker_of s = (\<lambda>_. Idle)" "posted (io (mgr s)) = 2"
    "map_find (pending_sessions (mgr s)) (key demo_endpoint) = Some p" using demo_two_workers by blast
  have "\<exists>s'. reach (session_step 2) s s' \<and> crash s' = Some (1, DataRace)"
    by (rule reader_meets_writer [OF s(1,2) _ _ _ _ _ _ d s(5), of 0]) (simp_all add: s(3,4))
  then show ?thesis using s(1,2) by blast
qed

text \<open>
  C40. Receives are never gained: the receives that are posted, or whose buffers workers hold, never exceed
  the number of workers, and never grow in any further run; a receive lost by a \<open>continue\<close> is lost for good.
\<close>

theorem receives_bounded:
  assumes "manager_inv S" and "posted (io S) = 0" and "reach (session_step n) (session_start S) s"
    and "reach (session_step n) s s'"
  shows "receives n s' \<le> receives n s \<and> receives n s \<le> n \<and> posted (io (mgr s')) \<le> n"
proof -
  have s: "receives n s \<le> n" "session_ok n s"
    using receives_reach [OF start_ok [OF assms(1)] assms(3)] receives_start [OF assms(2), of n] by simp_all
  then have "receives n s' \<le> receives n s" using receives_reach [OF s(2) assms(4)] by blast
  moreover have "posted (io (mgr s')) \<le> receives n s'" by (simp add: receives_def)
  ultimately show ?thesis using s(1) by simp
qed

theorem receives_bounded_witness:
  "\<exists>s. session_step 1 (session_start (demo\<lparr>io := net_init\<rparr>)) 0 s \<and> posted (io (mgr s)) = 1 \<and> receives 1 s \<le> 1"
proof -
  let ?S = "demo\<lparr>io := net_init\<rparr>"
  let ?s0 = "session_start ?S"
  let ?S1 = "?S\<lparr>io := net_init\<lparr>posted := 1, read_io_live := 1\<rparr>\<rparr>"
  let ?s1 = "?s0\<lparr>mgr := ?S1, worker_of := (worker_of ?s0)(0 := Loop)\<rparr>"
  have E: "is_block (fresh_block demo_env)" "thread demo_env = 0" using demo_serves by (simp_all add: serves_def demo_env_def)
  have r: "worker_piece demo_env (worker_of ?s0 0) (mgr ?s0) = Inr (Loop, ?S1)"
    by (simp add: session_start_def recv_def demo_sel Socket_Recv_def demo_socket_def net_init_def)
  have st: "session_step 1 ?s0 0 ?s1"
    by (rule session_step.work [OF _ _ _ _ r]) (use E in \<open>simp_all add: session_start_def\<close>)
  have i: "manager_inv ?S" using demo_inv by (simp add: io_inv)
  have "reach (session_step 1) ?s0 ?s1" by (rule more [OF reach_refl st])
  from receives_bounded [OF i _ this reach_refl] st show ?thesis
    by (intro exI [of _ ?s1]) (simp add: net_init_def)
qed

end
