(* ===== verification/SessionLife.thy ===== *)
theory SessionLife
  imports SessionRaceSpec Refinement "HOL-Library.Multiset"
begin

section \<open>The life of a session, with all threads at work\<close>

text \<open>
  The specification of the session manager's threads: every peer address has a small state, the work that
  a worker has begun for a peer is a due, and the user is told of accepted sessions and delivered data: told means
  that the thread of the handler is started, with the session and the bytes of that moment (theory \<open>SessionManager\<close>
  says what such a thread finds later).  No tables, pointers, locks or workers.  The interleaved threads of theory \<open>SessionRace\<close> refine it.
\<close>

subsection \<open>The specification\<close>

text \<open>
  Dues: a new session not yet pending, with its counter; an acknowledged session on its way to the open ones,
  with its counter; an accept notice; a datagram for a session found open (with its bytes, unless it is a heartbeat), still open or dropped
  since; a delivery.
\<close>

datatype due =
    Fresh addr_key u16
  | Opening addr_key u16
  | AcceptDue
  | Found addr_key "byte list option"
  | Stale "byte list option"
  | DeliverDue "byte list"

record life =
  lives :: "addr_key \<Rightarrow> peer"
  dues :: "due multiset"
  told :: "notice list"

fun owed :: "byte list option \<Rightarrow> u16 \<Rightarrow> due multiset" where
  "owed None a = {#}"
| "owed (Some b) a = (if sint a > - 2 then {#DeliverDue b#} else {#})"

fun dropped :: "addr_key \<Rightarrow> due \<Rightarrow> due" where
  "dropped k (Found j x) = (if j = k then Stale x else Found j x)"
| "dropped k d = d"

definition set_half :: "addr_key \<Rightarrow> u16 option \<Rightarrow> life \<Rightarrow> life" where
  "set_half k a e = e\<lparr>lives := (lives e)(k := (lives e k)\<lparr>half_open := a\<rparr>)\<rparr>"

definition set_open :: "addr_key \<Rightarrow> u16 option \<Rightarrow> life \<Rightarrow> life" where
  "set_open k a e = e\<lparr>lives := (lives e)(k := (lives e k)\<lparr>opened := a\<rparr>)\<rparr>"

inductive life_step :: "life \<Rightarrow> life \<Rightarrow> bool" where
  l_new: "life_step e (e\<lparr>dues := add_mset (Fresh k 0) (dues e)\<rparr>)"
| l_syn: "dues e = add_mset (Fresh k a) D \<Longrightarrow>
    life_step e ((set_half k (Some (case half_open (lives e k) of None \<Rightarrow> a | Some b \<Rightarrow> b)) e)\<lparr>dues := D\<rparr>)"
| l_ack: "half_open (lives e k) = Some a \<Longrightarrow>
    life_step e ((set_half k None e)\<lparr>dues := add_mset (Opening k a) (dues e)\<rparr>)"
| l_open: "dues e = add_mset (Opening k a) D \<Longrightarrow>
    life_step e ((set_open k (Some (case opened (lives e k) of None \<Rightarrow> a | Some b \<Rightarrow> b)) e)\<lparr>dues := add_mset AcceptDue D\<rparr>)"
| l_accept: "dues e = add_mset AcceptDue D \<Longrightarrow> life_step e (e\<lparr>dues := D, told := told e @ [Accepted]\<rparr>)"
| l_find: "opened (lives e k) \<noteq> None \<Longrightarrow> life_step e (e\<lparr>dues := add_mset (Found k x) (dues e)\<rparr>)"
| l_count: "dues e = add_mset (Found k x) D \<Longrightarrow> opened (lives e k) = Some a \<Longrightarrow>
    life_step e ((set_open k (Some (a + 1)) e)\<lparr>dues := D + owed x (a + 1)\<rparr>)"
| l_stale: "dues e = add_mset (Stale x) D \<Longrightarrow> life_step e (e\<lparr>dues := D + owed x a\<rparr>)"
| l_deliver: "dues e = add_mset (DeliverDue b) D \<Longrightarrow> life_step e (e\<lparr>dues := D, told := told e @ [Delivered b]\<rparr>)"
| l_age: "opened (lives e k) = Some a \<Longrightarrow> life_step e (set_open k (Some (a - 1)) e)"
| l_drop: "opened (lives e k) = Some a \<Longrightarrow> sint a < - 1 \<Longrightarrow>
    life_step e ((set_open k None e)\<lparr>dues := image_mset (dropped k) (dues e)\<rparr>)"

definition life_init :: life where
  "life_init = \<lparr>lives = (\<lambda>_. \<lparr>half_open = None, opened = None\<rparr>), dues = {#}, told = []\<rparr>"

subsection \<open>The view\<close>

definition key_at :: "manager \<Rightarrow> ptr \<Rightarrow> addr_key" where
  "key_at S p = key (endpoint_m (the (session_at S p)))"

definition count_at :: "manager \<Rightarrow> ptr \<Rightarrow> u16" where
  "count_at S p = is_alive_m (the (session_at S p))"

definition found_due :: "manager \<Rightarrow> ptr \<Rightarrow> byte list option \<Rightarrow> due" where
  "found_due S p x = (if map_find (sessions S) (key_at S p) = Some p then Found (key_at S p) x else Stale x)"

fun due_of :: "manager \<Rightarrow> worker_at \<Rightarrow> due multiset" where
  "due_of S (SynInsert buffer p) = {#Fresh (key_at S p) (count_at S p)#}"
| "due_of S (AckInsert p) = {#Opening (key_at S p) (count_at S p)#}"
| "due_of S (AckSpawn p) = {#AcceptDue#}"
| "due_of S (BeatInc p) = {#found_due S p None#}"
| "due_of S (DataInc buffer p) = {#found_due S p (Some buffer)#}"
| "due_of S (DataSpawn buffer p) = {#DeliverDue buffer#}"
| "due_of S _ = {#}"

definition dues_of :: "nat \<Rightarrow> manager \<Rightarrow> (nat \<Rightarrow> worker_at) \<Rightarrow> due multiset" where
  "dues_of n S W = (\<Sum>t<n. due_of S (W t))"

definition life_of :: "nat \<Rightarrow> session_sys \<Rightarrow> life" where
  "life_of n s = \<lparr>lives = peer_of (mgr s), dues = dues_of n (mgr s) (worker_of s), told = heard (mgr s)\<rparr>"

lemma life_of_sel [simp]:
  "lives (life_of n s) = peer_of (mgr s)" "dues (life_of n s) = dues_of n (mgr s) (worker_of s)"
  "told (life_of n s) = heard (mgr s)"
  by (simp_all add: life_of_def)

lemma set_life_sel [simp]:
  "lives (set_half k a e) = (lives e)(k := (lives e k)\<lparr>half_open := a\<rparr>)" "dues (set_half k a e) = dues e"
  "told (set_half k a e) = told e"
  "lives (set_open k b e) = (lives e)(k := (lives e k)\<lparr>opened := b\<rparr>)" "dues (set_open k b e) = dues e"
  "told (set_open k b e) = told e"
  by (simp_all add: set_half_def set_open_def)

text \<open>What the view does not look at.\<close>

lemma peer_of_cong:
  "sessions S' = sessions S \<Longrightarrow> pending_sessions S' = pending_sessions S \<Longrightarrow> session_at S' = session_at S \<Longrightarrow>
   peer_of S' = peer_of S"
  by (auto simp: peer_of_def alive_at_def fun_eq_iff split: option.splits)

lemma due_cong:
  "sessions S' = sessions S \<Longrightarrow> session_at S' = session_at S \<Longrightarrow> due_of S' w = due_of S w"
  by (cases w) (simp_all add: found_due_def key_at_def count_at_def)

lemma due_same:
  assumes "\<And>p. p \<in> refers w \<Longrightarrow> key_at S' p = key_at S p"
    and "\<And>p. loose w = Some p \<Longrightarrow> count_at S' p = count_at S p"
    and "\<And>p. p \<in> counted w \<Longrightarrow> map_find (sessions S') (key_at S p) = Some p \<longleftrightarrow> map_find (sessions S) (key_at S p) = Some p"
  shows "due_of S' w = due_of S w"
  using assms by (cases w) (simp_all add: found_due_def)

lemma dues_update:
  assumes t: "t < n" and same: "\<And>u. u < n \<Longrightarrow> u \<noteq> t \<Longrightarrow> due_of S' (W u) = due_of S (W u)"
  obtains R where "dues_of n S W = R + due_of S (W t)" "dues_of n S' (W(t := w)) = R + due_of S' w"
proof
  let ?R = "\<Sum>u\<in>{..<n} - {t}. due_of S (W u)"
  show "dues_of n S W = ?R + due_of S (W t)"
    unfolding dues_of_def sum_update [OF t, of "\<lambda>u. due_of S (W u)"] by (rule add.commute)
  have "(\<Sum>u\<in>{..<n} - {t}. due_of S' ((W(t := w)) u)) = ?R"
    by (rule sum.cong) (use same in simp_all)
  then show "dues_of n S' (W(t := w)) = ?R + due_of S' w"
    unfolding dues_of_def sum_update [OF t, of "\<lambda>u. due_of S' ((W(t := w)) u)"] by (simp add: add.commute)
qed

lemma dues_cong:
  assumes "\<And>u. u < n \<Longrightarrow> due_of S' (W u) = due_of S (W u)"
  shows "dues_of n S' W = dues_of n S W"
  unfolding dues_of_def by (rule sum.cong) (use assms in simp_all)

subsection \<open>The simulation\<close>

definition simulated :: "nat \<Rightarrow> session_sys \<Rightarrow> session_sys \<Rightarrow> bool" where
  "simulated n s s' \<longleftrightarrow> life_of n s' = life_of n s \<or> life_step (life_of n s) (life_of n s')"

abbreviation moved_to :: "session_sys \<Rightarrow> nat \<Rightarrow> worker_at \<Rightarrow> manager \<Rightarrow> session_sys" where
  "moved_to s t w S \<equiv> s\<lparr>mgr := S, worker_of := (worker_of s)(t := w)\<rparr>"

text \<open>A worker's piece changes the dues of that worker; \<open>R\<close> are the dues of the others.\<close>

lemma life_moved:
  assumes "t < n" and "\<And>u. u < n \<Longrightarrow> u \<noteq> t \<Longrightarrow> due_of S (worker_of s u) = due_of (mgr s) (worker_of s u)"
  obtains R where "dues (life_of n s) = R + due_of (mgr s) (worker_of s t)"
    "life_of n (moved_to s t w S) = \<lparr>lives = peer_of S, dues = R + due_of S w, told = heard S\<rparr>"
proof -
  obtain R where "dues_of n (mgr s) (worker_of s) = R + due_of (mgr s) (worker_of s t)"
    "dues_of n S ((worker_of s)(t := w)) = R + due_of S w"
    using dues_update [where W = "worker_of s" and S = "mgr s", OF assms] by blast
  then show ?thesis using that by (simp add: life_of_def)
qed

text \<open>Pieces that are not seen.\<close>

lemma sim_same:
  assumes t: "t < n" and f: "sessions S = sessions (mgr s)" "pending_sessions S = pending_sessions (mgr s)"
    "session_at S = session_at (mgr s)" "spawned S = spawned (mgr s)" and d: "due_of (mgr s) w = due_of (mgr s) (worker_of s t)"
  shows "simulated n s (moved_to s t w S)"
proof -
  have "due_of S v = due_of (mgr s) v" for v by (rule due_cong) (rule f(1), rule f(3))
  then obtain R where "dues (life_of n s) = R + due_of (mgr s) (worker_of s t)"
    "life_of n (moved_to s t w S) = \<lparr>lives = peer_of S, dues = R + due_of S w, told = heard S\<rparr>" "due_of S w = due_of (mgr s) w"
    using life_moved [OF t, of S s w] by blast
  then have "life_of n (moved_to s t w S) = life_of n s"
    using peer_of_cong [OF f(1-3)] f(4) d by (simp add: life_of_def heard_def)
  then show ?thesis by (simp add: simulated_def)
qed

lemma life_eqI: "lives e = lives e' \<Longrightarrow> dues e = dues e' \<Longrightarrow> told e = told e' \<Longrightarrow> (e :: life) = e'"
  by simp

text \<open>One due is settled, by telling the user.\<close>

lemma sim_tell:
  assumes t: "t < n" and at: "due_of (mgr s) (worker_of s t) = {#d#}" "due_of (mgr s) w = {#}"
    and S: "S = (mgr s)\<lparr>spawned := spawned (mgr s) @ [x]\<rparr>"
    and d: "d = AcceptDue \<and> notice_of x = Accepted \<or> (\<exists>b. d = DeliverDue b \<and> notice_of x = Delivered b)"
  shows "simulated n s (moved_to s t w S)"
proof -
  have same: "due_of S v = due_of (mgr s) v" for v by (rule due_cong) (simp_all add: S)
  then obtain R where R: "dues (life_of n s) = R + due_of (mgr s) (worker_of s t)"
    "life_of n (moved_to s t w S) = \<lparr>lives = peer_of S, dues = R + due_of S w, told = heard S\<rparr>"
    using life_moved [OF t, of S s w] by blast
  let ?e = "life_of n s"
  have e: "life_of n (moved_to s t w S) = ?e\<lparr>dues := R, told := told ?e @ [notice_of x]\<rparr>"
    using same [of w] at(2) peer_of_cong [of S "mgr s"] unfolding R(2) by (intro life_eqI) (simp_all add: S heard_def)
  have "dues ?e = add_mset d R" using R(1) at(1) by simp
  then show ?thesis unfolding simulated_def e using d l_accept [of ?e R] l_deliver [of ?e _ R] by auto
qed

text \<open>What the invariant says of the pointers of other workers.\<close>

lemma counted_settled:
  assumes "session_ok n s" and "u < n" and "p \<in> counted (worker_of s u)"
  shows "settled n (mgr s) (worker_of s) p"
  by (rule apart_settled [where h = "hb s"]) (use assms in \<open>auto simp: session_ok_def\<close>)

lemma loose_facts:
  assumes "session_ok n s" and "u < n" and "loose (worker_of s u) = Some p"
  shows "p \<in> dom (session_at (mgr s))" "p \<notin> table_ptrs (mgr s)" "\<And>v. v < n \<Longrightarrow> loose (worker_of s v) = Some p \<Longrightarrow> v = u"
proof -
  have "p \<in> refers (worker_of s u)" using assms(3) by (cases "worker_of s u") simp_all
  moreover have "refers (worker_of s u) \<subseteq> dom (session_at (mgr s))"
    using assms(1,2) by (simp add: session_ok_def workers_ok_def)
  ultimately show "p \<in> dom (session_at (mgr s))" by blast
  have "\<forall>q. loose (worker_of s u) = Some q \<longrightarrow> q \<notin> table_ptrs (mgr s) \<and> (\<forall>v<n. loose (worker_of s v) = Some q \<longrightarrow> v = u)"
    using assms(1,2) unfolding session_ok_def workers_ok_def by blast
  then show "p \<notin> table_ptrs (mgr s)" "\<And>v. v < n \<Longrightarrow> loose (worker_of s v) = Some p \<Longrightarrow> v = u"
    using assms(3) by blast+
qed

lemma refers_constructed:
  assumes "session_ok n s" and "u < n"
  shows "refers (worker_of s u) \<subseteq> dom (session_at (mgr s))"
  using assms by (simp add: session_ok_def workers_ok_def)

lemma entry_key:
  assumes "core_inv S" and "map_find (sessions S) k = Some p \<or> map_find (pending_sessions S) k = Some p"
  shows "key_at S p = k" and "p \<in> dom (session_at S)"
proof -
  have "\<exists>s. session_at S p = Some s \<and> key (endpoint_m s) = k"
    using find_entry [of "S\<lparr>lock_sessions := Spinlock\<rparr>" k p] assms by (simp add: core_manager)
  then show "key_at S p = k" "p \<in> dom (session_at S)" by (auto simp: key_at_def)
qed

lemma open_iff:
  assumes "core_inv S"
  shows "map_find (sessions S) (key_at S p) = Some p \<longleftrightarrow> p \<in> snd ` set (sessions S)"
proof
  assume "map_find (sessions S) (key_at S p) = Some p"
  then have "(key_at S p, p) \<in> set (sessions S)" using map_find_set [OF core_tables(1) [OF assms]] by blast
  then show "p \<in> snd ` set (sessions S)" by force
next
  assume "p \<in> snd ` set (sessions S)"
  then obtain k where "(k, p) \<in> set (sessions S)" by auto
  then have m: "map_find (sessions S) k = Some p" using map_find_set [OF core_tables(1) [OF assms]] by blast
  then show "map_find (sessions S) (key_at S p) = Some p" using entry_key(1) [OF assms disjI1 [OF m]] by simp
qed

lemma alive_count: "p \<in> dom (session_at S) \<Longrightarrow> alive_at S (Some p) = Some (count_at S p)"
  by (auto simp: alive_at_def count_at_def)

subsection \<open>The pieces of a worker, seen\<close>

lemma sim_new:
  assumes ok: "session_ok n s" and t: "t < n" and at: "worker_of s t = SynNew buffer r"
    and m: "ObjectPool_Malloc grant session_size t' (session_pool (mgr s)) = Inr (p, sp)"
    and S: "S = (mgr s)\<lparr>session_pool := sp, session_at := (session_at (mgr s))(p \<mapsto> Session_ctor r)\<rparr>"
  shows "simulated n s (moved_to s t (SynInsert buffer p) S)"
proof -
  have c: "core_inv (mgr s)" by (rule session_okD(1) [OF ok])
  have new: "p \<notin> dom (session_at (mgr s))" by (rule core_alloc(2) [OF c m])
  have old: "session_at S q = session_at (mgr s) q" if "q \<in> dom (session_at (mgr s))" for q
    using that new by (auto simp: S)
  have ka: "key_at S q = key_at (mgr s) q" "count_at S q = count_at (mgr s) q" if "q \<in> dom (session_at (mgr s))" for q
    using old [OF that] by (simp_all add: key_at_def count_at_def)
  have tab: "sessions S = sessions (mgr s)" "pending_sessions S = pending_sessions (mgr s)" "heard S = heard (mgr s)"
    by (simp_all add: S heard_def)
  have same: "due_of S (worker_of s u) = due_of (mgr s) (worker_of s u)" if u: "u < n" for u
  proof (rule due_same)
    show "key_at S q = key_at (mgr s) q" if "q \<in> refers (worker_of s u)" for q
      using that refers_constructed [OF ok u] by (intro ka) blast
    show "count_at S q = count_at (mgr s) q" if "loose (worker_of s u) = Some q" for q
      using loose_facts(1) [OF ok u that] by (rule ka)
  qed (simp add: tab)
  obtain R where R: "dues (life_of n s) = R + due_of (mgr s) (worker_of s t)"
    "life_of n (moved_to s t (SynInsert buffer p) S) = \<lparr>lives = peer_of S, dues = R + due_of S (SynInsert buffer p), told = heard S\<rparr>"
    using life_moved [OF t, of S s "SynInsert buffer p"] same by blast
  have al: "alive_at S (map_find m k) = alive_at (mgr s) (map_find m k)"
    if "m = sessions (mgr s) \<or> m = pending_sessions (mgr s)" for m k
  proof (cases "map_find m k")
    case (Some q)
    then have "q \<in> dom (session_at (mgr s))" using that entry_key(2) [OF c, of k q] by blast
    then show ?thesis using old [of q] Some by (simp add: alive_at_def)
  qed simp
  have "peer_of S = peer_of (mgr s)" using al by (simp add: peer_of_def fun_eq_iff tab)
  moreover have "due_of S (SynInsert buffer p) = {#Fresh (key r) 0#}"
    by (simp add: key_at_def count_at_def S Session_ctor_def)
  ultimately have "life_of n (moved_to s t (SynInsert buffer p) S) =
      (life_of n s)\<lparr>dues := add_mset (Fresh (key r) 0) (dues (life_of n s))\<rparr>"
    using R(1) at tab unfolding R(2) by (intro life_eqI) simp_all
  then show ?thesis using l_new [of "life_of n s" "key r"] by (simp add: simulated_def)
qed

lemma sim_pend:
  assumes ok: "session_ok n s" and t: "t < n" and at: "worker_of s t = SynInsert buffer p"
    and x: "session_at (mgr s) p = Some x"
    and S: "S = (mgr s)\<lparr>pending_sessions := map_insert (pending_sessions (mgr s)) (key (endpoint_m x)) p\<rparr>"
  shows "simulated n s (moved_to s t (SynSend buffer p) S)"
proof -
  let ?k = "key (endpoint_m x)" and ?e = "life_of n s"
  have c: "core_inv (mgr s)" by (rule session_okD(1) [OF ok])
  have same: "due_of S v = due_of (mgr s) v" for v by (rule due_cong) (simp_all add: S)
  then obtain R where R: "dues ?e = R + due_of (mgr s) (worker_of s t)"
    "life_of n (moved_to s t (SynSend buffer p) S) = \<lparr>lives = peer_of S, dues = R + due_of S (SynSend buffer p), told = heard S\<rparr>"
    using life_moved [OF t, of S s "SynSend buffer p"] by blast
  have al: "alive_at S = alive_at (mgr s)" by (simp add: fun_eq_iff alive_at_def S split: option.splits)
  have pe: "map_find (pending_sessions S) j = (if j = ?k \<and> map_find (pending_sessions (mgr s)) ?k = None then Some p
      else map_find (pending_sessions (mgr s)) j)" for j
    using om.find_ins [OF core_tables(2) [OF c]] by (simp add: S)
  have tab: "sessions S = sessions (mgr s)" "heard S = heard (mgr s)" by (simp_all add: S heard_def)
  have D: "dues ?e = add_mset (Fresh ?k (is_alive_m x)) R"
    using R(1) at x by (simp add: key_at_def count_at_def)
  have alp: "alive_at (mgr s) (Some p) = Some (is_alive_m x)" using x by simp
  have "peer_of S = (peer_of (mgr s))(?k := (peer_of (mgr s) ?k)
      \<lparr>half_open := Some (case half_open (peer_of (mgr s) ?k) of None \<Rightarrow> is_alive_m x | Some b \<Rightarrow> b)\<rparr>)"
  proof (cases "map_find (pending_sessions (mgr s)) ?k")
    case None
    then show ?thesis using alp by (auto simp: peer_of_def fun_eq_iff al pe tab)
  next
    case (Some q)
    have "q \<in> dom (session_at (mgr s))" by (rule entry_key(2) [OF c disjI2]) (rule Some)
    then show ?thesis using Some alive_count [of q "mgr s"] by (auto simp: peer_of_def fun_eq_iff al pe tab)
  qed
  then have "life_of n (moved_to s t (SynSend buffer p) S) =
      (set_half ?k (Some (case half_open (lives ?e ?k) of None \<Rightarrow> is_alive_m x | Some b \<Rightarrow> b)) ?e)\<lparr>dues := R\<rparr>"
    using tab unfolding R(2) by (intro life_eqI) simp_all
  then show ?thesis using l_syn [OF D] by (simp add: simulated_def)
qed

lemma sim_erase:
  assumes ok: "session_ok n s" and t: "t < n" and at: "worker_of s t = AckErase k p"
    and m: "map_erase (pending_sessions (mgr s)) (k, p) = Inr m" and S: "S = (mgr s)\<lparr>pending_sessions := m\<rparr>"
  shows "simulated n s (moved_to s t (AckInsert p) S)"
proof -
  let ?e = "life_of n s"
  have c: "core_inv (mgr s)" by (rule session_okD(1) [OF ok])
  have f: "map_find (pending_sessions (mgr s)) k = Some p" "map_find m = (map_find (pending_sessions (mgr s)))(k := None)"
    using om.erase_cases [OF core_tables(2) [OF c] m] by simp_all
  note kp = entry_key [OF c disjI2 [OF f(1)]]
  have same: "due_of S v = due_of (mgr s) v" for v by (rule due_cong) (simp_all add: S)
  then obtain R where R: "dues ?e = R + due_of (mgr s) (worker_of s t)"
    "life_of n (moved_to s t (AckInsert p) S) = \<lparr>lives = peer_of S, dues = R + due_of S (AckInsert p), told = heard S\<rparr>"
    using life_moved [OF t, of S s "AckInsert p"] by blast
  have al: "alive_at S = alive_at (mgr s)" by (simp add: fun_eq_iff alive_at_def S split: option.splits)
  have tab: "sessions S = sessions (mgr s)" "heard S = heard (mgr s)" "map_find (pending_sessions S) = (map_find (pending_sessions (mgr s)))(k := None)"
    using f(2) by (simp_all add: S heard_def)
  have "peer_of S = (peer_of (mgr s))(k := (peer_of (mgr s) k)\<lparr>half_open := None\<rparr>)"
    by (auto simp: peer_of_def fun_eq_iff al tab)
  moreover have "due_of S (AckInsert p) = {#Opening k (count_at (mgr s) p)#}" using kp(1) unfolding same by simp
  ultimately have e: "life_of n (moved_to s t (AckInsert p) S) =
      (set_half k None ?e)\<lparr>dues := add_mset (Opening k (count_at (mgr s) p)) (dues ?e)\<rparr>"
    using R(1) at tab unfolding R(2) by (intro life_eqI) simp_all
  have "half_open (lives ?e k) = Some (count_at (mgr s) p)"
    using f(1) alive_count [OF kp(2)] by (simp add: peer_of_def)
  then show ?thesis using l_ack [of ?e k] unfolding simulated_def e by blast
qed

lemma sim_open:
  assumes ok: "session_ok n s" and t: "t < n" and at: "worker_of s t = AckInsert p"
    and x: "session_at (mgr s) p = Some x"
    and S: "S = (mgr s)\<lparr>sessions := map_insert (sessions (mgr s)) (key (endpoint_m x)) p\<rparr>"
  shows "simulated n s (moved_to s t (AckSpawn p) S)"
proof -
  let ?k = "key (endpoint_m x)" and ?e = "life_of n s"
  have c: "core_inv (mgr s)" by (rule session_okD(1) [OF ok])
  have se: "map_find (sessions S) j = (if j = ?k \<and> map_find (sessions (mgr s)) ?k = None then Some p
      else map_find (sessions (mgr s)) j)" for j
    using om.find_ins [OF core_tables(1) [OF c]] by (simp add: S)
  have ka: "key_at S = key_at (mgr s)" "count_at S = count_at (mgr s)" by (simp_all add: key_at_def count_at_def S fun_eq_iff)
  have same: "due_of S (worker_of s u) = due_of (mgr s) (worker_of s u)" if u: "u < n" for u
  proof (rule due_same)
    fix q assume "q \<in> counted (worker_of s u)"
    then have "loose (worker_of s t) \<noteq> Some q" using counted_settled [OF ok u] t by (simp add: settled_def)
    then have "q \<noteq> p" using at by auto
    then show "map_find (sessions S) (key_at (mgr s) q) = Some q \<longleftrightarrow> map_find (sessions (mgr s)) (key_at (mgr s) q) = Some q"
      by (simp add: se)
  qed (simp_all add: ka)
  obtain R where R: "dues ?e = R + due_of (mgr s) (worker_of s t)"
    "life_of n (moved_to s t (AckSpawn p) S) = \<lparr>lives = peer_of S, dues = R + due_of S (AckSpawn p), told = heard S\<rparr>"
    using life_moved [OF t, of S s "AckSpawn p"] same by blast
  have al: "alive_at S = alive_at (mgr s)" by (simp add: fun_eq_iff alive_at_def S split: option.splits)
  have tab: "pending_sessions S = pending_sessions (mgr s)" "heard S = heard (mgr s)" by (simp_all add: S heard_def)
  have D: "dues ?e = add_mset (Opening ?k (is_alive_m x)) R"
    using R(1) at x by (simp add: key_at_def count_at_def)
  have alp: "alive_at (mgr s) (Some p) = Some (is_alive_m x)" using x by simp
  have "peer_of S = (peer_of (mgr s))(?k := (peer_of (mgr s) ?k)
      \<lparr>opened := Some (case opened (peer_of (mgr s) ?k) of None \<Rightarrow> is_alive_m x | Some b \<Rightarrow> b)\<rparr>)"
  proof (cases "map_find (sessions (mgr s)) ?k")
    case None
    then show ?thesis using alp by (auto simp: peer_of_def fun_eq_iff al se tab)
  next
    case (Some q)
    have "q \<in> dom (session_at (mgr s))" by (rule entry_key(2) [OF c disjI1]) (rule Some)
    then show ?thesis using Some alive_count [of q "mgr s"] by (auto simp: peer_of_def fun_eq_iff al se tab)
  qed
  then have "life_of n (moved_to s t (AckSpawn p) S) =
      (set_open ?k (Some (case opened (lives ?e ?k) of None \<Rightarrow> is_alive_m x | Some b \<Rightarrow> b)) ?e)\<lparr>dues := add_mset AcceptDue R\<rparr>"
    using tab unfolding R(2) by (intro life_eqI) simp_all
  then show ?thesis using l_open [OF D] by (simp add: simulated_def)
qed

lemma sim_found:
  assumes ok: "session_ok n s" and t: "t < n" and at: "due_of (mgr s) (worker_of s t) = {#}"
    and p: "map_find (sessions (mgr s)) k = Some p" and w: "due_of (mgr s) w = {#found_due (mgr s) p x#}"
  shows "simulated n s (moved_to s t w (mgr s))"
proof -
  let ?e = "life_of n s"
  have c: "core_inv (mgr s)" by (rule session_okD(1) [OF ok])
  note kp = entry_key [OF c disjI1 [OF p]]
  obtain R where R: "dues ?e = R + due_of (mgr s) (worker_of s t)"
    "life_of n (moved_to s t w (mgr s)) = \<lparr>lives = peer_of (mgr s), dues = R + due_of (mgr s) w, told = heard (mgr s)\<rparr>"
    using life_moved [OF t, of "mgr s" s w] by blast
  have "due_of (mgr s) w = {#Found k x#}" using w p kp(1) by (simp add: found_due_def)
  then have e: "life_of n (moved_to s t w (mgr s)) = ?e\<lparr>dues := add_mset (Found k x) (dues ?e)\<rparr>"
    using R(1) at unfolding R(2) by (intro life_eqI) simp_all
  have "opened (lives ?e k) \<noteq> None" using p alive_count [OF kp(2)] by (simp add: peer_of_def)
  then show ?thesis using l_find [of ?e k x] unfolding simulated_def e by blast
qed

text \<open>Changing a counter.\<close>

lemma counter_view:
  assumes c: "core_inv S" and x: "session_at S p = Some x" and p: "p \<notin> pending_ptrs S"
  shows "peer_of (set_alive p x a S) = (if map_find (sessions S) (key_at S p) = Some p
     then (peer_of S)(key_at S p := (peer_of S (key_at S p))\<lparr>opened := Some a\<rparr>) else peer_of S)"
proof -
  have g: "map_find (pending_sessions S) j \<noteq> Some p" for j
  proof
    assume "map_find (pending_sessions S) j = Some p"
    then have "(j, p) \<in> set (pending_sessions S)" using map_find_set [OF core_tables(2) [OF c]] by blast
    then show False using p by (force simp: pending_ptrs_def)
  qed
  have k: "j = key_at S p" if "map_find (sessions S) j = Some p" for j
    using entry_key(1) [OF c disjI1 [OF that]] by simp
  show ?thesis
  proof (cases "map_find (sessions S) (key_at S p) = Some p")
    case True
    have "peer_of (set_alive p x a S) j = ((peer_of S)(key_at S p := (peer_of S (key_at S p))\<lparr>opened := Some a\<rparr>)) j" for j
      using g k [of j] True by (cases "j = key_at S p") (auto simp: peer_of_def alive_at_set)
    then show ?thesis unfolding if_P [OF True] by (rule ext)
  next
    case False
    then have "map_find (sessions S) j \<noteq> Some p" for j using k by blast
    then have "peer_of (set_alive p x a S) j = peer_of S j" for j using g by (simp add: peer_of_def alive_at_set)
    then show ?thesis unfolding if_not_P [OF False] by (rule ext)
  qed
qed

lemma counter_dues:
  assumes x: "session_at S p = Some x" and p: "loose w \<noteq> Some p"
  shows "due_of (set_alive p x a S) w = due_of S w"
proof (rule due_same)
  show k: "key_at (set_alive p x a S) q = key_at S q" for q using x by (simp add: key_at_def)
  show "count_at (set_alive p x a S) q = count_at S q" if "loose w = Some q" for q
    using that p by (auto simp: count_at_def)
qed simp

lemma sim_counted:
  assumes ok: "session_ok n s" and t: "t < n" and at: "due_of (mgr s) (worker_of s t) = {#found_due (mgr s) p x#}"
    "p \<in> counted (worker_of s t)"
    and y: "session_at (mgr s) p = Some y" and S: "S = set_alive p y (is_alive_m y + 1) (mgr s)"
    and w: "due_of S w = owed x (is_alive_m y + 1)"
  shows "simulated n s (moved_to s t w S)"
proof -
  let ?e = "life_of n s" and ?k = "key_at (mgr s) p" and ?a = "is_alive_m y + 1"
  have c: "core_inv (mgr s)" by (rule session_okD(1) [OF ok])
  have p: "p \<notin> pending_ptrs (mgr s)" "\<And>u. u < n \<Longrightarrow> loose (worker_of s u) \<noteq> Some p"
    using counted_settled [OF ok t at(2)] by (simp_all add: settled_def)
  obtain R where R: "dues ?e = R + due_of (mgr s) (worker_of s t)"
    "life_of n (moved_to s t w S) = \<lparr>lives = peer_of S, dues = R + due_of S w, told = heard S\<rparr>"
    using life_moved [OF t, of S s w] counter_dues [OF y p(2)] unfolding S by blast
  have h: "heard S = heard (mgr s)" by (simp add: S heard_def)
  note v = counter_view [OF c y p(1), of ?a, folded S]
  show ?thesis
  proof (cases "map_find (sessions (mgr s)) ?k = Some p")
    case True
    have D: "dues ?e = add_mset (Found ?k x) R" using R(1) at(1) True by (simp add: found_due_def)
    have o: "opened (lives ?e ?k) = Some (is_alive_m y)" using True y by (simp add: peer_of_def)
    have "life_of n (moved_to s t w S) = (set_open ?k (Some ?a) ?e)\<lparr>dues := R + owed x ?a\<rparr>"
      using h v True w unfolding R(2) by (intro life_eqI) simp_all
    then show ?thesis using l_count [OF D o] by (simp add: simulated_def)
  next
    case False
    have D: "dues ?e = add_mset (Stale x) R" using R(1) at(1) False by (simp add: found_due_def)
    have "life_of n (moved_to s t w S) = ?e\<lparr>dues := R + owed x ?a\<rparr>"
      using h v False w unfolding R(2) by (intro life_eqI) simp_all
    then show ?thesis using l_stale [OF D] by (simp add: simulated_def)
  qed
qed

lemma recv_same:
  assumes "recv S = Inr S'"
  shows "sessions S' = sessions S" "pending_sessions S' = pending_sessions S" "session_at S' = session_at S" "spawned S' = spawned S"
  using recv_frame [OF assms] by auto

lemma work_simulated:
  assumes ok: "session_ok n s" and t: "t < n" and go: "worker_piece E (worker_of s t) (mgr s) = Inr (w, S)"
  shows "simulated n s (moved_to s t w S)"
proof -
  have r: "ready (worker_of s t) (mgr s)" and c: "core_inv (mgr s)" using session_okD [OF ok] t by simp_all
  have l: "lock_sessions (mgr s) = Spinlock \<or> lock_sessions (mgr s) = held" using r by (simp add: ready_def)
  have pl: "lock_pending_sessions (mgr s) = Spinlock" using c by (simp add: core_inv_def)
  have so: "\<exists>y. session_at (mgr s) p = Some y \<and> session_of (mgr s) p = Inr y" if "p \<in> refers (worker_of s t)" for p
    using core_session_of [OF c, of p] refers_constructed [OF ok t] that by blast
  note same = sim_same [OF t]
  show ?thesis
  proof (cases "worker_of s t")
    case Starting
    then obtain S1 where "recv (mgr s) = Inr S1" "S = S1" "w = Loop" using go by auto
    then show ?thesis using recv_same [of "mgr s" S1] Starting by (intro same) simp_all
  next
    case Idle
    then show ?thesis using go by (intro same) auto
  next
    case (SynNew buffer remote)
    obtain p sp where m: "ObjectPool_Malloc (grants E) session_size (thread E) (session_pool (mgr s)) = Inr (p, sp)"
      and e: "w = SynInsert buffer p"
        "S = (mgr s)\<lparr>session_pool := sp, session_at := (session_at (mgr s))(p \<mapsto> Session_ctor remote)\<rparr>"
      by (rule new_piece [OF go [unfolded SynNew]])
    show ?thesis unfolding e(1) by (rule sim_new [OF ok t SynNew m e(2)])
  next
    case (SynInsert buffer p)
    then obtain y where y: "session_at (mgr s) p = Some y" "session_of (mgr s) p = Inr y" using so [of p] by auto
    then have "w = SynSend buffer p"
      "S = (mgr s)\<lparr>pending_sessions := map_insert (pending_sessions (mgr s)) (key (endpoint_m y)) p\<rparr>"
      using go SynInsert by (simp_all add: pending_sections(2) [OF pl] Session_GetEndpoint_def)
    then show ?thesis using sim_pend [OF ok t SynInsert y(1)] by simp
  next
    case (SynSend buffer p)
    then obtain N where "S = (mgr s)\<lparr>io := N\<rparr>" "w = FreeRead" using go send_frame [of E buffer p "mgr s" w S] by auto
    then show ?thesis using SynSend by (intro same) simp_all
  next
    case (AckFind remote)
    then have "S = mgr s" "due_of (mgr s) w = {#}" using go by (auto split: option.splits)
    then show ?thesis using AckFind by (intro same) simp_all
  next
    case (AckErase k p)
    then obtain m where m: "map_erase (pending_sessions (mgr s)) (k, p) = Inr m" "w = AckInsert p"
      "S = (mgr s)\<lparr>pending_sessions := m\<rparr>"
      using go by (auto simp: pending_sections(3) [OF pl])
    then show ?thesis using sim_erase [OF ok t AckErase m(1)] by simp
  next
    case (AckInsert p)
    have ls: "lock_sessions (mgr s) = Spinlock" using l go AckInsert sections_wait(2) [of "mgr s" p] by auto
    obtain y where y: "session_at (mgr s) p = Some y" "session_of (mgr s) p = Inr y" using so [of p] AckInsert by auto
    then have "w = AckSpawn p" "S = (mgr s)\<lparr>sessions := map_insert (sessions (mgr s)) (key (endpoint_m y)) p\<rparr>"
      using go AckInsert by (simp_all add: session_sections(2) [OF ls] Session_GetEndpoint_def)
    then show ?thesis using sim_open [OF ok t AckInsert y(1)] by simp
  next
    case (AckSpawn p)
    then have S: "S = (mgr s)\<lparr>spawned := spawned (mgr s) @ [AcceptThread p]\<rparr>" "w = FreeRead" using go by auto
    show ?thesis by (rule sim_tell [OF t _ _ S(1), of AcceptDue]) (simp_all add: AckSpawn S(2))
  next
    case (BeatFind remote)
    show ?thesis
    proof (cases "map_find (sessions (mgr s)) (key remote)")
      case None
      then have "S = mgr s" "w = Loop" using go BeatFind by simp_all
      then show ?thesis using BeatFind by (intro same) simp_all
    next
      case (Some p)
      then have "S = mgr s" "w = BeatInc p" using go BeatFind by simp_all
      then show ?thesis using sim_found [OF ok t _ Some, of "BeatInc p" None] BeatFind by simp
    qed
  next
    case (BeatInc p)
    then obtain y where y: "session_at (mgr s) p = Some y" "session_of (mgr s) p = Inr y" using so [of p] by auto
    then have "S = set_alive p y (is_alive_m y + 1) (mgr s)" "w = FreeRead" using go BeatInc by simp_all
    then show ?thesis by (intro sim_counted [OF ok t _ _ y(1), where x = None]) (simp_all add: BeatInc)
  next
    case (DataFind buffer remote)
    show ?thesis
    proof (cases "map_find (sessions (mgr s)) (key remote)")
      case None
      then have "S = mgr s" "w = Loop" using go DataFind by simp_all
      then show ?thesis using DataFind by (intro same) simp_all
    next
      case (Some p)
      then have "S = mgr s" "w = DataInc buffer p" using go DataFind by simp_all
      then show ?thesis using sim_found [OF ok t _ Some, of "DataInc buffer p" "Some buffer"] DataFind by simp
    qed
  next
    case (DataInc buffer p)
    then obtain y where y: "session_at (mgr s) p = Some y" "session_of (mgr s) p = Inr y" using so [of p] by auto
    then have e: "S = set_alive p y (is_alive_m y + 1) (mgr s)"
      "w = (if sint (is_alive_m y + 1) > - 2 then DataSpawn buffer p else FreeRead)" using go DataInc by (simp_all add: Let_def)
    show ?thesis by (rule sim_counted [OF ok t _ _ y(1) e(1), where x = "Some buffer"]) (simp_all add: DataInc e(2))
  next
    case (DataSpawn buffer p)
    then have S: "S = (mgr s)\<lparr>spawned := spawned (mgr s) @ [PacketThread p buffer]\<rparr>" "w = FreeRead" using go by auto
    show ?thesis by (rule sim_tell [OF t _ _ S(1), of "DeliverDue buffer"]) (simp_all add: DataSpawn S(2))
  next
    case FreeRead
    then show ?thesis using go by (intro same) auto
  next
    case Repost
    then obtain S1 where "recv (mgr s) = Inr S1" "S = S1" "w = Loop" using go by auto
    then show ?thesis using recv_same [of "mgr s" S1] Repost by (intro same) simp_all
  next
    case FreeWrite
    then show ?thesis using go by (intro same) auto
  next
    case Loop
    then show ?thesis using go by (intro same) auto
  next
    case Gone
    then show ?thesis using go by simp
  next
    case (AckTest remote)
    then show ?thesis using go by (intro same) (auto split: if_splits)
  next
    case (BeatTest remote)
    then show ?thesis using go by (intro same) (auto split: if_splits)
  next
    case (DataTest buffer remote)
    then show ?thesis using go by (intro same) (auto split: if_splits)
  qed
qed

subsection \<open>The pieces of the heartbeat thread, seen\<close>

lemma beat_same:
  assumes "sessions S = sessions (mgr s)" "pending_sessions S = pending_sessions (mgr s)"
    "session_at S = session_at (mgr s)" "spawned S = spawned (mgr s)"
  shows "simulated n s (s\<lparr>mgr := S, hb := h\<rparr>)"
proof -
  have "dues_of n S (worker_of s) = dues_of n (mgr s) (worker_of s)"
    by (rule dues_cong) (rule due_cong, rule assms(1), rule assms(3))
  then have "life_of n (s\<lparr>mgr := S, hb := h\<rparr>) = life_of n s"
    using peer_of_cong [OF assms(1-3)] assms(4) by (simp add: life_of_def heard_def)
  then show ?thesis by (simp add: simulated_def)
qed

text \<open>The counter of a session that is, or was, open goes down.\<close>

lemma sim_aged:
  assumes ok: "session_ok n s" and p: "settled n (mgr s) (worker_of s) p" and y: "session_at (mgr s) p = Some y"
    and S: "S = (set_alive p y (is_alive_m y - 1) (mgr s))\<lparr>disconnected_calls := c'\<rparr>"
  shows "simulated n s (s\<lparr>mgr := S, hb := h\<rparr>)"
proof -
  let ?A = "set_alive p y (is_alive_m y - 1) (mgr s)" and ?e = "life_of n s" and ?k = "key_at (mgr s) p"
  have c: "core_inv (mgr s)" by (rule session_okD(1) [OF ok])
  have f: "sessions S = sessions ?A" "pending_sessions S = pending_sessions ?A" "session_at S = session_at ?A" by (simp_all add: S)
  have "due_of S (worker_of s u) = due_of (mgr s) (worker_of s u)" if "u < n" for u
  proof -
    have "loose (worker_of s u) \<noteq> Some p" using p that by (simp add: settled_def)
    then have "due_of ?A (worker_of s u) = due_of (mgr s) (worker_of s u)" by (rule counter_dues [OF y])
    then show ?thesis using due_cong [OF f(1,3)] by simp
  qed
  then have d: "dues_of n S (worker_of s) = dues_of n (mgr s) (worker_of s)" by (rule dues_cong)
  have "p \<notin> pending_ptrs (mgr s)" using p by (simp add: settled_def)
  note v = peer_of_cong [OF f, unfolded counter_view [OF c y this]]
  have h: "heard S = heard (mgr s)" by (simp add: S heard_def set_alive_def)
  show ?thesis
  proof (cases "map_find (sessions (mgr s)) ?k = Some p")
    case True
    have "opened (lives ?e ?k) = Some (is_alive_m y)" using True y by (simp add: peer_of_def)
    moreover have "life_of n (s\<lparr>mgr := S, hb := h\<rparr>) = set_open ?k (Some (is_alive_m y - 1)) ?e"
      using v d h True by (intro life_eqI) simp_all
    ultimately show ?thesis using l_age [of ?e ?k] by (simp add: simulated_def)
  next
    case False
    then have "life_of n (s\<lparr>mgr := S, hb := h\<rparr>) = ?e" using v d h by (intro life_eqI) simp_all
    then show ?thesis by (simp add: simulated_def)
  qed
qed

lemma dropped_dues:
  assumes "\<And>u. u < n \<Longrightarrow> due_of S' (W u) = image_mset (dropped k) (due_of S (W u))"
  shows "dues_of n S' W = image_mset (dropped k) (dues_of n S W)"
  using assms by (induction n) (simp_all add: dues_of_def)

lemma dropped_due:
  assumes k: "key_at S' = key_at S" "count_at S' = count_at S"
    and m: "\<And>j. map_find (sessions S') j = (if j = k then None else map_find (sessions S) j)"
  shows "due_of S' w = image_mset (dropped k) (due_of S w)"
  by (cases w) (simp_all add: found_due_def k m)

lemma sim_dropped:
  assumes ok: "session_ok n s" and p: "map_find (sessions (mgr s)) k = Some p" and y: "session_at (mgr s) p = Some y"
    and low: "sint (is_alive_m y) < - 1" and m: "map_erase (sessions (mgr s)) (k, p) = Inr m"
    and S: "S = (mgr s)\<lparr>sessions := m\<rparr>"
  shows "simulated n s (s\<lparr>mgr := S, hb := h\<rparr>)"
proof -
  let ?e = "life_of n s"
  have c: "core_inv (mgr s)" by (rule session_okD(1) [OF ok])
  have "map_find m = (map_find (sessions (mgr s)))(k := None)"
    using om.erase_cases [OF core_tables(1) [OF c] m] by simp
  then have f: "map_find (sessions S) j = (if j = k then None else map_find (sessions (mgr s)) j)" for j by (simp add: S)
  have ka: "key_at S = key_at (mgr s)" "count_at S = count_at (mgr s)" by (simp_all add: key_at_def count_at_def S fun_eq_iff)
  have d: "dues_of n S (worker_of s) = image_mset (dropped k) (dues_of n (mgr s) (worker_of s))"
    by (rule dropped_dues) (rule dropped_due [OF ka f])
  have al: "alive_at S = alive_at (mgr s)" by (simp add: fun_eq_iff alive_at_def S split: option.splits)
  have tab: "pending_sessions S = pending_sessions (mgr s)" "heard S = heard (mgr s)" by (simp_all add: S heard_def)
  have "peer_of S = (peer_of (mgr s))(k := (peer_of (mgr s) k)\<lparr>opened := None\<rparr>)"
    by (auto simp: peer_of_def fun_eq_iff al f tab)
  then have "life_of n (s\<lparr>mgr := S, hb := h\<rparr>) = (set_open k None ?e)\<lparr>dues := image_mset (dropped k) (dues ?e)\<rparr>"
    using d tab by (intro life_eqI) simp_all
  moreover have "opened (lives ?e k) = Some (is_alive_m y)" using p y by (simp add: peer_of_def)
  ultimately show ?thesis using l_drop [of ?e k] low by (simp add: simulated_def)
qed

lemma ahead_open:
  assumes "session_ok n s" and "(k, p) \<in> set (ahead (hb s))"
  shows "map_find (sessions (mgr s)) k = Some p" "settled n (mgr s) (worker_of s) p"
proof -
  have e: "(k, p) \<in> set (sessions (mgr s))" using assms by (auto simp: session_ok_def beat_ok_def)
  then show "map_find (sessions (mgr s)) k = Some p"
    using map_find_set [OF core_tables(1) [OF session_okD(1) [OF assms(1)]]] by blast
  show "settled n (mgr s) (worker_of s) p"
    by (rule open_settled) (use assms(1) e in \<open>auto simp: session_ok_def intro: image_eqI [where x = "(k, p)"]\<close>)
qed

lemma beat_simulated:
  assumes ok: "session_ok n s" and go: "heartbeat_piece (hb s) (mgr s) = Inr (h, S)"
  shows "simulated n s (s\<lparr>mgr := S, hb := h\<rparr>)"
proof -
  have c: "core_inv (mgr s)" by (rule session_okD(1) [OF ok])
  have so: "\<exists>y. session_at (mgr s) p = Some y \<and> session_of (mgr s) p = Inr y" if "settled n (mgr s) (worker_of s) p" for p
    using core_session_of [OF c, of p] that unfolding settled_def by blast
  show ?thesis
  proof (cases "hb s")
    case (HbSleep ds)
    then show ?thesis using go by (intro beat_same) (auto split: option.splits)
  next
    case (HbDec m ds)
    show ?thesis
    proof (cases m)
      case Nil
      then show ?thesis using go HbDec by (intro beat_same) auto
    next
      case (Cons e m')
      obtain k p where e: "e = (k, p)" by (cases e)
      have p: "settled n (mgr s) (worker_of s) p" using ahead_open(2) [OF ok, of k p] HbDec Cons e by simp
      then obtain y where y: "session_at (mgr s) p = Some y" "session_of (mgr s) p = Inr y" using so by blast
      let ?A = "set_alive p y (is_alive_m y - 1) (mgr s)"
      have "S = ?A" using go HbDec Cons e y(2) by simp
      then have "S = ?A\<lparr>disconnected_calls := disconnected_calls ?A\<rparr>" by simp
      then show ?thesis by (rule sim_aged [OF ok p y(1)])
    qed
  next
    case (HbTest k p m ds)
    have f: "map_find (sessions (mgr s)) k = Some p" and p: "settled n (mgr s) (worker_of s) p"
      using ahead_open [OF ok, of k p] HbTest by simp_all
    then obtain y where y: "session_at (mgr s) p = Some y" "session_of (mgr s) p = Inr y" using so by blast
    show ?thesis
    proof (cases "sint (is_alive_m y) < - 1")
      case True
      then obtain t where "map_erase (sessions (mgr s)) (k, p) = Inr t" "S = (mgr s)\<lparr>sessions := t\<rparr>"
        using go HbTest y(2) by auto
      then show ?thesis by (rule sim_dropped [OF ok f y(1) True])
    next
      case False
      then have "S = mgr s" using go HbTest y(2) by simp
      then show ?thesis by (intro beat_same) simp_all
    qed
  next
    case (HbWalk kept ps)
    show ?thesis
    proof (cases ps)
      case Nil
      then show ?thesis using go HbWalk by (intro beat_same) auto
    next
      case (Cons p ps')
      have p: "settled n (mgr s) (worker_of s) p"
        by (rule apart_settled [where h = "hb s"]) (use ok HbWalk Cons in \<open>auto simp: session_ok_def\<close>)
      then obtain y where y: "session_at (mgr s) p = Some y" "session_of (mgr s) p = Inr y" using so by blast
      let ?A = "set_alive p y (is_alive_m y - 1) (mgr s)"
      have "S = ?A\<lparr>disconnected_calls := (if is_alive_m y - 1 = - 3 then disconnected_calls ?A @ [p] else disconnected_calls ?A)\<rparr>"
        using go HbWalk Cons y(2) by (cases "is_alive_m y - 1 = - 3") (simp_all add: disconnect_def Let_def)
      then show ?thesis by (rule sim_aged [OF ok p y(1)])
    qed
  next
    case (HbDelete p kept ps)
    then have "p \<in> dom (session_at (mgr s))" using ok by (simp add: session_ok_def beat_ok_def)
    from core_delete [OF c this] show ?thesis using go HbDelete by simp
  qed
qed

lemma life_simulates:
  assumes ok: "session_ok n s" and step: "session_step n s t s'"
  shows "simulated n s s'"
  using step
proof cases
  case (arrive d succ bytes w)
  obtain N where N: "complete d (mgr s) = (mgr s)\<lparr>io := N\<rparr>" using complete_io by blast
  have "refers w = {}" using arrival_ok [OF arrive(6,5)] by simp
  moreover have "w \<noteq> AckSpawn p" "w \<noteq> DataSpawn b p" for b p using calculation by auto
  ultimately have "due_of (mgr s) w = {#}" by (cases w) simp_all
  then show ?thesis using sim_same [OF arrive(3), of "complete d (mgr s)" s w] arrive(1,4) N by simp
next
  case (work E w S)
  then show ?thesis using work_simulated [OF ok work(3,6)] by simp
next
  case (beat h S)
  then show ?thesis using beat_simulated [OF ok beat(4)] by simp
next
  case stop
  have "simulated n s (s\<lparr>mgr := (mgr s)\<lparr>have_to_stop := True\<rparr>, hb := hb s\<rparr>)" by (rule beat_same) simp_all
  then show ?thesis using stop(2) by simp
qed (simp_all add: simulated_def life_of_def)

subsection \<open>The refinement\<close>

text \<open>A manager with its port and its three handlers, once \<open>Run\<close> has started the threads.\<close>

definition running_manager ::
  "nat \<Rightarrow> bool \<Rightarrow> (nat \<Rightarrow> bool) \<Rightarrow> endpoint \<Rightarrow> nat \<Rightarrow> nat option \<Rightarrow> nat option \<Rightarrow> nat option \<Rightarrow> manager" where
  "running_manager h was assoc e n a b c = snd (Run (SetPacketHandler c (SetDisconnectHandler b (SetAcceptHandler a
     (SessionManager_ctor (Some h) was assoc e n (opool_init empty_mem))))))"

lemma running_eq:
  "running_manager h was assoc e n a b c = (SessionManager_ctor (Some h) was assoc e n (opool_init empty_mem))
     \<lparr>threads := n + 1, is_inited_all := 0x0111, ahandler := a, dhandler := b, phandler := c\<rparr>"
  by (simp add: running_manager_def Run_def SetPacketHandler_def SetDisconnectHandler_def SetAcceptHandler_def
      SessionManager_ctor_def)

lemma running_inv: "manager_inv (running_manager h was assoc e n a b c)"
  using manager_inv_init [OF mem_ok_empty, of h was assoc e n]
  by (simp add: running_eq manager_inv_def locks_free_def tables_ok_def entry_ok_def)

lemma running_life: "life_of n (session_start (running_manager h was assoc e n a b c)) = life_init"
  by (simp add: life_of_def session_start_def life_init_def running_eq SessionManager_ctor_def peer_of_def
      fun_eq_iff map_find_def dues_of_def heard_def)

interpretation life: refines "session_start (running_manager h was assoc e n a b c)" "session_step n" life_init life_step
    "life_of n" for h was assoc e n a b c
proof unfold_locales
  show "life_of n (session_start (running_manager h was assoc e n a b c)) = life_init" by (rule running_life)
next
  fix s t s'
  assume "reach (session_step n) (session_start (running_manager h was assoc e n a b c)) s" and step: "session_step n s t s'"
  then have "session_ok n s" using session_reach_ok [OF running_inv] by blast
  from life_simulates [OF this step] show "life_of n s' = life_of n s \<or> life_step (life_of n s) (life_of n s')"
    by (simp add: simulated_def)
qed

text \<open>What the specification alone implies: sessions are not counted for before they are open.\<close>

definition uncounted :: "life \<Rightarrow> bool" where
  "uncounted e \<longleftrightarrow> (\<forall>k. half_open (lives e k) = None \<or> half_open (lives e k) = Some 0) \<and>
     (\<forall>k a. Fresh k a \<in># dues e \<or> Opening k a \<in># dues e \<longrightarrow> a = 0)"

lemma uncounted_init: "uncounted life_init"
  by (simp add: uncounted_def life_init_def)

lemma owed_plain: "Fresh k a \<notin># owed x b \<and> Opening k a \<notin># owed x b"
  by (cases x) simp_all

lemma dropped_fresh: "Fresh j a = dropped k d \<longleftrightarrow> d = Fresh j a"
  by (cases d) auto

lemma dropped_opening: "Opening j a = dropped k d \<longleftrightarrow> d = Opening j a"
  by (cases d) auto

lemma uncounted_step: "uncounted e \<Longrightarrow> life_step e e' \<Longrightarrow> uncounted e'"
proof (rotate_tac 1, induction rule: life_step.induct)
  case (l_syn e k a D)
  then have "a = 0" by (auto simp: uncounted_def)
  then have "(case half_open (lives e k) of None \<Rightarrow> a | Some b \<Rightarrow> b) = 0"
    using l_syn(2) unfolding uncounted_def by (metis option.case_eq_if option.distinct(1) option.inject option.exhaust_sel)
  with l_syn show ?case by (auto simp: uncounted_def)
next
  case (l_ack e k a)
  then have "a = 0" unfolding uncounted_def by (metis option.distinct(1) option.inject)
  with l_ack show ?case by (auto simp: uncounted_def)
next
  case (l_drop e k a)
  have "Fresh j b \<in># image_mset (dropped k) (dues e) \<longleftrightarrow> Fresh j b \<in># dues e"
    "Opening j b \<in># image_mset (dropped k) (dues e) \<longleftrightarrow> Opening j b \<in># dues e" for j b
    by (simp_all add: image_iff dropped_fresh dropped_opening)
  with l_drop show ?case by (simp add: uncounted_def)
qed (auto simp: uncounted_def owed_plain)

subsection \<open>Properties\<close>

text \<open>
  C3. All threads together refine the life of sessions: from the start of a server with any number of workers,
  in any interleaving of them, the heartbeat thread and the destroying thread, each step is invisible or is
  one step of the specification (a SYN makes a new session, which becomes half open unless the peer
  is; an ACK takes it and opens the peer unless it is open; then the user is told; data and heartbeats
  that found the peer open count, unless the session was dropped in between, and data are delivered
  unless the count is below -1; aging lowers a count by one and drops only counts below -1).
\<close>

theorem threads_refine_life:
  assumes "reach (session_step n) (session_start (running_manager h was assoc e n a b c)) s"
  shows "rtranclp life_step life_init (life_of n s) \<and>
     (\<forall>t s'. session_step n s t s' \<longrightarrow> life_of n s' = life_of n s \<or> life_step (life_of n s) (life_of n s'))"
  using life.reach_view [OF assms] life.simulates [OF assms] by blast

theorem threads_refine_life_witness:
  "\<exists>s. session_step 2 (session_start (running_manager 1 False (\<lambda>_. True) demo_endpoint 2 None None None)) 2 s \<and>
     hb s = HbDec [] [] \<and> rtranclp life_step life_init (life_of 2 s)"
proof -
  let ?s0 = "session_start (running_manager 1 False (\<lambda>_. True) demo_endpoint 2 None None None)"
  have h: "heartbeat_piece (hb ?s0) (mgr ?s0) = Inr (HbDec [] [], (mgr ?s0)\<lparr>lock_sessions := held\<rparr>)"
    by (simp add: session_start_def running_eq SessionManager_ctor_def)
  have "session_step 2 ?s0 2 (?s0\<lparr>mgr := (mgr ?s0)\<lparr>lock_sessions := held\<rparr>, hb := HbDec [] []\<rparr>)"
    by (rule session_step.beat [OF _ h]) (simp add: session_start_def)
  moreover from this have "reach (session_step 2) ?s0 (?s0\<lparr>mgr := (mgr ?s0)\<lparr>lock_sessions := held\<rparr>, hb := HbDec [] []\<rparr>)"
    by (rule more [OF reach_refl])
  note threads_refine_life [OF this]
  ultimately show ?thesis by (intro exI conjI) (assumption, simp, blast)
qed

text \<open>
  C20. A session that waits for its ACK is left alone: whatever the threads do, its counter is zero, so neither
  data nor heartbeats nor aging have touched it, and no step but the erase for an ACK of its address
  takes it out of the table: without an ACK it stays for ever.
\<close>

theorem pending_uncounted:
  assumes "reach (session_step n) (session_start (running_manager h was assoc e n a b c)) s"
    and "map_find (pending_sessions (mgr s)) k = Some p"
  shows "(\<exists>x. session_at (mgr s) p = Some x \<and> is_alive_m x = 0) \<and>
     (\<forall>t s'. session_step n s t s' \<longrightarrow> (\<forall>q. worker_of s t \<noteq> AckErase k q) \<longrightarrow>
        map_find (pending_sessions (mgr s')) k = Some p)"
proof (rule conjI)
  have ok: "session_ok n s" by (rule session_reach_ok [OF running_inv assms(1)])
  have u: "uncounted (life_of n s)"
    by (rule life.view_invariant [OF assms(1)]) (rule uncounted_init, rule uncounted_step)
  obtain x where x: "session_at (mgr s) p = Some x"
    using entry_key(2) [OF session_okD(1) [OF ok] disjI2 [OF assms(2)]] by blast
  then have "half_open (lives (life_of n s) k) = Some (is_alive_m x)" using assms(2) by (simp add: peer_of_def)
  then show "\<exists>x. session_at (mgr s) p = Some x \<and> is_alive_m x = 0"
    using u x unfolding uncounted_def by (metis option.distinct(1) option.inject)
  show "\<forall>t s'. session_step n s t s' \<longrightarrow> (\<forall>q. worker_of s t \<noteq> AckErase k q) \<longrightarrow>
      map_find (pending_sessions (mgr s')) k = Some p"
    using pending_stays [OF ok _ assms(2)] by blast
qed

theorem pending_uncounted_witness:
  "\<exists>s p x. reach (session_step 1) (session_start (running_manager 1 False (\<lambda>_. True) demo_endpoint 1 None None None)) s \<and>
     map_find (pending_sessions (mgr s)) (key demo_endpoint) = Some p \<and>
     session_at (mgr s) p = Some x \<and> is_alive_m x = 0"
proof -
  define M where "M = running_manager 1 False (\<lambda>_. True) demo_endpoint 1 None None None"
  let ?syn = "short_bytes 2 @ short_bytes (- 1) @ replicate 508 0" and ?d = "ReadIo (short_bytes 2 @ short_bytes (- 1) @ replicate 508 0) demo_endpoint"
  have E: "is_block (fresh_block demo_env)" "thread demo_env = 0" "grants demo_env = (\<lambda>_ _. True)"
    using demo_serves by (simp_all add: serves_def demo_env_def)
  have sel: "socket_m M = Some demo_socket" "have_to_stop M = False" "io M = net_init" "session_pool M = opool_init empty_mem"
    "pending_sessions M = []" "lock_pending_sessions M = Spinlock"
    by (simp_all add: M_def running_eq SessionManager_ctor_def Socket_endpoint_iocp_def demo_socket_def)
  obtain sp where m: "ObjectPool_Malloc (\<lambda>_ _. True) session_size 0 (opool_init empty_mem) = Inr (Ptr 0 8, sp)"
    using demo_malloc by (auto simp: demo_sel)
  let ?s0 = "session_start M"
  let ?S1 = "M\<lparr>io := net_init\<lparr>posted := 1, read_io_live := 1\<rparr>\<rparr>"
  let ?t1 = "?s0\<lparr>mgr := ?S1, worker_of := (worker_of ?s0)(0 := Loop)\<rparr>"
  let ?s1 = "?t1\<lparr>mgr := ?S1, worker_of := (worker_of ?t1)(0 := Idle)\<rparr>"
  let ?s2 = "?s1\<lparr>mgr := complete ?d (mgr ?s1), worker_of := (worker_of ?s1)(0 := SynNew ?syn demo_endpoint)\<rparr>"
  let ?S3 = "(mgr ?s2)\<lparr>session_pool := sp, session_at := (session_at (mgr ?s2))(Ptr 0 8 \<mapsto> Session_ctor demo_endpoint)\<rparr>"
  let ?s3 = "?s2\<lparr>mgr := ?S3, worker_of := (worker_of ?s2)(0 := SynInsert ?syn (Ptr 0 8))\<rparr>"
  let ?S4 = "?S3\<lparr>pending_sessions := [(key demo_endpoint, Ptr 0 8)]\<rparr>"
  let ?s4 = "?s3\<lparr>mgr := ?S4, worker_of := (worker_of ?s3)(0 := SynSend ?syn (Ptr 0 8))\<rparr>"
  have g1: "worker_piece demo_env (worker_of ?s0 0) (mgr ?s0) = Inr (Loop, ?S1)"
    by (simp add: session_start_def recv_def sel Socket_Recv_def demo_socket_def net_init_def)
  have st0: "session_step 1 ?s0 0 ?t1"
    by (rule session_step.work [OF _ _ E(2) E(1) g1]) (simp_all add: session_start_def)
  have g2: "worker_piece demo_env (worker_of ?t1 0) (mgr ?t1) = Inr (Idle, ?S1)" by (simp add: sel)
  have st1: "session_step 1 ?t1 0 ?s1"
    by (rule session_step.work [OF _ _ E(2) E(1) g2]) (simp_all add: session_start_def)
  have a: "arrival True 6 ?d = Inr (SynNew ?syn demo_endpoint)" by (simp add: arrival_def read_header)
  have st2: "session_step 1 ?s1 0 ?s2"
    by (rule session_step.arrive [OF _ _ _ _ a])
      (simp_all add: session_start_def sel can_complete_def socket_buf_size_def)
  have g3: "worker_piece demo_env (worker_of ?s2 0) (mgr ?s2) = Inr (SynInsert ?syn (Ptr 0 8), ?S3)"
    using m E by (simp add: sel)
  have st3: "session_step 1 ?s2 0 ?s3"
    by (rule session_step.work [OF _ _ E(2) E(1) g3]) (simp_all add: session_start_def)
  have pl: "lock_pending_sessions ?S3 = Spinlock" by (simp add: sel complete_def)
  have g4: "worker_piece demo_env (worker_of ?s3 0) (mgr ?s3) = Inr (SynSend ?syn (Ptr 0 8), ?S4)"
    using pending_sections(2) [OF pl]
    by (simp add: session_of_def Session_GetEndpoint_def Session_ctor_def sel)
  have st4: "session_step 1 ?s3 0 ?s4"
    by (rule session_step.work [OF _ _ E(2) E(1) g4]) (simp_all add: session_start_def)
  have "reach (session_step 1) ?s0 ?s4"
    by (rule more [OF more [OF more [OF more [OF more [OF reach_refl st0] st1] st2] st3] st4])
  moreover have "map_find (pending_sessions (mgr ?s4)) (key demo_endpoint) = Some (Ptr 0 8)" by (simp add: map_find_def)
  ultimately show ?thesis unfolding M_def using pending_uncounted by blast
qed

end
