(* ===== verification/Buffer.thy ===== *)
theory Buffer
  imports Spinlock
begin

section \<open>Stream buffers (server/Buffer.h)\<close>

text \<open>
  A client has one buffer per direction: \<open>size_\<close> bytes, of which the first \<open>offset_\<close> are in use
  by a transfer.  \<open>Produce\<close> takes the lock and keeps it, \<open>Consume\<close> gives it back, so a buffer
  is idle or inside one pair of the two.  Pointers into the buffer (\<open>Read\<close>, \<open>GetBuffer\<close>) are
  indices here.  All counters are \<open>unsigned int\<close>; the assertion \<open>offset_ >= 0\<close> of \<open>Consume\<close> is
  therefore always true.
\<close>

record buffer =
  buf_bytes :: "byte list"      \<comment> \<open>\<open>buffer_\<close>\<close>
  buf_size :: u32
  buf_offset :: u32
  buf_head :: u32
  buf_lock :: spinlock

definition Init :: "u32 \<Rightarrow> buffer" where
  "Init sz = \<lparr>buf_bytes = replicate (unat sz) 0, buf_size = sz, buf_offset = 0, buf_head = 0,
     buf_lock = Spinlock\<rparr>"

text \<open>The destructor gives the bytes back; any access after it is out of bounds.\<close>

definition Buffer_dtor :: "buffer \<Rightarrow> buffer" where
  "Buffer_dtor B = B\<lparr>buf_bytes := []\<rparr>"

definition SetHead :: "u32 \<Rightarrow> buffer \<Rightarrow> buffer" where
  "SetHead offset B = B\<lparr>buf_head := offset\<rparr>"

definition Read :: "buffer \<Rightarrow> nat" where
  "Read B = unat (buf_head B)"

definition Consume :: "u32 \<Rightarrow> buffer \<Rightarrow> buffer res" where
  "Consume len B =
     rbind (copy_range (buf_bytes B) 0 (buf_bytes B) (unat (buf_offset B)) (unat (buf_size B - len))) (\<lambda>bs.
     let B1 = B\<lparr>buf_bytes := bs, buf_offset := buf_offset B - len, buf_head := 0\<rparr> in
     rbind (check (0 \<le> buf_offset B1)) (\<lambda>_.
     Inr (B1\<lparr>buf_lock := Unlock (buf_lock B1)\<rparr>)))"

definition Produce :: "u32 \<Rightarrow> buffer \<Rightarrow> buffer res" where
  "Produce len B = (case Lock (buf_lock B) of
     None \<Rightarrow> Inl NoReturn
   | Some l \<Rightarrow>
       let B1 = B\<lparr>buf_lock := l, buf_offset := buf_offset B + len\<rparr> in
       rbind (check (buf_offset B1 \<le> buf_size B1)) (\<lambda>_. Inr B1))"

definition GetRemained :: "buffer \<Rightarrow> u32" where
  "GetRemained B = buf_size B - buf_offset B"

definition GetBuffer :: "buffer \<Rightarrow> nat" where
  "GetBuffer B = unat (buf_offset B)"

subsection \<open>Idle and busy buffers\<close>

definition idle :: "buffer \<Rightarrow> bool" where
  "idle B \<longleftrightarrow> length (buf_bytes B) = unat (buf_size B) \<and> buf_offset B = 0 \<and> buf_head B = 0 \<and>
     buf_lock B = Spinlock"

definition busy :: "u32 \<Rightarrow> buffer \<Rightarrow> bool" where
  "busy n B \<longleftrightarrow> length (buf_bytes B) = unat (buf_size B) \<and> buf_offset B = n \<and> n \<le> buf_size B \<and>
     buf_head B = 0 \<and> buf_lock B = Spinlock\<lparr>lock_m := 1\<rparr>"

lemma Init_idle: "idle (Init sz)"
  by (simp add: idle_def Init_def)

lemma lock_of_free [srv_simps]:
  "Lock Spinlock = Some (Spinlock\<lparr>lock_m := 1\<rparr>)" "Unlock (Spinlock\<lparr>lock_m := 1\<rparr>) = Spinlock"
  "Lock (Spinlock\<lparr>lock_m := 1\<rparr>) = None"
  by (simp_all add: Lock_eq Unlock_def Spinlock_def)

lemma Produce_idle:
  assumes "idle B" and "n \<le> buf_size B"
  shows "Produce n B = Inr (B\<lparr>buf_lock := Spinlock\<lparr>lock_m := 1\<rparr>, buf_offset := n\<rparr>)"
    and "busy n (B\<lparr>buf_lock := Spinlock\<lparr>lock_m := 1\<rparr>, buf_offset := n\<rparr>)"
  using assms by (simp_all add: Produce_def idle_def busy_def srv_simps)

lemma Produce_too_much:
  "idle B \<Longrightarrow> buf_size B < n \<Longrightarrow> Produce n B = Inl AssertFailed"
  by (simp add: Produce_def idle_def srv_simps check_def not_le)

lemma Produce_busy: "busy n B \<Longrightarrow> Produce k B = Inl NoReturn"
  by (simp add: Produce_def busy_def srv_simps)

text \<open>What a whole pair leaves: the bytes behind the transfer, moved to the front.\<close>

definition shifted :: "nat \<Rightarrow> byte list \<Rightarrow> byte list" where
  "shifted n bs = drop n bs @ drop (length bs - n) bs"

lemma shifted_length: "n \<le> length bs \<Longrightarrow> length (shifted n bs) = length bs"
  by (simp add: shifted_def)

lemma Consume_all:
  assumes "busy n B"
  shows "Consume n B = Inr (B\<lparr>buf_bytes := shifted (unat n) (buf_bytes B), buf_offset := 0, buf_head := 0,
     buf_lock := Spinlock\<rparr>)"
proof -
  have n: "unat n \<le> unat (buf_size B)" using assms by (simp add: busy_def word_le_nat_alt)
  have d: "unat (buf_size B - n) = unat (buf_size B) - unat n"
    using assms by (simp add: busy_def unat_sub)
  have "copy_range (buf_bytes B) 0 (buf_bytes B) (unat n) (unat (buf_size B - n)) =
      Inr (shifted (unat n) (buf_bytes B))"
    using assms n d by (subst copy_range_ok) (auto simp: busy_def shifted_def)
  then show ?thesis using assms by (simp add: Consume_def busy_def srv_simps Let_def)
qed

lemma Consume_less:
  assumes "busy n B" and "k < n"
  shows "Consume k B = Inl BadAccess"
proof -
  have s: "length (buf_bytes B) = unat (buf_size B)" "buf_offset B = n" "n \<le> buf_size B"
    using assms(1) by (simp_all add: busy_def)
  have kn: "unat k < unat n" using assms(2) by (simp add: word_less_nat_alt)
  have n: "unat n \<le> unat (buf_size B)" using s(3) by (simp add: word_le_nat_alt)
  have "k \<le> buf_size B" using kn n by (simp add: word_le_nat_alt)
  then have "unat (buf_size B - k) = unat (buf_size B) - unat k" by (rule unat_sub)
  then have "\<not> unat n + unat (buf_size B - k) \<le> length (buf_bytes B)" using kn n s(1) by simp
  then show ?thesis using s(2) by (simp add: Consume_def copy_range_def)
qed

subsection \<open>Properties\<close>

text \<open>
  A transfer of \<open>n\<close> bytes that fits an idle buffer: \<open>Produce n\<close> returns, and consuming exactly
  \<open>n\<close> makes the buffer idle again, with the bytes behind the transfer moved to the front;
  consuming fewer reads behind the end of the buffer; and in between a second \<open>Produce\<close> does
  not return.
\<close>

theorem buffer_cycle:
  assumes "idle B" and "n \<le> buf_size B"
  shows "\<exists>B1 B2. Produce n B = Inr B1 \<and> Consume n B1 = Inr B2 \<and> idle B2 \<and>
     buf_bytes B2 = drop (unat n) (buf_bytes B) @ drop (unat (buf_size B) - unat n) (buf_bytes B) \<and>
     (\<forall>k<n. Consume k B1 = Inl BadAccess) \<and> (\<forall>k. Produce k B1 = Inl NoReturn)"
proof -
  let ?B1 = "B\<lparr>buf_lock := Spinlock\<lparr>lock_m := 1\<rparr>, buf_offset := n\<rparr>"
  note p = Produce_idle [OF assms]
  have l: "length (buf_bytes B) = unat (buf_size B)" using assms(1) by (simp add: idle_def)
  have n: "unat n \<le> length (buf_bytes B)" using assms(2) l by (simp add: word_le_nat_alt)
  let ?B2 = "?B1\<lparr>buf_bytes := shifted (unat n) (buf_bytes B), buf_offset := 0, buf_head := 0,
     buf_lock := Spinlock\<rparr>"
  have c: "Consume n ?B1 = Inr ?B2" using Consume_all [OF p(2)] by simp
  have "idle ?B2" using l n by (simp add: idle_def shifted_length)
  moreover have "buf_bytes ?B2 = drop (unat n) (buf_bytes B) @ drop (unat (buf_size B) - unat n) (buf_bytes B)"
    using l by (simp add: shifted_def)
  ultimately show ?thesis using p(1) c Consume_less [OF p(2)] Produce_busy [OF p(2)] by blast
qed

theorem buffer_cycle_witness:
  "\<exists>B1 B2. Produce 100 (Init 512) = Inr B1 \<and> Consume 100 B1 = Inr B2 \<and> idle B2 \<and>
     Consume 99 B1 = Inl BadAccess \<and> Produce 1 B1 = Inl NoReturn"
  using buffer_cycle [OF Init_idle, of 100 512] by (fastforce simp: Init_def)

end
