(* ===== verification/Client.thy ===== *)
theory Client
  imports Buffer Memory
begin

section \<open>Clients and I/O contexts (server/Client.h, Client.cpp, IoContext.h, IoContext.cpp)\<close>

text \<open>
  A \<open>Client\<close> is a socket with two buffers.  Every asynchronous operation carries an
  \<open>IoContext\<close>, which names the client and the kind of the operation and comes back with the
  completion.  Clients and contexts are chunks of object pools; here they are objects at
  pointers, and the pointer a pool hands out for a new one is an argument.  \<open>world\<close> is what all
  threads share.  What the system answers is an argument too: whether \<open>WSARecv\<close>, \<open>WSASend\<close>,
  \<open>DisconnectEx\<close> and \<open>AcceptEx\<close> accept an operation (at once or as pending).  \<open>in_flight\<close> lists the contexts the system has.
\<close>

datatype io_type =
  IO_NONE | IO_ACCEPT | IO_RECV_READY | IO_RECV | IO_SEND | IO_CONNECT | IO_DISCONNECT

record io_context =
  client_of :: ptr
  io_type_m :: io_type
  wsabuf_len :: u32
  wsabuf_buf :: "nat option"      \<comment> \<open>an index into the client's buffer\<close>
  received_m :: u32

text \<open>\<open>received_\<close> is not initialised.\<close>

definition IoContext :: "u32 \<Rightarrow> ptr \<Rightarrow> io_type \<Rightarrow> io_context" where
  "IoContext junk client ty =
     \<lparr>client_of = client, io_type_m = ty, wsabuf_len = 0, wsabuf_buf = None, received_m = junk\<rparr>"

record client =
  client_socket :: nat
  send_buffer :: buffer
  recv_buffer :: buffer
  no_delay :: bool                 \<comment> \<open>\<open>TCP_NODELAY\<close> of the socket\<close>
  linger :: "nat option"           \<comment> \<open>\<open>SO_LINGER\<close> of the socket\<close>

definition SEND_BUFFER_SIZE :: u32 where
  "SEND_BUFFER_SIZE = 512"

definition RECV_BUFFER_SIZE :: u32 where
  "RECV_BUFFER_SIZE = 512"

definition Client_ctor :: "nat \<Rightarrow> client" where
  "Client_ctor junk = \<lparr>client_socket = junk, send_buffer = Init SEND_BUFFER_SIZE,
     recv_buffer = Init RECV_BUFFER_SIZE, no_delay = False, linger = None\<rparr>"

definition Client_dtor :: "client \<Rightarrow> client" where
  "Client_dtor x = x\<lparr>send_buffer := Buffer_dtor (send_buffer x), recv_buffer := Buffer_dtor (recv_buffer x)\<rparr>"

record world =
  clients_at :: "ptr \<Rightarrow> client option"
  contexts :: "ptr \<Rightarrow> io_context option"
  in_flight :: "ptr list"
  calls :: "(nat \<times> ptr) list"      \<comment> \<open>calls of the user's handlers, with the context\<close>
  clients_list :: "ptr list"       \<comment> \<open>\<open>clients_\<close>\<close>
  limit_m :: u32
  current_m :: u32
  manager_lock :: spinlock         \<comment> \<open>\<open>ClientManager::lock_\<close>\<close>
  packet_header_size :: u16

definition client_ref :: "world \<Rightarrow> ptr \<Rightarrow> client res" where
  "client_ref W c = (if c = Null then Inl NullDeref
     else case clients_at W c of None \<Rightarrow> Inl BadAccess | Some x \<Rightarrow> Inr x)"

definition context_ref :: "world \<Rightarrow> ptr \<Rightarrow> io_context res" where
  "context_ref W p = (if p = Null then Inl NullDeref
     else case contexts W p of None \<Rightarrow> Inl BadAccess | Some x \<Rightarrow> Inr x)"

definition set_client :: "ptr \<Rightarrow> client \<Rightarrow> world \<Rightarrow> world" where
  "set_client c x W = W\<lparr>clients_at := (clients_at W)(c \<mapsto> x)\<rparr>"

text \<open>\<open>io_context_pool_->Construct\<close> and \<open>Destroy\<close>.\<close>

definition new_context :: "ptr \<Rightarrow> io_context \<Rightarrow> world \<Rightarrow> world" where
  "new_context p x W = W\<lparr>contexts := (contexts W)(p \<mapsto> x)\<rparr>"

definition destroy_context :: "ptr \<Rightarrow> world \<Rightarrow> world res" where
  "destroy_context p W = rbind (context_ref W p) (\<lambda>_. Inr (W\<lparr>contexts := (contexts W)(p := None)\<rparr>))"

text \<open>Handing an operation to the system; a refused one keeps its context, which nobody frees.\<close>

definition submit :: "bool \<Rightarrow> ptr \<Rightarrow> world \<Rightarrow> bool \<times> world" where
  "submit accepted p W = (if accepted then (True, W\<lparr>in_flight := in_flight W @ [p]\<rparr>) else (False, W))"

subsection \<open>The members of Client\<close>

definition PrepareReceive :: "ptr \<Rightarrow> bool \<Rightarrow> ptr \<Rightarrow> world \<Rightarrow> (bool \<times> world) res" where
  "PrepareReceive p ok c W =
     (let W1 = new_context p (IoContext 0 c IO_RECV_READY) W in
      rbind (client_ref W1 c) (\<lambda>_. Inr (submit ok p W1)))"

definition Receive :: "ptr \<Rightarrow> bool \<Rightarrow> ptr \<Rightarrow> world \<Rightarrow> (bool \<times> world) res" where
  "Receive p ok c W =
     rbind (client_ref W c) (\<lambda>x.
     let ctx = (IoContext 0 c IO_RECV)\<lparr>wsabuf_len := GetRemained (recv_buffer x),
                 wsabuf_buf := Some (GetBuffer (recv_buffer x))\<rparr> in
     Inr (submit ok p (new_context p ctx W)))"

text \<open>
  The size of a packet as \<open>PostReceive\<close> reads it: one \<open>char\<close> at the head, sign-extended to
  \<open>UWORD\<close>, though \<open>PacketHeader::size_\<close> has two bytes.
\<close>

definition packet_size :: "buffer \<Rightarrow> u16 res" where
  "packet_size B = (if Read B < length (buf_bytes B) then Inr (scast (buf_bytes B ! Read B)) else Inl BadAccess)"

definition call_required :: "nat option \<Rightarrow> ptr \<Rightarrow> world \<Rightarrow> world res" where
  "call_required h ctx W = (case h of
     None \<Rightarrow> Inl Uncaught
   | Some f \<Rightarrow> Inr (W\<lparr>calls := calls W @ [(f, ctx)]\<rparr>))"

definition PostReceive :: "u32 \<Rightarrow> nat option \<Rightarrow> ptr \<Rightarrow> ptr \<Rightarrow> world \<Rightarrow> (bool \<times> world) res" where
  "PostReceive received_bytes handler ctx c W =
     rbind (client_ref W c) (\<lambda>x.
     rbind (packet_size (recv_buffer x)) (\<lambda>sz.
     if received_bytes \<ge> ucast sz - buf_offset (recv_buffer x) then
       let n = ucast (packet_header_size W) + ucast sz in
       rbind (Produce n (recv_buffer x)) (\<lambda>B1.
       rbind (call_required handler ctx (set_client c (x\<lparr>recv_buffer := B1\<rparr>) W)) (\<lambda>W1.
       rbind (client_ref W1 c) (\<lambda>x1.
       rbind (Consume n (recv_buffer x1)) (\<lambda>B2.
       Inr (True, set_client c (x1\<lparr>recv_buffer := B2\<rparr>) W1)))))
     else Inr (True, W)))"

definition Send :: "byte list \<Rightarrow> u32 \<Rightarrow> ptr \<Rightarrow> bool \<Rightarrow> ptr \<Rightarrow> world \<Rightarrow> (bool \<times> world) res" where
  "Send data sz p ok c W =
     rbind (client_ref W c) (\<lambda>x.
     let B = send_buffer x in
     rbind (copy_range (buf_bytes B) (GetBuffer B) data 0 (unat sz)) (\<lambda>bs.
     let B1 = B\<lparr>buf_bytes := bs\<rparr>;
         ctx = (IoContext 0 c IO_SEND)\<lparr>wsabuf_len := sz, wsabuf_buf := Some (GetBuffer B1)\<rparr> in
     rbind (Produce sz B1) (\<lambda>B2.
     Inr (submit ok p (new_context p ctx (set_client c (x\<lparr>send_buffer := B2\<rparr>) W))))))"

definition PostSend :: "u32 \<Rightarrow> ptr \<Rightarrow> world \<Rightarrow> (bool \<times> world) res" where
  "PostSend sent_bytes c W =
     rbind (client_ref W c) (\<lambda>x.
     rbind (Consume sent_bytes (send_buffer x)) (\<lambda>B.
     Inr (True, set_client c (x\<lparr>send_buffer := B\<rparr>) W)))"

text \<open>The result of \<open>DisconnectEx\<close> is not looked at.\<close>

definition Disconnect :: "ptr \<Rightarrow> bool \<Rightarrow> ptr \<Rightarrow> world \<Rightarrow> (bool \<times> world) res" where
  "Disconnect p ok c W =
     (let W1 = new_context p (IoContext 0 c IO_DISCONNECT) W in
      rbind (client_ref W1 c) (\<lambda>_. Inr (False, snd (submit ok p W1))))"

subsection \<open>What PostReceive does with an idle buffer\<close>

lemma ref_simps [srv_simps]:
  "c \<noteq> Null \<Longrightarrow> clients_at W c = Some x \<Longrightarrow> client_ref W c = Inr x"
  "client_ref (set_client c y W) c = (if c = Null then Inl NullDeref else Inr y)"
  "client_ref (W\<lparr>calls := ks\<rparr>) c = client_ref W c"
  by (simp_all add: client_ref_def set_client_def)

lemma packet_size_idle:
  "idle B \<Longrightarrow> 0 < buf_size B \<Longrightarrow> packet_size B = Inr (scast (buf_bytes B ! 0))"
  by (simp add: packet_size_def Read_def idle_def word_less_nat_alt)

text \<open>The client after a handled packet.\<close>

definition handled :: "u32 \<Rightarrow> client \<Rightarrow> client" where
  "handled n x = x\<lparr>recv_buffer := (recv_buffer x)\<lparr>buf_bytes := shifted (unat n) (buf_bytes (recv_buffer x)),
     buf_offset := 0, buf_head := 0, buf_lock := Spinlock\<rparr>\<rparr>"

lemma handled_idle: "idle (recv_buffer x) \<Longrightarrow> n \<le> buf_size (recv_buffer x) \<Longrightarrow> idle (recv_buffer (handled n x))"
  by (simp add: handled_def idle_def shifted_length word_le_nat_alt)

lemma PostReceive_idle:
  assumes c: "c \<noteq> Null" "clients_at W c = Some x" and i: "idle (recv_buffer x)" "0 < buf_size (recv_buffer x)"
    and sz: "(sz :: u16) = scast (buf_bytes (recv_buffer x) ! 0)" and n: "n = ucast (packet_header_size W) + ucast sz"
  shows "\<not> ucast sz \<le> received \<Longrightarrow> PostReceive received h ctx c W = Inr (True, W)"
    and "ucast sz \<le> received \<Longrightarrow> buf_size (recv_buffer x) < n \<Longrightarrow>
      PostReceive received h ctx c W = Inl AssertFailed"
    and "ucast sz \<le> received \<Longrightarrow> n \<le> buf_size (recv_buffer x) \<Longrightarrow>
      PostReceive received (Some f) ctx c W =
        Inr (True, (set_client c (handled n x) W)\<lparr>calls := calls W @ [(f, ctx)]\<rparr>)"
proof -
  have o: "buf_offset (recv_buffer x) = 0" using i(1) by (simp add: idle_def)
  note ps = packet_size_idle [OF i, folded sz] and cr = ref_simps(1) [OF c]
  show "PostReceive received h ctx c W = Inr (True, W)" if "\<not> ucast sz \<le> received"
    using that ps cr o by (simp add: PostReceive_def)
  show "PostReceive received h ctx c W = Inl AssertFailed"
    if "ucast sz \<le> received" "buf_size (recv_buffer x) < n"
    using that ps cr o Produce_too_much [OF i(1) that(2)] by (simp add: PostReceive_def Let_def n)
  show "PostReceive received (Some f) ctx c W =
      Inr (True, (set_client c (handled n x) W)\<lparr>calls := calls W @ [(f, ctx)]\<rparr>)"
    if "ucast sz \<le> received" "n \<le> buf_size (recv_buffer x)"
  proof -
    note p = Produce_idle [OF i(1) that(2)]
    let ?B1 = "(recv_buffer x)\<lparr>buf_lock := Spinlock\<lparr>lock_m := 1\<rparr>, buf_offset := n\<rparr>"
    have "Consume n ?B1 = Inr (recv_buffer (handled n x))"
      using Consume_all [OF p(2)] by (simp add: handled_def)
    then show ?thesis
      using that(1) ps cr o p(1) c(1)
      by (simp add: PostReceive_def Let_def n [symmetric] call_required_def srv_simps)
        (simp add: set_client_def handled_def)
  qed
qed

end
