(* ===== verification/ClientManager.thy ===== *)
theory ClientManager
  imports Client
begin

section \<open>The client list (server/ClientManager.h, ClientManager.cpp)\<close>

text \<open>
  \<open>current_\<close> counts the clients that exist, connected or waiting for a connection; \<open>clients_\<close>
  lists the connected ones, under a lock.  \<open>p\<close> is the chunk the client pool hands out.
\<close>

definition NewClient :: "ptr \<Rightarrow> nat \<Rightarrow> world \<Rightarrow> ptr \<times> world" where
  "NewClient p junk W =
     (if current_m W < limit_m W
      then (p, W\<lparr>clients_at := (clients_at W)(p \<mapsto> Client_ctor junk), current_m := current_m W + 1\<rparr>)
      else (Null, W))"

definition DeleteClient :: "ptr \<Rightarrow> world \<Rightarrow> world res" where
  "DeleteClient c W = rbind (client_ref W c) (\<lambda>_.
     Inr (W\<lparr>clients_at := (clients_at W)(c := None), current_m := current_m W - 1\<rparr>))"

definition AddClient :: "ptr \<Rightarrow> world \<Rightarrow> world res" where
  "AddClient c W = (case ExclusiveLockHolder (manager_lock W) of
     None \<Rightarrow> Inl NoReturn
   | Some l \<Rightarrow> Inr (W\<lparr>clients_list := clients_list W @ [c], manager_lock := ExclusiveLockHolder_dtor l\<rparr>))"

definition RemoveClient :: "ptr \<Rightarrow> world \<Rightarrow> world res" where
  "RemoveClient c W = (case ExclusiveLockHolder (manager_lock W) of
     None \<Rightarrow> Inl NoReturn
   | Some l \<Rightarrow>
       let W1 = W\<lparr>manager_lock := l\<rparr> in
       rbind (if c \<in> set (clients_list W1)
              then rbind (DeleteClient c W1) (\<lambda>W2. Inr (W2\<lparr>clients_list := remove1 c (clients_list W2)\<rparr>))
              else Inr W1)
         (\<lambda>W3. Inr (W3\<lparr>manager_lock := ExclusiveLockHolder_dtor (manager_lock W3)\<rparr>)))"

definition world_init :: world where
  "world_init = \<lparr>clients_at = (\<lambda>_. None), contexts = (\<lambda>_. None), in_flight = [], calls = [],
     clients_list = [], limit_m = 10000, current_m = 0, manager_lock = Spinlock, packet_header_size = 2\<rparr>"

subsection \<open>The invariant\<close>

definition manager_ok :: "world \<Rightarrow> bool" where
  "manager_ok W \<longleftrightarrow> finite (dom (clients_at W)) \<and> clients_at W Null = None \<and>
     unat (current_m W) = card (dom (clients_at W)) \<and> current_m W \<le> limit_m W \<and>
     distinct (clients_list W) \<and> set (clients_list W) \<subseteq> dom (clients_at W) \<and>
     manager_lock W = Spinlock"

lemma manager_ok_init: "manager_ok world_init"
  by (simp add: manager_ok_def world_init_def)

text \<open>What the invariant does not look at.\<close>

lemma manager_ok_cong:
  assumes "manager_ok W" and "dom (clients_at W') = dom (clients_at W)" and "current_m W' = current_m W"
    and "limit_m W' = limit_m W" and "clients_list W' = clients_list W" and "manager_lock W' = manager_lock W"
  shows "manager_ok W'"
proof -
  have "clients_at W' Null = None" using assms(1,2) by (auto simp: manager_ok_def)
  then show ?thesis using assms by (simp add: manager_ok_def)
qed

lemma lock_cycle:
  "ExclusiveLockHolder Spinlock = Some (Spinlock\<lparr>lock_m := 1\<rparr>)"
  "ExclusiveLockHolder_dtor (Spinlock\<lparr>lock_m := 1\<rparr>) = Spinlock"
  by (simp_all add: ExclusiveLockHolder_def ExclusiveLockHolder_dtor_def srv_simps)

lemma NewClient_ok:
  assumes inv: "manager_ok W" and p: "p \<noteq> Null" "clients_at W p = None"
  shows "manager_ok (snd (NewClient p junk W))"
    and "fst (NewClient p junk W) = (if current_m W < limit_m W then p else Null)"
proof -
  show "manager_ok (snd (NewClient p junk W))"
  proof (cases "current_m W < limit_m W")
    case True
    have "current_m W + 1 \<le> limit_m W" using True by (rule inc_le)
    moreover have "unat (current_m W) < unat (limit_m W)" "unat (limit_m W) < 2 ^ 32"
      using True unsigned_less [of "limit_m W", where ?'a = nat] by (simp_all add: word_less_nat_alt)
    then have "unat (current_m W + 1) = unat (current_m W) + 1" by (simp add: unat_word_ariths)
    moreover have "p \<notin> dom (clients_at W)" "p \<notin> set (clients_list W)" using p inv by (auto simp: manager_ok_def)
    ultimately show ?thesis using inv p True
      by (auto simp: manager_ok_def NewClient_def simp del: dom_eq_empty_conv)
  next
    case False
    then show ?thesis using inv by (simp add: NewClient_def)
  qed
  show "fst (NewClient p junk W) = (if current_m W < limit_m W then p else Null)"
    by (simp add: NewClient_def)
qed

lemma AddClient_eq:
  "manager_ok W \<Longrightarrow> AddClient c W = Inr (W\<lparr>clients_list := clients_list W @ [c]\<rparr>)"
  by (simp add: AddClient_def manager_ok_def lock_cycle)

lemma RemoveClient_eq:
  assumes "manager_ok W"
  shows "RemoveClient c W = Inr (if c \<in> set (clients_list W)
     then W\<lparr>clients_at := (clients_at W)(c := None), current_m := current_m W - 1,
       clients_list := remove1 c (clients_list W)\<rparr> else W)"
proof (cases "c \<in> set (clients_list W)")
  case True
  then have "clients_at W c \<noteq> None" "c \<noteq> Null" using assms by (auto simp: manager_ok_def)
  then show ?thesis using True assms
    by (auto simp: RemoveClient_def manager_ok_def lock_cycle DeleteClient_def client_ref_def)
next
  case False
  then show ?thesis using assms by (simp add: RemoveClient_def manager_ok_def lock_cycle)
qed

lemma RemoveClient_ok:
  assumes inv: "manager_ok W" and r: "RemoveClient c W = Inr W'"
  shows "manager_ok W'"
proof (cases "c \<in> set (clients_list W)")
  case True
  then have c: "c \<in> dom (clients_at W)" and fin: "finite (dom (clients_at W))"
    using inv by (auto simp: manager_ok_def)
  have W': "W' = W\<lparr>clients_at := (clients_at W)(c := None), current_m := current_m W - 1,
       clients_list := remove1 c (clients_list W)\<rparr>"
    using RemoveClient_eq [OF inv, of c] True r by simp
  have card: "card (dom (clients_at W)) = Suc (card (dom (clients_at W) - {c}))"
    by (rule card.remove [OF fin c])
  then have pos: "1 \<le> current_m W" using inv by (simp add: manager_ok_def word_le_nat_alt)
  then have u: "unat (current_m W - 1) = unat (current_m W) - 1" by (simp add: unat_sub)
  have "current_m W - 1 \<le> limit_m W" using inv u unfolding manager_ok_def word_le_nat_alt by linarith
  moreover have "dom (clients_at W') = dom (clients_at W) - {c}" by (simp add: W')
  ultimately show ?thesis using inv u card
    by (auto simp: manager_ok_def W' set_remove1_eq)
next
  case False
  then show ?thesis using RemoveClient_eq [OF inv, of c] inv r by simp
qed

end
