(* ===== verification/StreamServer.thy ===== *)
theory StreamServer
  imports ClientManager ThreadPool
begin

section \<open>The stream server (server/Server.h, Server.cpp, Server.inl)\<close>

text \<open>
  The server keeps the user's handlers and its configuration; its static members, its client
  manager and the contexts are in \<open>world\<close>.  \<open>IocpWork\<close> is the loop that runs on the threads of
  the pool; \<open>iocp_round\<close> is one round of it, for one completion.  The threads work on a copy of
  the server made when the task was enqueued, so the record is an argument.
\<close>

record server =
  timeout_handler :: "nat option"
  pre_accept_handler :: "nat option"
  pre_receive_handler :: "nat option"
  pre_send_handler :: "nat option"
  pre_disconnect_handler :: "nat option"
  post_accept_handler :: "nat option"
  post_receive_handler :: "nat option"
  post_send_handler :: "nat option"
  post_disconnect_handler :: "nat option"
  listen_port :: u16
  worker_amount :: u16
  iocp_worker_amount :: u16

definition DEFAULT_WORKER_AMOUNT :: u16 where
  "DEFAULT_WORKER_AMOUNT = 16"

definition DEFAULT_IOCP_WORKER_AMOUNT :: u16 where
  "DEFAULT_IOCP_WORKER_AMOUNT = 14"

definition DEFAULT_PACKET_HEADER_SIZE :: u16 where
  "DEFAULT_PACKET_HEADER_SIZE = 2"

definition Server_ctor :: "u16 \<Rightarrow> server" where
  "Server_ctor junk = \<lparr>timeout_handler = None, pre_accept_handler = None, pre_receive_handler = None,
     pre_send_handler = None, pre_disconnect_handler = None, post_accept_handler = None,
     post_receive_handler = None, post_send_handler = None, post_disconnect_handler = None,
     listen_port = junk, worker_amount = DEFAULT_WORKER_AMOUNT,
     iocp_worker_amount = DEFAULT_IOCP_WORKER_AMOUNT\<rparr>"

subsection \<open>Configuration\<close>

definition SetListenPort :: "u16 \<Rightarrow> server \<Rightarrow> server" where
  "SetListenPort port S = S\<lparr>listen_port := port\<rparr>"

definition SetPacketHeaderSize :: "u16 \<Rightarrow> world \<Rightarrow> world" where
  "SetPacketHeaderSize sz W = W\<lparr>packet_header_size := sz\<rparr>"

definition SetWorkerAmount :: "u16 \<Rightarrow> server \<Rightarrow> server" where
  "SetWorkerAmount amount S = S\<lparr>worker_amount := amount\<rparr>"

definition SetIocpWorkerAmount :: "u16 \<Rightarrow> server \<Rightarrow> server" where
  "SetIocpWorkerAmount amount S = S\<lparr>iocp_worker_amount := amount\<rparr>"

definition SetTimeoutHandler :: "nat option \<Rightarrow> server \<Rightarrow> server" where
  "SetTimeoutHandler h S = S\<lparr>timeout_handler := h\<rparr>"

definition SetPreAcceptHandler :: "nat option \<Rightarrow> server \<Rightarrow> server" where
  "SetPreAcceptHandler h S = S\<lparr>pre_accept_handler := h\<rparr>"

definition SetPreReceiveHandler :: "nat option \<Rightarrow> server \<Rightarrow> server" where
  "SetPreReceiveHandler h S = S\<lparr>pre_receive_handler := h\<rparr>"

definition SetPreSendHandler :: "nat option \<Rightarrow> server \<Rightarrow> server" where
  "SetPreSendHandler h S = S\<lparr>pre_send_handler := h\<rparr>"

definition SetPreDisconnectHandler :: "nat option \<Rightarrow> server \<Rightarrow> server" where
  "SetPreDisconnectHandler h S = S\<lparr>pre_disconnect_handler := h\<rparr>"

definition SetPostAcceptHandler :: "nat option \<Rightarrow> server \<Rightarrow> server" where
  "SetPostAcceptHandler h S = S\<lparr>post_accept_handler := h\<rparr>"

definition SetPostReceiveHandler :: "nat option \<Rightarrow> server \<Rightarrow> server" where
  "SetPostReceiveHandler h S = S\<lparr>post_receive_handler := h\<rparr>"

definition SetPostSendHandler :: "nat option \<Rightarrow> server \<Rightarrow> server" where
  "SetPostSendHandler h S = S\<lparr>post_send_handler := h\<rparr>"

definition SetPostDisconnectHandler :: "nat option \<Rightarrow> server \<Rightarrow> server" where
  "SetPostDisconnectHandler h S = S\<lparr>post_disconnect_handler := h\<rparr>"

definition GetAllClient :: "world \<Rightarrow> ptr list" where
  "GetAllClient W = clients_list W"

text \<open>The handlers, each called only if it is set.\<close>

definition call_handler :: "nat option \<Rightarrow> ptr \<Rightarrow> world \<Rightarrow> world" where
  "call_handler h ctx W = (case h of None \<Rightarrow> W | Some f \<Rightarrow> W\<lparr>calls := calls W @ [(f, ctx)]\<rparr>)"

definition TimeoutHandler :: "server \<Rightarrow> ptr \<Rightarrow> world \<Rightarrow> world" where
  "TimeoutHandler S = call_handler (timeout_handler S)"

definition PreAcceptHandler :: "server \<Rightarrow> ptr \<Rightarrow> world \<Rightarrow> world" where
  "PreAcceptHandler S = call_handler (pre_accept_handler S)"

definition PreReceiveHandler :: "server \<Rightarrow> ptr \<Rightarrow> world \<Rightarrow> world" where
  "PreReceiveHandler S = call_handler (pre_receive_handler S)"

definition PreSendHandler :: "server \<Rightarrow> ptr \<Rightarrow> world \<Rightarrow> world" where
  "PreSendHandler S = call_handler (pre_send_handler S)"

definition PreDisconnectHandler :: "server \<Rightarrow> ptr \<Rightarrow> world \<Rightarrow> world" where
  "PreDisconnectHandler S = call_handler (pre_disconnect_handler S)"

definition PostAcceptHandler :: "server \<Rightarrow> ptr \<Rightarrow> world \<Rightarrow> world" where
  "PostAcceptHandler S = call_handler (post_accept_handler S)"

definition PostReceiveHandler :: "server \<Rightarrow> ptr \<Rightarrow> world \<Rightarrow> world" where
  "PostReceiveHandler S = call_handler (post_receive_handler S)"

definition PostSendHandler :: "server \<Rightarrow> ptr \<Rightarrow> world \<Rightarrow> world" where
  "PostSendHandler S = call_handler (post_send_handler S)"

definition PostDisconnectHandler :: "server \<Rightarrow> ptr \<Rightarrow> world \<Rightarrow> world" where
  "PostDisconnectHandler S = call_handler (post_disconnect_handler S)"

text \<open>\<open>TCP_NODELAY\<close> is set to 0, which leaves it off; lingering is set to 0 seconds.\<close>

definition SetFastSocketOption :: "ptr \<Rightarrow> world \<Rightarrow> world res" where
  "SetFastSocketOption c W = rbind (client_ref W c) (\<lambda>x.
     Inr (set_client c (x\<lparr>no_delay := False, linger := Some 0\<rparr>) W))"

subsection \<open>A round of IocpWork\<close>

text \<open>
  What the round gets from outside: the chunks for up to two new contexts and whether the
  system accepts the receive and the disconnect it may post.
\<close>

record round_env =
  new_ctx :: ptr
  disconnect_ctx :: ptr
  wsa_ok :: bool
  disconnect_ok :: bool

definition io_switch :: "server \<Rightarrow> round_env \<Rightarrow> u32 \<Rightarrow> ptr \<Rightarrow> io_type \<Rightarrow> ptr \<Rightarrow> world \<Rightarrow> (bool \<times> world) res" where
  "io_switch S E received ctx ty c W = (case ty of
     IO_ACCEPT \<Rightarrow>
       rbind (SetFastSocketOption c (PreAcceptHandler S ctx W)) (\<lambda>W1.
       rbind (AddClient c W1) (\<lambda>W2.
       rbind (PrepareReceive (new_ctx E) (wsa_ok E) c W2) (\<lambda>(r, W3).
       Inr (r, PostAcceptHandler S ctx W3))))
   | IO_RECV_READY \<Rightarrow> Receive (new_ctx E) (wsa_ok E) c W
   | IO_RECV \<Rightarrow>
       rbind (PostReceive received (post_receive_handler S) ctx c W) (\<lambda>(_, W1).
       PrepareReceive (new_ctx E) (wsa_ok E) c W1)
   | IO_SEND \<Rightarrow>
       rbind (PostSend received c (PreSendHandler S ctx W)) (\<lambda>(r, W1).
       Inr (r, PostSendHandler S ctx W1))
   | IO_DISCONNECT \<Rightarrow>
       rbind (RemoveClient c (PreDisconnectHandler S ctx W)) (\<lambda>W1.
       Inr (True, PostDisconnectHandler S ctx W1))
   | _ \<Rightarrow> Inl Uncaught)"

definition io_handle :: "server \<Rightarrow> round_env \<Rightarrow> u32 \<Rightarrow> ptr \<Rightarrow> world \<Rightarrow> world res" where
  "io_handle S E received ctx W =
     rbind (context_ref W ctx) (\<lambda>x.
     let W1 = W\<lparr>contexts := (contexts W)(ctx \<mapsto> x\<lparr>received_m := received\<rparr>)\<rparr>; c = client_of x in
     rbind (io_switch S E received ctx (io_type_m x) c W1) (\<lambda>(io_result, W2).
     rbind (if \<not> io_result then rbind (Disconnect (disconnect_ctx E) (disconnect_ok E) c W2) (\<lambda>(_, W3). Inr W3) else Inr W2)
       (destroy_context ctx)))"

definition iocp_round :: "server \<Rightarrow> round_env \<Rightarrow> bool \<Rightarrow> u32 \<Rightarrow> ptr \<Rightarrow> bool \<Rightarrow> world \<Rightarrow> world res" where
  "iocp_round S E gqcs received ctx timed_out W =
     (if \<not> gqcs \<or> received = 0 then
        if ctx = Null \<and> timed_out then Inr (TimeoutHandler S ctx W)
        else rbind (context_ref W ctx) (\<lambda>x.
          if io_type_m x = IO_RECV \<or> io_type_m x = IO_SEND then
            rbind (Disconnect (disconnect_ctx E) (disconnect_ok E) (client_of x) W) (\<lambda>(_, W1). destroy_context ctx W1)
          else io_handle S E received ctx W)
      else io_handle S E received ctx W)"

fun IocpWork :: "server \<Rightarrow> (round_env \<times> bool \<times> u32 \<times> ptr \<times> bool) list \<Rightarrow> world \<Rightarrow> world res" where
  "IocpWork S [] W = Inr W"
| "IocpWork S ((E, gqcs, received, ctx, timed_out) # cs) W =
     rbind (iocp_round S E gqcs received ctx timed_out W) (IocpWork S cs)"

subsection \<open>Accepting: a round of Run, and Init\<close>

text \<open>A round of the loop of \<open>Run\<close>; \<open>p\<close> and \<open>ctx\<close> are the chunks for the client and the context.
  The result of \<open>AcceptEx\<close> (\<open>accept_ok\<close>) is not looked at.\<close>

definition accept_round :: "ptr \<Rightarrow> ptr \<Rightarrow> nat \<Rightarrow> nat \<Rightarrow> bool \<Rightarrow> bool \<Rightarrow> world \<Rightarrow> world res" where
  "accept_round p ctx junk sock associated accept_ok W =
     (let (new_client, W1) = NewClient p junk W in
      if new_client \<noteq> Null then
        rbind (client_ref W1 new_client) (\<lambda>x.
        let W2 = set_client new_client (x\<lparr>client_socket := sock\<rparr>) W1;
            W3 = new_context ctx (IoContext 0 new_client IO_ACCEPT) W2 in
        rbind (check associated) (\<lambda>_. Inr (snd (submit accept_ok ctx W3))))
      else Inr W1)"

text \<open>The loop of \<open>Run\<close> over the rounds it has made so far; \<open>listen\<close> is asserted first.\<close>

fun accept_loop :: "(ptr \<times> ptr \<times> nat \<times> nat \<times> bool \<times> bool) list \<Rightarrow> world \<Rightarrow> world res" where
  "accept_loop [] W = Inr W"
| "accept_loop ((p, ctx, junk, sock, associated, accept_ok) # rs) W =
     rbind (accept_round p ctx junk sock associated accept_ok W) (accept_loop rs)"

definition Accept_Run :: "bool \<Rightarrow> (ptr \<times> ptr \<times> nat \<times> nat \<times> bool \<times> bool) list \<Rightarrow> world \<Rightarrow> world res" where
  "Accept_Run listening rounds W = rbind (check listening) (\<lambda>_. accept_loop rounds W)"

text \<open>
  \<open>Init\<close>: each step of the socket set-up is asserted.  The pool's tasks are copies of the
  server as it is now.
\<close>

record winsock =
  wsa_started :: bool
  socket_made :: bool
  bound :: bool
  functions_found :: "bool list"
  port_made :: bool
  port_associated :: bool

fun enqueue_copies :: "nat \<Rightarrow> server \<Rightarrow> server thread_pool \<Rightarrow> server thread_pool res" where
  "enqueue_copies 0 S P = Inr P"
| "enqueue_copies (Suc n) S P = (case Enqueue S P of
     None \<Rightarrow> Inl NoReturn
   | Some (Some EnqueueOnStopped, P') \<Rightarrow> Inl Uncaught
   | Some (None, P') \<Rightarrow> enqueue_copies n S P')"

definition Server_Init ::
  "winsock \<Rightarrow> server \<Rightarrow> server thread_pool option \<Rightarrow> world \<Rightarrow> (server thread_pool \<times> world) res" where
  "Server_Init ws S pool W0 =
     (let W = SetPacketHeaderSize DEFAULT_PACKET_HEADER_SIZE (world_init\<lparr>contexts := contexts W0, in_flight := in_flight W0, calls := calls W0\<rparr>) in
      rbind (check (wsa_started ws)) (\<lambda>_.
      rbind (check (socket_made ws)) (\<lambda>_.
      rbind (check (bound ws)) (\<lambda>_.
      rbind (check (list_all id (functions_found ws))) (\<lambda>_.
      rbind (check (port_made ws)) (\<lambda>_.
      rbind (check (port_associated ws)) (\<lambda>_.
      rbind (case pool of
               None \<Rightarrow> enqueue_copies (unat (iocp_worker_amount S)) S (ThreadPool_ctor (unat (worker_amount S)))
             | Some P \<Rightarrow> Inr P)
        (\<lambda>P. Inr (P, W)))))))))"

text \<open>\<open>AddWork\<close> passes its arguments on to the pool.\<close>

definition AddWork :: "server \<Rightarrow> server thread_pool \<Rightarrow> (enqueue_error option \<times> server thread_pool) option" where
  "AddWork task pool = Enqueue task pool"

subsection \<open>What Init hands to the workers\<close>

lemma enqueue_copies_eq:
  "spinlock_m P = Spinlock \<Longrightarrow> \<not> stop_m P \<Longrightarrow>
   enqueue_copies n S P = Inr (P\<lparr>tasks_m := tasks_m P @ replicate n S\<rparr>)"
proof (induction n arbitrary: P)
  case (Suc n)
  then show ?case by (simp add: Enqueue_eq replicate_append_same)
qed simp

lemma Server_Init_ok:
  assumes "wsa_started ws" "socket_made ws" "bound ws" "list_all id (functions_found ws)" "port_made ws"
    "port_associated ws"
  shows "\<exists>P W'. Server_Init ws S None W = Inr (P, W') \<and>
     tasks_m P = replicate (unat (iocp_worker_amount S)) S \<and> workers_m P = unat (worker_amount S) \<and>
     manager_ok W' \<and> packet_header_size W' = 2"
  using assms
  by (auto simp: Server_Init_def Let_def enqueue_copies_eq ThreadPool_ctor_def SetPacketHeaderSize_def
      DEFAULT_PACKET_HEADER_SIZE_def manager_ok_def world_init_def)

end
