(* ===== verification/StreamServerSpec.thy ===== *)
theory StreamServerSpec
  imports StreamServer
begin

section \<open>What the stream server does\<close>

text \<open>
  The invariant of the client list under rounds of \<open>IocpWork\<close> and of \<open>Run\<close>, the life of a
  context, what happens to received bytes, and the ways the code goes wrong.
\<close>

subsection \<open>Frame facts\<close>

lemma context_sel [simp]:
  "clients_at (new_context p x W) = clients_at W" "contexts (new_context p x W) = (contexts W)(p \<mapsto> x)"
  "current_m (new_context p x W) = current_m W" "limit_m (new_context p x W) = limit_m W"
  "clients_list (new_context p x W) = clients_list W" "manager_lock (new_context p x W) = manager_lock W"
  "calls (new_context p x W) = calls W" "in_flight (new_context p x W) = in_flight W"
  "packet_header_size (new_context p x W) = packet_header_size W"
  by (simp_all add: new_context_def)

lemma submit_sel [simp]:
  "fst (submit ok p W) = ok" "clients_at (snd (submit ok p W)) = clients_at W"
  "contexts (snd (submit ok p W)) = contexts W" "current_m (snd (submit ok p W)) = current_m W"
  "limit_m (snd (submit ok p W)) = limit_m W" "clients_list (snd (submit ok p W)) = clients_list W"
  "manager_lock (snd (submit ok p W)) = manager_lock W" "calls (snd (submit ok p W)) = calls W"
  "in_flight (snd (submit ok p W)) = in_flight W @ (if ok then [p] else [])"
  by (simp_all add: submit_def)

lemma set_client_sel [simp]:
  "clients_at (set_client c x W) = (clients_at W)(c \<mapsto> x)" "contexts (set_client c x W) = contexts W"
  "current_m (set_client c x W) = current_m W" "limit_m (set_client c x W) = limit_m W"
  "clients_list (set_client c x W) = clients_list W" "manager_lock (set_client c x W) = manager_lock W"
  "calls (set_client c x W) = calls W" "in_flight (set_client c x W) = in_flight W"
  "packet_header_size (set_client c x W) = packet_header_size W"
  by (simp_all add: set_client_def)

lemma call_sel [simp]:
  "clients_at (call_handler h ctx W) = clients_at W" "contexts (call_handler h ctx W) = contexts W"
  "current_m (call_handler h ctx W) = current_m W" "limit_m (call_handler h ctx W) = limit_m W"
  "clients_list (call_handler h ctx W) = clients_list W" "manager_lock (call_handler h ctx W) = manager_lock W"
  "in_flight (call_handler h ctx W) = in_flight W"
  by (simp_all add: call_handler_def split: option.splits)

lemmas handler_defs = TimeoutHandler_def PreAcceptHandler_def PreReceiveHandler_def PreSendHandler_def
  PreDisconnectHandler_def PostAcceptHandler_def PostReceiveHandler_def PostSendHandler_def
  PostDisconnectHandler_def

lemma client_ref_cong: "clients_at W' = clients_at W \<Longrightarrow> client_ref W' c = client_ref W c"
  by (simp add: client_ref_def)

lemma client_ref_some [simp]: "c \<noteq> Null \<Longrightarrow> clients_at W c = Some x \<Longrightarrow> client_ref W c = Inr x"
  by (simp add: client_ref_def)

lemma context_ref_some [simp]: "p \<noteq> Null \<Longrightarrow> contexts W p = Some x \<Longrightarrow> context_ref W p = Inr x"
  by (simp add: context_ref_def)

text \<open>The operations that only post something.\<close>

lemma Disconnect_eq:
  "c \<noteq> Null \<Longrightarrow> clients_at W c = Some y \<Longrightarrow>
   Disconnect p ok c W = Inr (False, snd (submit ok p (new_context p (IoContext 0 c IO_DISCONNECT) W)))"
  by (simp add: Disconnect_def Let_def)

lemma PrepareReceive_eq:
  "c \<noteq> Null \<Longrightarrow> clients_at W c = Some y \<Longrightarrow>
   PrepareReceive p ok c W = Inr (submit ok p (new_context p (IoContext 0 c IO_RECV_READY) W))"
  by (simp add: PrepareReceive_def Let_def)

lemma manager_ok_set: "manager_ok W \<Longrightarrow> clients_at W c = Some y \<Longrightarrow> manager_ok (set_client c x W)"
  by (rule manager_ok_cong) auto

text \<open>The end of a round: disconnect if the operation failed, then free the context.\<close>

definition finish :: "round_env \<Rightarrow> ptr \<Rightarrow> ptr \<Rightarrow> bool \<times> world \<Rightarrow> world res" where
  "finish E ctx c rW = (case rW of (io_result, W2) \<Rightarrow>
     rbind (if \<not> io_result then rbind (Disconnect (disconnect_ctx E) (disconnect_ok E) c W2) (\<lambda>(_, W3). Inr W3) else Inr W2)
       (destroy_context ctx))"

lemma finish_ok:
  assumes "manager_ok W" and "contexts W ctx = Some x" and "ctx \<noteq> Null" and "disconnect_ctx E \<noteq> ctx"
    and "r \<or> (c \<noteq> Null \<and> clients_at W c \<noteq> None)"
  shows "\<exists>W'. finish E ctx c (r, W) = Inr W' \<and> manager_ok W' \<and> contexts W' ctx = None \<and> calls W' = calls W \<and>
     clients_at W' = clients_at W \<and> clients_list W' = clients_list W \<and> current_m W' = current_m W \<and>
     in_flight W' = in_flight W @ (if r \<or> \<not> disconnect_ok E then [] else [disconnect_ctx E])"
proof (cases r)
  case True
  have "manager_ok (W\<lparr>contexts := (contexts W)(ctx := None)\<rparr>)"
    by (rule manager_ok_cong [OF assms(1)]) simp_all
  then show ?thesis using True assms(2,3) by (simp add: finish_def destroy_context_def)
next
  case False
  then obtain y where y: "c \<noteq> Null" "clients_at W c = Some y" using assms(5) by auto
  let ?W = "snd (submit (disconnect_ok E) (disconnect_ctx E) (new_context (disconnect_ctx E) (IoContext 0 c IO_DISCONNECT) W))"
  have "manager_ok (?W\<lparr>contexts := (contexts ?W)(ctx := None)\<rparr>)"
    by (rule manager_ok_cong [OF assms(1)]) simp_all
  then show ?thesis using False assms(2,3,4) Disconnect_eq [OF y]
    by (simp add: finish_def destroy_context_def)
qed

lemma io_handle_eq:
  assumes "contexts W ctx = Some x" and "ctx \<noteq> Null"
  shows "io_handle S E received ctx W =
     rbind (io_switch S E received ctx (io_type_m x) (client_of x)
        (W\<lparr>contexts := (contexts W)(ctx \<mapsto> x\<lparr>received_m := received\<rparr>)\<rparr>))
       (finish E ctx (client_of x))"
  using assms unfolding io_handle_def Let_def finish_def by simp

subsection \<open>The branches of the switch\<close>

text \<open>What a branch leaves for the end of the round.\<close>

definition branch_ok :: "ptr \<Rightarrow> ptr \<Rightarrow> (bool \<times> world) res \<Rightarrow> bool" where
  "branch_ok ctx c res \<longleftrightarrow> (\<exists>r W2. res = Inr (r, W2) \<and> manager_ok W2 \<and> contexts W2 ctx \<noteq> None \<and>
     (r \<or> clients_at W2 c \<noteq> None))"

lemma AddClient_ok:
  assumes "manager_ok W" and "clients_at W c = Some y" and "c \<notin> set (clients_list W)"
  shows "AddClient c W = Inr (W\<lparr>clients_list := clients_list W @ [c]\<rparr>)"
    and "manager_ok (W\<lparr>clients_list := clients_list W @ [c]\<rparr>)"
  using assms AddClient_eq [OF assms(1)] by (auto simp: manager_ok_def)

lemma manager_ok_post:
  "manager_ok W \<Longrightarrow> manager_ok (snd (submit ok p (new_context p x W)))"
  by (rule manager_ok_cong) simp_all

lemma manager_ok_call: "manager_ok W \<Longrightarrow> manager_ok (call_handler h ctx W)"
  by (rule manager_ok_cong) simp_all

lemma branch_submit:
  assumes "manager_ok W" and "contexts W ctx \<noteq> None" and "p \<noteq> ctx" and "clients_at W c \<noteq> None"
  shows "branch_ok ctx c (Inr (submit ok p (new_context p x W)))"
proof -
  let ?W = "new_context p x W"
  have "submit ok p ?W = (ok, snd (submit ok p ?W))" by (rule prod_eqI) simp_all
  moreover have "manager_ok (snd (submit ok p ?W))" by (rule manager_ok_post [OF assms(1)])
  moreover have "contexts (snd (submit ok p ?W)) ctx \<noteq> None" "clients_at (snd (submit ok p ?W)) c \<noteq> None"
    using assms(2-4) by simp_all
  ultimately show ?thesis unfolding branch_ok_def by blast
qed

lemma accept_branch:
  assumes inv: "manager_ok W" and c: "c \<noteq> Null" "clients_at W c = Some y" "c \<notin> set (clients_list W)"
    and ctx: "contexts W ctx \<noteq> None" "new_ctx E \<noteq> ctx"
  shows "branch_ok ctx c (io_switch S E n ctx IO_ACCEPT c W)"
proof -
  let ?W0 = "call_handler (pre_accept_handler S) ctx W"
  let ?W1 = "set_client c (y\<lparr>no_delay := False, linger := Some 0\<rparr>) ?W0"
  let ?W2 = "?W1\<lparr>clients_list := clients_list ?W1 @ [c]\<rparr>"
  have "manager_ok ?W1" by (rule manager_ok_set [OF manager_ok_call [OF inv]]) (simp add: c)
  from AddClient_ok [OF this, of c] c(3) have add: "AddClient c ?W1 = Inr ?W2" "manager_ok ?W2" by simp_all
  have "SetFastSocketOption c ?W0 = Inr ?W1" using c by (simp add: SetFastSocketOption_def)
  moreover have "PrepareReceive (new_ctx E) (wsa_ok E) c ?W2 =
      Inr (submit (wsa_ok E) (new_ctx E) (new_context (new_ctx E) (IoContext 0 c IO_RECV_READY) ?W2))"
    using c(1) by (rule PrepareReceive_eq) simp
  moreover note manager_ok_post [OF add(2), of "wsa_ok E" "new_ctx E" "IoContext 0 c IO_RECV_READY"]
  ultimately show ?thesis using add(1) ctx manager_ok_call
    unfolding branch_ok_def io_switch_def handler_defs
    by (auto simp: split_beta)
qed

lemma ready_branch:
  assumes inv: "manager_ok W" and c: "c \<noteq> Null" "clients_at W c = Some y"
    and ctx: "contexts W ctx \<noteq> None" "new_ctx E \<noteq> ctx"
  shows "branch_ok ctx c (io_switch S E n ctx IO_RECV_READY c W)"
  using branch_submit [OF inv ctx(1,2)] c by (simp add: io_switch_def Receive_def Let_def)

lemma disconnect_branch:
  assumes inv: "manager_ok W" and ctx: "contexts W ctx \<noteq> None"
  shows "branch_ok ctx c (io_switch S E n ctx IO_DISCONNECT c W)"
proof -
  let ?W0 = "call_handler (pre_disconnect_handler S) ctx W"
  have i: "manager_ok ?W0" by (rule manager_ok_call [OF inv])
  obtain W1 where r: "RemoveClient c ?W0 = Inr W1" using RemoveClient_eq [OF i] by blast
  have "contexts W1 = contexts W" using r RemoveClient_eq [OF i, of c] by (auto split: if_splits)
  then show ?thesis using r ctx manager_ok_call [OF RemoveClient_ok [OF i r]]
    unfolding branch_ok_def io_switch_def handler_defs by (simp add: exI [of _ True])
qed

lemma io_handle_ok:
  assumes ctx: "contexts W ctx = Some x" "ctx \<noteq> Null" "disconnect_ctx E \<noteq> ctx"
    and b: "branch_ok ctx (client_of x) (io_switch S E n ctx (io_type_m x) (client_of x)
      (W\<lparr>contexts := (contexts W)(ctx \<mapsto> x\<lparr>received_m := n\<rparr>)\<rparr>))"
  shows "\<exists>W'. io_handle S E n ctx W = Inr W' \<and> manager_ok W' \<and> contexts W' ctx = None"
proof -
  obtain r W2 where sw: "io_switch S E n ctx (io_type_m x) (client_of x)
      (W\<lparr>contexts := (contexts W)(ctx \<mapsto> x\<lparr>received_m := n\<rparr>)\<rparr>) = Inr (r, W2)"
    and ok: "manager_ok W2" "contexts W2 ctx \<noteq> None" "r \<or> clients_at W2 (client_of x) \<noteq> None"
    using b by (auto simp: branch_ok_def)
  then obtain x2 where x2: "contexts W2 ctx = Some x2" by auto
  have "clients_at W2 Null = None" using ok(1) by (simp add: manager_ok_def)
  then have "r \<or> client_of x \<noteq> Null \<and> clients_at W2 (client_of x) \<noteq> None" using ok(3) by metis
  from finish_ok [OF ok(1) x2 ctx(2,3) this] show ?thesis
    using io_handle_eq [OF ctx(1,2), of S E n] sw by auto
qed

lemma manager_ok_ctx: "manager_ok W \<Longrightarrow> manager_ok (W\<lparr>contexts := f\<rparr>)"
  by (rule manager_ok_cong) simp_all

subsection \<open>Accepting and receiving\<close>

lemma accept_round_ok:
  assumes inv: "manager_ok W" and p: "p \<noteq> Null" "clients_at W p = None" and room: "current_m W < limit_m W"
  shows "\<exists>W'. accept_round p ctx junk sock True accept_ok W = Inr W' \<and> manager_ok W' \<and>
     clients_at W' p = Some ((Client_ctor junk)\<lparr>client_socket := sock\<rparr>) \<and> p \<notin> set (clients_list W') \<and>
     contexts W' = (contexts W)(ctx \<mapsto> IoContext 0 p IO_ACCEPT) \<and> in_flight W' = in_flight W @ (if accept_ok then [ctx] else []) \<and>
     current_m W' = current_m W + 1 \<and> calls W' = calls W"
proof -
  let ?W1 = "W\<lparr>clients_at := (clients_at W)(p \<mapsto> Client_ctor junk), current_m := current_m W + 1\<rparr>"
  let ?W2 = "set_client p ((Client_ctor junk)\<lparr>client_socket := sock\<rparr>) ?W1"
  have n: "NewClient p junk W = (p, ?W1)" using room by (simp add: NewClient_def)
  have "manager_ok ?W1" using NewClient_ok(1) [OF inv p, of junk] n by simp
  then have "manager_ok ?W2" by (rule manager_ok_set) simp
  then have "manager_ok (snd (submit accept_ok ctx (new_context ctx (IoContext 0 p IO_ACCEPT) ?W2)))"
    by (rule manager_ok_post)
  moreover have "p \<notin> set (clients_list W)" using inv p(2) by (auto simp: manager_ok_def)
  ultimately show ?thesis using p(1) n by (simp add: accept_round_def Let_def)
qed

text \<open>\<open>PostReceive\<close> on an idle buffer: whether the packet counts as complete, and the client after it.\<close>

definition counts_complete :: "u32 \<Rightarrow> client \<Rightarrow> bool" where
  "counts_complete received y \<longleftrightarrow> ucast (scast (buf_bytes (recv_buffer y) ! 0) :: u16) \<le> received"

definition transfer :: "u16 \<Rightarrow> client \<Rightarrow> u32" where
  "transfer hdr y = ucast hdr + ucast (scast (buf_bytes (recv_buffer y) ! 0) :: u16)"

text \<open>The chunks of the client pool for a run of accepts: none is null or in use, no two are the same.\<close>

definition fresh_clients :: "world \<Rightarrow> (ptr \<times> ptr \<times> nat \<times> nat \<times> bool \<times> bool) list \<Rightarrow> bool" where
  "fresh_clients W rs \<longleftrightarrow> distinct (map fst rs) \<and> Null \<notin> set (map fst rs) \<and>
     set (map fst rs) \<inter> dom (clients_at W) = {} \<and> (\<forall>(p, ctx, junk, sock, associated, accept_ok)\<in>set rs. associated)"

lemma accept_round_count:
  assumes inv: "manager_ok W" and p: "p \<noteq> Null" "clients_at W p = None"
  shows "\<exists>W'. accept_round p ctx junk sock True accept_ok W = Inr W' \<and> manager_ok W' \<and> limit_m W' = limit_m W \<and>
     dom (clients_at W') \<subseteq> insert p (dom (clients_at W)) \<and> clients_list W' = clients_list W \<and>
     unat (current_m W') = min (unat (limit_m W)) (unat (current_m W) + 1)"
proof (cases "current_m W < limit_m W")
  case True
  obtain W' where W': "accept_round p ctx junk sock True accept_ok W = Inr W'" "manager_ok W'" "current_m W' = current_m W + 1"
    using accept_round_ok [OF inv p True, of ctx junk sock accept_ok] by auto
  have "limit_m W' = limit_m W" "dom (clients_at W') \<subseteq> insert p (dom (clients_at W))"
    "clients_list W' = clients_list W"
    using W'(1) True p(1) by (auto simp: accept_round_def NewClient_def check_def)
  moreover have "unat (current_m W) < unat (limit_m W)" "unat (limit_m W) < 2 ^ 32"
    using True unsigned_less [of "limit_m W", where ?'a = nat] by (simp_all add: word_less_nat_alt)
  then have "unat (current_m W + 1) = unat (current_m W) + 1" by (simp add: unat_word_ariths)
  ultimately show ?thesis using W' \<open>unat (current_m W) < unat (limit_m W)\<close> by auto
next
  case False
  have "unat (current_m W) \<le> unat (limit_m W)" "unat (limit_m W) \<le> unat (current_m W)"
    using inv False by (simp_all add: manager_ok_def word_le_nat_alt word_less_nat_alt)
  then show ?thesis using inv False by (auto simp: accept_round_def NewClient_def)
qed

lemma accept_loop_count:
  assumes "manager_ok W" and "fresh_clients W rs"
  shows "\<exists>W'. accept_loop rs W = Inr W' \<and> manager_ok W' \<and> clients_list W' = clients_list W \<and>
     unat (current_m W') = min (unat (limit_m W)) (unat (current_m W) + length rs)"
  using assms
proof (induction rs arbitrary: W)
  case Nil
  then have "unat (current_m W) \<le> unat (limit_m W)" by (simp add: manager_ok_def word_le_nat_alt)
  then show ?case using Nil by simp
next
  case (Cons r rs)
  obtain p ctx junk sock accept_ok where r: "r = (p, ctx, junk, sock, True, accept_ok)"
    using Cons.prems(2) by (cases r) (auto simp: fresh_clients_def)
  have p: "p \<noteq> Null" "clients_at W p = None" using Cons.prems(2) by (auto simp: fresh_clients_def r)
  obtain W1 where W1: "accept_round p ctx junk sock True accept_ok W = Inr W1" "manager_ok W1" "limit_m W1 = limit_m W"
    "dom (clients_at W1) \<subseteq> insert p (dom (clients_at W))" "clients_list W1 = clients_list W"
    "unat (current_m W1) = min (unat (limit_m W)) (unat (current_m W) + 1)"
    using accept_round_count [OF Cons.prems(1) p] by blast
  have f: "distinct (map fst rs)" "Null \<notin> set (map fst rs)" "p \<notin> set (map fst rs)"
    "set (map fst rs) \<inter> dom (clients_at W) = {}" "\<forall>(p, ctx, junk, sock, associated, accept_ok)\<in>set rs. associated"
    using Cons.prems(2) unfolding fresh_clients_def r by simp_all
  have "set (map fst rs) \<inter> dom (clients_at W1) = {}" using f(3,4) W1(4) by blast
  then have "fresh_clients W1 rs" using f by (simp add: fresh_clients_def)
  from Cons.IH [OF W1(2) this] obtain W' where "accept_loop rs W1 = Inr W'" "manager_ok W'"
    "clients_list W' = clients_list W1" "unat (current_m W') = min (unat (limit_m W1)) (unat (current_m W1) + length rs)"
    by blast
  then show ?case using W1 by (simp add: r)
qed

lemma PostReceive_cases:
  assumes c: "c \<noteq> Null" "clients_at W c = Some y" and i: "idle (recv_buffer y)" "0 < buf_size (recv_buffer y)"
    and fits: "transfer (packet_header_size W) y \<le> buf_size (recv_buffer y)"
  shows "PostReceive received (Some f) ctx c W = Inr (True, if counts_complete received y
     then (set_client c (handled (transfer (packet_header_size W) y) y) W)\<lparr>calls := calls W @ [(f, ctx)]\<rparr>
     else W)"
  using PostReceive_idle(1,3) [OF c i refl refl] fits by (simp add: counts_complete_def transfer_def)

lemma recv_branch:
  assumes inv: "manager_ok W" and c: "c \<noteq> Null" "clients_at W c = Some y"
    and i: "idle (recv_buffer y)" "0 < buf_size (recv_buffer y)"
    and fits: "transfer (packet_header_size W) y \<le> buf_size (recv_buffer y)"
    and h: "post_receive_handler S = Some f" and ok: "wsa_ok E" and ctx: "contexts W ctx = Some x" "new_ctx E \<noteq> ctx"
  shows "\<exists>W2 y2. io_switch S E n ctx IO_RECV c W = Inr (True, W2) \<and> manager_ok W2 \<and> contexts W2 ctx = Some x \<and>
     clients_at W2 c = Some y2 \<and> idle (recv_buffer y2) \<and> in_flight W2 = in_flight W @ [new_ctx E] \<and>
     calls W2 = calls W @ (if counts_complete n y then [(f, ctx)] else [])"
proof -
  let ?y = "if counts_complete n y then handled (transfer (packet_header_size W) y) y else y"
  let ?W1 = "if counts_complete n y
     then (set_client c (handled (transfer (packet_header_size W) y) y) W)\<lparr>calls := calls W @ [(f, ctx)]\<rparr> else W"
  have "manager_ok ?W1" by (rule manager_ok_cong [OF inv]) (auto simp: c)
  note post = manager_ok_post [OF this, of True "new_ctx E" "IoContext 0 c IO_RECV_READY"]
  have at: "clients_at ?W1 c = Some ?y" using c(2) by simp
  have idl: "idle (recv_buffer ?y)" using handled_idle [OF i(1) fits] i(1) by simp
  have "io_switch S E n ctx IO_RECV c W =
      Inr (submit True (new_ctx E) (new_context (new_ctx E) (IoContext 0 c IO_RECV_READY) ?W1))"
    using PostReceive_cases [OF c i fits, of n f ctx] PrepareReceive_eq [OF c(1) at] h ok by (simp add: io_switch_def)
  moreover have "submit True p V = (True, snd (submit True p V))" for p V by (simp add: submit_def)
  ultimately have "io_switch S E n ctx IO_RECV c W =
      Inr (True, snd (submit True (new_ctx E) (new_context (new_ctx E) (IoContext 0 c IO_RECV_READY) ?W1)))" by metis
  then show ?thesis using post at idl ctx
    by (intro exI [of _ "snd (submit True (new_ctx E) (new_context (new_ctx E) (IoContext 0 c IO_RECV_READY) ?W1))"]
        exI [of _ ?y]) simp
qed

lemma unat_widen: "unat (ucast (w :: u16) :: u32) = unat w"
proof -
  have "unat w < 2 ^ 16" using unsigned_less [of w, where ?'a = nat] by simp
  then show ?thesis unfolding unsigned_ucast_eq by (simp add: take_bit_nat_eq_self)
qed

text \<open>A \<open>char\<close> of 128 or more, sign-extended to 16 bits, is at least \<open>0xFF80\<close>.\<close>

lemma signed_char_large:
  assumes "128 \<le> (b :: byte)" and "n \<le> (512 :: u32)"
  shows "\<not> ucast (scast b :: u16) \<le> n"
proof -
  have u: "uint b = int (unat b)" by (rule uint_nat)
  have "128 \<le> unat b" using assms(1) by (simp add: word_le_nat_alt)
  moreover have lt: "unat b < 256" using unsigned_less [of b, where ?'a = nat] by simp
  ultimately have r: "128 \<le> uint b" "uint b < 256" using u by simp_all
  have "sint b = signed_take_bit 7 (uint b)" by (simp add: sint_uint)
  also have "\<dots> = signed_take_bit 7 (uint b - 2 ^ 8)"
    unfolding signed_take_bit_eq_iff_take_bit_eq by (simp add: take_bit_eq_mod)
  also have "\<dots> = uint b - 2 ^ 8" by (rule signed_take_bit_int_eq_self) (use r in simp_all)
  finally have s: "sint b = uint b - 256" by simp
  have "uint (scast b :: u16) = sint b mod 2 ^ LENGTH(16)" unfolding scast_eq by (rule uint_word_of_int)
  also have "\<dots> = (sint b + 2 ^ 16) mod 2 ^ 16" by (simp add: mod_add_self2)
  also have "\<dots> = sint b + 2 ^ 16" by (rule mod_pos_pos_trivial) (use s r in simp_all)
  finally have "int (unat (scast b :: u16)) = uint b - 256 + 65536" using s by (simp add: uint_nat)
  then have "512 < unat (scast b :: u16)" using r by linarith
  then have "512 < unat (ucast (scast b :: u16) :: u32)" by (simp only: unat_widen)
  moreover have "unat n \<le> 512" using assms(2) by (simp add: word_le_nat_alt)
  ultimately show ?thesis by (simp add: word_le_nat_alt)
qed

text \<open>A connected client, for witnesses.\<close>

definition connected :: "byte list \<Rightarrow> io_type \<Rightarrow> world" where
  "connected bs ty = world_init\<lparr>
     clients_at := [Ptr 0 0 \<mapsto> (Client_ctor 0)\<lparr>recv_buffer := (Init 512)\<lparr>buf_bytes := bs\<rparr>\<rparr>],
     contexts := [Ptr 1 0 \<mapsto> IoContext 0 (Ptr 0 0) ty, Ptr 2 0 \<mapsto> IoContext 0 (Ptr 0 0) IO_RECV_READY],
     clients_list := [Ptr 0 0], current_m := 1\<rparr>"

definition demo_round :: round_env where
  "demo_round = \<lparr>new_ctx = Ptr 3 0, disconnect_ctx = Ptr 4 0, wsa_ok = True, disconnect_ok = True\<rparr>"

lemma connected_ok: "manager_ok (connected bs ty)"
  by (simp add: manager_ok_def connected_def world_init_def)

lemma connected_sel:
  "clients_at (connected bs ty) (Ptr 0 0) = Some ((Client_ctor 0)\<lparr>recv_buffer := (Init 512)\<lparr>buf_bytes := bs\<rparr>\<rparr>)"
  "contexts (connected bs ty) (Ptr 1 0) = Some (IoContext 0 (Ptr 0 0) ty)"
  "contexts (connected bs ty) (Ptr 2 0) = Some (IoContext 0 (Ptr 0 0) IO_RECV_READY)"
  "clients_list (connected bs ty) = [Ptr 0 0]" "calls (connected bs ty) = []"
  "packet_header_size (connected bs ty) = 2" "in_flight (connected bs ty) = []"
  by (simp_all add: connected_def world_init_def)

lemma demo_round_sel: "new_ctx demo_round = Ptr 3 0" "disconnect_ctx demo_round = Ptr 4 0" "wsa_ok demo_round"
  by (simp_all add: demo_round_def)

subsection \<open>Properties\<close>

text \<open>
  A round of \<open>IocpWork\<close> on the completion of a disconnect, or for a client that exists of an accept, of
  a zero-byte receive, or of a failed or empty receive or send returns, keeps the client list
  consistent (\<open>current_\<close> counts the clients that exist and stays within \<open>limit_\<close>, the list has
  no duplicates and names existing clients only, the lock is free), and frees the context
  of the completion.
\<close>

theorem iocp_round_safe:
  assumes inv: "manager_ok W" and ctx: "contexts W ctx = Some x" "ctx \<noteq> Null"
    and fresh: "new_ctx E \<noteq> ctx" "disconnect_ctx E \<noteq> ctx"
    and ty: "io_type_m x = IO_DISCONNECT \<or> clients_at W (client_of x) \<noteq> None \<and>
      (io_type_m x = IO_ACCEPT \<and> client_of x \<notin> set (clients_list W) \<or> io_type_m x = IO_RECV_READY \<or>
       (io_type_m x = IO_RECV \<or> io_type_m x = IO_SEND) \<and> (\<not> gqcs \<or> n = 0))"
  shows "\<exists>W'. iocp_round S E gqcs n ctx timed_out W = Inr W' \<and> manager_ok W' \<and> contexts W' ctx = None"
proof (cases "io_type_m x = IO_RECV \<or> io_type_m x = IO_SEND")
  case True
  then have e: "\<not> gqcs \<or> n = 0" and c: "clients_at W (client_of x) \<noteq> None" using ty by auto
  have nn: "client_of x \<noteq> Null" using inv c by (auto simp: manager_ok_def)
  have "iocp_round S E gqcs n ctx timed_out W = finish E ctx (client_of x) (False, W)"
    using e True ctx Disconnect_eq [OF nn, of W] c by (auto simp: iocp_round_def finish_def)
  moreover have "False \<or> client_of x \<noteq> Null \<and> clients_at W (client_of x) \<noteq> None" using nn c by simp
  ultimately show ?thesis using finish_ok [OF inv ctx fresh(2)] by auto
next
  case False
  let ?W1 = "W\<lparr>contexts := (contexts W)(ctx \<mapsto> x\<lparr>received_m := n\<rparr>)\<rparr>"
  have i1: "manager_ok ?W1" by (rule manager_ok_ctx [OF inv])
  have some: "contexts ?W1 ctx \<noteq> None" by simp
  have "branch_ok ctx (client_of x) (io_switch S E n ctx (io_type_m x) (client_of x) ?W1)"
  proof (cases "io_type_m x = IO_DISCONNECT")
    case True
    then show ?thesis using disconnect_branch [OF i1 some] by simp
  next
    case other: False
    then obtain y where y: "clients_at ?W1 (client_of x) = Some y" using ty by auto
    have nn: "client_of x \<noteq> Null" using i1 y by (auto simp: manager_ok_def)
    show ?thesis using ty False other accept_branch [OF i1 nn y _ some fresh(1)] ready_branch [OF i1 nn y some fresh(1)] by auto
  qed
  from io_handle_ok [OF ctx fresh(2) this] show ?thesis
    using False ctx by (simp add: iocp_round_def)
qed

theorem iocp_round_safe_witness:
  "\<exists>W'. iocp_round (Server_ctor 0) demo_round True 0 (Ptr 1 0) False (connected [] IO_DISCONNECT) = Inr W' \<and>
     manager_ok W' \<and> contexts W' (Ptr 1 0) = None"
  by (rule iocp_round_safe [OF connected_ok connected_sel(2)])
    (simp_all add: demo_round_sel IoContext_def connected_sel)

text \<open>
  Accepting: below the limit a round of \<open>Run\<close> makes one client more, not yet in the list, with
  its new socket, and one accept is in flight for it if \<open>AcceptEx\<close> takes it; at the limit it changes nothing.
\<close>

theorem accept_within_limit:
  assumes "manager_ok W" and "p \<noteq> Null" and "clients_at W p = None"
  shows "\<exists>W'. accept_round p ctx junk sock True accept_ok W = Inr W' \<and> manager_ok W' \<and>
     (if current_m W < limit_m W
      then clients_at W' p = Some ((Client_ctor junk)\<lparr>client_socket := sock\<rparr>) \<and> p \<notin> set (clients_list W') \<and>
        contexts W' ctx = Some (IoContext 0 p IO_ACCEPT) \<and> in_flight W' = in_flight W @ (if accept_ok then [ctx] else []) \<and>
        current_m W' = current_m W + 1
      else W' = W)"
proof (cases "current_m W < limit_m W")
  case True
  from accept_round_ok [OF assms True, of ctx junk sock accept_ok] show ?thesis using True by auto
next
  case False
  then show ?thesis using assms(1) by (simp add: accept_round_def NewClient_def)
qed

theorem accept_within_limit_witness:
  "\<exists>W'. accept_round (Ptr 0 0) (Ptr 1 0) 0 7 True True world_init = Inr W' \<and> manager_ok W' \<and> current_m W' = 1"
  using accept_within_limit [OF manager_ok_init, of "Ptr 0 0" "Ptr 1 0" 0 7 True] by (auto simp: world_init_def)

text \<open>
  However long \<open>Run\<close> accepts, the number of clients never passes the limit: after \<open>n\<close> rounds
  without a disconnect there are \<open>n\<close> clients more or exactly \<open>limit_\<close>, no round fails, the list of
  connected clients is untouched, and \<open>current_\<close> is the number of clients that exist.
\<close>

theorem accepts_bounded:
  assumes "manager_ok W" and "fresh_clients W rs"
  shows "\<exists>W'. Accept_Run True rs W = Inr W' \<and> manager_ok W' \<and> clients_list W' = clients_list W \<and>
     card (dom (clients_at W')) = min (unat (limit_m W)) (card (dom (clients_at W)) + length rs)"
proof -
  obtain W' where "accept_loop rs W = Inr W'" "manager_ok W'" "clients_list W' = clients_list W"
    "unat (current_m W') = min (unat (limit_m W)) (unat (current_m W) + length rs)"
    using accept_loop_count [OF assms] by blast
  then show ?thesis using assms(1) by (simp add: Accept_Run_def check_def manager_ok_def)
qed

theorem accepts_bounded_witness:
  "\<exists>W'. Accept_Run True [(Ptr 0 0, Ptr 1 0, 0, 7, True, True), (Ptr 2 0, Ptr 3 0, 0, 8, True, False)]
       (world_init\<lparr>limit_m := 1\<rparr>) = Inr W' \<and> card (dom (clients_at W')) = 1"
proof -
  have "manager_ok (world_init\<lparr>limit_m := 1\<rparr>)" by (simp add: manager_ok_def world_init_def)
  moreover have "fresh_clients (world_init\<lparr>limit_m := 1\<rparr>) [(Ptr 0 0, Ptr 1 0, 0, 7, True, True), (Ptr 2 0, Ptr 3 0, 0, 8, True, False)]"
    by (simp add: fresh_clients_def world_init_def)
  ultimately show ?thesis using accepts_bounded by (fastforce simp: world_init_def)
qed

text \<open>
  C21. A round on received bytes: when they start at the head of an idle buffer and the packet fits
  it, the round returns; it calls the receive handler once if the size it reads is at most the
  number of bytes received and not at all otherwise; the buffer is idle again, the
  context is freed and the next receive is in flight.
\<close>

theorem receive_round:
  assumes inv: "manager_ok W" and ctx: "contexts W ctx = Some x" "ctx \<noteq> Null" "io_type_m x = IO_RECV"
    and fresh: "new_ctx E \<noteq> ctx" "disconnect_ctx E \<noteq> ctx"
    and c: "client_of x \<noteq> Null" "clients_at W (client_of x) = Some y"
    and i: "idle (recv_buffer y)" "0 < buf_size (recv_buffer y)"
    and fits: "transfer (packet_header_size W) y \<le> buf_size (recv_buffer y)"
    and h: "post_receive_handler S = Some f" and ok: "wsa_ok E" and n: "n \<noteq> 0"
  shows "\<exists>W' y'. iocp_round S E True n ctx timed_out W = Inr W' \<and> manager_ok W' \<and> contexts W' ctx = None \<and>
     clients_at W' (client_of x) = Some y' \<and> idle (recv_buffer y') \<and> in_flight W' = in_flight W @ [new_ctx E] \<and>
     calls W' = calls W @ (if counts_complete n y then [(f, ctx)] else [])"
proof -
  let ?W1 = "W\<lparr>contexts := (contexts W)(ctx \<mapsto> x\<lparr>received_m := n\<rparr>)\<rparr>"
  have y1: "clients_at ?W1 (client_of x) = Some y" and x1: "contexts ?W1 ctx = Some (x\<lparr>received_m := n\<rparr>)"
    and f1: "transfer (packet_header_size ?W1) y \<le> buf_size (recv_buffer y)" using c(2) fits by simp_all
  obtain W2 y2 where sw: "io_switch S E n ctx IO_RECV (client_of x) ?W1 = Inr (True, W2)"
    and w2: "manager_ok W2" "contexts W2 ctx = Some (x\<lparr>received_m := n\<rparr>)" "clients_at W2 (client_of x) = Some y2"
      "idle (recv_buffer y2)" "in_flight W2 = in_flight W @ [new_ctx E]"
      "calls W2 = calls W @ (if counts_complete n y then [(f, ctx)] else [])"
    using recv_branch [OF manager_ok_ctx [OF inv] c(1) y1 i f1 h ok x1 fresh(1), of n] by auto
  have "io_handle S E n ctx W = finish E ctx (client_of x) (True, W2)"
    using io_handle_eq [OF ctx(1,2), of S E n] ctx(3) sw by simp
  moreover have "iocp_round S E True n ctx timed_out W = io_handle S E n ctx W" using n by (simp add: iocp_round_def)
  moreover obtain W' where "finish E ctx (client_of x) (True, W2) = Inr W'" "manager_ok W'" "contexts W' ctx = None"
    "calls W' = calls W2" "clients_at W' = clients_at W2" "in_flight W' = in_flight W2 @ []"
    using finish_ok [OF w2(1,2) ctx(2) fresh(2), of True "client_of x"] by auto
  ultimately show ?thesis using w2(3-6) by (intro exI [of _ W'] exI [of _ y2]) simp
qed

theorem receive_round_witness:
  "\<exists>W'. iocp_round (SetPostReceiveHandler (Some 3) (Server_ctor 0)) demo_round True 12 (Ptr 1 0) False
     (connected (10 # replicate 511 0) IO_RECV) = Inr W' \<and> calls W' = [(3, Ptr 1 0)]"
proof -
  let ?y = "(Client_ctor 0)\<lparr>recv_buffer := (Init 512)\<lparr>buf_bytes := 10 # replicate 511 0\<rparr>\<rparr>"
  have "idle (recv_buffer ?y)" "0 < buf_size (recv_buffer ?y)" "transfer 2 ?y \<le> buf_size (recv_buffer ?y)"
    "counts_complete 12 ?y"
    by (simp_all add: idle_def Init_def transfer_def counts_complete_def)
  then show ?thesis
    using receive_round [OF connected_ok [of "10 # replicate 511 0" IO_RECV] connected_sel(2), of demo_round ?y
        "SetPostReceiveHandler (Some 3) (Server_ctor 0)" 3 12]
    by (auto simp: demo_round_sel IoContext_def connected_sel SetPostReceiveHandler_def)
qed

text \<open>
  \<open>PostReceive\<close> misreads lengths.  It compares the size of the body with what was received but
  transfers header and body, so with \<open>size <= received < header + size\<close> the handler gets an
  incomplete packet; and it reads the size from one signed \<open>char\<close>, so a first byte of 128 or
  more is never handled, however many of the 512 bytes of the buffer were received.
\<close>

theorem PostReceive_misreads:
  assumes c: "c \<noteq> Null" "clients_at W c = Some y" and i: "idle (recv_buffer y)" "0 < buf_size (recv_buffer y)"
  shows "(counts_complete n y \<and> n < transfer (packet_header_size W) y \<and>
      transfer (packet_header_size W) y \<le> buf_size (recv_buffer y) \<longrightarrow>
      (\<exists>W'. PostReceive n (Some f) ctx c W = Inr (True, W') \<and> calls W' = calls W @ [(f, ctx)])) \<and>
     (128 \<le> buf_bytes (recv_buffer y) ! 0 \<and> n \<le> 512 \<longrightarrow> PostReceive n (Some f) ctx c W = Inr (True, W))"
  using PostReceive_cases [OF c i] PostReceive_idle(1) [OF c i refl refl] signed_char_large [of "buf_bytes (recv_buffer y) ! 0"]
  by (auto simp: counts_complete_def)

theorem PostReceive_misreads_witness:
  "(\<exists>W'. PostReceive 11 (Some 3) (Ptr 1 0) (Ptr 0 0) (connected (10 # replicate 511 0) IO_RECV) = Inr (True, W') \<and>
     calls W' = [(3, Ptr 1 0)]) \<and>
   PostReceive 512 (Some 3) (Ptr 1 0) (Ptr 0 0) (connected (200 # replicate 511 0) IO_RECV) =
     Inr (True, connected (200 # replicate 511 0) IO_RECV)"
proof -
  let ?y = "\<lambda>b. (Client_ctor 0)\<lparr>recv_buffer := (Init 512)\<lparr>buf_bytes := b # replicate 511 0\<rparr>\<rparr>"
  have i: "idle (recv_buffer (?y b))" "0 < buf_size (recv_buffer (?y b))" for b by (simp_all add: idle_def Init_def)
  have n: "Ptr 0 0 \<noteq> Null" by simp
  show ?thesis
    using PostReceive_misreads [OF n connected_sel(1) i [of 10], of 11 IO_RECV 3 "Ptr 1 0"]
      PostReceive_misreads [OF n connected_sel(1) i [of 200], of 512 IO_RECV 3 "Ptr 1 0"]
    by (simp add: connected_sel counts_complete_def transfer_def Init_def)
qed

text \<open>
  C38. A disconnect leaves operations behind: the round that handles \<open>IO_DISCONNECT\<close> destroys the
  client, but a zero-byte receive of the same client may still be in flight; when the system
  reports its failure, the round goes on with the client that is gone.
\<close>

theorem use_after_disconnect:
  assumes inv: "manager_ok W" and ctx: "contexts W d = Some x" "d \<noteq> Null" "io_type_m x = IO_DISCONNECT"
    and r: "contexts W q = Some z" "q \<noteq> Null" "io_type_m z = IO_RECV_READY" "client_of z = client_of x" "q \<noteq> d"
    and c: "client_of x \<in> set (clients_list W)"
  shows "\<exists>W'. iocp_round S E True 0 d to W = Inr W' \<and> iocp_round S E' False 0 q to' W' = Inl BadAccess"
proof -
  let ?W1 = "call_handler (pre_disconnect_handler S) d (W\<lparr>contexts := (contexts W)(d \<mapsto> x\<lparr>received_m := 0\<rparr>)\<rparr>)"
  let ?W2 = "call_handler (post_disconnect_handler S) d (?W1\<lparr>clients_at := (clients_at ?W1)(client_of x := None),
     current_m := current_m ?W1 - 1, clients_list := remove1 (client_of x) (clients_list ?W1)\<rparr>)"
  have i1: "manager_ok ?W1" by (rule manager_ok_call [OF manager_ok_ctx [OF inv]])
  have nn: "client_of x \<noteq> Null" using inv c by (auto simp: manager_ok_def)
  have "RemoveClient (client_of x) ?W1 = Inr (?W1\<lparr>clients_at := (clients_at ?W1)(client_of x := None),
     current_m := current_m ?W1 - 1, clients_list := remove1 (client_of x) (clients_list ?W1)\<rparr>)"
    using RemoveClient_eq [OF i1, of "client_of x"] c by simp
  then have "io_handle S E 0 d W = finish E d (client_of x) (True, ?W2)"
    using io_handle_eq [OF ctx(1,2), of S E 0] ctx(3) by (simp add: io_switch_def handler_defs)
  also have "\<dots> = Inr (?W2\<lparr>contexts := (contexts ?W2)(d := None)\<rparr>)"
    using ctx(2) by (simp add: finish_def destroy_context_def)
  finally have one: "iocp_round S E True 0 d to W = Inr (?W2\<lparr>contexts := (contexts ?W2)(d := None)\<rparr>)"
    using ctx by (simp add: iocp_round_def)
  let ?V = "?W2\<lparr>contexts := (contexts ?W2)(d := None)\<rparr>"
  have z: "contexts ?V q = Some z" using r(1,5) by simp
  have "client_ref (?V\<lparr>contexts := f\<rparr>) (client_of x) = Inl BadAccess" for f
    using nn by (simp add: client_ref_def)
  then have "iocp_round S E' False 0 q to' ?V = Inl BadAccess"
    using z r(2-4) io_handle_eq [OF z r(2), of S E' 0] by (simp add: iocp_round_def io_switch_def Receive_def)
  with one show ?thesis by blast
qed

theorem use_after_disconnect_witness:
  "\<exists>W'. iocp_round (Server_ctor 0) demo_round True 0 (Ptr 1 0) False (connected [] IO_DISCONNECT) = Inr W' \<and>
     iocp_round (Server_ctor 0) demo_round False 0 (Ptr 2 0) False W' = Inl BadAccess"
  by (rule use_after_disconnect [OF connected_ok connected_sel(2) _ _ connected_sel(3)])
    (simp_all add: IoContext_def connected_sel)

end
