(* ===== verification/StreamPools.thy ===== *)
theory StreamPools
  imports StreamServerSpec ObjectPoolSpec
begin

section \<open>The stream server on its pools (server/ClientManager.cpp, Client.cpp, Server.cpp)\<close>

text \<open>
  The theories \<open>Client\<close> to \<open>StreamServer\<close> take the chunks of new clients and contexts as arguments.  Here
  they come from the object pools of the code: \<open>client_pool_\<close> and the static \<open>io_context_pool_\<close>, both with
  one pool per thread, so every operation names the thread that runs it.  An operation that
  constructs a context first allocates its chunk and then does what the operation of theory \<open>Client\<close>
  does at that address.  A \<open>Client\<close> has 72 bytes in a 64-bit build; \<open>IoContext\<close> has 64, and its pool asks
  for 70.  A round of a worker, an accept and a call of a user are one step each.
\<close>

definition client_size :: nat where
  "client_size = 72"

definition context_size :: nat where
  "context_size = 70"

record stream_sys =
  shared_world :: world
  client_pool_m :: opool
  io_context_pool_m :: opool

definition stream_init :: stream_sys where
  "stream_init = \<lparr>shared_world = world_init, client_pool_m = opool_init empty_mem,
     io_context_pool_m = opool_init empty_mem\<rparr>"

definition on_world :: "(world \<Rightarrow> world) \<Rightarrow> stream_sys \<Rightarrow> stream_sys" where
  "on_world f Y = Y\<lparr>shared_world := f (shared_world Y)\<rparr>"

definition on_world_res :: "(world \<Rightarrow> world res) \<Rightarrow> stream_sys \<Rightarrow> stream_sys res" where
  "on_world_res f Y = rbind (f (shared_world Y)) (\<lambda>W. Inr (Y\<lparr>shared_world := W\<rparr>))"

text \<open>\<open>io_context_pool_->Construct\<close>, and what the caller does with the new context.\<close>

definition with_context ::
  "(nat \<Rightarrow> nat \<Rightarrow> bool) \<Rightarrow> nat \<Rightarrow> (ptr \<Rightarrow> world \<Rightarrow> (bool \<times> world) res) \<Rightarrow> stream_sys \<Rightarrow> (bool \<times> stream_sys) res" where
  "with_context grant t f Y =
     rbind (ObjectPool_Malloc grant context_size t (io_context_pool_m Y)) (\<lambda>(p, P).
     rbind (f p (shared_world Y)) (\<lambda>(r, W). Inr (r, Y\<lparr>shared_world := W, io_context_pool_m := P\<rparr>)))"

subsection \<open>The members of Client and ClientManager\<close>

definition pooled_PrepareReceive ::
  "(nat \<Rightarrow> nat \<Rightarrow> bool) \<Rightarrow> nat \<Rightarrow> bool \<Rightarrow> ptr \<Rightarrow> stream_sys \<Rightarrow> (bool \<times> stream_sys) res" where
  "pooled_PrepareReceive grant t ok c = with_context grant t (\<lambda>p. PrepareReceive p ok c)"

definition pooled_Receive ::
  "(nat \<Rightarrow> nat \<Rightarrow> bool) \<Rightarrow> nat \<Rightarrow> bool \<Rightarrow> ptr \<Rightarrow> stream_sys \<Rightarrow> (bool \<times> stream_sys) res" where
  "pooled_Receive grant t ok c = with_context grant t (\<lambda>p. Receive p ok c)"

definition pooled_Send ::
  "(nat \<Rightarrow> nat \<Rightarrow> bool) \<Rightarrow> nat \<Rightarrow> byte list \<Rightarrow> u32 \<Rightarrow> bool \<Rightarrow> ptr \<Rightarrow> stream_sys \<Rightarrow> (bool \<times> stream_sys) res" where
  "pooled_Send grant t data sz ok c = with_context grant t (\<lambda>p. Send data sz p ok c)"

definition pooled_Disconnect ::
  "(nat \<Rightarrow> nat \<Rightarrow> bool) \<Rightarrow> nat \<Rightarrow> bool \<Rightarrow> ptr \<Rightarrow> stream_sys \<Rightarrow> (bool \<times> stream_sys) res" where
  "pooled_Disconnect grant t ok c = with_context grant t (\<lambda>p. Disconnect p ok c)"

text \<open>\<open>io_context_pool_->Destroy\<close>.\<close>

definition pooled_destroy :: "nat \<Rightarrow> ptr \<Rightarrow> stream_sys \<Rightarrow> stream_sys res" where
  "pooled_destroy t p Y =
     rbind (destroy_context p (shared_world Y)) (\<lambda>W.
     rbind (ObjectPool_Free context_size t (io_context_pool_m Y) p) (\<lambda>P.
     Inr (Y\<lparr>shared_world := W, io_context_pool_m := P\<rparr>)))"

definition pooled_NewClient ::
  "(nat \<Rightarrow> nat \<Rightarrow> bool) \<Rightarrow> nat \<Rightarrow> nat \<Rightarrow> stream_sys \<Rightarrow> (ptr \<times> stream_sys) res" where
  "pooled_NewClient grant t junk Y =
     (if current_m (shared_world Y) < limit_m (shared_world Y) then
        rbind (ObjectPool_Malloc grant client_size t (client_pool_m Y)) (\<lambda>(p, P).
        let (new_client, W) = NewClient p junk (shared_world Y) in
        Inr (new_client, Y\<lparr>shared_world := W, client_pool_m := P\<rparr>))
      else Inr (Null, Y))"

definition pooled_DeleteClient :: "nat \<Rightarrow> ptr \<Rightarrow> stream_sys \<Rightarrow> stream_sys res" where
  "pooled_DeleteClient t c Y =
     rbind (DeleteClient c (shared_world Y)) (\<lambda>W.
     rbind (ObjectPool_Free client_size t (client_pool_m Y) c) (\<lambda>P.
     Inr (Y\<lparr>shared_world := W, client_pool_m := P\<rparr>)))"

definition pooled_RemoveClient :: "nat \<Rightarrow> ptr \<Rightarrow> stream_sys \<Rightarrow> stream_sys res" where
  "pooled_RemoveClient t c Y = (case ExclusiveLockHolder (manager_lock (shared_world Y)) of
     None \<Rightarrow> Inl NoReturn
   | Some l \<Rightarrow>
       let Y1 = on_world (\<lambda>W. W\<lparr>manager_lock := l\<rparr>) Y in
       rbind (if c \<in> set (clients_list (shared_world Y1))
              then rbind (pooled_DeleteClient t c Y1) (\<lambda>Y2.
                Inr (on_world (\<lambda>W. W\<lparr>clients_list := remove1 c (clients_list W)\<rparr>) Y2))
              else Inr Y1)
         (\<lambda>Y3. Inr (on_world (\<lambda>W. W\<lparr>manager_lock := ExclusiveLockHolder_dtor (manager_lock W)\<rparr>) Y3)))"

subsection \<open>A round of IocpWork and of Run\<close>

text \<open>
  The same lines as \<open>io_switch\<close> to \<open>iocp_round\<close> of theory \<open>StreamServer\<close>, now with the allocations and frees in their places:
  a context is allocated where the code constructs it, so which chunk it gets depends on what the round has freed.
  \<open>ok\<close> and \<open>disc_ok\<close>: whether the system takes the receive and the disconnect that the round may post.
\<close>

definition pooled_switch ::
  "(nat \<Rightarrow> nat \<Rightarrow> bool) \<Rightarrow> nat \<Rightarrow> server \<Rightarrow> bool \<Rightarrow> u32 \<Rightarrow> ptr \<Rightarrow> io_type \<Rightarrow> ptr \<Rightarrow> stream_sys \<Rightarrow> (bool \<times> stream_sys) res" where
  "pooled_switch grant t S ok received ctx ty c Y = (case ty of
     IO_ACCEPT \<Rightarrow>
       rbind (on_world_res (SetFastSocketOption c) (on_world (PreAcceptHandler S ctx) Y)) (\<lambda>Y1.
       rbind (on_world_res (AddClient c) Y1) (\<lambda>Y2.
       rbind (pooled_PrepareReceive grant t ok c Y2) (\<lambda>(r, Y3).
       Inr (r, on_world (PostAcceptHandler S ctx) Y3))))
   | IO_RECV_READY \<Rightarrow> pooled_Receive grant t ok c Y
   | IO_RECV \<Rightarrow>
       rbind (on_world_res (\<lambda>W. rbind (PostReceive received (post_receive_handler S) ctx c W) (\<lambda>(_, W1). Inr W1)) Y)
         (\<lambda>Y1. pooled_PrepareReceive grant t ok c Y1)
   | IO_SEND \<Rightarrow>
       rbind (PostSend received c (PreSendHandler S ctx (shared_world Y))) (\<lambda>(r, W).
       Inr (r, Y\<lparr>shared_world := PostSendHandler S ctx W\<rparr>))
   | IO_DISCONNECT \<Rightarrow>
       rbind (pooled_RemoveClient t c (on_world (PreDisconnectHandler S ctx) Y)) (\<lambda>Y1.
       Inr (True, on_world (PostDisconnectHandler S ctx) Y1))
   | _ \<Rightarrow> Inl Uncaught)"

definition pooled_end ::
  "(nat \<Rightarrow> nat \<Rightarrow> bool) \<Rightarrow> nat \<Rightarrow> bool \<Rightarrow> ptr \<Rightarrow> ptr \<Rightarrow> bool \<times> stream_sys \<Rightarrow> stream_sys res" where
  "pooled_end grant t disc_ok ctx c rY = (case rY of (io_result, Y) \<Rightarrow>
     rbind (if \<not> io_result then rbind (pooled_Disconnect grant t disc_ok c Y) (\<lambda>(_, Y1). Inr Y1) else Inr Y)
       (pooled_destroy t ctx))"

definition pooled_handle ::
  "(nat \<Rightarrow> nat \<Rightarrow> bool) \<Rightarrow> nat \<Rightarrow> server \<Rightarrow> bool \<Rightarrow> bool \<Rightarrow> u32 \<Rightarrow> ptr \<Rightarrow> stream_sys \<Rightarrow> stream_sys res" where
  "pooled_handle grant t S ok disc_ok received ctx Y =
     rbind (context_ref (shared_world Y) ctx) (\<lambda>x.
     let Y1 = on_world (\<lambda>W. W\<lparr>contexts := (contexts W)(ctx \<mapsto> x\<lparr>received_m := received\<rparr>)\<rparr>) Y in
     rbind (pooled_switch grant t S ok received ctx (io_type_m x) (client_of x) Y1)
       (pooled_end grant t disc_ok ctx (client_of x)))"

definition pooled_round ::
  "(nat \<Rightarrow> nat \<Rightarrow> bool) \<Rightarrow> nat \<Rightarrow> server \<Rightarrow> bool \<Rightarrow> bool \<Rightarrow> bool \<Rightarrow> u32 \<Rightarrow> ptr \<Rightarrow> bool \<Rightarrow> stream_sys \<Rightarrow> stream_sys res" where
  "pooled_round grant t S ok disc_ok gqcs received ctx timed_out Y =
     (if \<not> gqcs \<or> received = 0 then
        if ctx = Null \<and> timed_out then Inr (on_world (TimeoutHandler S ctx) Y)
        else rbind (context_ref (shared_world Y) ctx) (\<lambda>x.
          if io_type_m x = IO_RECV \<or> io_type_m x = IO_SEND then
            rbind (pooled_Disconnect grant t disc_ok (client_of x) Y) (\<lambda>(_, Y1). pooled_destroy t ctx Y1)
          else pooled_handle grant t S ok disc_ok received ctx Y)
      else pooled_handle grant t S ok disc_ok received ctx Y)"

text \<open>What \<open>Run\<close> does with a new client: its socket, and a context for \<open>AcceptEx\<close>.\<close>

definition offer_client ::
  "(nat \<Rightarrow> nat \<Rightarrow> bool) \<Rightarrow> nat \<Rightarrow> nat \<Rightarrow> bool \<Rightarrow> bool \<Rightarrow> ptr \<Rightarrow> stream_sys \<Rightarrow> (bool \<times> stream_sys) res" where
  "offer_client grant t sock associated accept_ok new_client =
     with_context grant t (\<lambda>ctx W.
       rbind (client_ref W new_client) (\<lambda>x.
       let W2 = set_client new_client (x\<lparr>client_socket := sock\<rparr>) W;
           W3 = new_context ctx (IoContext 0 new_client IO_ACCEPT) W2 in
       rbind (check associated) (\<lambda>_. Inr (submit accept_ok ctx W3))))"

definition pooled_accept ::
  "(nat \<Rightarrow> nat \<Rightarrow> bool) \<Rightarrow> nat \<Rightarrow> nat \<Rightarrow> nat \<Rightarrow> bool \<Rightarrow> bool \<Rightarrow> stream_sys \<Rightarrow> stream_sys res" where
  "pooled_accept grant t junk sock associated accept_ok Y =
     rbind (pooled_NewClient grant t junk Y) (\<lambda>(new_client, Y1).
     if new_client \<noteq> Null then
       rbind (offer_client grant t sock associated accept_ok new_client Y1) (\<lambda>(_, Y2). Inr Y2)
     else Inr Y1)"

text \<open>
  The running server: workers handle completions of operations the system has or time-outs, the thread
  of \<open>Run\<close> accepts, and users send to clients and disconnect them.  Each of these is one step: a run of \<open>stream_step\<close> is
  one in which they do not overlap.  Runs in which they do are those of \<open>stream_race_step\<close> (theory \<open>StreamRace\<close>).
\<close>

definition completed :: "ptr \<Rightarrow> stream_sys \<Rightarrow> stream_sys" where
  "completed ctx = on_world (\<lambda>W. W\<lparr>in_flight := remove1 ctx (in_flight W)\<rparr>)"

inductive stream_step :: "server \<Rightarrow> stream_sys \<Rightarrow> nat \<Rightarrow> stream_sys \<Rightarrow> bool" for S where
  s_round: "ctx \<in> set (in_flight (shared_world Y)) \<Longrightarrow>
     pooled_round grant t S ok disc_ok gqcs received ctx timed_out (completed ctx Y) = Inr Y' \<Longrightarrow> stream_step S Y t Y'"
| s_timeout: "pooled_round grant t S ok disc_ok False 0 Null True Y = Inr Y' \<Longrightarrow> stream_step S Y t Y'"
| s_accept: "pooled_accept grant t junk sock associated accept_ok Y = Inr Y' \<Longrightarrow> stream_step S Y t Y'"
| s_send: "pooled_Send grant t data sz ok c Y = Inr (r, Y') \<Longrightarrow> stream_step S Y t Y'"
| s_disconnect: "pooled_Disconnect grant t ok c Y = Inr (r, Y') \<Longrightarrow> stream_step S Y t Y'"

inductive_cases stream_stepE: "stream_step S Y t Y'"

subsection \<open>What the pools promise\<close>

text \<open>The chunks in use are the clients and contexts that exist.\<close>

definition pools_match :: "stream_sys \<Rightarrow> bool" where
  "pools_match Y \<longleftrightarrow> opool_rel client_size (client_pool_m Y) (dom (clients_at (shared_world Y))) \<and>
     opool_rel context_size (io_context_pool_m Y) (dom (contexts (shared_world Y)))"

lemma pools_match_init: "pools_match stream_init"
  by (simp add: pools_match_def stream_init_def world_init_def opool_init_rel mem_ok_empty client_size_def context_size_def)

lemma on_world_sel [simp]:
  "shared_world (on_world f Y) = f (shared_world Y)" "client_pool_m (on_world f Y) = client_pool_m Y"
  "io_context_pool_m (on_world f Y) = io_context_pool_m Y"
  by (simp_all add: on_world_def)

lemma on_world_res_Inr [simp]:
  "on_world_res f Y = Inr Y' \<longleftrightarrow> (\<exists>W. f (shared_world Y) = Inr W \<and> Y' = Y\<lparr>shared_world := W\<rparr>)"
  by (auto simp: on_world_res_def)

lemma pools_match_world:
  "pools_match Y \<Longrightarrow> dom (clients_at W) = dom (clients_at (shared_world Y)) \<Longrightarrow>
   dom (contexts W) = dom (contexts (shared_world Y)) \<Longrightarrow> pools_match (Y\<lparr>shared_world := W\<rparr>)"
  by (simp add: pools_match_def)

lemma with_contextE:
  assumes "with_context grant t f Y = Inr (r, Y')" and "pools_match Y"
  obtains p P W where "f p (shared_world Y) = Inr (r, W)" and "Y' = Y\<lparr>shared_world := W, io_context_pool_m := P\<rparr>"
    and "p \<noteq> Null" and "contexts (shared_world Y) p = None"
    and "opool_rel context_size P (insert p (dom (contexts (shared_world Y))))"
proof -
  obtain p P W where m: "ObjectPool_Malloc grant context_size t (io_context_pool_m Y) = Inr (p, P)"
    and w: "f p (shared_world Y) = Inr (r, W)" "Y' = Y\<lparr>shared_world := W, io_context_pool_m := P\<rparr>"
    using assms(1) by (auto simp: with_context_def)
  have rel: "opool_rel context_size (io_context_pool_m Y) (dom (contexts (shared_world Y)))"
    using assms(2) by (simp add: pools_match_def)
  show thesis using that [OF w] Malloc_law [OF rel m] by (auto simp: dom_def)
qed

end
