(* ===== verification/StreamPoolsInv.thy ===== *)
theory StreamPoolsInv
  imports StreamPools
begin

section \<open>What the stream server keeps, whatever its threads do\<close>

text \<open>
  The invariant of the running server over \<open>stream_step\<close>: the client list is consistent, the pools have in use
  exactly the clients and contexts that exist, and the operations in flight have contexts of their own,
  those of accepts with clients of their own.  From it: what a refused operation leaves behind.
\<close>

subsection \<open>The invariant\<close>

definition accept_for :: "world \<Rightarrow> ptr \<Rightarrow> ptr option" where
  "accept_for W p = (case contexts W p of
     None \<Rightarrow> None | Some x \<Rightarrow> if io_type_m x = IO_ACCEPT then Some (client_of x) else None)"

lemma accept_for_cong: "contexts W' p = contexts W p \<Longrightarrow> accept_for W' p = accept_for W p"
  by (simp add: accept_for_def)

lemma accept_for_new [simp]: "contexts W p = None \<Longrightarrow> accept_for W p = None"
  by (simp add: accept_for_def)

text \<open>A client that exists but is not connected.\<close>

definition unlisted :: "world \<Rightarrow> ptr \<Rightarrow> bool" where
  "unlisted W c \<longleftrightarrow> clients_at W c \<noteq> None \<and> c \<notin> set (clients_list W)"

definition flight_ok :: "world \<Rightarrow> bool" where
  "flight_ok W \<longleftrightarrow> distinct (in_flight W) \<and> set (in_flight W) \<subseteq> dom (contexts W) \<and>
     (\<forall>p\<in>set (in_flight W). \<forall>c. accept_for W p = Some c \<longrightarrow> unlisted W c \<and>
        (\<forall>q\<in>set (in_flight W). accept_for W q = Some c \<longrightarrow> q = p))"

text \<open>What holds whatever \<open>current_\<close> and the lock are: theory \<open>StreamRace\<close> needs it where the count is lost.\<close>

definition clients_ok :: "world \<Rightarrow> bool" where
  "clients_ok W \<longleftrightarrow> finite (dom (clients_at W)) \<and> clients_at W Null = None \<and>
     distinct (clients_list W) \<and> set (clients_list W) \<subseteq> dom (clients_at W)"

definition base_ok :: "stream_sys \<Rightarrow> bool" where
  "base_ok Y \<longleftrightarrow> clients_ok (shared_world Y) \<and> flight_ok (shared_world Y) \<and> pools_match Y"

definition stream_ok :: "stream_sys \<Rightarrow> bool" where
  "stream_ok Y \<longleftrightarrow> manager_ok (shared_world Y) \<and> flight_ok (shared_world Y) \<and> pools_match Y"

lemma manager_clients: "manager_ok W \<Longrightarrow> clients_ok W"
  by (simp add: manager_ok_def clients_ok_def)

lemma stream_ok_base: "stream_ok Y \<longleftrightarrow> base_ok Y \<and> manager_ok (shared_world Y)"
  using manager_clients by (auto simp: stream_ok_def base_ok_def)

lemma clients_ok_cong:
  assumes "clients_ok W" and "dom (clients_at W') = dom (clients_at W)" and "clients_list W' = clients_list W"
  shows "clients_ok W'"
proof -
  have "clients_at W' Null = None" using assms(1,2) by (auto simp: clients_ok_def)
  then show ?thesis using assms by (simp add: clients_ok_def)
qed

lemma base_okD:
  assumes "base_ok Y"
  shows "clients_ok (shared_world Y)" "flight_ok (shared_world Y)" "pools_match Y"
    "opool_rel client_size (client_pool_m Y) (dom (clients_at (shared_world Y)))"
    "opool_rel context_size (io_context_pool_m Y) (dom (contexts (shared_world Y)))"
  using assms by (simp_all add: base_ok_def pools_match_def)

lemma stream_okD:
  assumes "stream_ok Y"
  shows "manager_ok (shared_world Y)" "flight_ok (shared_world Y)" "pools_match Y"
    "opool_rel client_size (client_pool_m Y) (dom (clients_at (shared_world Y)))"
    "opool_rel context_size (io_context_pool_m Y) (dom (contexts (shared_world Y)))" "base_ok Y"
  using assms by (simp_all add: stream_ok_base base_ok_def pools_match_def)

lemma stream_ok_init: "stream_ok stream_init"
proof -
  have "manager_ok (shared_world stream_init)" by (simp add: stream_init_def manager_ok_init)
  moreover have "flight_ok (shared_world stream_init)" by (simp add: stream_init_def world_init_def flight_ok_def)
  ultimately show ?thesis using pools_match_init by (simp add: stream_ok_def)
qed

text \<open>
  What an operation leaves alone, but for the contexts in \<open>X\<close> and the clients in \<open>A\<close>: existing contexts, who
  is unlisted, and that operations start on new contexts, accepts with new clients.
\<close>

definition frame :: "ptr set \<Rightarrow> ptr set \<Rightarrow> world \<Rightarrow> world \<Rightarrow> bool" where
  "frame X A W W' \<longleftrightarrow> limit_m W' = limit_m W \<and>
     (\<forall>q. contexts W q \<noteq> None \<and> q \<notin> X \<longrightarrow> contexts W' q = contexts W q) \<and>
     (\<forall>q\<in>set (in_flight W'). q \<in> set (in_flight W) \<or> contexts W q = None \<or> q \<in> X) \<and>
     (\<forall>c. unlisted W c \<and> c \<notin> A \<longrightarrow> unlisted W' c) \<and>
     (\<forall>q c. contexts W q = None \<and> q \<notin> X \<and> c \<notin> A \<and> accept_for W' q = Some c \<longrightarrow> \<not> unlisted W c)"

lemma frame_refl [simp]: "frame X A W W"
  by (auto simp: frame_def)

lemma frame_mono: "frame X A W W' \<Longrightarrow> X \<subseteq> X' \<Longrightarrow> A \<subseteq> A' \<Longrightarrow> frame X' A' W W'"
  unfolding frame_def by blast

lemma frame_context: "frame X A W W' \<Longrightarrow> contexts W q \<noteq> None \<Longrightarrow> q \<notin> X \<Longrightarrow> contexts W' q = contexts W q"
  unfolding frame_def by blast

lemma frame_flight:
  assumes "frame X A W W'" and "contexts W q \<noteq> None" and "q \<notin> X" and "q \<notin> set (in_flight W)"
  shows "q \<notin> set (in_flight W')"
proof
  assume "q \<in> set (in_flight W')"
  moreover have "\<forall>q\<in>set (in_flight W'). q \<in> set (in_flight W) \<or> contexts W q = None \<or> q \<in> X"
    using assms(1) by (simp add: frame_def)
  ultimately show False using assms(2-4) by auto
qed

lemma frame_unlisted: "frame X A W W' \<Longrightarrow> unlisted W c \<Longrightarrow> c \<notin> A \<Longrightarrow> unlisted W' c"
  unfolding frame_def by blast

lemma frame_drop: "frame X (insert c A) W W' \<Longrightarrow> \<not> unlisted W c \<Longrightarrow> frame X A W W'"
  unfolding frame_def by (elim conjE) (intro conjI, assumption+, (metis insert_iff)+)

lemma frame_trans:
  assumes f: "frame X A W W1" and g: "frame X A W1 W2"
  shows "frame X A W W2"
  unfolding frame_def
proof (intro conjI allI impI ballI)
  show "limit_m W2 = limit_m W" using f g by (simp add: frame_def)
  show "contexts W2 q = contexts W q" if "contexts W q \<noteq> None \<and> q \<notin> X" for q
    using that frame_context [OF f, of q] frame_context [OF g, of q] by simp
  show "q \<in> set (in_flight W) \<or> contexts W q = None \<or> q \<in> X" if "q \<in> set (in_flight W2)" for q
    using that frame_flight [OF f, of q] frame_flight [OF g, of q] frame_context [OF f, of q] by metis
  show "unlisted W2 c" if "unlisted W c \<and> c \<notin> A" for c
    using that frame_unlisted [OF f, of c] frame_unlisted [OF g, of c] by simp
  show "\<not> unlisted W c" if q: "contexts W q = None \<and> q \<notin> X \<and> c \<notin> A \<and> accept_for W2 q = Some c" for q c
  proof (cases "contexts W1 q = None")
    case True
    then have "\<not> unlisted W1 c" using g q unfolding frame_def by blast
    then show ?thesis using frame_unlisted [OF f, of c] q by blast
  next
    case False
    then have "accept_for W1 q = Some c" using frame_context [OF g, of q] q by (simp add: accept_for_def)
    then show ?thesis using f q unfolding frame_def by blast
  qed
qed

subsection \<open>Operations inside clients\<close>

definition inner :: "world \<Rightarrow> world \<Rightarrow> bool" where
  "inner W W' \<longleftrightarrow> dom (clients_at W') = dom (clients_at W) \<and> contexts W' = contexts W \<and> in_flight W' = in_flight W \<and>
     clients_list W' = clients_list W \<and> limit_m W' = limit_m W \<and> current_m W' = current_m W \<and>
     manager_lock W' = manager_lock W"

lemma inner_trans: "inner W W1 \<Longrightarrow> inner W1 W2 \<Longrightarrow> inner W W2"
  by (simp add: inner_def)

lemma inner_refl [simp]: "inner W W"
  by (simp add: inner_def)

lemma inner_unlisted: "inner W W' \<Longrightarrow> unlisted W' c = unlisted W c"
  unfolding inner_def unlisted_def by (metis domIff)

lemma inner_accept: "inner W W' \<Longrightarrow> accept_for W' p = accept_for W p"
  by (simp add: inner_def accept_for_def)

lemma inner_frame: "inner W W' \<Longrightarrow> frame X A W W'"
  unfolding frame_def
  by (intro conjI allI ballI impI) (auto simp: inner_unlisted inner_accept, auto simp: inner_def)

lemma inner_base:
  assumes "base_ok Y" and "inner (shared_world Y) W"
  shows "base_ok (Y\<lparr>shared_world := W\<rparr>)"
proof -
  have "clients_ok W" by (rule clients_ok_cong [OF base_okD(1) [OF assms(1)]]) (use assms(2) in \<open>simp_all add: inner_def\<close>)
  have s: "in_flight W = in_flight (shared_world Y)" "contexts W = contexts (shared_world Y)"
    using assms(2) by (simp_all add: inner_def)
  have "flight_ok W = flight_ok (shared_world Y)"
    unfolding flight_ok_def inner_unlisted [OF assms(2)] inner_accept [OF assms(2)] s by (rule refl)
  then have "flight_ok W" using base_okD(2) [OF assms(1)] by simp
  moreover note \<open>clients_ok W\<close>
  moreover have "pools_match (Y\<lparr>shared_world := W\<rparr>)"
    using base_okD(3) [OF assms(1)] assms(2) by (intro pools_match_world) (simp_all add: inner_def)
  ultimately show ?thesis by (simp add: base_ok_def)
qed

lemma inner_ok:
  assumes "stream_ok Y" and "inner (shared_world Y) W"
  shows "stream_ok (Y\<lparr>shared_world := W\<rparr>)"
proof -
  have "manager_ok W" by (rule manager_ok_cong [OF stream_okD(1) [OF assms(1)]]) (use assms(2) in \<open>simp_all add: inner_def\<close>)
  then show ?thesis using inner_base [OF stream_okD(6) [OF assms(1)] assms(2)] by (simp add: stream_ok_base)
qed

lemma client_refD: "client_ref W c = Inr x \<Longrightarrow> c \<noteq> Null \<and> clients_at W c = Some x"
  by (auto simp: client_ref_def split: if_splits option.splits)

lemma inner_set_client: "clients_at W c = Some y \<Longrightarrow> inner W (set_client c x W)"
  by (auto simp: inner_def)

lemma inner_call: "inner W (call_handler h ctx W)"
  by (simp add: inner_def)

lemma inner_fast: "SetFastSocketOption c W = Inr W' \<Longrightarrow> inner W W'"
  by (auto simp: SetFastSocketOption_def dest!: client_refD intro: inner_set_client)

lemma inner_PostSend: "PostSend n c W = Inr (r, W') \<Longrightarrow> inner W W' \<and> r"
  by (auto simp: PostSend_def dest!: client_refD intro: inner_set_client)

lemma inner_PostReceive:
  assumes "PostReceive n h ctx c W = Inr (r, W')"
  shows "inner W W'"
proof -
  obtain x where x: "client_ref W c = Inr x" using assms by (auto simp: PostReceive_def)
  note cx = client_refD [OF x]
  show ?thesis
  proof (cases "W' = W")
    case False
    then obtain B1 W1 x1 B2 m where
      w1: "call_required h ctx (set_client c (x\<lparr>recv_buffer := B1\<rparr>) W) = Inr W1"
      and x1: "client_ref W1 c = Inr x1" and W': "W' = set_client c (x1\<lparr>recv_buffer := B2\<rparr>) W1"
      using assms x by (auto simp: PostReceive_def Let_def split: if_splits)
    have "inner W (set_client c (x\<lparr>recv_buffer := B1\<rparr>) W)" by (rule inner_set_client) (use cx in simp)
    moreover have "inner (set_client c (x\<lparr>recv_buffer := B1\<rparr>) W) W1"
      using w1 by (auto simp: call_required_def inner_def split: option.splits)
    moreover have "inner W1 W'" unfolding W' by (rule inner_set_client) (use client_refD [OF x1] in simp)
    ultimately show ?thesis by (blast intro: inner_trans)
  qed simp
qed

subsection \<open>Operations that post a context\<close>

definition posts :: "(ptr \<Rightarrow> world \<Rightarrow> (bool \<times> world) res) \<Rightarrow> bool" where
  "posts f \<longleftrightarrow> (\<forall>p W r W'. f p W = Inr (r, W') \<longrightarrow>
     (\<exists>W1 x ok. inner W W1 \<and> io_type_m x \<noteq> IO_ACCEPT \<and> W' = snd (submit ok p (new_context p x W1))))"

lemma posts_PrepareReceive: "posts (\<lambda>p. PrepareReceive p ok c)"
  unfolding posts_def
proof (intro allI impI)
  fix p W r W' assume "PrepareReceive p ok c W = Inr (r, W')"
  then have "W' = snd (submit ok p (new_context p (IoContext 0 c IO_RECV_READY) W))"
    by (auto simp: PrepareReceive_def Let_def dest: arg_cong [where f = snd])
  then show "\<exists>W1 x ok. inner W W1 \<and> io_type_m x \<noteq> IO_ACCEPT \<and> W' = snd (submit ok p (new_context p x W1))"
    by (intro exI [of _ W] exI [of _ "IoContext 0 c IO_RECV_READY"] exI [of _ ok]) (simp add: IoContext_def)
qed

lemma posts_Disconnect: "posts (\<lambda>p. Disconnect p ok c)"
  unfolding posts_def
proof (intro allI impI)
  fix p W r W' assume "Disconnect p ok c W = Inr (r, W')"
  then have "W' = snd (submit ok p (new_context p (IoContext 0 c IO_DISCONNECT) W))"
    by (auto simp: Disconnect_def Let_def)
  then show "\<exists>W1 x ok. inner W W1 \<and> io_type_m x \<noteq> IO_ACCEPT \<and> W' = snd (submit ok p (new_context p x W1))"
    by (intro exI [of _ W] exI [of _ "IoContext 0 c IO_DISCONNECT"] exI [of _ ok]) (simp add: IoContext_def)
qed

lemma posts_Receive: "posts (\<lambda>p. Receive p ok c)"
  unfolding posts_def
proof (intro allI impI)
  fix p W r W' assume a: "Receive p ok c W = Inr (r, W')"
  then obtain x where x: "client_ref W c = Inr x" by (auto simp: Receive_def)
  let ?x = "(IoContext 0 c IO_RECV)\<lparr>wsabuf_len := GetRemained (recv_buffer x), wsabuf_buf := Some (GetBuffer (recv_buffer x))\<rparr>"
  have "W' = snd (submit ok p (new_context p ?x W))"
    using a x by (auto simp: Receive_def Let_def dest: arg_cong [where f = snd])
  then show "\<exists>W1 x ok. inner W W1 \<and> io_type_m x \<noteq> IO_ACCEPT \<and> W' = snd (submit ok p (new_context p x W1))"
    by (intro exI [of _ W] exI [of _ ?x] exI [of _ ok]) (simp add: IoContext_def)
qed

lemma posts_Send: "posts (\<lambda>p. Send data sz p ok c)"
  unfolding posts_def
proof (intro allI impI)
  fix p W r W' assume a: "Send data sz p ok c W = Inr (r, W')"
  then obtain x bs B2 where x: "client_ref W c = Inr x"
    and W': "W' = snd (submit ok p (new_context p ((IoContext 0 c IO_SEND)\<lparr>wsabuf_len := sz,
        wsabuf_buf := Some (GetBuffer ((send_buffer x)\<lparr>buf_bytes := bs\<rparr>))\<rparr>) (set_client c (x\<lparr>send_buffer := B2\<rparr>) W)))"
    by (auto simp: Send_def Let_def dest!: arg_cong [where f = snd])
  have "inner W (set_client c (x\<lparr>send_buffer := B2\<rparr>) W)" by (rule inner_set_client) (use client_refD [OF x] in simp)
  then show "\<exists>W1 x ok. inner W W1 \<and> io_type_m x \<noteq> IO_ACCEPT \<and> W' = snd (submit ok p (new_context p x W1))"
    using W' by (intro exI conjI) (auto simp: IoContext_def)
qed

text \<open>What a new context changes, accept or not.\<close>

lemma accept_for_post:
  "accept_for (snd (submit ok p (new_context p x W))) q =
     (if q = p then if io_type_m x = IO_ACCEPT then Some (client_of x) else None else accept_for W q)"
  by (simp add: accept_for_def)

lemma unlisted_post [simp]: "unlisted (snd (submit ok p (new_context p x W))) = unlisted W"
  by (rule ext) (simp add: unlisted_def)

lemma post_frame:
  "contexts W p = None \<Longrightarrow> io_type_m x = IO_ACCEPT \<longrightarrow> client_of x \<in> A \<Longrightarrow> frame {} A W0 W \<Longrightarrow>
   contexts W = contexts W0 \<Longrightarrow> frame {} A W0 (snd (submit ok p (new_context p x W)))"
  unfolding frame_def accept_for_post unlisted_post
  by (intro conjI allI ballI impI) (auto split: if_splits)

lemma post_flight:
  assumes ok: "flight_ok W" and p: "contexts W p = None"
    and acc: "io_type_m x = IO_ACCEPT \<Longrightarrow> unlisted W (client_of x) \<and> (\<forall>q\<in>set (in_flight W). accept_for W q \<noteq> Some (client_of x))"
  shows "flight_ok (snd (submit ok' p (new_context p x W)))"
proof -
  have np: "p \<notin> set (in_flight W)" using ok p by (auto simp: flight_ok_def)
  have old: "unlisted W c \<and> (\<forall>q\<in>set (in_flight W). accept_for W q = Some c \<longrightarrow> q = u)"
    if "u \<in> set (in_flight W)" "accept_for W u = Some c" for u c
    using ok that unfolding flight_ok_def by blast
  show ?thesis
    unfolding flight_ok_def accept_for_post unlisted_post
  proof (intro conjI ballI allI impI)
    show "distinct (in_flight (snd (submit ok' p (new_context p x W))))" using ok np by (simp add: flight_ok_def)
    show "set (in_flight (snd (submit ok' p (new_context p x W)))) \<subseteq> dom (contexts (snd (submit ok' p (new_context p x W))))"
      using ok by (auto simp: flight_ok_def)
    have new: "v = p \<and> io_type_m x = IO_ACCEPT \<and> c = client_of x \<or> v \<in> set (in_flight W) \<and> accept_for W v = Some c"
      if "v \<in> set (in_flight (snd (submit ok' p (new_context p x W))))"
        "(if v = p then if io_type_m x = IO_ACCEPT then Some (client_of x) else None else accept_for W v) = Some c" for v c
      using that np by (cases "v = p") (auto split: if_splits)
    fix u c assume "u \<in> set (in_flight (snd (submit ok' p (new_context p x W))))"
      "(if u = p then if io_type_m x = IO_ACCEPT then Some (client_of x) else None else accept_for W u) = Some c"
    note u = new [OF this]
    then show "unlisted W c" using old [of u c] acc by blast
    fix q assume "q \<in> set (in_flight (snd (submit ok' p (new_context p x W))))"
      "(if q = p then if io_type_m x = IO_ACCEPT then Some (client_of x) else None else accept_for W q) = Some c"
    from new [OF this] u show "q = u" using old [of u c] acc by blast
  qed
qed

lemma posted:
  assumes "posts f" and "with_context grant t f Y = Inr (r, Y')" and "pools_match Y"
  obtains p x ok' P W1 where "inner (shared_world Y) W1" and "io_type_m x \<noteq> IO_ACCEPT"
    and "Y' = Y\<lparr>shared_world := snd (submit ok' p (new_context p x W1)), io_context_pool_m := P\<rparr>"
    and "contexts (shared_world Y) p = None" and "opool_rel context_size P (insert p (dom (contexts (shared_world Y))))"
proof (rule with_contextE [OF assms(2,3)])
  fix p P W assume w: "f p (shared_world Y) = Inr (r, W)" and Y': "Y' = Y\<lparr>shared_world := W, io_context_pool_m := P\<rparr>"
    and p: "contexts (shared_world Y) p = None" "opool_rel context_size P (insert p (dom (contexts (shared_world Y))))"
  obtain W1 x ok' where x: "inner (shared_world Y) W1" "io_type_m x \<noteq> IO_ACCEPT" "W = snd (submit ok' p (new_context p x W1))"
    using assms(1) w unfolding posts_def by blast
  show thesis by (rule that [OF x(1,2) Y' [unfolded x(3)] p])
qed

lemma clients_ok_post: "clients_ok W \<Longrightarrow> clients_ok (snd (submit ok p (new_context p x W)))"
  by (rule clients_ok_cong) simp_all

lemma post_base:
  assumes ok: "base_ok Y" and i: "inner (shared_world Y) W1" and x: "io_type_m x \<noteq> IO_ACCEPT"
    and p: "contexts (shared_world Y) p = None" and rel: "opool_rel context_size P (insert p (dom (contexts (shared_world Y))))"
    and Y': "Y' = Y\<lparr>shared_world := snd (submit ok' p (new_context p x W1)), io_context_pool_m := P\<rparr>"
  shows "base_ok Y' \<and> frame {} {} (shared_world Y) (shared_world Y')"
proof -
  let ?W = "snd (submit ok' p (new_context p x W1))"
  have s1: "base_ok (Y\<lparr>shared_world := W1\<rparr>)" by (rule inner_base [OF ok i])
  have c1: "contexts W1 = contexts (shared_world Y)" "dom (clients_at W1) = dom (clients_at (shared_world Y))"
    using i by (simp_all add: inner_def)
  have "clients_ok ?W" by (rule clients_ok_post) (use base_okD(1) [OF s1] in simp)
  moreover have "flight_ok ?W" by (rule post_flight) (use base_okD(2) [OF s1] p c1 x in simp_all)
  moreover have "pools_match Y'" using base_okD(3) [OF ok] rel c1 by (simp add: pools_match_def Y')
  moreover have "frame {} {} (shared_world Y) ?W"
    by (rule post_frame) (use p c1 x inner_frame [OF i] in simp_all)
  ultimately show ?thesis by (simp add: base_ok_def Y')
qed

lemma with_context_ok:
  assumes ok: "stream_ok Y" and f: "posts f" and r: "with_context grant t f Y = Inr (r, Y')"
  shows "stream_ok Y' \<and> frame {} {} (shared_world Y) (shared_world Y')"
proof (rule posted [OF f r stream_okD(3) [OF ok]])
  fix p x ok' P W1 assume i: "inner (shared_world Y) W1" and x: "io_type_m x \<noteq> IO_ACCEPT"
    and Y': "Y' = Y\<lparr>shared_world := snd (submit ok' p (new_context p x W1)), io_context_pool_m := P\<rparr>"
    and p: "contexts (shared_world Y) p = None"
      "opool_rel context_size P (insert p (dom (contexts (shared_world Y))))"
  have "manager_ok W1" using stream_okD(1) [OF inner_ok [OF ok i]] by simp
  then have "manager_ok (shared_world Y')" unfolding Y' by (simp add: manager_ok_post)
  then show ?thesis using post_base [OF stream_okD(6) [OF ok] i x p Y'] by (simp add: stream_ok_base)
qed

subsection \<open>Contexts and clients that come and go\<close>

lemma flight_sub:
  assumes ok: "flight_ok W" and d: "distinct (in_flight W')" "set (in_flight W') \<subseteq> set (in_flight W)"
    and ctx: "\<And>p. p \<in> set (in_flight W') \<Longrightarrow> contexts W' p = contexts W p"
    and un: "\<And>p c. p \<in> set (in_flight W') \<Longrightarrow> accept_for W p = Some c \<Longrightarrow> unlisted W c \<Longrightarrow> unlisted W' c"
  shows "flight_ok W'"
proof -
  have acc: "accept_for W' p = accept_for W p" if "p \<in> set (in_flight W')" for p
    by (rule accept_for_cong) (rule ctx [OF that])
  have old: "unlisted W c \<and> (\<forall>q\<in>set (in_flight W). accept_for W q = Some c \<longrightarrow> q = p)"
    if "p \<in> set (in_flight W')" "accept_for W p = Some c" for p c
    using ok that d(2) unfolding flight_ok_def by blast
  show ?thesis
    unfolding flight_ok_def
  proof (intro conjI ballI allI impI)
    show "set (in_flight W') \<subseteq> dom (contexts W')" using ok d(2) ctx unfolding flight_ok_def by (metis domIff subsetI subsetD)
    fix p c assume p: "p \<in> set (in_flight W')" "accept_for W' p = Some c"
    then have a: "accept_for W p = Some c" using acc by simp
    show "unlisted W' c" using un [OF p(1) a] old [OF p(1) a] by blast
    show "q = p" if "q \<in> set (in_flight W')" "accept_for W' q = Some c" for q
      using old [OF p(1) a] that acc [OF that(1)] d(2) by auto
  qed (rule d(1))
qed

lemma flight_same:
  assumes "flight_ok W" and i: "in_flight W' = in_flight W"
    and "\<And>p. p \<in> set (in_flight W) \<Longrightarrow> contexts W' p = contexts W p"
    and "\<And>p c. p \<in> set (in_flight W) \<Longrightarrow> accept_for W p = Some c \<Longrightarrow> unlisted W c \<Longrightarrow> unlisted W' c"
  shows "flight_ok W'"
proof (rule flight_sub [OF assms(1)])
  show "distinct (in_flight W')" using assms(1) unfolding i flight_ok_def by metis
qed (use assms in simp_all)

lemma frame_contexts:
  assumes "contexts W' = (contexts W)(ctx := v)" and "in_flight W' = in_flight W" and "unlisted W' = unlisted W"
    and "limit_m W' = limit_m W"
  shows "frame {ctx} {} W W'"
  unfolding frame_def assms(2-4) by (auto simp: assms(1) accept_for_def)

lemma set_context_base:
  assumes ok: "base_ok Y" and x: "contexts (shared_world Y) ctx = Some x" and np: "ctx \<notin> set (in_flight (shared_world Y))"
    and Y': "Y' = on_world (\<lambda>W. W\<lparr>contexts := (contexts W)(ctx \<mapsto> x')\<rparr>) Y"
  shows "base_ok Y' \<and> frame {ctx} {} (shared_world Y) (shared_world Y')"
proof -
  let ?W = "shared_world Y'"
  have s: "contexts ?W = (contexts (shared_world Y))(ctx \<mapsto> x')" "in_flight ?W = in_flight (shared_world Y)"
    "unlisted ?W = unlisted (shared_world Y)" "limit_m ?W = limit_m (shared_world Y)"
    "clients_at ?W = clients_at (shared_world Y)"
    by (simp_all add: Y' unlisted_def fun_eq_iff)
  have "clients_ok ?W" by (rule clients_ok_cong [OF base_okD(1) [OF ok]]) (simp_all add: Y')
  moreover have "flight_ok ?W"
    by (rule flight_same [OF base_okD(2) [OF ok]]) (use np in \<open>auto simp: s\<close>)
  moreover have "dom (contexts ?W) = dom (contexts (shared_world Y))" using x by (auto simp: s)
  then have "pools_match Y'" using base_okD(3) [OF ok] by (simp add: Y' pools_match_def)
  ultimately show ?thesis using frame_contexts [OF s(1-4)] by (simp add: base_ok_def)
qed

lemma set_context_ok:
  assumes ok: "stream_ok Y" and x: "contexts (shared_world Y) ctx = Some x" and np: "ctx \<notin> set (in_flight (shared_world Y))"
    and Y': "Y' = on_world (\<lambda>W. W\<lparr>contexts := (contexts W)(ctx \<mapsto> x')\<rparr>) Y"
  shows "stream_ok Y' \<and> frame {ctx} {} (shared_world Y) (shared_world Y')"
  using set_context_base [OF stream_okD(6) [OF ok] x np Y'] stream_okD(1) [OF ok]
  by (simp add: stream_ok_base Y' manager_ok_ctx)

lemma pooled_destroyE:
  assumes "pooled_destroy t ctx Y = Inr Y'"
  obtains P where "contexts (shared_world Y) ctx \<noteq> None" and "ObjectPool_Free context_size t (io_context_pool_m Y) ctx = Inr P"
    and "Y' = Y\<lparr>shared_world := (shared_world Y)\<lparr>contexts := (contexts (shared_world Y))(ctx := None)\<rparr>, io_context_pool_m := P\<rparr>"
  using assms by (auto simp: pooled_destroy_def destroy_context_def context_ref_def split: if_splits option.splits)

lemma free_context_base:
  assumes ok: "base_ok Y" and np: "ctx \<notin> set (in_flight (shared_world Y))" and x: "contexts (shared_world Y) ctx \<noteq> None"
    and f: "ObjectPool_Free context_size t (io_context_pool_m Y) ctx = Inr P"
    and Y': "Y' = Y\<lparr>shared_world := (shared_world Y)\<lparr>contexts := (contexts (shared_world Y))(ctx := None)\<rparr>, io_context_pool_m := P\<rparr>"
  shows "base_ok Y' \<and> frame {ctx} {} (shared_world Y) (shared_world Y') \<and> contexts (shared_world Y') ctx = None"
proof -
  let ?W = "shared_world Y"
  have "opool_rel context_size P (dom (contexts ?W) - {ctx})" by (rule Free_law [OF base_okD(5) [OF ok] _ f]) (use x in auto)
  then have "pools_match Y'" using base_okD(3) [OF ok] by (simp add: Y' pools_match_def)
  moreover have "clients_ok (shared_world Y')" by (rule clients_ok_cong [OF base_okD(1) [OF ok]]) (simp_all add: Y')
  moreover have "flight_ok (shared_world Y')"
    by (rule flight_same [OF base_okD(2) [OF ok]]) (use np in \<open>auto simp: Y' unlisted_def\<close>)
  moreover have "frame {ctx} {} ?W (shared_world Y')"
    by (rule frame_contexts [where v = None]) (simp_all add: Y' unlisted_def fun_eq_iff)
  ultimately show ?thesis by (simp add: base_ok_def Y')
qed

lemma destroy_ok:
  assumes ok: "stream_ok Y" and np: "ctx \<notin> set (in_flight (shared_world Y))" and r: "pooled_destroy t ctx Y = Inr Y'"
  shows "stream_ok Y' \<and> frame {ctx} {} (shared_world Y) (shared_world Y') \<and> contexts (shared_world Y') ctx = None"
proof (rule pooled_destroyE [OF r])
  fix P assume p: "contexts (shared_world Y) ctx \<noteq> None" "ObjectPool_Free context_size t (io_context_pool_m Y) ctx = Inr P"
    and Y': "Y' = Y\<lparr>shared_world := (shared_world Y)\<lparr>contexts := (contexts (shared_world Y))(ctx := None)\<rparr>, io_context_pool_m := P\<rparr>"
  have "manager_ok (shared_world Y')" using stream_okD(1) [OF ok] by (simp add: Y' manager_ok_ctx)
  then show ?thesis using free_context_base [OF stream_okD(6) [OF ok] np p Y'] by (simp add: stream_ok_base)
qed

lemma list_base:
  assumes ok: "base_ok Y" and c: "unlisted (shared_world Y) c"
    and np: "\<forall>q\<in>set (in_flight (shared_world Y)). accept_for (shared_world Y) q \<noteq> Some c"
    and W: "W = (shared_world Y)\<lparr>clients_list := clients_list (shared_world Y) @ [c]\<rparr>"
  shows "base_ok (Y\<lparr>shared_world := W\<rparr>) \<and> frame {} {c} (shared_world Y) W"
proof -
  have un: "unlisted W d \<longleftrightarrow> unlisted (shared_world Y) d \<and> d \<noteq> c" for d by (auto simp: W unlisted_def)
  have acc: "accept_for W = accept_for (shared_world Y)" by (rule ext) (simp add: W accept_for_def)
  have "flight_ok W"
  proof (rule flight_same [OF base_okD(2) [OF ok]])
    show "unlisted W d" if "p \<in> set (in_flight (shared_world Y))" "accept_for (shared_world Y) p = Some d"
      "unlisted (shared_world Y) d" for p d
      using that np unfolding un by blast
  qed (simp_all add: W)
  moreover have "frame {} {c} (shared_world Y) W"
    unfolding frame_def acc by (auto simp: un) (simp_all add: W)
  moreover have "clients_ok W" using base_okD(1) [OF ok] c by (auto simp: W clients_ok_def unlisted_def)
  ultimately show ?thesis using base_okD(3) [OF ok] by (simp add: W base_ok_def pools_match_def)
qed

lemma add_client_ok:
  assumes ok: "stream_ok Y" and c: "unlisted (shared_world Y) c"
    and np: "\<forall>q\<in>set (in_flight (shared_world Y)). accept_for (shared_world Y) q \<noteq> Some c"
    and r: "AddClient c (shared_world Y) = Inr W"
  shows "stream_ok (Y\<lparr>shared_world := W\<rparr>) \<and> frame {} {c} (shared_world Y) W \<and> contexts W = contexts (shared_world Y) \<and>
     in_flight W = in_flight (shared_world Y)"
proof -
  obtain y where y: "clients_at (shared_world Y) c = Some y" "c \<notin> set (clients_list (shared_world Y))"
    using c by (auto simp: unlisted_def)
  note m = stream_okD(1) [OF ok]
  have W: "W = (shared_world Y)\<lparr>clients_list := clients_list (shared_world Y) @ [c]\<rparr>"
    using AddClient_ok(1) [OF m y] r by simp
  have "manager_ok W" unfolding W by (rule AddClient_ok(2) [OF m y])
  then show ?thesis using list_base [OF stream_okD(6) [OF ok] c np W] by (simp add: W stream_ok_base)
qed

lemma remove_client_world:
  assumes "manager_ok (shared_world Y)" and "pooled_RemoveClient t c Y = Inr Y'"
  shows "RemoveClient c (shared_world Y) = Inr (shared_world Y') \<and> io_context_pool_m Y' = io_context_pool_m Y \<and>
     (if c \<in> set (clients_list (shared_world Y)) then ObjectPool_Free client_size t (client_pool_m Y) c = Inr (client_pool_m Y')
      else client_pool_m Y' = client_pool_m Y)"
  using assms by (auto simp: pooled_RemoveClient_def RemoveClient_def pooled_DeleteClient_def Let_def split: option.splits if_splits)

lemma delete_base:
  assumes ok: "base_ok Y" and c: "c \<in> set (clients_list (shared_world Y))"
    and f: "ObjectPool_Free client_size t (client_pool_m Y) c = Inr P"
    and W: "clients_at W = (clients_at (shared_world Y))(c := None)" "clients_list W = remove1 c (clients_list (shared_world Y))"
      "contexts W = contexts (shared_world Y)" "in_flight W = in_flight (shared_world Y)" "limit_m W = limit_m (shared_world Y)"
  shows "base_ok (Y\<lparr>shared_world := W, client_pool_m := P\<rparr>) \<and> frame {} {} (shared_world Y) W"
proof -
  let ?W = "shared_world Y"
  have d: "distinct (clients_list ?W)" "set (clients_list ?W) \<subseteq> dom (clients_at ?W)"
    using base_okD(1) [OF ok] by (simp_all add: clients_ok_def)
  have un: "unlisted W e" if "unlisted ?W e" for e using that d c by (auto simp: W unlisted_def)
  have acc: "accept_for W = accept_for ?W" by (rule ext) (simp add: W accept_for_def)
  have "flight_ok W" by (rule flight_same [OF base_okD(2) [OF ok]]) (use un in \<open>simp_all add: W\<close>)
  moreover have "frame {} {} ?W W" unfolding frame_def acc W(3-5) using un by auto
  moreover have "clients_ok W" using base_okD(1) [OF ok] by (auto simp: clients_ok_def W)
  moreover have "opool_rel client_size P (dom (clients_at ?W) - {c})"
    using Free_law [OF base_okD(4) [OF ok] _ f] d(2) c by auto
  then have "pools_match (Y\<lparr>shared_world := W, client_pool_m := P\<rparr>)"
    using base_okD(3) [OF ok] by (simp add: pools_match_def W)
  ultimately show ?thesis by (simp add: base_ok_def)
qed

lemma remove_client_ok:
  assumes ok: "stream_ok Y" and r: "pooled_RemoveClient t c Y = Inr Y'"
  shows "stream_ok Y' \<and> frame {} {} (shared_world Y) (shared_world Y')"
proof (cases "c \<in> set (clients_list (shared_world Y))")
  case True
  let ?W = "shared_world Y" and ?W' = "shared_world Y'"
  have m: "manager_ok ?W" by (rule stream_okD(1) [OF ok])
  note w = remove_client_world [OF m r]
  have W': "?W' = ?W\<lparr>clients_at := (clients_at ?W)(c := None), current_m := current_m ?W - 1,
       clients_list := remove1 c (clients_list ?W)\<rparr>"
    using RemoveClient_eq [OF m, of c] w True by simp
  have "base_ok (Y\<lparr>shared_world := ?W', client_pool_m := client_pool_m Y'\<rparr>) \<and> frame {} {} ?W ?W'"
    by (rule delete_base [OF stream_okD(6) [OF ok] True]) (use w True in \<open>auto simp: W'\<close>)
  moreover have "Y\<lparr>shared_world := ?W', client_pool_m := client_pool_m Y'\<rparr> = Y'"
    using w by (intro stream_sys.equality) simp_all
  moreover have "manager_ok ?W'" using RemoveClient_ok [OF m] w by blast
  ultimately show ?thesis by (simp add: stream_ok_base)
next
  case False
  have m: "manager_ok (shared_world Y)" by (rule stream_okD(1) [OF ok])
  have "Y' = Y" using remove_client_world [OF m r] RemoveClient_eq [OF m, of c] False
    by (intro stream_sys.equality) simp_all
  then show ?thesis using ok by simp
qed

lemma new_base:
  assumes ok: "base_ok Y" and a: "ObjectPool_Malloc grant client_size t (client_pool_m Y) = Inr (p, P)"
    and W: "clients_at W = (clients_at (shared_world Y))(p \<mapsto> x)" "clients_list W = clients_list (shared_world Y)"
      "contexts W = contexts (shared_world Y)" "in_flight W = in_flight (shared_world Y)" "limit_m W = limit_m (shared_world Y)"
  shows "p \<noteq> Null \<and> clients_at (shared_world Y) p = None \<and> base_ok (Y\<lparr>shared_world := W, client_pool_m := P\<rparr>) \<and>
     unlisted W p \<and> (\<forall>q\<in>set (in_flight W). accept_for W q \<noteq> Some p) \<and> frame {} {} (shared_world Y) W"
proof -
  let ?W = "shared_world Y"
  have p: "p \<noteq> Null" "clients_at ?W p = None" and rel': "opool_rel client_size P (insert p (dom (clients_at ?W)))"
    using Malloc_law [OF base_okD(4) [OF ok] a] by auto
  have nl: "p \<notin> set (clients_list ?W)" using base_okD(1) [OF ok] p(2) by (auto simp: clients_ok_def)
  then have un: "unlisted W c \<longleftrightarrow> unlisted ?W c \<or> c = p" for c using p(2) by (auto simp: W unlisted_def)
  have acc: "accept_for W = accept_for ?W" by (rule ext) (simp add: W accept_for_def)
  have "accept_for ?W q \<noteq> Some p" if "q \<in> set (in_flight ?W)" for q
  proof
    assume "accept_for ?W q = Some p"
    then have "unlisted ?W p" using base_okD(2) [OF ok] that unfolding flight_ok_def by blast
    then show False using p(2) by (simp add: unlisted_def)
  qed
  moreover have "flight_ok W" by (rule flight_same [OF base_okD(2) [OF ok]]) (use un in \<open>auto simp: W\<close>)
  moreover have "clients_ok W" using base_okD(1) [OF ok] p by (auto simp: clients_ok_def W)
  moreover have "pools_match (Y\<lparr>shared_world := W, client_pool_m := P\<rparr>)"
    using base_okD(3) [OF ok] rel' by (simp add: pools_match_def W)
  moreover have "frame {} {} ?W W" unfolding frame_def acc by (auto simp: un) (simp_all add: W)
  ultimately show ?thesis using p un acc by (simp add: base_ok_def W)
qed

lemma new_client_ok:
  assumes ok: "stream_ok Y" and r: "pooled_NewClient grant t junk Y = Inr (p, Y')"
  shows "if current_m (shared_world Y) < limit_m (shared_world Y)
     then p \<noteq> Null \<and> clients_at (shared_world Y) p = None \<and> stream_ok Y' \<and> unlisted (shared_world Y') p \<and>
       clients_at (shared_world Y') = (clients_at (shared_world Y))(p \<mapsto> Client_ctor junk) \<and>
       (\<forall>q\<in>set (in_flight (shared_world Y')). accept_for (shared_world Y') q \<noteq> Some p) \<and>
       frame {} {} (shared_world Y) (shared_world Y') \<and> contexts (shared_world Y') = contexts (shared_world Y) \<and>
       in_flight (shared_world Y') = in_flight (shared_world Y)
     else p = Null \<and> Y' = Y"
proof (cases "current_m (shared_world Y) < limit_m (shared_world Y)")
  case True
  let ?W = "shared_world Y" and ?W' = "snd (NewClient p junk (shared_world Y))"
  obtain P where a: "ObjectPool_Malloc grant client_size t (client_pool_m Y) = Inr (p, P)"
    and Y': "Y' = Y\<lparr>shared_world := ?W', client_pool_m := P\<rparr>"
    using r True by (auto simp: pooled_NewClient_def NewClient_def)
  have W': "?W' = ?W\<lparr>clients_at := (clients_at ?W)(p \<mapsto> Client_ctor junk), current_m := current_m ?W + 1\<rparr>"
    using True by (simp add: NewClient_def)
  have n: "p \<noteq> Null \<and> clients_at ?W p = None \<and> base_ok (Y\<lparr>shared_world := ?W', client_pool_m := P\<rparr>) \<and>
     unlisted ?W' p \<and> (\<forall>q\<in>set (in_flight ?W'). accept_for ?W' q \<noteq> Some p) \<and> frame {} {} ?W ?W'"
    by (rule new_base [OF stream_okD(6) [OF ok] a]) (simp_all add: W')
  have "manager_ok ?W'" using NewClient_ok(1) [OF stream_okD(1) [OF ok]] n by blast
  then show ?thesis using True n by (simp add: stream_ok_base Y') (simp add: W')
qed (use r in \<open>simp add: pooled_NewClient_def\<close>)

subsection \<open>Rounds\<close>

text \<open>An unlisted client that no accept in flight will list.\<close>

definition stranded :: "world \<Rightarrow> ptr \<Rightarrow> bool" where
  "stranded W c \<longleftrightarrow> unlisted W c \<and> (\<forall>q\<in>set (in_flight W). accept_for W q \<noteq> Some c)"

definition kept :: "ptr set \<Rightarrow> ptr set \<Rightarrow> stream_sys \<Rightarrow> stream_sys \<Rightarrow> bool" where
  "kept X A Y Y' \<longleftrightarrow> stream_ok Y' \<and> frame X A (shared_world Y) (shared_world Y')"

lemma kept_trans: "kept X A Y Y1 \<Longrightarrow> kept X A Y1 Y2 \<Longrightarrow> kept X A Y Y2"
  unfolding kept_def by (metis frame_trans)

lemma kept_mono: "kept X A Y Y' \<Longrightarrow> X \<subseteq> X' \<Longrightarrow> A \<subseteq> A' \<Longrightarrow> kept X' A' Y Y'"
  unfolding kept_def by (metis frame_mono)

lemma kept_ok: "kept X A Y Y' \<Longrightarrow> stream_ok Y'"
  by (simp add: kept_def)

lemma kept_inner: "stream_ok Y \<Longrightarrow> inner (shared_world Y) W \<Longrightarrow> kept {} {} Y (Y\<lparr>shared_world := W\<rparr>)"
  by (simp add: kept_def inner_ok inner_frame)

lemma kept_call:
  assumes "stream_ok Y"
  shows "kept {} {} Y (on_world (call_handler h ctx) Y)"
  unfolding on_world_def by (rule kept_inner [OF assms inner_call])

lemma kept_posts: "stream_ok Y \<Longrightarrow> posts f \<Longrightarrow> with_context grant t f Y = Inr (r, Y') \<Longrightarrow> kept {} {} Y Y'"
  using with_context_ok unfolding kept_def by blast

lemmas pooled_posts = pooled_PrepareReceive_def pooled_Receive_def pooled_Send_def pooled_Disconnect_def

lemma stranded_inner: "inner W W' \<Longrightarrow> stranded W c \<Longrightarrow> stranded W' c"
  unfolding stranded_def by (simp add: inner_unlisted inner_accept) (simp add: inner_def)

lemma switch_ok:
  assumes ok: "stream_ok Y" and c: "ty = IO_ACCEPT \<Longrightarrow> stranded (shared_world Y) c"
    and r: "pooled_switch grant t S ok' n ctx ty c Y = Inr (r, Y')"
  shows "kept {} (if ty = IO_ACCEPT then {c} else {}) Y Y'"
proof (cases ty)
  case IO_ACCEPT
  let ?Y0 = "on_world (call_handler (pre_accept_handler S) ctx) Y"
  obtain W1 W2 Y3 where w1: "SetFastSocketOption c (shared_world ?Y0) = Inr W1" and w2: "AddClient c W1 = Inr W2"
    and y3: "pooled_PrepareReceive grant t ok' c (?Y0\<lparr>shared_world := W2\<rparr>) = Inr (r, Y3)"
    and Y': "Y' = on_world (call_handler (post_accept_handler S) ctx) Y3"
    using r IO_ACCEPT by (auto simp: pooled_switch_def handler_defs)
  have k0: "kept {} {} Y ?Y0" by (rule kept_call [OF ok])
  have k1: "kept {} {} ?Y0 (?Y0\<lparr>shared_world := W1\<rparr>)" by (rule kept_inner [OF kept_ok [OF k0] inner_fast [OF w1]])
  have "stranded W1 c"
    using stranded_inner [OF inner_fast [OF w1]] stranded_inner [OF inner_call] c IO_ACCEPT by simp
  then have "kept {} {c} (?Y0\<lparr>shared_world := W1\<rparr>) (?Y0\<lparr>shared_world := W2\<rparr>)"
    using add_client_ok [OF kept_ok [OF k1], of c W2] w2 by (simp add: kept_def stranded_def)
  moreover from this have "kept {} {} (?Y0\<lparr>shared_world := W2\<rparr>) Y3"
    using y3 posts_PrepareReceive unfolding pooled_posts by (intro kept_posts) (auto dest: kept_ok)
  moreover from this have "kept {} {} Y3 Y'" unfolding Y' by (intro kept_call) (rule kept_ok)
  ultimately have "kept {} {c} Y Y'"
    using k0 k1 by (meson kept_trans kept_mono empty_subsetI order_refl)
  then show ?thesis using IO_ACCEPT by simp
next
  case IO_RECV_READY
  then show ?thesis using r kept_posts [OF ok posts_Receive] by (auto simp: pooled_switch_def pooled_posts)
next
  case IO_RECV
  obtain b W1 where w1: "PostReceive n (post_receive_handler S) ctx c (shared_world Y) = Inr (b, W1)"
    and p: "pooled_PrepareReceive grant t ok' c (Y\<lparr>shared_world := W1\<rparr>) = Inr (r, Y')"
    using r IO_RECV by (auto simp: pooled_switch_def)
  have k: "kept {} {} Y (Y\<lparr>shared_world := W1\<rparr>)" by (rule kept_inner [OF ok inner_PostReceive [OF w1]])
  have "kept {} {} (Y\<lparr>shared_world := W1\<rparr>) Y'"
    using p posts_PrepareReceive unfolding pooled_posts by (intro kept_posts [OF kept_ok [OF k]])
  with k show ?thesis using IO_RECV by (auto intro: kept_trans)
next
  case IO_SEND
  obtain W where w: "PostSend n c (call_handler (pre_send_handler S) ctx (shared_world Y)) = Inr (r, W)"
    and Y': "Y' = Y\<lparr>shared_world := call_handler (post_send_handler S) ctx W\<rparr>"
    using r IO_SEND by (auto simp: pooled_switch_def handler_defs)
  have "inner (shared_world Y) (call_handler (post_send_handler S) ctx W)"
    using inner_PostSend [OF w] inner_call by (blast intro: inner_trans)
  then show ?thesis using kept_inner [OF ok] IO_SEND by (simp add: Y')
next
  case IO_DISCONNECT
  let ?Y0 = "on_world (call_handler (pre_disconnect_handler S) ctx) Y"
  obtain Y1 where y1: "pooled_RemoveClient t c ?Y0 = Inr Y1"
    and Y': "Y' = on_world (call_handler (post_disconnect_handler S) ctx) Y1"
    using r IO_DISCONNECT by (auto simp: pooled_switch_def handler_defs)
  have k0: "kept {} {} Y ?Y0" by (rule kept_call [OF ok])
  have k1: "kept {} {} ?Y0 Y1" using remove_client_ok [OF kept_ok [OF k0] y1] by (simp add: kept_def)
  have "kept {} {} Y1 Y'" unfolding Y' by (rule kept_call [OF kept_ok [OF k1]])
  with k0 k1 show ?thesis using IO_DISCONNECT by (auto intro: kept_trans)
qed (use r in \<open>simp_all add: pooled_switch_def\<close>)

text \<open>The end of a round: its context, no longer in flight, is freed.\<close>

lemma end_ok:
  assumes k: "kept X A Y Y1" and X: "ctx \<in> X" and np: "ctx \<notin> set (in_flight (shared_world Y1))" and x: "contexts (shared_world Y1) ctx \<noteq> None"
    and r: "rbind (if \<not> b then rbind (pooled_Disconnect grant t ok c Y1) (\<lambda>(_, Y2). Inr Y2) else Inr Y1) (pooled_destroy t ctx) = Inr Y'"
  shows "kept X A Y Y' \<and> contexts (shared_world Y') ctx = None"
proof -
  obtain Y2 where y2: "(if \<not> b then rbind (pooled_Disconnect grant t ok c Y1) (\<lambda>(_, Y2). Inr Y2) else Inr Y1) = Inr Y2"
    and d: "pooled_destroy t ctx Y2 = Inr Y'" using r by auto
  have k2: "kept {} {} Y1 Y2"
  proof (cases b)
    case False
    then show ?thesis using y2 kept_posts [OF kept_ok [OF k] posts_Disconnect] by (auto simp: pooled_posts)
  qed (use y2 k in \<open>simp add: kept_def\<close>)
  then have "ctx \<notin> set (in_flight (shared_world Y2))"
    using frame_flight [of "{}" "{}" "shared_world Y1" "shared_world Y2" ctx] np x by (simp add: kept_def)
  from destroy_ok [OF kept_ok [OF k2] this d] have "kept {ctx} {} Y2 Y'" "contexts (shared_world Y') ctx = None"
    by (simp_all add: kept_def)
  moreover have "{ctx} \<subseteq> X" using X by simp
  ultimately show ?thesis using k k2 by (meson kept_trans kept_mono empty_subsetI)
qed

text \<open>The switch of a round starts with the context marked and, for an accept, a client nobody else will list.\<close>

lemma handle_ok_parts:
  assumes ok: "stream_ok Y" and np: "ctx \<notin> set (in_flight (shared_world Y))"
    and c: "\<And>c. accept_for (shared_world Y) ctx = Some c \<Longrightarrow> stranded (shared_world Y) c"
    and x: "contexts (shared_world Y) ctx = Some x"
    and sw: "pooled_switch grant t S ok' n ctx (io_type_m x) (client_of x)
      (on_world (\<lambda>W. W\<lparr>contexts := (contexts W)(ctx \<mapsto> x\<lparr>received_m := n\<rparr>)\<rparr>) Y) = Inr (b, Y2)"
  defines "Y1 \<equiv> on_world (\<lambda>W. W\<lparr>contexts := (contexts W)(ctx \<mapsto> x\<lparr>received_m := n\<rparr>)\<rparr>) Y"
  shows "stream_ok Y1" and "io_type_m x = IO_ACCEPT \<Longrightarrow> stranded (shared_world Y1) (client_of x)"
    and "kept {} (set_option (accept_for (shared_world Y) ctx)) Y1 Y2" and "kept {ctx} {} Y Y1"
proof -
  show k1: "kept {ctx} {} Y Y1" using set_context_ok [OF ok x np refl] by (simp add: kept_def Y1_def)
  show ok1: "stream_ok Y1" by (rule kept_ok [OF k1])
  show st: "stranded (shared_world Y1) (client_of x)" if "io_type_m x = IO_ACCEPT"
  proof -
    have "stranded (shared_world Y) (client_of x)" by (rule c) (use x that in \<open>simp add: accept_for_def\<close>)
    moreover have "accept_for (shared_world Y1) q = accept_for (shared_world Y) q"
      if "q \<in> set (in_flight (shared_world Y1))" for q
      using that np by (intro accept_for_cong) (auto simp: Y1_def)
    ultimately show ?thesis by (simp add: stranded_def unlisted_def Y1_def)
  qed
  have A: "(if io_type_m x = IO_ACCEPT then {client_of x} else {}) = set_option (accept_for (shared_world Y) ctx)"
    using x by (simp add: accept_for_def)
  from switch_ok [OF ok1 st sw [folded Y1_def]] show "kept {} (set_option (accept_for (shared_world Y) ctx)) Y1 Y2"
    unfolding A .
qed

lemma handle_ok:
  assumes ok: "stream_ok Y" and np: "ctx \<notin> set (in_flight (shared_world Y))"
    and c: "\<And>c. accept_for (shared_world Y) ctx = Some c \<Longrightarrow> stranded (shared_world Y) c"
    and r: "pooled_handle grant t S ok' disc_ok n ctx Y = Inr Y'"
  shows "kept {ctx} (set_option (accept_for (shared_world Y) ctx)) Y Y' \<and> contexts (shared_world Y') ctx = None"
proof -
  let ?A = "set_option (accept_for (shared_world Y) ctx)"
  obtain x where x: "contexts (shared_world Y) ctx = Some x"
    and r1: "rbind (pooled_switch grant t S ok' n ctx (io_type_m x) (client_of x)
         (on_world (\<lambda>W. W\<lparr>contexts := (contexts W)(ctx \<mapsto> x\<lparr>received_m := n\<rparr>)\<rparr>) Y))
       (pooled_end grant t disc_ok ctx (client_of x)) = Inr Y'"
    using r by (auto simp: pooled_handle_def Let_def context_ref_def split: if_splits option.splits)
  let ?Y1 = "on_world (\<lambda>W. W\<lparr>contexts := (contexts W)(ctx \<mapsto> x\<lparr>received_m := n\<rparr>)\<rparr>) Y"
  obtain b Y2 where sw: "pooled_switch grant t S ok' n ctx (io_type_m x) (client_of x) ?Y1 = Inr (b, Y2)"
    and e: "pooled_end grant t disc_ok ctx (client_of x) (b, Y2) = Inr Y'" using r1 by auto
  note k = handle_ok_parts [OF ok np c x sw]
  have k1: "kept {ctx} {} Y ?Y1" and k2: "kept {} ?A ?Y1 Y2" using k(3,4) by simp_all
  have f2: "frame {} ?A (shared_world ?Y1) (shared_world Y2)" using k2 by (simp add: kept_def)
  have "kept {ctx} ?A Y Y2" using k1 k2 by (meson kept_trans kept_mono empty_subsetI order_refl)
  moreover have "ctx \<notin> set (in_flight (shared_world Y2))" by (rule frame_flight [OF f2]) (use np in simp_all)
  moreover have "contexts (shared_world Y2) ctx \<noteq> None" using frame_context [OF f2, of ctx] by simp
  ultimately show ?thesis using e end_ok [of "{ctx}" ?A Y Y2 ctx b grant t disc_ok "client_of x" Y']
    by (simp add: pooled_end_def)
qed

lemma round_ok:
  assumes ok: "stream_ok Y" and np: "ctx \<notin> set (in_flight (shared_world Y))" and x: "contexts (shared_world Y) ctx \<noteq> None"
    and c: "\<And>c. accept_for (shared_world Y) ctx = Some c \<Longrightarrow> stranded (shared_world Y) c"
    and r: "pooled_round grant t S ok' disc_ok gqcs n ctx timed_out Y = Inr Y'" and nn: "ctx \<noteq> Null"
  shows "kept {ctx} (set_option (accept_for (shared_world Y) ctx)) Y Y' \<and> contexts (shared_world Y') ctx = None"
proof (cases "pooled_handle grant t S ok' disc_ok n ctx Y = Inr Y'")
  case True
  show ?thesis by (rule handle_ok [OF ok np _ True]) (rule c)
next
  case False
  obtain d b Y1 where "pooled_Disconnect grant t disc_ok d Y = Inr (b, Y1)" "pooled_destroy t ctx Y1 = Inr Y'"
    using False r nn by (auto simp: pooled_round_def split: if_splits)
  then have e: "rbind (if \<not> False then rbind (pooled_Disconnect grant t disc_ok d Y) (\<lambda>(_, Y1). Inr Y1) else Inr Y)
      (pooled_destroy t ctx) = Inr Y'" by simp
  have "kept {ctx} (set_option (accept_for (shared_world Y) ctx)) Y Y" using ok by (simp add: kept_def)
  then show ?thesis by (rule end_ok [OF _ _ np x e]) simp
qed

subsection \<open>Accepting\<close>

lemma offer_clientE:
  assumes "offer_client grant t sock associated accept_ok c Y = Inr (b, Y')" and "pools_match Y"
  obtains y q P where "clients_at (shared_world Y) c = Some y" and "contexts (shared_world Y) q = None"
    and "opool_rel context_size P (insert q (dom (contexts (shared_world Y))))"
    and "Y' = Y\<lparr>shared_world := snd (submit accept_ok q (new_context q (IoContext 0 c IO_ACCEPT)
       (set_client c (y\<lparr>client_socket := sock\<rparr>) (shared_world Y)))), io_context_pool_m := P\<rparr>"
proof (rule with_contextE [OF assms(1) [unfolded offer_client_def] assms(2)])
  fix q P W
  assume w: "rbind (client_ref (shared_world Y) c) (\<lambda>x.
       let W2 = set_client c (x\<lparr>client_socket := sock\<rparr>) (shared_world Y); W3 = new_context q (IoContext 0 c IO_ACCEPT) W2 in
       rbind (check associated) (\<lambda>_. Inr (submit accept_ok q W3))) = Inr (b, W)"
    and Y': "Y' = Y\<lparr>shared_world := W, io_context_pool_m := P\<rparr>" and q: "contexts (shared_world Y) q = None"
      "opool_rel context_size P (insert q (dom (contexts (shared_world Y))))"
  obtain y where y: "client_ref (shared_world Y) c = Inr y" using w by auto
  have W: "W = snd (submit accept_ok q (new_context q (IoContext 0 c IO_ACCEPT)
       (set_client c (y\<lparr>client_socket := sock\<rparr>) (shared_world Y))))"
    using w y by (auto simp: Let_def)
  show thesis by (rule that [OF conjunct2 [OF client_refD [OF y]] q Y' [unfolded W]])
qed

lemma offer_base:
  assumes ok: "base_ok Y" and st: "stranded (shared_world Y) c"
    and y: "clients_at (shared_world Y) c = Some y" and q: "contexts (shared_world Y) q = None"
    and rel: "opool_rel context_size P (insert q (dom (contexts (shared_world Y))))"
    and Y': "Y' = Y\<lparr>shared_world := snd (submit accept_ok q (new_context q (IoContext 0 c IO_ACCEPT)
       (set_client c (y\<lparr>client_socket := sock\<rparr>) (shared_world Y)))), io_context_pool_m := P\<rparr>"
  shows "base_ok Y' \<and> frame {} {c} (shared_world Y) (shared_world Y') \<and> unlisted (shared_world Y') c \<and>
     dom (clients_at (shared_world Y')) = dom (clients_at (shared_world Y)) \<and>
     (\<not> accept_ok \<longrightarrow> stranded (shared_world Y') c)"
proof -
  let ?x = "IoContext 0 c IO_ACCEPT" and ?W2 = "set_client c (y\<lparr>client_socket := sock\<rparr>) (shared_world Y)"
  let ?W = "snd (submit accept_ok q (new_context q ?x ?W2))"
  have i: "inner (shared_world Y) ?W2" by (rule inner_set_client [OF y])
  note ok2 = inner_base [OF ok i]
  have un2: "unlisted ?W2 c" and no2: "\<forall>v\<in>set (in_flight ?W2). accept_for ?W2 v \<noteq> Some c"
    using stranded_inner [OF i st] unfolding stranded_def by blast+
  have x: "io_type_m ?x = IO_ACCEPT" "client_of ?x = c" by (simp_all add: IoContext_def)
  have q2: "contexts ?W2 q = None" using q by simp
  have "clients_ok ?W" by (rule clients_ok_post) (use base_okD(1) [OF ok2] in simp)
  moreover have "flight_ok ?W"
    by (rule post_flight [OF _ q2]) (use base_okD(2) [OF ok2] un2 no2 x in simp_all)
  moreover have d2: "dom (clients_at ?W2) = dom (clients_at (shared_world Y))" using i by (simp add: inner_def)
  then have "pools_match Y'" using base_okD(3) [OF ok2] rel by (simp add: Y' pools_match_def)
  moreover have "frame {} {c} (shared_world Y) ?W"
    by (rule post_frame [OF q2 _ inner_frame [OF i]]) (simp_all add: x)
  moreover have unW: "unlisted ?W c" using un2 by simp
  moreover have "stranded ?W c" if "\<not> accept_ok"
  proof -
    have "q \<notin> set (in_flight ?W2)" using base_okD(2) [OF ok2] q2 by (auto simp: flight_ok_def)
    then show ?thesis using that no2 unW unfolding stranded_def accept_for_post by auto
  qed
  ultimately show ?thesis using d2 by (simp add: base_ok_def Y')
qed

lemma accept_kept:
  assumes ok: "stream_ok Y" and r: "pooled_accept grant t junk sock associated accept_ok Y = Inr Y'"
  shows "kept {} {} Y Y' \<and> (if current_m (shared_world Y) < limit_m (shared_world Y)
     then \<exists>p. clients_at (shared_world Y) p = None \<and>
       dom (clients_at (shared_world Y')) = insert p (dom (clients_at (shared_world Y))) \<and> unlisted (shared_world Y') p \<and>
       (\<not> accept_ok \<longrightarrow> stranded (shared_world Y') p)
     else Y' = Y)"
proof (cases "current_m (shared_world Y) < limit_m (shared_world Y)")
  case True
  let ?W = "shared_world Y"
  obtain p Y1 where n: "pooled_NewClient grant t junk Y = Inr (p, Y1)" using r by (auto simp: pooled_accept_def)
  let ?W1 = "shared_world Y1"
  have p: "p \<noteq> Null" "clients_at ?W p = None" and ok1: "stream_ok Y1" and st: "stranded ?W1 p"
    and at': "clients_at ?W1 = (clients_at ?W)(p \<mapsto> Client_ctor junk)" and f1: "frame {} {} ?W ?W1"
    using new_client_ok [OF ok n] True by (simp_all add: stranded_def)
  obtain b where o: "offer_client grant t sock associated accept_ok p Y1 = Inr (b, Y')"
    using r n p(1) by (auto simp: pooled_accept_def)
  have o': "manager_ok (shared_world Y') \<and> base_ok Y' \<and> frame {} {p} ?W1 (shared_world Y') \<and> unlisted (shared_world Y') p \<and>
     dom (clients_at (shared_world Y')) = dom (clients_at ?W1) \<and> (\<not> accept_ok \<longrightarrow> stranded (shared_world Y') p)"
  proof (rule offer_clientE [OF o stream_okD(3) [OF ok1]])
    fix y q P assume y: "clients_at ?W1 p = Some y" and q: "contexts ?W1 q = None"
        "opool_rel context_size P (insert q (dom (contexts ?W1)))"
      and Y': "Y' = Y1\<lparr>shared_world := snd (submit accept_ok q (new_context q (IoContext 0 p IO_ACCEPT)
       (set_client p (y\<lparr>client_socket := sock\<rparr>) ?W1))), io_context_pool_m := P\<rparr>"
    have "manager_ok (shared_world Y')"
      unfolding Y' using manager_ok_post [OF manager_ok_set [OF stream_okD(1) [OF ok1] y]] by simp
    then show ?thesis using offer_base [OF stream_okD(6) [OF ok1] st y q Y'] by blast
  qed
  moreover have "frame {} {p} ?W ?W1" by (rule frame_mono [OF f1]) simp_all
  then have "frame {} {p} ?W (shared_world Y')" by (rule frame_trans) (use o' in blast)
  then have "frame {} {} ?W (shared_world Y')" by (rule frame_drop) (simp add: unlisted_def p(2))
  moreover have "dom (clients_at ?W1) = insert p (dom (clients_at ?W))" by (simp add: at')
  ultimately show ?thesis using True p(2) o' by (auto simp: kept_def stream_ok_base)
next
  case False
  then have "Y' = Y" using r by (simp add: pooled_accept_def pooled_NewClient_def)
  then show ?thesis using False ok by (simp add: kept_def)
qed

subsection \<open>What no step changes\<close>

lemma kept_stays:
  assumes "kept X A Y Y'" and "contexts (shared_world Y) p \<noteq> None" and "p \<notin> set (in_flight (shared_world Y))" and "p \<notin> X"
  shows "contexts (shared_world Y') p = contexts (shared_world Y) p \<and> p \<notin> set (in_flight (shared_world Y'))"
  using assms frame_context frame_flight unfolding kept_def by blast

lemma stranded_frame:
  assumes f: "frame X A W W'" and s: "stranded W c" and A: "c \<notin> A" and X: "\<forall>q\<in>X. q \<notin> set (in_flight W')"
  shows "stranded W' c"
proof -
  have u: "unlisted W c" using s by (simp add: stranded_def)
  have "accept_for W' q \<noteq> Some c" if q: "q \<in> set (in_flight W')" for q
  proof
    assume a: "accept_for W' q = Some c"
    have nX: "q \<notin> X" using X q by blast
    show False
    proof (cases "contexts W q = None")
      case True
      then show False using f a nX A u unfolding frame_def by blast
    next
      case False
      then have "contexts W' q = contexts W q" by (rule frame_context [OF f _ nX])
      then have "accept_for W q = Some c" using a by (simp add: accept_for_def)
      moreover have "q \<in> set (in_flight W)" using frame_flight [OF f False nX] q by blast
      ultimately show False using s by (simp add: stranded_def)
    qed
  qed
  then show ?thesis using frame_unlisted [OF f u A] by (simp add: stranded_def)
qed

lemma kept_stranded:
  assumes k: "kept X A Y Y'" and s: "stranded (shared_world Y) c" and A: "c \<notin> A" and X: "\<forall>q\<in>X. contexts (shared_world Y') q = None"
  shows "stranded (shared_world Y') c"
proof -
  have "set (in_flight (shared_world Y')) \<subseteq> dom (contexts (shared_world Y'))"
    using stream_okD(2) [OF kept_ok [OF k]] by (simp add: flight_ok_def)
  then have "\<forall>q\<in>X. q \<notin> set (in_flight (shared_world Y'))" using X by blast
  moreover have "frame X A (shared_world Y) (shared_world Y')" using k by (simp add: kept_def)
  ultimately show ?thesis using stranded_frame [OF _ s A] by blast
qed

lemma completed_base:
  assumes ok: "base_ok Y" and ctx: "ctx \<in> set (in_flight (shared_world Y))"
  shows "base_ok (completed ctx Y)" and "frame {} {} (shared_world Y) (shared_world (completed ctx Y))"
    and "ctx \<notin> set (in_flight (shared_world (completed ctx Y)))"
    and "contexts (shared_world (completed ctx Y)) ctx \<noteq> None" and "ctx \<noteq> Null"
    and "\<And>c. accept_for (shared_world (completed ctx Y)) ctx = Some c \<Longrightarrow> stranded (shared_world (completed ctx Y)) c"
proof -
  let ?W = "shared_world Y" and ?W' = "shared_world (completed ctx Y)"
  have W': "?W' = ?W\<lparr>in_flight := remove1 ctx (in_flight ?W)\<rparr>" by (simp add: completed_def)
  have fl: "distinct (in_flight ?W)" "set (in_flight ?W) \<subseteq> dom (contexts ?W)" using base_okD(2) [OF ok] by (auto simp: flight_ok_def)
  have un: "unlisted ?W' = unlisted ?W" by (rule ext) (simp add: W' unlisted_def)
  have acc: "accept_for ?W' = accept_for ?W" by (rule ext) (simp add: W' accept_for_def)
  have i: "set (in_flight ?W') = set (in_flight ?W) - {ctx}" using fl(1) by (simp add: W' set_remove1_eq)
  have "flight_ok ?W'"
  proof (rule flight_sub [OF base_okD(2) [OF ok]])
    show "distinct (in_flight ?W')" using fl(1) by (simp add: W')
    show "set (in_flight ?W') \<subseteq> set (in_flight ?W)" unfolding i by blast
    show "contexts ?W' p = contexts ?W p" for p by (simp add: W')
    show "unlisted ?W' c" if "unlisted ?W c" for c using that unfolding un .
  qed
  moreover have "clients_ok ?W'" using base_okD(1) [OF ok] by (simp add: W' clients_ok_def)
  moreover have "pools_match (completed ctx Y)" using base_okD(3) [OF ok] by (simp add: completed_def pools_match_def)
  ultimately show "base_ok (completed ctx Y)" by (simp add: base_ok_def)
  show "frame {} {} ?W ?W'"
    unfolding frame_def un acc i by (intro conjI allI ballI impI) (simp_all add: W', auto)
  show "ctx \<notin> set (in_flight ?W')" using i by simp
  have x: "contexts ?W ctx \<noteq> None" using fl(2) ctx by auto
  then show "contexts ?W' ctx \<noteq> None" by (simp add: W')
  show "ctx \<noteq> Null" using held_not_freeable [OF base_okD(5) [OF ok], of ctx] x by auto
  fix c assume a: "accept_for ?W' ctx = Some c"
  then have "unlisted ?W c \<and> (\<forall>q\<in>set (in_flight ?W). accept_for ?W q = Some c \<longrightarrow> q = ctx)"
    using base_okD(2) [OF ok] ctx unfolding flight_ok_def acc by blast
  then show "stranded ?W' c" unfolding stranded_def un acc i by blast
qed

lemma completed_ok:
  assumes ok: "stream_ok Y" and ctx: "ctx \<in> set (in_flight (shared_world Y))"
  shows "kept {} {} Y (completed ctx Y)" and "ctx \<notin> set (in_flight (shared_world (completed ctx Y)))"
    and "contexts (shared_world (completed ctx Y)) ctx \<noteq> None" and "ctx \<noteq> Null"
    and "\<And>c. accept_for (shared_world (completed ctx Y)) ctx = Some c \<Longrightarrow> stranded (shared_world (completed ctx Y)) c"
proof -
  note c = completed_base [OF stream_okD(6) [OF ok] ctx]
  have "manager_ok (shared_world (completed ctx Y))" using stream_okD(1) [OF ok] by (simp add: completed_def manager_ok_def)
  then show "kept {} {} Y (completed ctx Y)" using c(1,2) by (simp add: kept_def stream_ok_base)
qed (rule completed_base [OF stream_okD(6) [OF ok] ctx], assumption?)+

lemma step_keeps:
  assumes step: "stream_step S Y t Y'" and ok: "stream_ok Y"
  shows "stream_ok Y' \<and> limit_m (shared_world Y') = limit_m (shared_world Y) \<and>
     (\<forall>p. contexts (shared_world Y) p \<noteq> None \<and> p \<notin> set (in_flight (shared_world Y)) \<longrightarrow>
        contexts (shared_world Y') p = contexts (shared_world Y) p \<and> p \<notin> set (in_flight (shared_world Y'))) \<and>
     (\<forall>c. stranded (shared_world Y) c \<longrightarrow> stranded (shared_world Y') c)"
proof -
  have simple: ?thesis if k: "kept {} {} Y Y'"
    using k kept_stays [OF k] kept_stranded [OF k] by (auto simp: kept_def frame_def)
  from step show ?thesis
  proof cases
    case (s_round ctx grant ok' disc_ok gqcs n timed_out)
    let ?Y0 = "completed ctx Y"
    note c = completed_ok [OF ok s_round(1)]
    have k: "kept {ctx} (set_option (accept_for (shared_world ?Y0) ctx)) ?Y0 Y'" "contexts (shared_world Y') ctx = None"
      using round_ok [OF kept_ok [OF c(1)] c(2,3) c(5) s_round(2) c(4)] by blast+
    show ?thesis
    proof (intro conjI allI impI)
      show "stream_ok Y'" by (rule kept_ok [OF k(1)])
      show "limit_m (shared_world Y') = limit_m (shared_world Y)" using k(1) c(1) by (simp add: kept_def frame_def)
      fix p assume p: "contexts (shared_world Y) p \<noteq> None \<and> p \<notin> set (in_flight (shared_world Y))"
      then have p0: "contexts (shared_world ?Y0) p = contexts (shared_world Y) p" "p \<notin> set (in_flight (shared_world ?Y0))"
        using kept_stays [OF c(1), of p] by simp_all
      have "p \<notin> {ctx}" using p s_round(1) by auto
      then show "contexts (shared_world Y') p = contexts (shared_world Y) p" "p \<notin> set (in_flight (shared_world Y'))"
        using kept_stays [OF k(1) _ p0(2)] p p0(1) by simp_all
    next
      fix d assume d: "stranded (shared_world Y) d"
      have d0: "stranded (shared_world ?Y0) d" by (rule kept_stranded [OF c(1) d]) simp_all
      have "accept_for (shared_world ?Y0) ctx = accept_for (shared_world Y) ctx"
        by (rule accept_for_cong) (simp add: completed_def)
      then have "d \<notin> set_option (accept_for (shared_world ?Y0) ctx)" using d s_round(1) by (auto simp: stranded_def)
      then show "stranded (shared_world Y') d" by (rule kept_stranded [OF k(1) d0]) (use k(2) in simp)
    qed
  next
    case (s_timeout grant ok' disc_ok)
    then have "Y' = on_world (call_handler (timeout_handler S) Null) Y" by (simp add: pooled_round_def TimeoutHandler_def)
    then show ?thesis using simple kept_call [OF ok] by simp
  next
    case (s_accept grant junk sock associated accept_ok)
    then show ?thesis using simple accept_kept [OF ok] by blast
  next
    case (s_send grant data sz ok' c r)
    then show ?thesis using simple kept_posts [OF ok posts_Send] by (simp add: pooled_posts)
  next
    case (s_disconnect grant ok' c r)
    then show ?thesis using simple kept_posts [OF ok posts_Disconnect] by (simp add: pooled_posts)
  qed
qed

lemma reach_keeps:
  assumes "reach (stream_step S) Y Y'" and "stream_ok Y"
  shows "stream_ok Y' \<and> limit_m (shared_world Y') = limit_m (shared_world Y) \<and>
     (\<forall>p. contexts (shared_world Y) p \<noteq> None \<and> p \<notin> set (in_flight (shared_world Y)) \<longrightarrow>
        contexts (shared_world Y') p = contexts (shared_world Y) p \<and> p \<notin> set (in_flight (shared_world Y'))) \<and>
     (\<forall>c. stranded (shared_world Y) c \<longrightarrow> stranded (shared_world Y') c)"
  using assms(1)
proof (induction rule: reach.induct)
  case reach_refl
  then show ?case using assms(2) by simp
next
  case (reach_step Y1 t Y2)
  note i = reach_step.IH and n = step_keeps [OF reach_step.hyps(2) conjunct1 [OF reach_step.IH]]
  show ?case
  proof (intro conjI allI impI)
    show "stream_ok Y2" using n by blast
    show "limit_m (shared_world Y2) = limit_m (shared_world Y)" using i n by simp
    show "stranded (shared_world Y2) c" if "stranded (shared_world Y) c" for c using that i n by blast
    fix p assume p: "contexts (shared_world Y) p \<noteq> None \<and> p \<notin> set (in_flight (shared_world Y))"
    then have "contexts (shared_world Y1) p = contexts (shared_world Y) p" "p \<notin> set (in_flight (shared_world Y1))"
      using i by blast+
    then show "contexts (shared_world Y2) p = contexts (shared_world Y) p" "p \<notin> set (in_flight (shared_world Y2))"
      using n p by simp_all
  qed
qed

end
