(* ===== verification/StreamPoolsSpec.thy ===== *)
theory StreamPoolsSpec
  imports StreamPoolsInv
begin

section \<open>What the stream server does on its pools\<close>

text \<open>
  Rounds on the pools return when the rounds of theory \<open>StreamServer\<close> do, on the chunks the pools hand out, and the
  pools can serve; and what refused operations leave behind.  The runs are those of \<open>stream_step\<close>, whose steps do not
  overlap; for the steps of the threads taken apart see theories \<open>ClientCount\<close> and \<open>StreamRace\<close>.
\<close>

subsection \<open>A member on the pools is a member on a new context\<close>

lemma with_context_new:
  assumes "stream_ok Y" and "with_context grant t f Y = Inr (r, Y')"
  shows "\<exists>p. contexts (shared_world Y) p = None \<and> f p (shared_world Y) = Inr (r, shared_world Y')"
proof (rule with_contextE [OF assms(2) stream_okD(3) [OF assms(1)]])
  fix p P W assume "f p (shared_world Y) = Inr (r, W)" "Y' = Y\<lparr>shared_world := W, io_context_pool_m := P\<rparr>"
    "contexts (shared_world Y) p = None"
  then show ?thesis by auto
qed

subsection \<open>A round returns\<close>

text \<open>The pools can serve what one round asks for: two contexts, and the freeing of a client.\<close>

definition serves :: "(nat \<Rightarrow> nat \<Rightarrow> bool) \<Rightarrow> nat \<Rightarrow> stream_sys \<Rightarrow> bool" where
  "serves grant t Y \<longleftrightarrow> (\<exists>q P r. ObjectPool_Malloc grant context_size t (io_context_pool_m Y) = Inr (q, P) \<and>
       ObjectPool_Malloc grant context_size t P = Inr r) \<and>
     (\<exists>r. object_pool client_size t (client_pool_m Y) = Inr r)"

lemma opool_Free_total:
  assumes "opool_rel RS S L" and p: "p \<in> L" and o: "object_pool RS t S = Inr r"
  shows "\<exists>S'. ObjectPool_Free RS t S p = Inr S'"
proof -
  obtain G where inv: "opool_inv RS S G" and L: "L = all_live S G" and RS: "RS < 2 ^ 31"
    using assms(1) by (auto simp: opool_rel_def)
  obtain h S1 where r: "r = (h, S1)" by (cases r)
  obtain G1 where i1: "opool_inv RS S1 G1" and l1: "all_live S1 G1 = all_live S G" and ob: "object_pool_m S1 t = Some h"
    using object_pool_ok [OF inv RS o [unfolded r]] by blast
  have "\<exists>S'. obj_free RS t h p S1 = Inr S'" using obj_free_ok [OF i1 ob, of p] p L l1 RS by auto
  then show ?thesis using o r by (simp add: ObjectPool_Free_def)
qed

lemma opool_Malloc_pool: "ObjectPool_Malloc grant RS t S = Inr r \<Longrightarrow> \<exists>r'. object_pool RS t S = Inr r'"
  by (auto simp: ObjectPool_Malloc_def)

lemma remove_client_total:
  assumes ok: "stream_ok Y" and o: "object_pool client_size t (client_pool_m Y) = Inr r"
  shows "\<exists>Y'. pooled_RemoveClient t c Y = Inr Y'"
proof (cases "c \<in> set (clients_list (shared_world Y))")
  case True
  have m: "manager_ok (shared_world Y)" by (rule stream_okD(1) [OF ok])
  then have c: "clients_at (shared_world Y) c \<noteq> None" "c \<noteq> Null" using True by (auto simp: manager_ok_def)
  obtain P where "ObjectPool_Free client_size t (client_pool_m Y) c = Inr P"
    using opool_Free_total [OF stream_okD(4) [OF ok] _ o, of c] c by auto
  then show ?thesis using m True c
    by (auto simp: pooled_RemoveClient_def manager_ok_def lock_cycle pooled_DeleteClient_def DeleteClient_def client_ref_def)
next
  case False
  then show ?thesis using stream_okD(1) [OF ok] by (simp add: pooled_RemoveClient_def manager_ok_def lock_cycle)
qed

text \<open>
  The switch on the pools follows the switch of \<open>StreamServer\<close> for the context the pool hands out; it has taken
  that context if its result is false, and otherwise at most that.
\<close>

lemma switch_total:
  assumes ok: "stream_ok Y" and m: "ObjectPool_Malloc grant context_size t (io_context_pool_m Y) = Inr (q, P)"
    and o: "object_pool client_size t (client_pool_m Y) = Inr o'" and E: "new_ctx E = q" "wsa_ok E = ok'"
    and w: "io_switch S E n ctx ty c (shared_world Y) = Inr (b, W)"
  shows "\<exists>Y'. pooled_switch grant t S ok' n ctx ty c Y = Inr (b, Y') \<and> shared_world Y' = W \<and>
     (io_context_pool_m Y' = P \<or> b \<and> io_context_pool_m Y' = io_context_pool_m Y)"
proof (cases ty)
  case IO_ACCEPT
  obtain W1 W2 W3 where "SetFastSocketOption c (call_handler (pre_accept_handler S) ctx (shared_world Y)) = Inr W1"
    "AddClient c W1 = Inr W2" "PrepareReceive q ok' c W2 = Inr (b, W3)" "W = call_handler (post_accept_handler S) ctx W3"
    using w IO_ACCEPT E by (auto simp: io_switch_def handler_defs)
  then show ?thesis using m IO_ACCEPT
    by (auto simp: pooled_switch_def handler_defs pooled_posts with_context_def on_world_res_def)
next
  case IO_RECV_READY
  then show ?thesis using w m E by (auto simp: pooled_switch_def io_switch_def pooled_posts with_context_def)
next
  case IO_RECV
  obtain d W1 where "PostReceive n (post_receive_handler S) ctx c (shared_world Y) = Inr (d, W1)"
    "PrepareReceive q ok' c W1 = Inr (b, W)"
    using w IO_RECV E by (auto simp: io_switch_def)
  then show ?thesis using m IO_RECV by (auto simp: pooled_switch_def pooled_posts with_context_def on_world_res_def)
next
  case IO_SEND
  then obtain V where "PostSend n c (call_handler (pre_send_handler S) ctx (shared_world Y)) = Inr (b, V)"
    "W = call_handler (post_send_handler S) ctx V"
    using w by (auto simp: io_switch_def handler_defs)
  then show ?thesis using inner_PostSend [of n c _ b V] IO_SEND by (auto simp: pooled_switch_def handler_defs)
next
  case IO_DISCONNECT
  let ?Y0 = "on_world (call_handler (pre_disconnect_handler S) ctx) Y"
  have ok0: "stream_ok ?Y0" by (rule kept_ok [OF kept_call [OF ok]])
  have "object_pool client_size t (client_pool_m ?Y0) = Inr o'" using o by simp
  from remove_client_total [OF ok0 this] obtain Y1 where y1: "pooled_RemoveClient t c ?Y0 = Inr Y1" by blast
  note rw = remove_client_world [OF stream_okD(1) [OF ok0] y1]
  obtain W1 where "RemoveClient c (call_handler (pre_disconnect_handler S) ctx (shared_world Y)) = Inr W1" "b"
    "W = call_handler (post_disconnect_handler S) ctx W1"
    using w IO_DISCONNECT by (auto simp: io_switch_def handler_defs)
  then show ?thesis using y1 rw IO_DISCONNECT by (simp add: pooled_switch_def handler_defs)
qed (use w in \<open>simp_all add: io_switch_def\<close>)

lemma destroy_total:
  assumes ok: "stream_ok Y" and w: "destroy_context ctx (shared_world Y) = Inr W"
    and o: "object_pool context_size t (io_context_pool_m Y) = Inr r"
  shows "\<exists>Y'. pooled_destroy t ctx Y = Inr Y'"
proof -
  have "contexts (shared_world Y) ctx \<noteq> None"
    using w by (auto simp: destroy_context_def context_ref_def split: if_splits option.splits)
  then obtain P where "ObjectPool_Free context_size t (io_context_pool_m Y) ctx = Inr P"
    using opool_Free_total [OF stream_okD(5) [OF ok] _ o, of ctx] by auto
  then show ?thesis using w by (simp add: pooled_destroy_def)
qed

lemma disconnect_destroy_total:
  assumes ok: "stream_ok Y" and m: "ObjectPool_Malloc grant context_size t (io_context_pool_m Y) = Inr (q, P)"
    and w: "Disconnect q disc_ok c (shared_world Y) = Inr (b, W)" and d: "destroy_context ctx W = Inr W'"
  shows "\<exists>Y1 Y'. pooled_Disconnect grant t disc_ok c Y = Inr (b, Y1) \<and> pooled_destroy t ctx Y1 = Inr Y'"
proof -
  let ?Y1 = "Y\<lparr>shared_world := W, io_context_pool_m := P\<rparr>"
  have y1: "pooled_Disconnect grant t disc_ok c Y = Inr (b, ?Y1)" using m w by (simp add: pooled_posts with_context_def)
  then have "stream_ok ?Y1" using kept_ok [OF kept_posts [OF ok posts_Disconnect]] by (simp add: pooled_posts)
  moreover have "object_pool_m P t \<noteq> None" using Malloc_law [OF stream_okD(5) [OF ok] m] by simp
  then obtain h where "object_pool context_size t (io_context_pool_m ?Y1) = Inr (h, P)" using object_pool_existing by fastforce
  ultimately show ?thesis using destroy_total [of ?Y1 ctx W'] d y1 by fastforce
qed

lemma handle_total:
  assumes ok: "stream_ok Y" and np: "ctx \<notin> set (in_flight (shared_world Y))"
    and c: "\<And>c. accept_for (shared_world Y) ctx = Some c \<Longrightarrow> stranded (shared_world Y) c" and s: "serves grant t Y"
    and w: "\<And>E. wsa_ok E = ok' \<Longrightarrow> disconnect_ok E = disc_ok \<Longrightarrow> contexts (shared_world Y) (new_ctx E) = None \<Longrightarrow>
       contexts (shared_world Y) (disconnect_ctx E) = None \<Longrightarrow> \<exists>W'. io_handle S E n ctx (shared_world Y) = Inr W'"
  shows "\<exists>Y'. pooled_handle grant t S ok' disc_ok n ctx Y = Inr Y'"
proof -
  let ?W = "shared_world Y"
  obtain q P d P' o' where m: "ObjectPool_Malloc grant context_size t (io_context_pool_m Y) = Inr (q, P)"
    and m2: "ObjectPool_Malloc grant context_size t P = Inr (d, P')" and o: "object_pool client_size t (client_pool_m Y) = Inr o'"
    using s unfolding serves_def by auto
  note l = Malloc_law [OF stream_okD(5) [OF ok] m]
  have rel: "opool_rel context_size P (insert q (dom (contexts ?W)))" using l by blast
  have q: "contexts ?W q = None" "contexts ?W d = None" "object_pool_m P t \<noteq> None"
    using l Malloc_law [OF rel m2] by auto
  let ?E = "\<lparr>new_ctx = q, disconnect_ctx = d, wsa_ok = ok', disconnect_ok = disc_ok\<rparr>"
  obtain W' where h: "io_handle S ?E n ctx ?W = Inr W'" using w [of ?E] q by auto
  then obtain x where x: "contexts ?W ctx = Some x" "ctx \<noteq> Null"
    by (auto simp: io_handle_def context_ref_def split: if_splits option.splits)
  let ?Y1 = "on_world (\<lambda>W. W\<lparr>contexts := (contexts W)(ctx \<mapsto> x\<lparr>received_m := n\<rparr>)\<rparr>) Y"
  have ok1: "stream_ok ?Y1" using set_context_ok [OF ok x(1) np refl] by blast
  obtain b W2 where sw: "io_switch S ?E n ctx (io_type_m x) (client_of x) (shared_world ?Y1) = Inr (b, W2)"
    and fin: "finish ?E ctx (client_of x) (b, W2) = Inr W'"
    using h io_handle_eq [OF x, of S ?E n] by auto
  have m1: "ObjectPool_Malloc grant context_size t (io_context_pool_m ?Y1) = Inr (q, P)"
    and o1: "object_pool client_size t (client_pool_m ?Y1) = Inr o'" using m o by simp_all
  obtain Y2 where y2: "pooled_switch grant t S ok' n ctx (io_type_m x) (client_of x) ?Y1 = Inr (b, Y2)" "shared_world Y2 = W2"
    and pool: "io_context_pool_m Y2 = P \<or> b \<and> io_context_pool_m Y2 = io_context_pool_m ?Y1"
    using switch_total [OF ok1 m1 o1 _ _ sw] by auto
  have ok2: "stream_ok Y2" by (rule kept_ok [OF handle_ok_parts(3) [OF ok np c x(1) y2(1)]])
  have own: "\<exists>r. object_pool context_size t (io_context_pool_m Y2) = Inr r"
    using pool object_pool_existing [of P t _ context_size] q(3) opool_Malloc_pool [OF m1] by auto
  have "\<exists>Y'. pooled_end grant t disc_ok ctx (client_of x) (b, Y2) = Inr Y'"
  proof (cases b)
    case True
    then have "destroy_context ctx (shared_world Y2) = Inr W'" using fin y2(2) by (simp add: finish_def)
    then show ?thesis using destroy_total [OF ok2] own True by (auto simp: pooled_end_def)
  next
    case False
    then obtain e W3 where "Disconnect d disc_ok (client_of x) (shared_world Y2) = Inr (e, W3)" "destroy_context ctx W3 = Inr W'"
      using fin y2(2) by (auto simp: finish_def)
    moreover have "ObjectPool_Malloc grant context_size t (io_context_pool_m Y2) = Inr (d, P')" using pool False m2 by simp
    ultimately obtain Y3 Y' where "pooled_Disconnect grant t disc_ok (client_of x) Y2 = Inr (e, Y3)" "pooled_destroy t ctx Y3 = Inr Y'"
      using disconnect_destroy_total [OF ok2] by blast
    then show ?thesis using False by (simp add: pooled_end_def)
  qed
  then show ?thesis using y2(1) x by (simp add: pooled_handle_def)
qed

lemma round_total:
  assumes ok: "stream_ok Y" and np: "ctx \<notin> set (in_flight (shared_world Y))" and nn: "ctx \<noteq> Null"
    and c: "\<And>c. accept_for (shared_world Y) ctx = Some c \<Longrightarrow> stranded (shared_world Y) c" and s: "serves grant t Y"
    and w: "\<And>E. wsa_ok E = ok' \<Longrightarrow> disconnect_ok E = disc_ok \<Longrightarrow> contexts (shared_world Y) (new_ctx E) = None \<Longrightarrow>
       contexts (shared_world Y) (disconnect_ctx E) = None \<Longrightarrow> \<exists>W'. iocp_round S E gqcs n ctx timed_out (shared_world Y) = Inr W'"
  shows "\<exists>Y'. pooled_round grant t S ok' disc_ok gqcs n ctx timed_out Y = Inr Y'"
proof -
  let ?W = "shared_world Y"
  obtain q P where m: "ObjectPool_Malloc grant context_size t (io_context_pool_m Y) = Inr (q, P)"
    using s by (auto simp: serves_def)
  have q: "contexts ?W q = None" using Malloc_law [OF stream_okD(5) [OF ok] m] by auto
  let ?E = "\<lparr>new_ctx = q, disconnect_ctx = q, wsa_ok = ok', disconnect_ok = disc_ok\<rparr>"
  obtain W' where h: "iocp_round S ?E gqcs n ctx timed_out ?W = Inr W'" using w [of ?E] q by auto
  then obtain x where x: "contexts ?W ctx = Some x"
    using nn by (auto simp: iocp_round_def io_handle_def context_ref_def split: if_splits option.splits)
  show ?thesis
  proof (cases "(\<not> gqcs \<or> n = 0) \<and> (io_type_m x = IO_RECV \<or> io_type_m x = IO_SEND)")
    case True
    then obtain b W1 where "Disconnect q disc_ok (client_of x) ?W = Inr (b, W1)" "destroy_context ctx W1 = Inr W'"
      using h x nn by (auto simp: iocp_round_def)
    from disconnect_destroy_total [OF ok m this] show ?thesis using True x nn by (auto simp: pooled_round_def)
  next
    case False
    have hw: "\<exists>W'. io_handle S E n ctx ?W = Inr W'"
      if "wsa_ok E = ok'" "disconnect_ok E = disc_ok" "contexts ?W (new_ctx E) = None" "contexts ?W (disconnect_ctx E) = None" for E
      using w [OF that] False x nn by (auto simp: iocp_round_def split: if_splits)
    have "\<exists>Y'. pooled_handle grant t S ok' disc_ok n ctx Y = Inr Y'" by (rule handle_total [OF ok np c s hw])
    then show ?thesis using False x nn by (auto simp: pooled_round_def)
  qed
qed

subsection \<open>Pools that can serve\<close>

text \<open>The pool of the calling thread grows by at most \<open>n\<close> chunks next time.\<close>

definition grows_by :: "nat \<Rightarrow> nat \<Rightarrow> opool \<Rightarrow> nat \<Rightarrow> bool" where
  "grows_by RS t S n \<longleftrightarrow> (\<exists>h S1 P. object_pool RS t S = Inr (h, S1) \<and> objs S1 h = Some P \<and> unat (next_size_m P) \<le> n)"

lemma grows_init: "grows_by RS t (opool_init m) 64"
proof -
  have "threads_ok (opool_init m)" using opool_init_inv [OF mem_ok_empty] by (simp add: opool_inv_def opool_init_def threads_ok_def)
  moreover have "object_pool_m (opool_init m) t = None" "nobjs (opool_init m) = 0" by (simp_all add: opool_init_def)
  ultimately have "object_pool RS t (opool_init m) = Inr (1, new_object RS t (opool_init m))"
    using object_pool_new [of "opool_init m" t RS] by simp
  moreover have "objs (new_object RS t (opool_init m)) 1 = Some (Pool_ctor (of_nat (RS + 2)))"
    by (simp add: new_object_def opool_init_def)
  ultimately show ?thesis unfolding grows_by_def by (intro exI conjI) (auto simp: Pool_ctor_def)
qed

lemma malloc_granted:
  assumes rel: "opool_rel RS S L" and RS: "RS \<le> 1000" and g: "grows_by RS t S n" and n: "n \<le> 2 ^ 20"
  shows "\<exists>p S'. ObjectPool_Malloc (\<lambda>_ _. True) RS t S = Inr (p, S') \<and> grows_by RS t S' (2 * n)"
proof -
  obtain h S1 P where o: "object_pool RS t S = Inr (h, S1)" and P: "objs S1 h = Some P" and s: "unat (next_size_m P) \<le> n"
    using g by (auto simp: grows_by_def)
  obtain G where inv: "opool_inv RS S G" using rel by (auto simp: opool_rel_def)
  obtain G1 where i1: "opool_inv RS S1 G1" and own: "object_pool_m S1 t = Some h"
    using object_pool_ok [OF inv _ o] rel by (auto simp: opool_rel_def)
  have pi: "pool_inv (omem S1) P (fst (G1 h)) (snd (G1 h))" and a: "asize P = max (RS + 2) 8"
    using i1 P by (auto simp: opool_inv_def pools_ok_def)
  have "\<exists>p P' m'. Malloc (\<lambda>_ _. True) P (omem S1) = Inr (p, P', m') \<and> p \<noteq> Null \<and> unat (next_size_m P') \<le> 2 * n"
  proof (cases "snd (G1 h)")
    case (Cons x fl)
    then obtain k where k: "Malloc (\<lambda>_ _. True) P (omem S1) = Inr (x, P\<lparr>head_m := k\<rparr>, omem S1)"
      using Malloc_from_list pi by metis
    then have "x \<noteq> Null" using Malloc_cases [OF pi, of "\<lambda>_ _. True"] chunks_Ptr Cons by force
    then show ?thesis using k s by auto
  next
    case Nil
    have "unat (next_size_m P) * asize P \<le> 2 ^ 20 * 1002"
      by (rule mult_le_mono) (use s n a RS in auto)
    then have fits: "unat (next_size_m P) * asize P + 8 < address_space" by (simp add: address_space_def)
    obtain P' m' where "Malloc (\<lambda>_ _. True) P (omem S1) = Inr (Ptr (nextb (omem S1)) 8, P', m')"
      "next_size_m P' = 2 * next_size_m P"
      using Malloc_new_block [OF pi [unfolded Nil] _ fits, of "\<lambda>_ _. True"] by auto
    moreover have "unat (2 * next_size_m P) \<le> 2 * unat (next_size_m P)"
      using unat_mult_lem' [of 2 "next_size_m P"] s n by simp
    ultimately show ?thesis using s by fastforce
  qed
  then obtain p P' m' where m: "Malloc (\<lambda>_ _. True) P (omem S1) = Inr (p, P', m')" "p \<noteq> Null" "unat (next_size_m P') \<le> 2 * n"
    by blast
  obtain S' where S': "obj_malloc (\<lambda>_ _. True) RS t h S1 = Inr (p, S')" using obj_malloc_succeeds [OF i1 P m(1,2)] by blast
  then have "object_pool_m S' t = Some h" "objs S' h = Some P'"
    using own P m(1) by (auto simp: obj_malloc_def set_obj_def the_obj_def)
  then have "grows_by RS t S' (2 * n)" using object_pool_existing m(3) unfolding grows_by_def by blast
  then show ?thesis using o S' by (auto simp: ObjectPool_Malloc_def)
qed

lemma serves_granted:
  assumes ok: "stream_ok Y" and g: "grows_by context_size t (io_context_pool_m Y) n" "n \<le> 2 ^ 19"
    and c: "grows_by client_size t (client_pool_m Y) m"
  shows "serves (\<lambda>_ _. True) t Y"
proof -
  have rs: "context_size \<le> 1000" by (simp add: context_size_def)
  note rel = stream_okD(5) [OF ok]
  obtain q P where q: "ObjectPool_Malloc (\<lambda>_ _. True) context_size t (io_context_pool_m Y) = Inr (q, P)"
    and g2: "grows_by context_size t P (2 * n)" using malloc_granted [OF rel rs g(1)] g(2) by auto
  have rel2: "opool_rel context_size P (insert q (dom (contexts (shared_world Y))))" using Malloc_law [OF rel q] by blast
  obtain r where "ObjectPool_Malloc (\<lambda>_ _. True) context_size t P = Inr r"
    using malloc_granted [OF rel2 rs g2] g(2) by auto
  then show ?thesis using q c unfolding serves_def grows_by_def by blast
qed

text \<open>The first accept of a server, for witnesses.\<close>

lemma stream_ok_limit: "stream_ok (on_world (\<lambda>W. W\<lparr>limit_m := limit\<rparr>) stream_init)"
  using stream_ok_init
  by (simp add: stream_ok_def manager_ok_def flight_ok_def pools_match_def stream_init_def world_init_def)

lemma first_accept:
  assumes "0 < limit"
  shows "\<exists>Y p ctx. pooled_accept (\<lambda>_ _. True) 0 0 7 True b (on_world (\<lambda>W. W\<lparr>limit_m := limit\<rparr>) stream_init) = Inr Y \<and>
     p \<noteq> Null \<and> contexts (shared_world Y) = [ctx \<mapsto> IoContext 0 p IO_ACCEPT] \<and>
     in_flight (shared_world Y) = (if b then [ctx] else []) \<and> serves (\<lambda>_ _. True) 0 Y \<and>
     clients_at (shared_world Y) = [p \<mapsto> (Client_ctor 0)\<lparr>client_socket := 7\<rparr>] \<and> clients_list (shared_world Y) = []"
proof -
  let ?I = "on_world (\<lambda>W. W\<lparr>limit_m := limit\<rparr>) stream_init"
  have ok: "stream_ok ?I" by (rule stream_ok_limit)
  have r: "opool_rel client_size (opool_init empty_mem) {}" "opool_rel context_size (opool_init empty_mem) {}"
    by (simp_all add: opool_init_rel mem_ok_empty client_size_def context_size_def)
  have sz: "client_size \<le> 1000" "context_size \<le> 1000" by (simp_all add: client_size_def context_size_def)
  obtain p P where p: "ObjectPool_Malloc (\<lambda>_ _. True) client_size 0 (opool_init empty_mem) = Inr (p, P)"
    "grows_by client_size 0 P 128" using malloc_granted [OF r(1) sz(1) grows_init [where t = 0]] by auto
  obtain ctx Q where q: "ObjectPool_Malloc (\<lambda>_ _. True) context_size 0 (opool_init empty_mem) = Inr (ctx, Q)"
    "grows_by context_size 0 Q 128" using malloc_granted [OF r(2) sz(2) grows_init [where t = 0]] by auto
  have nn: "p \<noteq> Null" using Malloc_law [OF r(1) p(1)] by simp
  have n: "pooled_NewClient (\<lambda>_ _. True) 0 0 ?I = Inr (p, ?I\<lparr>shared_world := snd (NewClient p 0 (shared_world ?I)), client_pool_m := P\<rparr>)"
    using p(1) assms by (simp add: pooled_NewClient_def stream_init_def world_init_def NewClient_def)
  have "\<exists>Y. pooled_accept (\<lambda>_ _. True) 0 0 7 True b ?I = Inr Y \<and> io_context_pool_m Y = Q \<and> client_pool_m Y = P \<and>
    contexts (shared_world Y) = [ctx \<mapsto> IoContext 0 p IO_ACCEPT] \<and> in_flight (shared_world Y) = (if b then [ctx] else []) \<and>
    clients_at (shared_world Y) = [p \<mapsto> (Client_ctor 0)\<lparr>client_socket := 7\<rparr>] \<and> clients_list (shared_world Y) = []"
    using n q(1) nn assms
    by (simp add: pooled_accept_def offer_client_def stream_init_def world_init_def NewClient_def with_context_def Let_def split_beta)
  then obtain Y where Y: "pooled_accept (\<lambda>_ _. True) 0 0 7 True b ?I = Inr Y" "io_context_pool_m Y = Q" "client_pool_m Y = P"
    "contexts (shared_world Y) = [ctx \<mapsto> IoContext 0 p IO_ACCEPT]" "in_flight (shared_world Y) = (if b then [ctx] else [])"
    "clients_at (shared_world Y) = [p \<mapsto> (Client_ctor 0)\<lparr>client_socket := 7\<rparr>]" "clients_list (shared_world Y) = []"
    by blast
  have "stream_ok Y" using accept_kept [OF ok Y(1)] by (simp add: kept_def)
  then have "serves (\<lambda>_ _. True) 0 Y" using serves_granted [of Y 0 128 128] Y(2,3) p(2) q(2) by simp
  then show ?thesis using Y nn by blast
qed

lemma limit_init: "on_world (\<lambda>W. W\<lparr>limit_m := 10000\<rparr>) stream_init = stream_init"
  by (simp add: on_world_def stream_init_def world_init_def)

lemma accepted_reach:
  "\<exists>Y p ctx. reach (stream_step S) stream_init Y \<and> p \<noteq> Null \<and> contexts (shared_world Y) = [ctx \<mapsto> IoContext 0 p IO_ACCEPT] \<and>
     in_flight (shared_world Y) = [ctx] \<and> serves (\<lambda>_ _. True) 0 Y \<and>
     clients_at (shared_world Y) = [p \<mapsto> (Client_ctor 0)\<lparr>client_socket := 7\<rparr>]"
proof -
  obtain Y p ctx where Y: "pooled_accept (\<lambda>_ _. True) 0 0 7 True True stream_init = Inr Y" "p \<noteq> Null"
    "contexts (shared_world Y) = [ctx \<mapsto> IoContext 0 p IO_ACCEPT]" "in_flight (shared_world Y) = [ctx]" "serves (\<lambda>_ _. True) 0 Y"
    "clients_at (shared_world Y) = [p \<mapsto> (Client_ctor 0)\<lparr>client_socket := 7\<rparr>]"
    using first_accept [of 10000 True, unfolded limit_init] by auto
  have "reach (stream_step S) stream_init Y" by (rule reach_one) (rule s_accept [OF Y(1)])
  then show ?thesis using Y(2-6) by blast
qed

lemma stream_reach_ok:
  assumes "reach (stream_step S) stream_init Y"
  shows "stream_ok Y" and "limit_m (shared_world Y) = 10000"
  using reach_keeps [OF assms stream_ok_init] by (simp_all add: stream_init_def world_init_def)

text \<open>A round on a completion, from the invariant.\<close>

lemma completed_round:
  assumes ok: "stream_ok Y" and f: "ctx \<in> set (in_flight (shared_world Y))"
    and r: "pooled_round grant t S ok' disc_ok gqcs n ctx timed_out (completed ctx Y) = Inr Y'"
  shows "stream_ok Y' \<and> contexts (shared_world Y') ctx = None"
proof -
  note c = completed_ok [OF ok f]
  show ?thesis using round_ok [OF kept_ok [OF c(1)] c(2,3) c(5) r c(4)] by (auto simp: kept_def)
qed

lemma Produce_locks: "Produce n B = Inr B' \<Longrightarrow> Lock (buf_lock B') = None"
  by (auto simp: Produce_def Lock_eq Let_def split: option.splits if_splits)

text \<open>Accepts that \<open>AcceptEx\<close> refuses, one after the other.\<close>

fun refused_accepts :: "((nat \<Rightarrow> nat \<Rightarrow> bool) \<times> nat \<times> nat \<times> nat) list \<Rightarrow> stream_sys \<Rightarrow> stream_sys res" where
  "refused_accepts [] Y = Inr Y"
| "refused_accepts ((grant, t, junk, sock) # rs) Y =
     rbind (pooled_accept grant t junk sock True False Y) (refused_accepts rs)"

lemma refused_accepts_strand:
  assumes "stream_ok Y" and "\<forall>c. clients_at (shared_world Y) c \<noteq> None \<longrightarrow> stranded (shared_world Y) c"
    and "refused_accepts rs Y = Inr Y'"
  shows "stream_ok Y' \<and> limit_m (shared_world Y') = limit_m (shared_world Y) \<and>
     (\<forall>c. clients_at (shared_world Y') c \<noteq> None \<longrightarrow> stranded (shared_world Y') c) \<and>
     (card (dom (clients_at (shared_world Y'))) = card (dom (clients_at (shared_world Y))) + length rs \<or>
      \<not> current_m (shared_world Y') < limit_m (shared_world Y'))"
  using assms
proof (induction rs arbitrary: Y)
  case Nil
  then show ?case by simp
next
  case (Cons r rs)
  obtain grant t junk sock where r: "r = (grant, t, junk, sock)" by (cases r)
  obtain Y1 where a: "pooled_accept grant t junk sock True False Y = Inr Y1" and go: "refused_accepts rs Y1 = Inr Y'"
    using Cons.prems(3) r by auto
  note k = accept_kept [OF Cons.prems(1) a]
  then have k1: "kept {} {} Y Y1" by blast
  have lim: "limit_m (shared_world Y1) = limit_m (shared_world Y)" using k1 by (simp add: kept_def frame_def)
  show ?case
  proof (cases "current_m (shared_world Y) < limit_m (shared_world Y)")
    case True
    then obtain p where p: "clients_at (shared_world Y) p = None" "stranded (shared_world Y1) p"
      and d: "dom (clients_at (shared_world Y1)) = insert p (dom (clients_at (shared_world Y)))" using k by auto
    have all: "\<forall>c. clients_at (shared_world Y1) c \<noteq> None \<longrightarrow> stranded (shared_world Y1) c"
    proof (intro allI impI)
      fix c assume "clients_at (shared_world Y1) c \<noteq> None"
      then have "c = p \<or> clients_at (shared_world Y) c \<noteq> None" using d by blast
      then show "stranded (shared_world Y1) c" using p(2) Cons.prems(2) kept_stranded [OF k1] by blast
    qed
    have "finite (dom (clients_at (shared_world Y)))" using stream_okD(1) [OF Cons.prems(1)] by (simp add: manager_ok_def)
    then have "card (dom (clients_at (shared_world Y1))) = Suc (card (dom (clients_at (shared_world Y))))"
      using p(1) by (simp add: d domIff)
    then show ?thesis using Cons.IH [OF kept_ok [OF k1] all go] lim by auto
  next
    case False
    then have e: "Y1 = Y" using k by simp
    have "Y' = Y" using go False unfolding e
    proof (induction rs)
      case (Cons q qs)
      then show ?case by (cases q) (auto simp: pooled_accept_def pooled_NewClient_def)
    qed simp
    then show ?thesis using Cons.prems False by simp
  qed
qed

lemma refused_accepts_fill:
  assumes "stream_ok Y0" and "refused_accepts rs Y0 = Inr Y" and "\<forall>c. clients_at (shared_world Y0) c = None"
    and "unat (limit_m (shared_world Y0)) \<le> length rs"
  obtains C where "stream_ok Y" and "limit_m (shared_world Y) = limit_m (shared_world Y0)"
    and "\<forall>c\<in>C. stranded (shared_world Y) c" and "unat (limit_m (shared_world Y0)) \<le> card C"
proof -
  have e: "dom (clients_at (shared_world Y0)) = {}" using assms(3) by auto
  have "\<forall>c. clients_at (shared_world Y0) c \<noteq> None \<longrightarrow> stranded (shared_world Y0) c" using assms(3) by simp
  note s = refused_accepts_strand [OF assms(1) this assms(2)]
  have "unat (current_m (shared_world Y)) = card (dom (clients_at (shared_world Y)))"
    using s stream_okD(1) by (auto simp: manager_ok_def)
  then have "unat (limit_m (shared_world Y0)) \<le> card (dom (clients_at (shared_world Y)))"
    using s assms(4) unfolding e by (auto simp: word_less_nat_alt)
  then show thesis using that [of "dom (clients_at (shared_world Y))"] s by blast
qed

lemma full_accept:
  "\<not> current_m (shared_world Y) < limit_m (shared_world Y) \<Longrightarrow> pooled_accept grant t junk sock a b Y = Inr Y"
  by (simp add: pooled_accept_def pooled_NewClient_def)

lemma stranded_full:
  assumes ok: "stream_ok Y" and C: "\<forall>c\<in>C. stranded (shared_world Y) c" "unat (limit_m (shared_world Y)) \<le> card C"
  shows "\<not> current_m (shared_world Y) < limit_m (shared_world Y)"
proof -
  have "finite (dom (clients_at (shared_world Y)))" "unat (current_m (shared_world Y)) = card (dom (clients_at (shared_world Y)))"
    using stream_okD(1) [OF ok] by (simp_all add: manager_ok_def)
  moreover have "C \<subseteq> dom (clients_at (shared_world Y))" using C(1) by (auto simp: stranded_def unlisted_def)
  ultimately show ?thesis using C(2) card_mono [of "dom (clients_at (shared_world Y))" C] by (simp add: word_less_nat_alt)
qed

lemma stranded_limit:
  assumes ok: "stream_ok Y"
  shows "card {c. stranded (shared_world Y) c} \<le> unat (limit_m (shared_world Y))"
proof -
  have m: "finite (dom (clients_at (shared_world Y)))" "card (dom (clients_at (shared_world Y))) \<le> unat (limit_m (shared_world Y))"
    using stream_okD(1) [OF ok] by (simp_all add: manager_ok_def word_le_nat_alt)
  have "{c. stranded (shared_world Y) c} \<subseteq> dom (clients_at (shared_world Y))" by (auto simp: stranded_def unlisted_def)
  then show ?thesis using card_mono [OF m(1)] m(2) by (meson le_trans)
qed

lemma completion_returns:
  assumes "reach (stream_step S) stream_init Y" and "ctx \<in> set (in_flight (shared_world Y))"
    and "contexts (shared_world Y) ctx = Some x" and "serves grant t Y"
    and ty: "io_type_m x = IO_ACCEPT \<or> io_type_m x = IO_DISCONNECT \<or> clients_at (shared_world Y) (client_of x) \<noteq> None \<and>
      (io_type_m x = IO_RECV_READY \<or> (io_type_m x = IO_RECV \<or> io_type_m x = IO_SEND) \<and> (\<not> gqcs \<or> n = 0))"
  shows "\<exists>Y'. pooled_round grant t S ok' disc_ok gqcs n ctx timed_out (completed ctx Y) = Inr Y' \<and>
     stream_ok Y' \<and> contexts (shared_world Y') ctx = None"
proof -
  let ?Y = "completed ctx Y"
  have ok: "stream_ok Y" by (rule stream_reach_ok [OF assms(1)])
  note c = completed_ok [OF ok assms(2)]
  have s: "contexts (shared_world ?Y) = contexts (shared_world Y)" "clients_at (shared_world ?Y) = clients_at (shared_world Y)"
    "clients_list (shared_world ?Y) = clients_list (shared_world Y)" by (simp_all add: completed_def)
  have m: "manager_ok (shared_world ?Y)" by (rule stream_okD(1) [OF kept_ok [OF c(1)]])
  have sv: "serves grant t ?Y" using assms(4) by (simp add: serves_def completed_def)
  have st: "unlisted (shared_world ?Y) (client_of x)" if "io_type_m x = IO_ACCEPT"
    using c(5) [of "client_of x"] that assms(3) by (simp add: accept_for_def s stranded_def)
  have cl: "io_type_m x = IO_DISCONNECT \<or> clients_at (shared_world ?Y) (client_of x) \<noteq> None"
    using ty st by (auto simp: unlisted_def s)
  have "\<exists>W'. iocp_round S E gqcs n ctx timed_out (shared_world ?Y) = Inr W'"
    if "wsa_ok E = ok'" "disconnect_ok E = disc_ok" "contexts (shared_world ?Y) (new_ctx E) = None"
      "contexts (shared_world ?Y) (disconnect_ctx E) = None" for E
  proof -
    have x: "contexts (shared_world ?Y) ctx = Some x" using assms(3) by (simp add: s)
    have fresh: "new_ctx E \<noteq> ctx" "disconnect_ctx E \<noteq> ctx" using that(3,4) x by auto
    have "io_type_m x = IO_DISCONNECT \<or> clients_at (shared_world ?Y) (client_of x) \<noteq> None \<and>
      (io_type_m x = IO_ACCEPT \<and> client_of x \<notin> set (clients_list (shared_world ?Y)) \<or> io_type_m x = IO_RECV_READY \<or>
       (io_type_m x = IO_RECV \<or> io_type_m x = IO_SEND) \<and> (\<not> gqcs \<or> n = 0))"
      using ty cl st by (auto simp: unlisted_def)
    from iocp_round_safe [OF m x c(4) fresh this] show ?thesis by blast
  qed
  from round_total [OF kept_ok [OF c(1)] c(2,4) c(5) sv this]
  obtain Y' where "pooled_round grant t S ok' disc_ok gqcs n ctx timed_out ?Y = Inr Y'" by blast
  then show ?thesis using completed_round [OF ok assms(2)] by blast
qed

subsection \<open>Properties\<close>

text \<open>
  C7. Completions are handled, as long as a round that needs the client finds it: in a run whose accepts, rounds, sends and
  disconnects do not overlap, when the completion of an accept or of a disconnect comes in, or that of a
  zero-byte receive or of a failed or empty receive or send for a client that still exists, and the pools can serve two
  more contexts, the round of the worker returns, keeps the server consistent and frees the context.
\<close>

theorem completions_handled:
  assumes "reach (stream_step S) stream_init Y" and "ctx \<in> set (in_flight (shared_world Y))"
    and "contexts (shared_world Y) ctx = Some x" and "serves grant t Y"
    and ty: "io_type_m x = IO_ACCEPT \<or> io_type_m x = IO_DISCONNECT \<or> clients_at (shared_world Y) (client_of x) \<noteq> None \<and>
      (io_type_m x = IO_RECV_READY \<or> (io_type_m x = IO_RECV \<or> io_type_m x = IO_SEND) \<and> (\<not> gqcs \<or> n = 0))"
  shows "\<exists>Y'. pooled_round grant t S ok' disc_ok gqcs n ctx timed_out (completed ctx Y) = Inr Y' \<and>
     stream_ok Y' \<and> contexts (shared_world Y') ctx = None"
  by (rule completion_returns [OF assms])

theorem completions_handled_witness:
  "\<exists>Y ctx Y'. reach (stream_step (Server_ctor 0)) stream_init Y \<and> in_flight (shared_world Y) = [ctx] \<and>
     pooled_round (\<lambda>_ _. True) 0 (Server_ctor 0) True True True 0 ctx False (completed ctx Y) = Inr Y' \<and>
     contexts (shared_world Y') ctx = None"
proof -
  obtain Y p ctx where Y: "reach (stream_step (Server_ctor 0)) stream_init Y"
    "contexts (shared_world Y) = [ctx \<mapsto> IoContext 0 p IO_ACCEPT]" "in_flight (shared_world Y) = [ctx]" "serves (\<lambda>_ _. True) 0 Y"
    using accepted_reach [of "Server_ctor 0"] by blast
  have "contexts (shared_world Y) ctx = Some (IoContext 0 p IO_ACCEPT)" "ctx \<in> set (in_flight (shared_world Y))"
    "io_type_m (IoContext 0 p IO_ACCEPT) = IO_ACCEPT" using Y by (simp_all add: IoContext_def)
  from completions_handled [OF Y(1) this(2,1) Y(4) disjI1 [OF this(3)], of True True True 0 False] show ?thesis
    using Y(1,3) by blast
qed

text \<open>
  C33. A send that \<open>WSASend\<close> refuses does lasting damage: \<open>Send\<close> reports the failure, but the context it allocated is
  never freed, whatever the threads do afterwards, and the lock of the client's send buffer stays
  taken, so that the next \<open>Send\<close> to the client does not return.
\<close>

theorem refused_send_damage:
  assumes "reach (stream_step S) stream_init Y0" and "pooled_Send grant t data sz False c Y0 = Inr (r, Y)"
  shows "\<not> r \<and> (\<exists>p x. contexts (shared_world Y0) p = None \<and> client_of x = c \<and> io_type_m x = IO_SEND \<and>
       (\<forall>Y'. reach (stream_step S) Y Y' \<longrightarrow> contexts (shared_world Y') p = Some x \<and> p \<notin> set (in_flight (shared_world Y')))) \<and>
     (\<exists>f. pooled_Send grant' t' data' sz' ok' c Y = Inl f)"
proof -
  note ok0 = stream_reach_ok(1) [OF assms(1)]
  have w: "with_context grant t (\<lambda>p. Send data sz p False c) Y0 = Inr (r, Y)" using assms(2) by (simp add: pooled_posts)
  have ok: "stream_ok Y" using kept_ok [OF kept_posts [OF ok0 posts_Send w]] .
  obtain p where p: "contexts (shared_world Y0) p = None" and s: "Send data sz p False c (shared_world Y0) = Inr (r, shared_world Y)"
    using with_context_new [OF ok0 w] by blast
  obtain y bs B2 where y: "client_ref (shared_world Y0) c = Inr y"
    and B2: "Produce sz ((send_buffer y)\<lparr>buf_bytes := bs\<rparr>) = Inr B2" and r: "\<not> r"
    and W: "shared_world Y = new_context p ((IoContext 0 c IO_SEND)\<lparr>wsabuf_len := sz,
        wsabuf_buf := Some (GetBuffer ((send_buffer y)\<lparr>buf_bytes := bs\<rparr>))\<rparr>) (set_client c (y\<lparr>send_buffer := B2\<rparr>) (shared_world Y0))"
    using s by (auto simp: Send_def Let_def submit_def)
  have np: "p \<notin> set (in_flight (shared_world Y))"
    using stream_okD(2) [OF ok0] p by (auto simp: W flight_ok_def)
  obtain x where x: "contexts (shared_world Y) p = Some x" "client_of x = c" "io_type_m x = IO_SEND"
    by (simp add: W IoContext_def)
  have leak: "contexts (shared_world Y') p = Some x \<and> p \<notin> set (in_flight (shared_world Y'))"
    if "reach (stream_step S) Y Y'" for Y'
    using reach_keeps [OF that ok] x(1) np by simp
  have c: "c \<noteq> Null" using client_refD [OF y] by simp
  have "Send data' sz' q ok' c (shared_world Y) \<noteq> Inr z" for q z
    using c Produce_locks [OF B2]
    by (auto simp: Send_def Let_def W Produce_def split: option.splits)
  then have "pooled_Send grant' t' data' sz' ok' c Y \<noteq> Inr z" for z by (auto simp: pooled_posts with_context_def)
  then have "\<exists>f. pooled_Send grant' t' data' sz' ok' c Y = Inl f" by (cases "pooled_Send grant' t' data' sz' ok' c Y") auto
  then show ?thesis using r p x(2,3) leak by blast
qed

theorem refused_send_damage_witness:
  "\<exists>Y0 Y p. reach (stream_step (Server_ctor 0)) stream_init Y0 \<and>
     pooled_Send (\<lambda>_ _. True) 0 [1, 2] 2 False p Y0 = Inr (False, Y) \<and>
     (\<exists>f. pooled_Send (\<lambda>_ _. True) 0 [3] 1 True p Y = Inl f)"
proof -
  obtain Y0 p where Y0: "reach (stream_step (Server_ctor 0)) stream_init Y0" "p \<noteq> Null" "serves (\<lambda>_ _. True) 0 Y0"
    "clients_at (shared_world Y0) p = Some ((Client_ctor 0)\<lparr>client_socket := 7\<rparr>)"
    using accepted_reach [of "Server_ctor 0"] by (metis fun_upd_same)
  obtain q P where q: "ObjectPool_Malloc (\<lambda>_ _. True) context_size 0 (io_context_pool_m Y0) = Inr (q, P)"
    using Y0(3) by (auto simp: serves_def)
  have i: "idle (Init 512)" "idle ((Init 512)\<lparr>buf_bytes := [1, 2] @ replicate 510 0\<rparr>)" by (simp_all add: Init_def idle_def)
  have "\<exists>W. Send [1, 2] 2 q False p (shared_world Y0) = Inr (False, W)"
    using Y0(2,4) Produce_idle(1) [OF i(2), of 2]
    by (simp add: Send_def Let_def Client_ctor_def SEND_BUFFER_SIZE_def RECV_BUFFER_SIZE_def Init_def GetBuffer_def copy_range_def submit_def)
  then obtain Y where s: "pooled_Send (\<lambda>_ _. True) 0 [1, 2] 2 False p Y0 = Inr (False, Y)"
    using q by (auto simp: pooled_posts with_context_def)
  show ?thesis using refused_send_damage [OF Y0(1) s, of "\<lambda>_ _. True" 0 "[3]" 1 True] Y0(1) s by blast
qed

text \<open>
  C32. Accepts that fail kill the server: \<open>Run\<close> does not look at what \<open>AcceptEx\<close> says, so every refused accept leaves a
  client that is in no list and is never destroyed.  After as many refused accepts as \<open>limit_\<close> allows
  clients, no accept ever makes a client again, whatever the threads do.
\<close>

theorem refused_accepts_exhaust:
  assumes "stream_ok Y0" and "refused_accepts rs Y0 = Inr Y" and "unat (limit_m (shared_world Y0)) \<le> length rs"
    and "\<forall>c. clients_at (shared_world Y0) c = None" and "reach (stream_step S) Y Y'"
  shows "pooled_accept grant t junk sock associated accept_ok Y' = Inr Y' \<and>
     card {c. stranded (shared_world Y') c} = unat (limit_m (shared_world Y0))"
proof -
  let ?L = "unat (limit_m (shared_world Y0))"
  obtain C where ok: "stream_ok Y" and lim: "limit_m (shared_world Y) = limit_m (shared_world Y0)"
    and C: "\<forall>c\<in>C. stranded (shared_world Y) c" "?L \<le> card C"
    by (rule refused_accepts_fill [OF assms(1,2,4,3)])
  note k = reach_keeps [OF assms(5) ok]
  then have ok': "stream_ok Y'" and lim': "limit_m (shared_world Y') = limit_m (shared_world Y0)"
    and C': "\<forall>c\<in>C. stranded (shared_world Y') c" using lim C(1) by auto
  have "?L \<le> card {c. stranded (shared_world Y') c}"
  proof -
    have fin: "finite (dom (clients_at (shared_world Y')))" using stream_okD(1) [OF ok'] by (simp add: manager_ok_def)
    have "{c. stranded (shared_world Y') c} \<subseteq> dom (clients_at (shared_world Y'))" by (auto simp: stranded_def unlisted_def)
    then have "finite {c. stranded (shared_world Y') c}" using fin by (rule finite_subset)
    moreover have "C \<subseteq> {c. stranded (shared_world Y') c}" using C' by blast
    ultimately have "card C \<le> card {c. stranded (shared_world Y') c}" by (rule card_mono)
    with C(2) show ?thesis by (rule le_trans)
  qed
  moreover have "card {c. stranded (shared_world Y') c} \<le> ?L" using stranded_limit [OF ok'] lim' by simp
  ultimately have e: "card {c. stranded (shared_world Y') c} = ?L" by simp
  have "\<not> current_m (shared_world Y') < limit_m (shared_world Y')"
    by (rule stranded_full [OF ok', of "{c. stranded (shared_world Y') c}"]) (use e lim' in simp_all)
  then show ?thesis using full_accept e by blast
qed

theorem refused_accepts_exhaust_witness:
  "\<exists>Y. refused_accepts [(\<lambda>_ _. True, 0, 0, 7)] (on_world (\<lambda>W. W\<lparr>limit_m := 1\<rparr>) stream_init) = Inr Y \<and>
     pooled_accept (\<lambda>_ _. True) 0 0 8 True True Y = Inr Y"
proof -
  let ?I = "on_world (\<lambda>W. W\<lparr>limit_m := 1\<rparr>) stream_init"
  have ok: "stream_ok ?I" by (rule stream_ok_limit)
  obtain Y where "pooled_accept (\<lambda>_ _. True) 0 0 7 True False ?I = Inr Y" using first_accept [of 1 False] by auto
  then have r: "refused_accepts [(\<lambda>_ _. True, 0, 0, 7)] ?I = Inr Y" by simp
  have "unat (limit_m (shared_world ?I)) \<le> length [(\<lambda>_ _. True, 0, 0, 7)]" "\<forall>c. clients_at (shared_world ?I) c = None"
    by (simp_all add: stream_init_def world_init_def)
  moreover have "reach (stream_step (Server_ctor 0)) Y Y" by (rule reach_refl)
  ultimately have "pooled_accept (\<lambda>_ _. True) 0 0 8 True True Y = Inr Y"
    using refused_accepts_exhaust [OF ok r, where grant = "\<lambda>_ _. True" and t = 0 and junk = 0 and sock = 8 and associated = True and accept_ok = True]
    by blast
  then show ?thesis using r by blast
qed

end
