(* ===== verification/StreamRace.thy ===== *)
theory StreamRace
  imports StreamPoolsInv
begin

section \<open>The threads of the stream server, interleaved (server/Server.cpp, ClientManager.cpp)\<close>

text \<open>
  In theory \<open>StreamPools\<close> an accept and a round of a worker are one step each.  Here they are cut where the
  threads meet.  \<open>Run\<close> tests \<open>current_\<close>, makes the client, loads and stores \<open>current_\<close>, and offers the client
  to \<open>AcceptEx\<close>, in a step each.  A round of \<open>IocpWork\<close> takes its completion and then calls the handlers, the members
  of the client and of the client manager one by one.  \<open>RemoveClient\<close> looks for the client under
  \<open>lock_\<close> and keeps the lock while it destroys the client, loads and stores \<open>current_\<close>, and erases the entry;
  \<open>AddClient\<close> waits for the lock.  Between any two steps of a thread every other thread may make its own.  A
  step is taken only if its call returns, so runs go on until a call faults, as one on a freed client does.  The
  pools serve one call at a time; theory \<open>PoolRace\<close> has their inside.
\<close>

subsection \<open>The calls of a round\<close>

datatype member = Pre | Fast | Add | Prepare | Ready | Deliver | Sent | Post | Hangup | Unknown

datatype piece = Do member | Remove

record job =
  job_ctx :: ptr
  job_client :: ptr
  job_type :: io_type
  job_received :: u32
  io_result :: bool

text \<open>The switch of \<open>IocpWork\<close>, and the test of \<open>io_result\<close> after it.\<close>

fun program :: "io_type \<Rightarrow> piece list" where
  "program IO_ACCEPT = [Do Pre, Do Fast, Do Add, Do Prepare, Do Post, Do Hangup]"
| "program IO_RECV_READY = [Do Ready, Do Hangup]"
| "program IO_RECV = [Do Deliver, Do Prepare, Do Hangup]"
| "program IO_SEND = [Do Pre, Do Sent, Do Post, Do Hangup]"
| "program IO_DISCONNECT = [Do Pre, Remove, Do Post, Do Hangup]"
| "program IO_NONE = [Do Unknown]"
| "program IO_CONNECT = [Do Unknown]"

fun pre_handler :: "server \<Rightarrow> io_type \<Rightarrow> ptr \<Rightarrow> world \<Rightarrow> world" where
  "pre_handler S IO_ACCEPT = PreAcceptHandler S"
| "pre_handler S IO_SEND = PreSendHandler S"
| "pre_handler S IO_DISCONNECT = PreDisconnectHandler S"
| "pre_handler S _ = (\<lambda>_ W. W)"

fun post_handler :: "server \<Rightarrow> io_type \<Rightarrow> ptr \<Rightarrow> world \<Rightarrow> world" where
  "post_handler S IO_ACCEPT = PostAcceptHandler S"
| "post_handler S IO_SEND = PostSendHandler S"
| "post_handler S IO_DISCONNECT = PostDisconnectHandler S"
| "post_handler S _ = (\<lambda>_ W. W)"

text \<open>One call, and \<open>io_result\<close> after it; \<open>ok\<close> says whether the system takes the operation it posts.\<close>

fun run_member ::
  "(nat \<Rightarrow> nat \<Rightarrow> bool) \<Rightarrow> nat \<Rightarrow> server \<Rightarrow> bool \<Rightarrow> job \<Rightarrow> member \<Rightarrow> stream_sys \<Rightarrow> (bool \<times> stream_sys) res" where
  "run_member grant t S ok j Pre Y = Inr (io_result j, on_world (pre_handler S (job_type j) (job_ctx j)) Y)"
| "run_member grant t S ok j Fast Y =
     rbind (on_world_res (SetFastSocketOption (job_client j)) Y) (\<lambda>Y1. Inr (io_result j, Y1))"
| "run_member grant t S ok j Add Y =
     rbind (on_world_res (AddClient (job_client j)) Y) (\<lambda>Y1. Inr (io_result j, Y1))"
| "run_member grant t S ok j Prepare Y = pooled_PrepareReceive grant t ok (job_client j) Y"
| "run_member grant t S ok j Ready Y = pooled_Receive grant t ok (job_client j) Y"
| "run_member grant t S ok j Deliver Y =
     rbind (PostReceive (job_received j) (post_receive_handler S) (job_ctx j) (job_client j) (shared_world Y)) (\<lambda>(_, W).
     Inr (io_result j, Y\<lparr>shared_world := W\<rparr>))"
| "run_member grant t S ok j Sent Y =
     rbind (PostSend (job_received j) (job_client j) (shared_world Y)) (\<lambda>(r, W). Inr (r, Y\<lparr>shared_world := W\<rparr>))"
| "run_member grant t S ok j Post Y = Inr (io_result j, on_world (post_handler S (job_type j) (job_ctx j)) Y)"
| "run_member grant t S ok j Hangup Y =
     (if io_result j then Inr (io_result j, Y)
      else rbind (pooled_Disconnect grant t ok (job_client j) Y) (\<lambda>(_, Y1). Inr (io_result j, Y1)))"
| "run_member grant t S ok j Unknown Y = Inl Uncaught"

subsection \<open>The threads\<close>

text \<open>
  Where a thread is: in \<open>Run\<close> or in \<open>IocpWork\<close>.  \<open>Removing\<close> is inside \<open>RemoveClient\<close>, with the lock and with an
  iterator at the client; the rest of the round comes after it.
\<close>

datatype removal = Found | Destroyed | CountLoaded u32 | CountStored

datatype place =
  Accepting | HasRoom | NewMade ptr | NewLoaded ptr u32 | NewCounted ptr
  | Waiting | Busy job "piece list" | Removing removal job "piece list"

record stream_race =
  sys :: stream_sys
  threads :: "nat \<Rightarrow> place"

definition stream_race_init :: stream_race where
  "stream_race_init = \<lparr>sys = stream_init, threads = (\<lambda>t. if t = 0 then Accepting else Waiting)\<rparr>"

definition thread_to :: "nat \<Rightarrow> place \<Rightarrow> stream_sys \<Rightarrow> stream_race \<Rightarrow> stream_race" where
  "thread_to t q Y s = s\<lparr>sys := Y, threads := (threads s)(t := q)\<rparr>"

text \<open>What \<open>GetQueuedCompletionStatus\<close> hands to a worker, and the calls it makes for it.\<close>

definition hung_up :: "bool \<Rightarrow> u32 \<Rightarrow> io_context \<Rightarrow> bool" where
  "hung_up gqcs n x \<longleftrightarrow> (\<not> gqcs \<or> n = 0) \<and> (io_type_m x = IO_RECV \<or> io_type_m x = IO_SEND)"

definition start_job :: "bool \<Rightarrow> u32 \<Rightarrow> ptr \<Rightarrow> io_context \<Rightarrow> place" where
  "start_job gqcs n ctx x = Busy \<lparr>job_ctx = ctx, job_client = client_of x, job_type = io_type_m x, job_received = n, io_result = False\<rparr>
     (if hung_up gqcs n x then [Do Hangup] else program (io_type_m x))"

definition mark_received :: "bool \<Rightarrow> u32 \<Rightarrow> ptr \<Rightarrow> io_context \<Rightarrow> stream_sys \<Rightarrow> stream_sys" where
  "mark_received gqcs n ctx x Y = (if hung_up gqcs n x then Y
     else on_world (\<lambda>W. W\<lparr>contexts := (contexts W)(ctx \<mapsto> x\<lparr>received_m := n\<rparr>)\<rparr>) Y)"

text \<open>\<open>client_pool_.Malloc\<close> with the constructor, and \<open>client_pool_.Destroy\<close>.\<close>

definition make_client :: "(nat \<Rightarrow> nat \<Rightarrow> bool) \<Rightarrow> nat \<Rightarrow> nat \<Rightarrow> stream_sys \<Rightarrow> (ptr \<times> stream_sys) res" where
  "make_client grant t junk Y =
     rbind (ObjectPool_Malloc grant client_size t (client_pool_m Y)) (\<lambda>(p, P).
     Inr (p, (on_world (\<lambda>W. W\<lparr>clients_at := (clients_at W)(p \<mapsto> Client_ctor junk)\<rparr>) Y)\<lparr>client_pool_m := P\<rparr>))"

definition destroy_client :: "nat \<Rightarrow> ptr \<Rightarrow> stream_sys \<Rightarrow> stream_sys res" where
  "destroy_client t c Y =
     rbind (client_ref (shared_world Y) c) (\<lambda>_.
     rbind (ObjectPool_Free client_size t (client_pool_m Y) c) (\<lambda>P.
     Inr ((on_world (\<lambda>W. W\<lparr>clients_at := (clients_at W)(c := None)\<rparr>) Y)\<lparr>client_pool_m := P\<rparr>)))"

definition set_count :: "u32 \<Rightarrow> stream_sys \<Rightarrow> stream_sys" where
  "set_count k = on_world (\<lambda>W. W\<lparr>current_m := k\<rparr>)"

inductive stream_race_step :: "server \<Rightarrow> stream_race \<Rightarrow> nat \<Rightarrow> stream_race \<Rightarrow> bool" for S where
  a_test: "threads s t = Accepting \<Longrightarrow> current_m (shared_world (sys s)) < limit_m (shared_world (sys s)) \<Longrightarrow>
    stream_race_step S s t (thread_to t HasRoom (sys s) s)"
| a_make: "threads s t = HasRoom \<Longrightarrow> make_client grant t junk (sys s) = Inr (p, Y) \<Longrightarrow>
    stream_race_step S s t (thread_to t (NewMade p) Y s)"
| a_load: "threads s t = NewMade p \<Longrightarrow>
    stream_race_step S s t (thread_to t (NewLoaded p (current_m (shared_world (sys s)))) (sys s) s)"
| a_store: "threads s t = NewLoaded p k \<Longrightarrow> stream_race_step S s t (thread_to t (NewCounted p) (set_count (k + 1) (sys s)) s)"
| a_offer: "threads s t = NewCounted p \<Longrightarrow> offer_client grant t sock associated accept_ok p (sys s) = Inr (r, Y) \<Longrightarrow>
    stream_race_step S s t (thread_to t Accepting Y s)"
| w_take: "threads s t = Waiting \<Longrightarrow> ctx \<in> set (in_flight (shared_world (sys s))) \<Longrightarrow>
    context_ref (shared_world (sys s)) ctx = Inr x \<Longrightarrow>
    stream_race_step S s t (thread_to t (start_job gqcs n ctx x) (mark_received gqcs n ctx x (completed ctx (sys s))) s)"
| w_timeout: "threads s t = Waiting \<Longrightarrow>
    stream_race_step S s t (thread_to t Waiting (on_world (TimeoutHandler S Null) (sys s)) s)"
| w_call: "threads s t = Busy j (Do m # ps) \<Longrightarrow> run_member grant t S ok j m (sys s) = Inr (r, Y) \<Longrightarrow>
    stream_race_step S s t (thread_to t (Busy (j\<lparr>io_result := r\<rparr>) ps) Y s)"
| w_missing: "threads s t = Busy j (Remove # ps) \<Longrightarrow> ExclusiveLockHolder (manager_lock (shared_world (sys s))) = Some l \<Longrightarrow>
    job_client j \<notin> set (clients_list (shared_world (sys s))) \<Longrightarrow>
    stream_race_step S s t (thread_to t (Busy (j\<lparr>io_result := True\<rparr>) ps)
      (on_world (\<lambda>W. W\<lparr>manager_lock := ExclusiveLockHolder_dtor l\<rparr>) (sys s)) s)"
| w_found: "threads s t = Busy j (Remove # ps) \<Longrightarrow> ExclusiveLockHolder (manager_lock (shared_world (sys s))) = Some l \<Longrightarrow>
    job_client j \<in> set (clients_list (shared_world (sys s))) \<Longrightarrow>
    stream_race_step S s t (thread_to t (Removing Found j ps) (on_world (\<lambda>W. W\<lparr>manager_lock := l\<rparr>) (sys s)) s)"
| w_destroy: "threads s t = Removing Found j ps \<Longrightarrow> destroy_client t (job_client j) (sys s) = Inr Y \<Longrightarrow>
    stream_race_step S s t (thread_to t (Removing Destroyed j ps) Y s)"
| w_load: "threads s t = Removing Destroyed j ps \<Longrightarrow>
    stream_race_step S s t (thread_to t (Removing (CountLoaded (current_m (shared_world (sys s)))) j ps) (sys s) s)"
| w_store: "threads s t = Removing (CountLoaded k) j ps \<Longrightarrow>
    stream_race_step S s t (thread_to t (Removing CountStored j ps) (set_count (k - 1) (sys s)) s)"
| w_erase: "threads s t = Removing CountStored j ps \<Longrightarrow>
    stream_race_step S s t (thread_to t (Busy (j\<lparr>io_result := True\<rparr>) ps)
      (on_world (\<lambda>W. W\<lparr>clients_list := remove1 (job_client j) (clients_list W),
         manager_lock := ExclusiveLockHolder_dtor (manager_lock W)\<rparr>) (sys s)) s)"
| w_release: "threads s t = Busy j [] \<Longrightarrow> pooled_destroy t (job_ctx j) (sys s) = Inr Y \<Longrightarrow>
    stream_race_step S s t (thread_to t Waiting Y s)"
| u_send: "pooled_Send grant t data sz ok c (sys s) = Inr (r, Y) \<Longrightarrow> stream_race_step S s t (thread_to t (threads s t) Y s)"
| u_disconnect: "pooled_Disconnect grant t ok c (sys s) = Inr (r, Y) \<Longrightarrow>
    stream_race_step S s t (thread_to t (threads s t) Y s)"

inductive_cases stream_race_stepE: "stream_race_step S s t s'"

end
