(* ===== verification/StreamRaceSpec.thy ===== *)
theory StreamRaceSpec
  imports StreamRace StreamPoolsSpec
begin

section \<open>What the interleaved threads of the stream server keep\<close>

text \<open>
  The invariant of \<open>StreamPoolsInv\<close>, without the count, holds between any two steps of the threads, with the list of
  clients taken as it will be once the entry of a destroyed client is erased; and what the threads hold
  themselves, the context of a round and a client not yet listed, nobody else has.
\<close>

subsection \<open>What a thread holds\<close>

text \<open>The context of its round, and the client it will list or offer.\<close>

fun holds :: "place \<Rightarrow> ptr option" where
  "holds (Busy j ps) = Some (job_ctx j)"
| "holds (Removing r j ps) = Some (job_ctx j)"
| "holds _ = None"

fun owns :: "place \<Rightarrow> ptr option" where
  "owns (NewMade p) = Some p"
| "owns (NewLoaded p k) = Some p"
| "owns (NewCounted p) = Some p"
| "owns (Busy j ps) = (if Do Add \<in> set ps then Some (job_client j) else None)"
| "owns (Removing r j ps) = (if Do Add \<in> set ps then Some (job_client j) else None)"
| "owns _ = None"

fun tidy :: "place \<Rightarrow> bool" where
  "tidy (Busy j ps) = distinct ps"
| "tidy (Removing r j ps) = distinct ps"
| "tidy _ = True"

fun locks :: "place \<Rightarrow> bool" where
  "locks (Removing r j ps) = True"
| "locks _ = False"

definition settle :: "ptr list \<Rightarrow> stream_sys \<Rightarrow> stream_sys" where
  "settle L = on_world (\<lambda>W. W\<lparr>clients_list := L\<rparr>)"

abbreviation settled_world :: "ptr list \<Rightarrow> stream_sys \<Rightarrow> world" where
  "settled_world L Y \<equiv> shared_world (settle L Y)"

abbreviation listed_now :: "stream_race \<Rightarrow> ptr list" where
  "listed_now s \<equiv> clients_list (shared_world (sys s))"

text \<open>\<open>L\<close> is the list without the entry of a client that is destroyed and not yet erased.\<close>

definition leaves :: "stream_race \<Rightarrow> ptr list \<Rightarrow> bool" where
  "leaves s L \<longleftrightarrow>
     (\<forall>t r j ps. threads s t = Removing r j ps \<longrightarrow> job_client j \<in> set (listed_now s) \<and>
        L = (if r = Found then listed_now s else remove1 (job_client j) (listed_now s))) \<and>
     ((\<forall>t. \<not> locks (threads s t)) \<longrightarrow> L = listed_now s)"

definition lock_ok :: "stream_race \<Rightarrow> bool" where
  "lock_ok s \<longleftrightarrow>
     (\<forall>t. locks (threads s t) \<longrightarrow> manager_lock (shared_world (sys s)) = Spinlock\<lparr>lock_m := 1\<rparr> \<and>
        (\<forall>u. locks (threads s u) \<longrightarrow> u = t)) \<and>
     ((\<forall>t. \<not> locks (threads s t)) \<longrightarrow> manager_lock (shared_world (sys s)) = Spinlock)"

definition place_ok :: "world \<Rightarrow> place \<Rightarrow> bool" where
  "place_ok W q \<longleftrightarrow> (\<forall>p. holds q = Some p \<longrightarrow> contexts W p \<noteq> None \<and> p \<notin> set (in_flight W)) \<and>
     (\<forall>c. owns q = Some c \<longrightarrow> stranded W c) \<and> tidy q"

definition all_apart :: "(nat \<Rightarrow> place) \<Rightarrow> bool" where
  "all_apart T \<longleftrightarrow> (\<forall>t u. t \<noteq> u \<longrightarrow> (\<forall>p. holds (T t) = Some p \<longrightarrow> holds (T u) \<noteq> Some p) \<and>
     (\<forall>c. owns (T t) = Some c \<longrightarrow> owns (T u) \<noteq> Some c))"

definition race_at :: "ptr list \<Rightarrow> stream_race \<Rightarrow> bool" where
  "race_at L s \<longleftrightarrow> leaves s L \<and> lock_ok s \<and> base_ok (settle L (sys s)) \<and>
     (\<forall>t. place_ok (settled_world L (sys s)) (threads s t)) \<and> all_apart (threads s)"

lemma race_atD:
  assumes "race_at L s"
  shows "leaves s L" "lock_ok s" "base_ok (settle L (sys s))" "place_ok (settled_world L (sys s)) (threads s t)" "all_apart (threads s)"
  using assms by (simp_all add: race_at_def)

lemma settle_same: "settle (clients_list (shared_world Y)) Y = Y"
  by (simp add: settle_def on_world_def)

lemma settle_sel [simp]:
  "clients_at (settled_world L Y) = clients_at (shared_world Y)" "contexts (settled_world L Y) = contexts (shared_world Y)"
  "in_flight (settled_world L Y) = in_flight (shared_world Y)" "clients_list (settled_world L Y) = L"
  "limit_m (settled_world L Y) = limit_m (shared_world Y)"
  "io_context_pool_m (settle L Y) = io_context_pool_m Y" "client_pool_m (settle L Y) = client_pool_m Y"
  by (simp_all add: settle_def)

lemma thread_to_sel [simp]: "sys (thread_to t q Y s) = Y" "threads (thread_to t q Y s) = (threads s)(t := q)"
  by (simp_all add: thread_to_def)

lemma race_init: "race_at [] stream_race_init"
proof -
  have "settle [] stream_init = stream_init" using settle_same [of stream_init] by (simp add: stream_init_def world_init_def)
  moreover have "base_ok stream_init" using stream_ok_init stream_okD(6) by blast
  ultimately show ?thesis
    by (auto simp: race_at_def stream_race_init_def leaves_def lock_ok_def place_ok_def all_apart_def)
      (simp_all add: stream_init_def world_init_def)
qed

subsection \<open>One thread moves\<close>

text \<open>What the other threads hold stays theirs if the step leaves it alone.\<close>

lemma place_frame:
  assumes "place_ok W q" and f: "frame X A W W'" and X: "\<forall>p\<in>X. p \<notin> set (in_flight W') \<and> holds q \<noteq> Some p"
    and A: "\<forall>c\<in>A. owns q \<noteq> Some c"
  shows "place_ok W' q"
  unfolding place_ok_def
proof (intro conjI allI impI)
  fix p assume p: "holds q = Some p"
  then have c: "contexts W p \<noteq> None" "p \<notin> set (in_flight W)" and nX: "p \<notin> X" using assms(1) X by (auto simp: place_ok_def)
  show "contexts W' p \<noteq> None" using frame_context [OF f c(1) nX] c(1) by simp
  show "p \<notin> set (in_flight W')" by (rule frame_flight [OF f c(1) nX c(2)])
next
  fix c assume c: "owns q = Some c"
  then have "stranded W c" "c \<notin> A" using assms(1) A by (auto simp: place_ok_def)
  then show "stranded W' c" using stranded_frame [OF f] X by blast
next
  show "tidy q" using assms(1) by (simp add: place_ok_def)
qed

lemma race_move:
  assumes inv: "race_at L s" and lists: "leaves (thread_to t q Y s) L'" "lock_ok (thread_to t q Y s)"
    and ok: "base_ok (settle L' Y)" and f: "frame X A (settled_world L (sys s)) (settled_world L' Y)"
    and X: "\<forall>p\<in>X. p \<notin> set (in_flight (shared_world Y)) \<and> (\<forall>u. u \<noteq> t \<longrightarrow> holds (threads s u) \<noteq> Some p)"
    and A: "\<forall>c\<in>A. \<forall>u. u \<noteq> t \<longrightarrow> owns (threads s u) \<noteq> Some c"
    and q: "place_ok (settled_world L' Y) q"
    and h: "\<And>p u. holds q = Some p \<Longrightarrow> u \<noteq> t \<Longrightarrow> holds (threads s u) \<noteq> Some p"
    and own: "\<And>c u. owns q = Some c \<Longrightarrow> u \<noteq> t \<Longrightarrow> owns (threads s u) \<noteq> Some c"
  shows "race_at L' (thread_to t q Y s)"
proof -
  have "place_ok (settled_world L' Y) (threads s u)" if "u \<noteq> t" for u
    by (rule place_frame [OF race_atD(4) [OF inv] f]) (use X A that in simp_all)
  then have "\<forall>u. place_ok (settled_world L' Y) (((threads s)(t := q)) u)" using q by simp
  moreover have "all_apart ((threads s)(t := q))"
    using race_atD(5) [OF inv] h own unfolding all_apart_def by (metis fun_upd_apply)
  ultimately show ?thesis using lists ok by (simp add: race_at_def)
qed

text \<open>Steps that do not touch the list or the lock.\<close>

definition still :: "place \<Rightarrow> place \<Rightarrow> bool" where
  "still q q' \<longleftrightarrow> \<not> locks q \<and> \<not> locks q' \<or> q' = q \<or>
     (\<exists>r r' j ps. q = Removing r j ps \<and> q' = Removing r' j ps \<and> (r = Found \<longleftrightarrow> r' = Found))"

lemma still_locks: "still q q' \<Longrightarrow> locks q' = locks q"
  by (auto simp: still_def)

lemma race_quiet:
  assumes inv: "race_at L s" and st: "still (threads s t) q"
    and Y: "clients_list (shared_world Y) = listed_now s" "manager_lock (shared_world Y) = manager_lock (shared_world (sys s))"
  shows "leaves (thread_to t q Y s) L" and "lock_ok (thread_to t q Y s)"
proof -
  have l: "locks (((threads s)(t := q)) u) = locks (threads s u)" for u using still_locks [OF st] by simp
  show "lock_ok (thread_to t q Y s)" using race_atD(2) [OF inv] unfolding lock_ok_def thread_to_sel l Y .
  have lv: "leaves s L" by (rule race_atD(1) [OF inv])
  show "leaves (thread_to t q Y s) L"
    unfolding leaves_def thread_to_sel l Y
  proof (intro conjI allI impI)
    show "L = listed_now s" if "\<forall>t. \<not> locks (threads s t)" using lv that unfolding leaves_def by blast
    fix u r j ps assume u: "((threads s)(t := q)) u = Removing r j ps"
    have "\<exists>r'. threads s u = Removing r' j ps \<and> (r = Found \<longleftrightarrow> r' = Found)"
    proof (cases "u = t")
      case True
      then have q: "q = Removing r j ps" using u by simp
      then show ?thesis using st True unfolding still_def by (elim disjE exE conjE) (simp, metis, simp)
    next
      case False
      then show ?thesis using u by simp
    qed
    then obtain r' where r': "threads s u = Removing r' j ps" "r = Found \<longleftrightarrow> r' = Found" by blast
    have "job_client j \<in> set (listed_now s) \<and>
        L = (if r' = Found then listed_now s else remove1 (job_client j) (listed_now s))"
      using lv r'(1) unfolding leaves_def by blast
    then show "job_client j \<in> set (listed_now s)"
      "L = (if r = Found then listed_now s else remove1 (job_client j) (listed_now s))" using r'(2) by simp_all
  qed
qed

text \<open>Steps that, besides, leave every context and client to whom it belongs.\<close>

lemma race_plain:
  assumes inv: "race_at L s" and st: "still (threads s t) q"
    and Y: "clients_list (shared_world Y) = listed_now s" "manager_lock (shared_world Y) = manager_lock (shared_world (sys s))"
    and ok: "base_ok (settle L Y)" and f: "frame {} {} (settled_world L (sys s)) (settled_world L Y)"
    and q: "holds q = None \<or> holds q = holds (threads s t)" "owns q = None \<or> owns q = owns (threads s t)" "tidy q"
  shows "race_at L (thread_to t q Y s)"
proof (rule race_move [OF inv race_quiet [OF inv st Y] ok f])
  have "place_ok (settled_world L Y) (threads s t)" by (rule place_frame [OF race_atD(4) [OF inv] f]) simp_all
  then show "place_ok (settled_world L Y) q" using q by (auto simp: place_ok_def)
  show "holds (threads s u) \<noteq> Some p" if "holds q = Some p" "u \<noteq> t" for p u
    using race_atD(5) [OF inv] q(1) that unfolding all_apart_def by (metis option.distinct(1))
  show "owns (threads s u) \<noteq> Some c" if "owns q = Some c" "u \<noteq> t" for c u
    using race_atD(5) [OF inv] q(2) that unfolding all_apart_def by (metis option.distinct(1))
qed simp_all

lemma race_idle:
  assumes "race_at L s" and "still (threads s t) q"
    and "holds q = None \<or> holds q = holds (threads s t)" "owns q = None \<or> owns q = owns (threads s t)" "tidy q"
  shows "race_at L (thread_to t q (sys s) s)"
  by (rule race_plain [OF assms(1,2) _ _ _ _ assms(3-5)]) (use race_atD(3) [OF assms(1)] in simp_all)

subsection \<open>Operations that do not look at the list\<close>

lemma inner_settle:
  assumes "inner (shared_world Y) W"
  shows "inner (settled_world L Y) (W\<lparr>clients_list := L\<rparr>)" and "settle L (Y\<lparr>shared_world := W\<rparr>) = (settle L Y)\<lparr>shared_world := W\<lparr>clients_list := L\<rparr>\<rparr>"
  using assms by (simp_all add: inner_def settle_def on_world_def)

lemma inner_race:
  assumes inv: "race_at L s" and i: "inner (shared_world (sys s)) W" and st: "still (threads s t) q"
    and q: "holds q = None \<or> holds q = holds (threads s t)" "owns q = None \<or> owns q = owns (threads s t)" "tidy q"
  shows "race_at L (thread_to t q ((sys s)\<lparr>shared_world := W\<rparr>) s)"
proof (rule race_plain [OF inv st _ _ _ _ q])
  show "base_ok (settle L ((sys s)\<lparr>shared_world := W\<rparr>))"
    unfolding inner_settle(2) [OF i] by (rule inner_base [OF race_atD(3) [OF inv] inner_settle(1) [OF i]])
  show "frame {} {} (settled_world L (sys s)) (settled_world L ((sys s)\<lparr>shared_world := W\<rparr>))"
    unfolding inner_settle(2) [OF i] using inner_frame [OF inner_settle(1) [OF i]] by simp
qed (use i in \<open>simp_all add: inner_def\<close>)

lemma settle_post: "(snd (submit ok p (new_context p x W)))\<lparr>clients_list := L\<rparr> = snd (submit ok p (new_context p x (W\<lparr>clients_list := L\<rparr>)))"
  by (simp add: submit_def new_context_def)

lemma settle_client: "(set_client c x W)\<lparr>clients_list := L\<rparr> = set_client c x (W\<lparr>clients_list := L\<rparr>)"
  by (intro world.equality) (simp_all add: set_client_def)

lemma pools_settle: "pools_match (settle L Y) = pools_match Y"
  by (simp add: pools_match_def)

lemma posts_race:
  assumes inv: "race_at L s" and p: "posts f" and w: "with_context grant t' f (sys s) = Inr (r, Y)" and st: "still (threads s t) q"
    and q: "holds q = None \<or> holds q = holds (threads s t)" "owns q = None \<or> owns q = owns (threads s t)" "tidy q"
  shows "race_at L (thread_to t q Y s)"
proof (rule posted [OF p w])
  show "pools_match (sys s)" using base_okD(3) [OF race_atD(3) [OF inv]] by (simp add: pools_settle)
  fix p x ok' P W1 assume i: "inner (shared_world (sys s)) W1" and x: "io_type_m x \<noteq> IO_ACCEPT"
    and Y: "Y = (sys s)\<lparr>shared_world := snd (submit ok' p (new_context p x W1)), io_context_pool_m := P\<rparr>"
    and p: "contexts (shared_world (sys s)) p = None" "opool_rel context_size P (insert p (dom (contexts (shared_world (sys s)))))"
  have e: "settle L Y = (settle L (sys s))\<lparr>shared_world := snd (submit ok' p (new_context p x (W1\<lparr>clients_list := L\<rparr>))), io_context_pool_m := P\<rparr>"
    by (simp add: Y settle_def on_world_def settle_post)
  have "base_ok (settle L Y) \<and> frame {} {} (settled_world L (sys s)) (settled_world L Y)"
    by (rule post_base [OF race_atD(3) [OF inv] inner_settle(1) [OF i] x _ _ e]) (use p in simp_all)
  then show ?thesis by (intro race_plain [OF inv st _ _ _ _ q]) (use i in \<open>simp_all add: Y inner_def\<close>)
qed

text \<open>The count and the lock are nothing to the invariant of the tables.\<close>

lemma base_upd:
  assumes ok: "base_ok Y" and same: "clients_at W = clients_at (shared_world Y)" "contexts W = contexts (shared_world Y)"
    "in_flight W = in_flight (shared_world Y)" "clients_list W = clients_list (shared_world Y)" "limit_m W = limit_m (shared_world Y)"
  shows "base_ok (Y\<lparr>shared_world := W\<rparr>) \<and> frame X A (shared_world Y) W"
proof -
  have un: "unlisted W = unlisted (shared_world Y)" and acc: "accept_for W = accept_for (shared_world Y)"
    by (rule ext, simp add: same unlisted_def accept_for_def)+
  have "flight_ok W" using base_okD(2) [OF ok] unfolding flight_ok_def un acc same .
  moreover have "clients_ok W" using base_okD(1) [OF ok] by (simp add: clients_ok_def same)
  moreover have "pools_match (Y\<lparr>shared_world := W\<rparr>)" using base_okD(3) [OF ok] by (simp add: pools_match_def same)
  moreover have "frame X A (shared_world Y) W" unfolding frame_def un acc same by (auto simp: accept_for_def)
  ultimately show ?thesis by (simp add: base_ok_def)
qed

subsection \<open>The calls of a round\<close>

lemma inner_pre: "inner W (pre_handler S ty ctx W)"
  by (cases ty) (simp_all add: handler_defs inner_call)

lemma inner_post: "inner W (post_handler S ty ctx W)"
  by (cases ty) (simp_all add: handler_defs inner_call)

lemma call_race:
  assumes inv: "race_at L s" and t: "threads s t = Busy j (Do m # ps)" and m: "m \<noteq> Add"
    and r: "run_member grant t S ok j m (sys s) = Inr (r, Y)"
  shows "race_at L (thread_to t (Busy (j\<lparr>io_result := r\<rparr>) ps) Y s)"
proof -
  let ?q = "Busy (j\<lparr>io_result := r\<rparr>) ps"
  have q: "still (threads s t) ?q" "holds ?q = None \<or> holds ?q = holds (threads s t)"
    "owns ?q = None \<or> owns ?q = owns (threads s t)" "tidy ?q"
    using race_atD(4) [OF inv, of t] by (simp_all add: t still_def place_ok_def)
  note inn = inner_race [OF inv _ q] and pst = posts_race [OF inv _ _ q]
  have same: "race_at L (thread_to t ?q (sys s) s)" by (rule race_idle [OF inv q])
  show ?thesis
  proof (cases m)
    case Pre
    then show ?thesis using r inn [OF inner_pre] by (auto simp: on_world_def)
  next
    case Fast
    then show ?thesis using r inn [OF inner_fast] by auto
  next
    case Prepare
    then show ?thesis using r pst [OF posts_PrepareReceive] by (simp add: pooled_posts)
  next
    case Ready
    then show ?thesis using r pst [OF posts_Receive] by (simp add: pooled_posts)
  next
    case Deliver
    then show ?thesis using r inn [OF inner_PostReceive] by auto
  next
    case Sent
    then show ?thesis using r inn [OF conjunct1 [OF inner_PostSend]] by auto
  next
    case Post
    then show ?thesis using r inn [OF inner_post] by (auto simp: on_world_def)
  next
    case Hangup
    show ?thesis
    proof (cases "io_result j")
      case True
      then show ?thesis using r Hangup same by simp
    next
      case False
      then obtain b where "with_context grant t (\<lambda>p. Disconnect p ok (job_client j)) (sys s) = Inr (b, Y)"
        using r Hangup by (auto simp: pooled_posts)
      then show ?thesis by (rule pst [OF posts_Disconnect])
    qed
  qed (use r m in simp_all)
qed

lemma lock_is_free:
  assumes inv: "race_at L s" and l: "ExclusiveLockHolder (manager_lock (shared_world (sys s))) = Some l"
  shows "\<not> locks (threads s u)" and "manager_lock (shared_world (sys s)) = Spinlock" and "l = Spinlock\<lparr>lock_m := 1\<rparr>"
    and "L = listed_now s"
proof -
  have taken: "ExclusiveLockHolder (Spinlock\<lparr>lock_m := 1\<rparr>) = None" by (simp add: ExclusiveLockHolder_def srv_simps)
  have n: "\<not> locks (threads s u)" for u using race_atD(2) [OF inv] l taken unfolding lock_ok_def by force
  show "\<not> locks (threads s u)" by (rule n)
  show "manager_lock (shared_world (sys s)) = Spinlock" using race_atD(2) [OF inv] n by (simp add: lock_ok_def)
  then show "l = Spinlock\<lparr>lock_m := 1\<rparr>" using l lock_cycle(1) by simp
  show "L = listed_now s" using race_atD(1) [OF inv] n by (simp add: leaves_def)
qed

text \<open>The lists and the lock when nobody is in \<open>RemoveClient\<close> after the step.\<close>

lemma free_lists:
  assumes "\<And>u. u \<noteq> t \<Longrightarrow> \<not> locks (threads s u)" and "\<not> locks q" and "clients_list (shared_world Y) = L"
    and "manager_lock (shared_world Y) = Spinlock"
  shows "leaves (thread_to t q Y s) L" and "lock_ok (thread_to t q Y s)"
proof -
  have n: "\<not> locks (((threads s)(t := q)) u)" for u using assms(1,2) by simp
  then have "((threads s)(t := q)) u \<noteq> Removing r j ps" for u r j ps by (metis locks.simps(1))
  then show "leaves (thread_to t q Y s) L" using assms(3) by (simp add: leaves_def)
  show "lock_ok (thread_to t q Y s)" using n assms(4) by (simp add: lock_ok_def)
qed

lemma held_lists:
  assumes "\<And>u. u \<noteq> t \<Longrightarrow> \<not> locks (threads s u)" and "job_client j \<in> set (clients_list (shared_world Y))"
    and "manager_lock (shared_world Y) = Spinlock\<lparr>lock_m := 1\<rparr>"
    and "L = (if r = Found then clients_list (shared_world Y) else remove1 (job_client j) (clients_list (shared_world Y)))"
  shows "leaves (thread_to t (Removing r j ps) Y s) L" and "lock_ok (thread_to t (Removing r j ps) Y s)"
proof -
  have n: "u = t" if "((threads s)(t := Removing r j ps)) u = Removing r' j' ps'" for u r' j' ps'
    using that assms(1) [of u] by (metis fun_upd_other locks.simps(1))
  then show "leaves (thread_to t (Removing r j ps) Y s) L"
    unfolding leaves_def thread_to_sel
  proof (intro conjI allI impI)
    fix u r' j' ps' assume u: "((threads s)(t := Removing r j ps)) u = Removing r' j' ps'"
    then have "r' = r" "j' = j" using n [OF u] by simp_all
    then show "job_client j' \<in> set (clients_list (shared_world Y))"
      "L = (if r' = Found then clients_list (shared_world Y) else remove1 (job_client j') (clients_list (shared_world Y)))"
      using assms(2,4) by simp_all
  next
    assume "\<forall>u. \<not> locks (((threads s)(t := Removing r j ps)) u)"
    then have "\<not> locks (Removing r j ps)" by (metis fun_upd_same)
    then show "L = clients_list (shared_world Y)" by simp
  qed
  show "lock_ok (thread_to t (Removing r j ps) Y s)"
    unfolding lock_ok_def thread_to_sel using assms(1,3) by (metis fun_upd_apply locks.simps(1))
qed

lemma add_race:
  assumes inv: "race_at L s" and t: "threads s t = Busy j (Do Add # ps)"
    and r: "run_member grant t' S ok j Add (sys s) = Inr (r, Y)"
  shows "race_at (L @ [job_client j]) (thread_to t (Busy (j\<lparr>io_result := r\<rparr>) ps) Y s)"
proof -
  let ?c = "job_client j" and ?q = "Busy (j\<lparr>io_result := r\<rparr>) ps" and ?W = "shared_world (sys s)"
  obtain W where add: "AddClient ?c ?W = Inr W" and Y: "Y = (sys s)\<lparr>shared_world := W\<rparr>" using r by auto
  then obtain l where l: "ExclusiveLockHolder (manager_lock ?W) = Some l" by (auto simp: AddClient_def split: option.splits)
  note f = lock_is_free [OF inv l]
  have W: "W = ?W\<lparr>clients_list := L @ [?c]\<rparr>"
    using add l by (intro world.equality) (auto simp: AddClient_def f lock_cycle)
  have p: "place_ok (settled_world L (sys s)) (threads s t)" by (rule race_atD(4) [OF inv])
  then have st: "stranded (settled_world L (sys s)) ?c" and tidy: "Do Add \<notin> set ps" "distinct ps" by (simp_all add: place_ok_def t)
  have e: "settle (L @ [?c]) Y = (settle L (sys s))\<lparr>shared_world := (settled_world L (sys s))\<lparr>clients_list := clients_list (settled_world L (sys s)) @ [?c]\<rparr>\<rparr>"
    by (simp add: Y W settle_def on_world_def)
  have b: "base_ok (settle (L @ [?c]) Y) \<and> frame {} {?c} (settled_world L (sys s)) (settled_world (L @ [?c]) Y)"
    unfolding e using list_base [OF race_atD(3) [OF inv] _ _ refl, of ?c] st by (simp add: stranded_def)
  show ?thesis
  proof (rule race_move [OF inv])
    show "leaves (thread_to t ?q Y s) (L @ [?c])" "lock_ok (thread_to t ?q Y s)"
      by (rule free_lists; simp add: f(1,2) Y W)+
    show "base_ok (settle (L @ [?c]) Y)" "frame {} {?c} (settled_world L (sys s)) (settled_world (L @ [?c]) Y)" using b by simp_all
    show "\<forall>c\<in>{?c}. \<forall>u. u \<noteq> t \<longrightarrow> owns (threads s u) \<noteq> Some c"
      using race_atD(5) [OF inv] t unfolding all_apart_def by (metis list.set_intros(1) owns.simps(4) singletonD)
    show "place_ok (settled_world (L @ [?c]) Y) ?q"
      using p tidy by (auto simp: place_ok_def t Y W)
    show "holds (threads s u) \<noteq> Some p" if "holds ?q = Some p" "u \<noteq> t" for p u
      using race_atD(5) [OF inv] t that unfolding all_apart_def by (metis holds.simps(1) job.select_convs(1) job.update_convs(5) job.surjective)
    show "owns (threads s u) \<noteq> Some c" if "owns ?q = Some c" for c u using that tidy by simp
  qed simp
qed

subsection \<open>Making and offering a client\<close>

lemma owner_alone:
  assumes "race_at L s" and "owns (threads s t) = Some c" and "u \<noteq> t"
  shows "owns (threads s u) \<noteq> Some c"
  using race_atD(5) [OF assms(1)] assms(2,3) unfolding all_apart_def by metis

lemma holder_alone:
  assumes "race_at L s" and "holds (threads s t) = Some p" and "u \<noteq> t"
  shows "holds (threads s u) \<noteq> Some p"
  using race_atD(5) [OF assms(1)] assms(2,3) unfolding all_apart_def by metis

lemma make_race:
  assumes inv: "race_at L s" and t: "threads s t = HasRoom" and r: "make_client grant t' junk (sys s) = Inr (p, Y)"
  shows "race_at L (thread_to t (NewMade p) Y s)"
proof -
  obtain P where a: "ObjectPool_Malloc grant client_size t' (client_pool_m (sys s)) = Inr (p, P)"
    and Y: "Y = (on_world (\<lambda>W. W\<lparr>clients_at := (clients_at W)(p \<mapsto> Client_ctor junk)\<rparr>) (sys s))\<lparr>client_pool_m := P\<rparr>"
    using r by (auto simp: make_client_def)
  have e: "settle L Y = (settle L (sys s))\<lparr>shared_world := settled_world L Y, client_pool_m := P\<rparr>"
    by (intro stream_sys.equality) (simp_all add: Y)
  have n: "p \<noteq> Null \<and> clients_at (settled_world L (sys s)) p = None \<and>
     base_ok ((settle L (sys s))\<lparr>shared_world := settled_world L Y, client_pool_m := P\<rparr>) \<and> unlisted (settled_world L Y) p \<and>
     (\<forall>q\<in>set (in_flight (settled_world L Y)). accept_for (settled_world L Y) q \<noteq> Some p) \<and> frame {} {} (settled_world L (sys s)) (settled_world L Y)"
    by (rule new_base [OF race_atD(3) [OF inv], where grant = grant and t = t' and x = "Client_ctor junk"]) (use a in \<open>simp_all add: Y\<close>)
  have st: "still (threads s t) (NewMade p)" by (simp add: t still_def)
  show ?thesis
  proof (rule race_move [OF inv race_quiet [OF inv st]])
    show "base_ok (settle L Y)" by (subst e) (use n in blast)
    show "frame {} {} (settled_world L (sys s)) (settled_world L Y)" using n by blast
    show "place_ok (settled_world L Y) (NewMade p)" using n by (simp add: place_ok_def stranded_def)
    show "owns (threads s u) \<noteq> Some c" if c: "owns (NewMade p) = Some c" for c u
    proof
      assume "owns (threads s u) = Some c"
      then have "stranded (settled_world L (sys s)) c" using race_atD(4) [OF inv, of u] by (simp add: place_ok_def)
      then show False using n c by (simp add: stranded_def unlisted_def)
    qed
  qed (simp_all add: Y)
qed

lemma offer_race:
  assumes inv: "race_at L s" and t: "threads s t = NewCounted p"
    and r: "offer_client grant t' sock associated accept_ok p (sys s) = Inr (b, Y)"
  shows "race_at L (thread_to t Accepting Y s)"
proof (rule offer_clientE [OF r])
  show "pools_match (sys s)" using base_okD(3) [OF race_atD(3) [OF inv]] by (simp add: pools_settle)
  fix y q P assume y: "clients_at (shared_world (sys s)) p = Some y" and q: "contexts (shared_world (sys s)) q = None"
    and rel: "opool_rel context_size P (insert q (dom (contexts (shared_world (sys s)))))"
    and Y: "Y = (sys s)\<lparr>shared_world := snd (submit accept_ok q (new_context q (IoContext 0 p IO_ACCEPT)
       (set_client p (y\<lparr>client_socket := sock\<rparr>) (shared_world (sys s))))), io_context_pool_m := P\<rparr>"
  have o: "owns (threads s t) = Some p" by (simp add: t)
  have st: "stranded (settled_world L (sys s)) p" using race_atD(4) [OF inv, of t] o by (simp add: place_ok_def)
  have e: "settle L Y = (settle L (sys s))\<lparr>shared_world := snd (submit accept_ok q (new_context q (IoContext 0 p IO_ACCEPT)
       (set_client p (y\<lparr>client_socket := sock\<rparr>) (settled_world L (sys s))))), io_context_pool_m := P\<rparr>"
    by (intro stream_sys.equality) (simp_all add: Y settle_def on_world_def settle_post settle_client)
  have k: "base_ok (settle L Y) \<and> frame {} {p} (settled_world L (sys s)) (settled_world L Y)"
    using offer_base [OF race_atD(3) [OF inv] st _ _ _ e] y q rel by simp
  have st: "still (threads s t) Accepting" by (simp add: t still_def)
  show ?thesis
  proof (rule race_move [OF inv race_quiet [OF inv st]])
    show "base_ok (settle L Y)" "frame {} {p} (settled_world L (sys s)) (settled_world L Y)" using k by simp_all
    show "\<forall>c\<in>{p}. \<forall>u. u \<noteq> t \<longrightarrow> owns (threads s u) \<noteq> Some c" using owner_alone [OF inv o] by blast
  qed (simp_all add: place_ok_def Y)
qed

subsection \<open>Taking a completion and releasing its context\<close>

lemma take_race:
  assumes inv: "race_at L s" and t: "threads s t = Waiting" and c: "ctx \<in> set (in_flight (shared_world (sys s)))"
    and x: "context_ref (shared_world (sys s)) ctx = Inr x"
  shows "race_at L (thread_to t (start_job gqcs n ctx x) (mark_received gqcs n ctx x (completed ctx (sys s))) s)"
proof -
  let ?Z = "completed ctx (settle L (sys s))" and ?Y = "mark_received gqcs n ctx x (completed ctx (sys s))"
  let ?q = "start_job gqcs n ctx x" and ?f = "\<lambda>W. W\<lparr>contexts := (contexts W)(ctx \<mapsto> x\<lparr>received_m := n\<rparr>)\<rparr>"
  have c': "ctx \<in> set (in_flight (settled_world L (sys s)))" using c by simp
  note k = completed_base [OF race_atD(3) [OF inv] c']
  have x: "contexts (shared_world (sys s)) ctx = Some x"
    using x by (auto simp: context_ref_def split: if_splits option.splits)
  then have x0: "contexts (shared_world ?Z) ctx = Some x" by (simp add: completed_def)
  have e0: "settle L (completed ctx (sys s)) = ?Z" by (simp add: settle_def completed_def on_world_def)
  have e: "settle L ?Y = (if hung_up gqcs n x then ?Z else on_world ?f ?Z)"
    by (simp add: mark_received_def e0) (simp add: settle_def completed_def on_world_def)
  have m: "base_ok (on_world ?f ?Z) \<and> frame {ctx} {} (shared_world ?Z) (shared_world (on_world ?f ?Z))"
    by (rule set_context_base [OF k(1) x0 k(3) refl])
  have f0: "frame {ctx} {} (settled_world L (sys s)) (shared_world ?Z)" by (rule frame_mono [OF k(2)]) simp_all
  have b: "base_ok (settle L ?Y)" using k(1) m by (simp add: e)
  have f1: "frame {ctx} {} (shared_world ?Z) (settled_world L ?Y)" using m by (simp add: e)
  have np: "ctx \<notin> set (in_flight (settled_world L ?Y))" using k(3) by (simp add: e)
  have free: "holds (threads s u) \<noteq> Some ctx" for u
    using race_atD(4) [OF inv, of u] c by (auto simp: place_ok_def)
  have st: "still (threads s t) ?q" by (simp add: t still_def start_job_def)
  have tidy: "distinct (program ty)" "Do Add \<in> set (program ty) \<longleftrightarrow> ty = IO_ACCEPT" for ty by (cases ty; simp)+
  have own: "accept_for (shared_world (sys s)) ctx = Some d \<and> stranded (settled_world L ?Y) d" if "owns ?q = Some d" for d
  proof -
    have d: "io_type_m x = IO_ACCEPT" "d = client_of x"
      using that tidy(2) by (auto simp: start_job_def split: if_splits)
    then have "accept_for (shared_world ?Z) ctx = Some d" by (simp add: accept_for_def x0)
    then have "stranded (shared_world ?Z) d" by (rule k(6))
    then have "stranded (settled_world L ?Y) d" by (rule stranded_frame [OF f1]) (use np in simp_all)
    then show ?thesis using d by (simp add: accept_for_def x)
  qed
  show ?thesis
  proof (rule race_move [OF inv race_quiet [OF inv st]])
    show "base_ok (settle L ?Y)" by (rule b)
    show "frame {ctx} {} (settled_world L (sys s)) (settled_world L ?Y)" by (rule frame_trans [OF f0 f1])
    show "\<forall>p\<in>{ctx}. p \<notin> set (in_flight (shared_world ?Y)) \<and> (\<forall>u. u \<noteq> t \<longrightarrow> holds (threads s u) \<noteq> Some p)"
      using np free by simp
    have "contexts (settled_world L ?Y) ctx \<noteq> None" using x0 by (simp add: e)
    then show "place_ok (settled_world L ?Y) ?q"
      using np own tidy(1) by (auto simp: place_ok_def start_job_def)
    show "holds (threads s u) \<noteq> Some p" if "holds ?q = Some p" for p u using that free by (auto simp: start_job_def)
    show "owns (threads s u) \<noteq> Some d" if "owns ?q = Some d" for d u
    proof
      assume "owns (threads s u) = Some d"
      then have "stranded (settled_world L (sys s)) d" using race_atD(4) [OF inv, of u] by (simp add: place_ok_def)
      moreover have "accept_for (settled_world L (sys s)) ctx = Some d" using own [OF that] by (simp add: accept_for_def)
      ultimately show False using c by (auto simp: stranded_def)
    qed
  qed (simp_all add: mark_received_def completed_def)
qed

lemma release_race:
  assumes inv: "race_at L s" and t: "threads s t = Busy j []" and r: "pooled_destroy t' (job_ctx j) (sys s) = Inr Y"
  shows "race_at L (thread_to t Waiting Y s)"
proof (rule pooled_destroyE [OF r])
  let ?c = "job_ctx j"
  fix P assume x: "contexts (shared_world (sys s)) ?c \<noteq> None"
    and f: "ObjectPool_Free context_size t' (io_context_pool_m (sys s)) ?c = Inr P"
    and Y: "Y = (sys s)\<lparr>shared_world := (shared_world (sys s))\<lparr>contexts := (contexts (shared_world (sys s)))(?c := None)\<rparr>, io_context_pool_m := P\<rparr>"
  have h: "holds (threads s t) = Some ?c" by (simp add: t)
  have np: "?c \<notin> set (in_flight (shared_world (sys s)))" using race_atD(4) [OF inv, of t] h by (simp add: place_ok_def)
  have e: "settle L Y = (settle L (sys s))\<lparr>shared_world := (settled_world L (sys s))\<lparr>contexts := (contexts (settled_world L (sys s)))(?c := None)\<rparr>, io_context_pool_m := P\<rparr>"
    by (simp add: Y settle_def on_world_def)
  have k: "base_ok (settle L Y) \<and> frame {?c} {} (settled_world L (sys s)) (settled_world L Y)"
    using free_context_base [OF race_atD(3) [OF inv] _ _ _ e] np x f by simp
  have st: "still (threads s t) Waiting" by (simp add: t still_def)
  show ?thesis
  proof (rule race_move [OF inv race_quiet [OF inv st]])
    show "base_ok (settle L Y)" "frame {?c} {} (settled_world L (sys s)) (settled_world L Y)" using k by simp_all
    show "\<forall>p\<in>{?c}. p \<notin> set (in_flight (shared_world Y)) \<and> (\<forall>u. u \<noteq> t \<longrightarrow> holds (threads s u) \<noteq> Some p)"
      using np holder_alone [OF inv h] by (simp add: Y)
  qed (simp_all add: place_ok_def Y)
qed

subsection \<open>Removing a client\<close>

lemma remover_alone:
  assumes "race_at L s" and "locks (threads s t)" and "u \<noteq> t"
  shows "\<not> locks (threads s u)"
  using race_atD(2) [OF assms(1)] assms(2,3) unfolding lock_ok_def by blast

lemma remover:
  assumes inv: "race_at L s" and t: "threads s t = Removing r j ps"
  shows "job_client j \<in> set (listed_now s)" and "L = (if r = Found then listed_now s else remove1 (job_client j) (listed_now s))"
    and "manager_lock (shared_world (sys s)) = Spinlock\<lparr>lock_m := 1\<rparr>" and "distinct ps"
proof -
  show "job_client j \<in> set (listed_now s)" "L = (if r = Found then listed_now s else remove1 (job_client j) (listed_now s))"
    using race_atD(1) [OF inv] t unfolding leaves_def by blast+
  have "locks (threads s t)" by (simp add: t)
  then show "manager_lock (shared_world (sys s)) = Spinlock\<lparr>lock_m := 1\<rparr>"
    using race_atD(2) [OF inv] unfolding lock_ok_def by blast
  show "distinct ps" using race_atD(4) [OF inv, of t] by (simp add: t place_ok_def)
qed

text \<open>The steps of \<open>RemoveClient\<close>, but for the destruction itself, change only the count, the lock and the list.\<close>

lemma remove_race:
  assumes inv: "race_at L s" and lists: "leaves (thread_to t q (on_world g (sys s)) s) L" "lock_ok (thread_to t q (on_world g (sys s)) s)"
    and g: "\<And>W. clients_at (g W) = clients_at W" "\<And>W. contexts (g W) = contexts W" "\<And>W. in_flight (g W) = in_flight W"
      "\<And>W. limit_m (g W) = limit_m W"
    and q: "holds q = None \<or> holds q = holds (threads s t)" "owns q = None \<or> owns q = owns (threads s t)" "tidy q"
  shows "race_at L (thread_to t q (on_world g (sys s)) s)"
proof -
  let ?Y = "on_world g (sys s)"
  have e: "settle L ?Y = (settle L (sys s))\<lparr>shared_world := settled_world L ?Y\<rparr>" by (intro stream_sys.equality) simp_all
  have "base_ok ((settle L (sys s))\<lparr>shared_world := settled_world L ?Y\<rparr>) \<and> frame {} {} (settled_world L (sys s)) (settled_world L ?Y)"
    by (rule base_upd [OF race_atD(3) [OF inv]]) (simp_all add: g)
  then have b: "base_ok (settle L ?Y)" and f: "frame {} {} (settled_world L (sys s)) (settled_world L ?Y)" by (simp_all flip: e)
  show ?thesis
  proof (rule race_move [OF inv lists b f])
    have "place_ok (settled_world L ?Y) (threads s t)" by (rule place_frame [OF race_atD(4) [OF inv] f]) simp_all
    then show "place_ok (settled_world L ?Y) q" using q by (auto simp: place_ok_def)
    show "holds (threads s u) \<noteq> Some p" if "holds q = Some p" "u \<noteq> t" for p u
      using holder_alone [OF inv, of t p u] q(1) that by auto
    show "owns (threads s u) \<noteq> Some c" if "owns q = Some c" "u \<noteq> t" for c u
      using owner_alone [OF inv, of t c u] q(2) that by auto
  qed simp_all
qed

lemma missing_race:
  assumes inv: "race_at L s" and t: "threads s t = Busy j (Remove # ps)"
    and l: "ExclusiveLockHolder (manager_lock (shared_world (sys s))) = Some l"
  shows "race_at L (thread_to t (Busy (j\<lparr>io_result := True\<rparr>) ps)
     (on_world (\<lambda>W. W\<lparr>manager_lock := ExclusiveLockHolder_dtor l\<rparr>) (sys s)) s)"
proof (rule remove_race [OF inv])
  note f = lock_is_free [OF inv l]
  have p: "place_ok (settled_world L (sys s)) (threads s t)" by (rule race_atD(4) [OF inv])
  then show "tidy (Busy (j\<lparr>io_result := True\<rparr>) ps)" by (simp add: place_ok_def t)
  show "leaves (thread_to t (Busy (j\<lparr>io_result := True\<rparr>) ps) (on_world (\<lambda>W. W\<lparr>manager_lock := ExclusiveLockHolder_dtor l\<rparr>) (sys s)) s) L"
    "lock_ok (thread_to t (Busy (j\<lparr>io_result := True\<rparr>) ps) (on_world (\<lambda>W. W\<lparr>manager_lock := ExclusiveLockHolder_dtor l\<rparr>) (sys s)) s)"
    by (rule free_lists; simp add: f(1,3) f(4) [symmetric] lock_cycle)+
qed (simp_all add: t)

lemma found_race:
  assumes inv: "race_at L s" and t: "threads s t = Busy j (Remove # ps)"
    and l: "ExclusiveLockHolder (manager_lock (shared_world (sys s))) = Some l" and c: "job_client j \<in> set (listed_now s)"
  shows "race_at L (thread_to t (Removing Found j ps) (on_world (\<lambda>W. W\<lparr>manager_lock := l\<rparr>) (sys s)) s)"
proof (rule remove_race [OF inv])
  note f = lock_is_free [OF inv l]
  have p: "place_ok (settled_world L (sys s)) (threads s t)" by (rule race_atD(4) [OF inv])
  then show "tidy (Removing Found j ps)" by (simp add: place_ok_def t)
  show "leaves (thread_to t (Removing Found j ps) (on_world (\<lambda>W. W\<lparr>manager_lock := l\<rparr>) (sys s)) s) L"
    "lock_ok (thread_to t (Removing Found j ps) (on_world (\<lambda>W. W\<lparr>manager_lock := l\<rparr>) (sys s)) s)"
    by (rule held_lists; simp add: f(1,3,4) c)+
qed (simp_all add: t)

lemma destroy_race:
  assumes inv: "race_at L s" and t: "threads s t = Removing Found j ps" and r: "destroy_client t' (job_client j) (sys s) = Inr Y"
  shows "race_at (remove1 (job_client j) L) (thread_to t (Removing Destroyed j ps) Y s)"
proof -
  let ?c = "job_client j" and ?q = "Removing Destroyed j ps"
  note m = remover [OF inv t]
  have L: "L = listed_now s" using m(2) by simp
  obtain P where f: "ObjectPool_Free client_size t' (client_pool_m (sys s)) ?c = Inr P"
    and Y: "Y = (on_world (\<lambda>W. W\<lparr>clients_at := (clients_at W)(?c := None)\<rparr>) (sys s))\<lparr>client_pool_m := P\<rparr>"
    using r by (auto simp: destroy_client_def)
  have e: "settle (remove1 ?c L) Y = (settle L (sys s))\<lparr>shared_world := settled_world (remove1 ?c L) Y, client_pool_m := P\<rparr>"
    by (intro stream_sys.equality) (simp_all add: Y)
  have "base_ok ((settle L (sys s))\<lparr>shared_world := settled_world (remove1 ?c L) Y, client_pool_m := P\<rparr>) \<and>
      frame {} {} (settled_world L (sys s)) (settled_world (remove1 ?c L) Y)"
    by (rule delete_base [OF race_atD(3) [OF inv], where c = ?c and t = t']) (use m(1) L f in \<open>simp_all add: Y\<close>)
  then have b: "base_ok (settle (remove1 ?c L) Y)" and fr: "frame {} {} (settled_world L (sys s)) (settled_world (remove1 ?c L) Y)"
    by (simp_all flip: e)
  have h: "holds ?q = holds (threads s t)" "owns ?q = owns (threads s t)" by (simp_all add: t)
  show ?thesis
  proof (rule race_move [OF inv _ _ b fr])
    show "leaves (thread_to t ?q Y s) (remove1 ?c L)" "lock_ok (thread_to t ?q Y s)"
      by (rule held_lists; use m remover_alone [OF inv, of t] t L in \<open>simp add: Y\<close>)+
    have "place_ok (settled_world (remove1 ?c L) Y) (threads s t)" by (rule place_frame [OF race_atD(4) [OF inv] fr]) simp_all
    then show "place_ok (settled_world (remove1 ?c L) Y) ?q" by (simp add: place_ok_def t)
    show "holds (threads s u) \<noteq> Some p" if "holds ?q = Some p" "u \<noteq> t" for p u
      using holder_alone [OF inv, of t p u] that h by simp
    show "owns (threads s u) \<noteq> Some c" if "owns ?q = Some c" "u \<noteq> t" for c u
      using owner_alone [OF inv, of t c u] that h by simp
  qed simp_all
qed

lemma count_race:
  assumes inv: "race_at L s" and st: "still (threads s t) q"
    and q: "holds q = None \<or> holds q = holds (threads s t)" "owns q = None \<or> owns q = owns (threads s t)" "tidy q"
  shows "race_at L (thread_to t q (set_count k (sys s)) s)"
  unfolding set_count_def
proof (rule remove_race [OF inv _ _ _ _ _ _ q])
  show "leaves (thread_to t q (on_world (\<lambda>W. W\<lparr>current_m := k\<rparr>) (sys s)) s) L"
    "lock_ok (thread_to t q (on_world (\<lambda>W. W\<lparr>current_m := k\<rparr>) (sys s)) s)"
    using race_quiet [OF inv st, of "on_world (\<lambda>W. W\<lparr>current_m := k\<rparr>) (sys s)"] by simp_all
qed simp_all

lemma erase_race:
  assumes inv: "race_at L s" and t: "threads s t = Removing CountStored j ps"
  shows "race_at L (thread_to t (Busy (j\<lparr>io_result := True\<rparr>) ps)
      (on_world (\<lambda>W. W\<lparr>clients_list := remove1 (job_client j) (clients_list W),
         manager_lock := ExclusiveLockHolder_dtor (manager_lock W)\<rparr>) (sys s)) s)"
proof (rule remove_race [OF inv])
  let ?Y = "on_world (\<lambda>W. W\<lparr>clients_list := remove1 (job_client j) (clients_list W),
         manager_lock := ExclusiveLockHolder_dtor (manager_lock W)\<rparr>) (sys s)"
  note m = remover [OF inv t]
  show "leaves (thread_to t (Busy (j\<lparr>io_result := True\<rparr>) ps) ?Y s) L" "lock_ok (thread_to t (Busy (j\<lparr>io_result := True\<rparr>) ps) ?Y s)"
    by (rule free_lists; use m remover_alone [OF inv, of t] t in \<open>simp add: lock_cycle\<close>)+
  show "tidy (Busy (j\<lparr>io_result := True\<rparr>) ps)" using m(4) by simp
qed (simp_all add: t)

subsection \<open>Every step\<close>

lemma stream_race_keeps:
  assumes "stream_race_step S s t s'" and inv: "race_at L s"
  shows "\<exists>L'. race_at L' s'"
  using assms(1)
proof cases
  case a_test
  then show ?thesis using race_idle [OF inv, of t HasRoom] by (auto simp: still_def)
next
  case (a_make grant junk p Y)
  then show ?thesis using make_race [OF inv] by blast
next
  case (a_load p)
  then show ?thesis using race_idle [OF inv, of t "NewLoaded p (current_m (shared_world (sys s)))"] by (auto simp: still_def)
next
  case (a_store p k)
  then show ?thesis using count_race [OF inv, of t "NewCounted p" "k + 1"] by (auto simp: still_def)
next
  case (a_offer p grant sock associated accept_ok r Y)
  then show ?thesis using offer_race [OF inv] by blast
next
  case (w_take ctx x gqcs n)
  then show ?thesis using take_race [OF inv] by blast
next
  case w_timeout
  have "inner (shared_world (sys s)) (TimeoutHandler S Null (shared_world (sys s)))" by (simp add: handler_defs inner_call)
  from inner_race [OF inv this, of t Waiting] w_timeout show ?thesis by (auto simp: still_def on_world_def)
next
  case (w_call j m ps grant ok r Y)
  then show ?thesis using call_race [OF inv] add_race [OF inv] by (cases "m = Add") blast+
next
  case (w_missing j ps l)
  then show ?thesis using missing_race [OF inv] by blast
next
  case (w_found j ps l)
  then show ?thesis using found_race [OF inv] by blast
next
  case (w_destroy j ps Y)
  then show ?thesis using destroy_race [OF inv] by blast
next
  case (w_load j ps)
  then show ?thesis using remover(4) [OF inv]
      race_idle [OF inv, of t "Removing (CountLoaded (current_m (shared_world (sys s)))) j ps"] by (auto simp: still_def)
next
  case (w_store k j ps)
  then show ?thesis using remover(4) [OF inv] count_race [OF inv, of t "Removing CountStored j ps" "k - 1"] by (auto simp: still_def)
next
  case (w_erase j ps)
  then show ?thesis using erase_race [OF inv] by blast
next
  case (w_release j Y)
  then show ?thesis using release_race [OF inv] by blast
next
  case (u_send grant data sz ok c r Y)
  have "tidy (threads s t)" using race_atD(4) [OF inv, of t] by (simp add: place_ok_def)
  moreover have "with_context grant t (\<lambda>p. Send data sz p ok c) (sys s) = Inr (r, Y)" using u_send by (simp add: pooled_posts)
  ultimately show ?thesis using u_send posts_race [OF inv posts_Send, of grant t data sz ok c r Y t "threads s t"]
    by (auto simp: still_def)
next
  case (u_disconnect grant ok c r Y)
  have "tidy (threads s t)" using race_atD(4) [OF inv, of t] by (simp add: place_ok_def)
  moreover have "with_context grant t (\<lambda>p. Disconnect p ok c) (sys s) = Inr (r, Y)" using u_disconnect by (simp add: pooled_posts)
  ultimately show ?thesis using u_disconnect posts_race [OF inv posts_Disconnect, of grant t ok c r Y t "threads s t"]
    by (auto simp: still_def)
qed

lemma stream_race_reach:
  assumes "reach (stream_race_step S) stream_race_init s"
  shows "\<exists>L. race_at L s"
  using assms
proof (induction rule: reach.induct)
  case reach_refl
  then show ?case using race_init by blast
next
  case (reach_step s t s')
  then show ?case using stream_race_keeps by blast
qed

text \<open>An accept in one step is one run of the steps of its thread; the first accept of a server, taken by a worker.\<close>

lemma accept_pieces:
  assumes a: "pooled_accept grant t junk sock associated accept_ok (sys s) = Inr Y" and t: "threads s t = Accepting"
    and room: "current_m (shared_world (sys s)) < limit_m (shared_world (sys s))" and inv: "race_at L s"
  shows "reach (stream_race_step S) s (thread_to t Accepting Y s)"
proof -
  obtain p Y1 where n: "pooled_NewClient grant t junk (sys s) = Inr (p, Y1)" using a by (auto simp: pooled_accept_def)
  then obtain P where m: "ObjectPool_Malloc grant client_size t (client_pool_m (sys s)) = Inr (p, P)"
    and Y1: "Y1 = (sys s)\<lparr>shared_world := snd (NewClient p junk (shared_world (sys s))), client_pool_m := P\<rparr>"
    using room by (auto simp: pooled_NewClient_def NewClient_def)
  let ?Y0 = "(on_world (\<lambda>W. W\<lparr>clients_at := (clients_at W)(p \<mapsto> Client_ctor junk)\<rparr>) (sys s))\<lparr>client_pool_m := P\<rparr>"
  let ?k = "current_m (shared_world (sys s))"
  have mk: "make_client grant t junk (sys s) = Inr (p, ?Y0)" using m by (simp add: make_client_def)
  have e: "set_count (?k + 1) ?Y0 = Y1"
    using room by (intro stream_sys.equality) (simp_all add: set_count_def Y1 NewClient_def)
  have "p \<noteq> Null" using Malloc_law [OF base_okD(4) [OF race_atD(3) [OF inv]], of grant t p P] m by simp
  then obtain b where o: "offer_client grant t sock associated accept_ok p Y1 = Inr (b, Y)"
    using a n by (auto simp: pooled_accept_def)
  let ?s1 = "thread_to t HasRoom (sys s) s" and ?s2 = "thread_to t (NewMade p) ?Y0 s" and ?s3 = "thread_to t (NewLoaded p ?k) ?Y0 s"
    and ?s4 = "thread_to t (NewCounted p) Y1 s"
  have mm: "thread_to t q Y (thread_to t q' Y' s) = thread_to t q Y s" for q q' Y Y' by (simp add: thread_to_def)
  have "stream_race_step S s t ?s1" by (rule a_test [OF t room])
  then have r1: "reach (stream_race_step S) s ?s1" by (rule reach_one)
  have "stream_race_step S ?s1 t (thread_to t (NewMade p) ?Y0 ?s1)" by (rule a_make) (use mk in simp_all)
  then have r2: "reach (stream_race_step S) s ?s2" unfolding mm by (rule reach.reach_step [OF r1])
  have "stream_race_step S ?s2 t (thread_to t (NewLoaded p (current_m (shared_world (sys ?s2)))) (sys ?s2) ?s2)"
    by (rule a_load) simp
  then have r3: "reach (stream_race_step S) s ?s3" using reach.reach_step [OF r2] by (simp add: mm)
  have "stream_race_step S ?s3 t (thread_to t (NewCounted p) (set_count (?k + 1) (sys ?s3)) ?s3)" by (rule a_store) simp
  then have r4: "reach (stream_race_step S) s ?s4" using reach.reach_step [OF r3] e by (simp add: mm)
  have "stream_race_step S ?s4 t (thread_to t Accepting Y ?s4)" by (rule a_offer [where p = p]) (use o in simp_all)
  then show ?thesis using reach.reach_step [OF r4] by (simp add: mm)
qed

lemma taken_accept:
  "\<exists>s p ctx. reach (stream_race_step S) stream_race_init s \<and>
     threads s 1 = Busy \<lparr>job_ctx = ctx, job_client = p, job_type = IO_ACCEPT, job_received = 0, io_result = False\<rparr> (program IO_ACCEPT) \<and>
     in_flight (shared_world (sys s)) = []"
proof -
  obtain Y p ctx where Y: "pooled_accept (\<lambda>_ _. True) 0 0 7 True True stream_init = Inr Y"
    "contexts (shared_world Y) = [ctx \<mapsto> IoContext 0 p IO_ACCEPT]" "in_flight (shared_world Y) = [ctx]"
    using first_accept [of 10000 True, unfolded limit_init] by auto
  let ?s = "thread_to 0 Accepting Y stream_race_init"
  have r: "reach (stream_race_step S) stream_race_init ?s"
    by (rule accept_pieces [OF _ _ _ race_init])
      (use Y(1) in \<open>simp_all add: stream_race_init_def stream_init_def world_init_def\<close>)
  obtain L where "race_at L ?s" using stream_race_reach [OF r] by blast
  note k = completed_base [OF race_atD(3) [OF this], of ctx]
  have "ctx \<noteq> Null" using k(5) Y(3) by simp
  then have "context_ref (shared_world (sys ?s)) ctx = Inr (IoContext 0 p IO_ACCEPT)" by (simp add: Y(2))
  then have "stream_race_step S ?s 1 (thread_to 1 (start_job True 0 ctx (IoContext 0 p IO_ACCEPT))
      (mark_received True 0 ctx (IoContext 0 p IO_ACCEPT) (completed ctx (sys ?s))) ?s)"
    by (rule w_take [rotated 2]) (simp_all add: stream_race_init_def Y(3))
  from reach.reach_step [OF r this] show ?thesis
    by (intro exI conjI, assumption)
      (simp_all add: start_job_def hung_up_def IoContext_def mark_received_def completed_def Y(3))
qed

subsection \<open>Properties\<close>

text \<open>The client whose entry is about to be erased.\<close>

definition erase_due :: "stream_race \<Rightarrow> ptr \<Rightarrow> bool" where
  "erase_due s c \<longleftrightarrow> (\<exists>t r j ps. threads s t = Removing r j ps \<and> r \<noteq> Found \<and> job_client j = c)"

lemma leaves_erase_due:
  assumes "leaves s L"
  shows "L = listed_now s \<or> (\<exists>c. erase_due s c \<and> L = remove1 c (listed_now s))"
proof (cases "\<exists>t. locks (threads s t)")
  case True
  then obtain t r j ps where t: "threads s t = Removing r j ps" by (metis locks.elims(2))
  then have L: "L = (if r = Found then listed_now s else remove1 (job_client j) (listed_now s))"
    using assms unfolding leaves_def by blast
  show ?thesis
  proof (cases "r = Found")
    case False
    then have "erase_due s (job_client j)" using t unfolding erase_due_def by blast
    then show ?thesis using L False by auto
  qed (use L in simp)
next
  case False
  then show ?thesis using assms by (simp add: leaves_def)
qed

text \<open>
  C6. However the steps of the accepting thread, of the workers and of users who send and disconnect interleave, as
  long as no call has faulted (on a freed client, say): the list of clients, less the entry of a client that a worker has destroyed
  and is about to erase, names existing clients, each once; the chunks in use in the two pools are exactly the
  clients and contexts that exist; the operations in flight have contexts of their own, those of accepts clients
  of their own that are in no list yet; no two threads are in \<open>RemoveClient\<close>; and the context of a worker's round, and
  the client that a thread makes or is about to list, exist and are in the hands of no other thread
  and of no operation in flight.  That \<open>current_\<close> counts the clients is not among it: theory \<open>ClientCount\<close> shows how the count is lost.
\<close>

theorem stream_threads_consistent:
  assumes "reach (stream_race_step S) stream_race_init s"
  shows "\<exists>L. (L = clients_list (shared_world (sys s)) \<or> (\<exists>c. erase_due s c \<and> L = remove1 c (clients_list (shared_world (sys s))))) \<and>
     ((\<nexists>c. erase_due s c) \<longrightarrow> L = clients_list (shared_world (sys s))) \<and>
     distinct L \<and> set L \<subseteq> dom (clients_at (shared_world (sys s))) \<and> pools_match (sys s) \<and>
     distinct (in_flight (shared_world (sys s))) \<and>
     (\<forall>p\<in>set (in_flight (shared_world (sys s))). contexts (shared_world (sys s)) p \<noteq> None) \<and>
     (\<forall>p\<in>set (in_flight (shared_world (sys s))). \<forall>c. accept_for (shared_world (sys s)) p = Some c \<longrightarrow>
        clients_at (shared_world (sys s)) c \<noteq> None \<and> c \<notin> set L \<and>
        (\<forall>q\<in>set (in_flight (shared_world (sys s))). accept_for (shared_world (sys s)) q = Some c \<longrightarrow> q = p)) \<and>
     (\<forall>t p. holds (threads s t) = Some p \<longrightarrow>
        contexts (shared_world (sys s)) p \<noteq> None \<and> p \<notin> set (in_flight (shared_world (sys s)))) \<and>
     (\<forall>t c. owns (threads s t) = Some c \<longrightarrow> clients_at (shared_world (sys s)) c \<noteq> None \<and> c \<notin> set L \<and>
        (\<forall>q\<in>set (in_flight (shared_world (sys s))). accept_for (shared_world (sys s)) q \<noteq> Some c)) \<and>
     (\<forall>t u. t \<noteq> u \<longrightarrow> \<not> (locks (threads s t) \<and> locks (threads s u)) \<and>
        (\<forall>p. holds (threads s t) = Some p \<longrightarrow> holds (threads s u) \<noteq> Some p) \<and>
        (\<forall>c. owns (threads s t) = Some c \<longrightarrow> owns (threads s u) \<noteq> Some c))"
proof -
  obtain L where inv: "race_at L s" using stream_race_reach [OF assms] by blast
  note b = base_okD [OF race_atD(3) [OF inv]]
  have acc: "accept_for (settled_world L (sys s)) = accept_for (shared_world (sys s))" by (rule ext) (simp add: accept_for_def)
  have un: "unlisted (settled_world L (sys s)) c \<longleftrightarrow> clients_at (shared_world (sys s)) c \<noteq> None \<and> c \<notin> set L" for c
    by (simp add: unlisted_def)
  show ?thesis
  proof (intro exI [of _ L] conjI)
    show "L = clients_list (shared_world (sys s)) \<or> (\<exists>c. erase_due s c \<and> L = remove1 c (clients_list (shared_world (sys s))))"
      by (rule leaves_erase_due [OF race_atD(1) [OF inv]])
    show "(\<nexists>c. erase_due s c) \<longrightarrow> L = clients_list (shared_world (sys s))"
      using leaves_erase_due [OF race_atD(1) [OF inv]] by blast
    show "distinct L" "set L \<subseteq> dom (clients_at (shared_world (sys s)))" using b(1) by (simp_all add: clients_ok_def)
    show "pools_match (sys s)" using b(3) by (simp add: pools_settle)
    note fl = b(2) [unfolded flight_ok_def acc un settle_sel]
    show "distinct (in_flight (shared_world (sys s)))" using fl by blast
    show "\<forall>p\<in>set (in_flight (shared_world (sys s))). contexts (shared_world (sys s)) p \<noteq> None" using fl by blast
    show "\<forall>p\<in>set (in_flight (shared_world (sys s))). \<forall>c. accept_for (shared_world (sys s)) p = Some c \<longrightarrow>
        clients_at (shared_world (sys s)) c \<noteq> None \<and> c \<notin> set L \<and>
        (\<forall>q\<in>set (in_flight (shared_world (sys s))). accept_for (shared_world (sys s)) q = Some c \<longrightarrow> q = p)"
      using fl by blast
    show "\<forall>t p. holds (threads s t) = Some p \<longrightarrow>
        contexts (shared_world (sys s)) p \<noteq> None \<and> p \<notin> set (in_flight (shared_world (sys s)))"
      using race_atD(4) [OF inv] unfolding place_ok_def settle_sel by blast
    show "\<forall>t c. owns (threads s t) = Some c \<longrightarrow> clients_at (shared_world (sys s)) c \<noteq> None \<and> c \<notin> set L \<and>
        (\<forall>q\<in>set (in_flight (shared_world (sys s))). accept_for (shared_world (sys s)) q \<noteq> Some c)"
      using race_atD(4) [OF inv] unfolding place_ok_def stranded_def acc un settle_sel by blast
    show "\<forall>t u. t \<noteq> u \<longrightarrow> \<not> (locks (threads s t) \<and> locks (threads s u)) \<and>
        (\<forall>p. holds (threads s t) = Some p \<longrightarrow> holds (threads s u) \<noteq> Some p) \<and>
        (\<forall>c. owns (threads s t) = Some c \<longrightarrow> owns (threads s u) \<noteq> Some c)"
      using race_atD(5) [OF inv] remover_alone [OF inv] unfolding all_apart_def by blast
  qed
qed

theorem stream_threads_consistent_witness:
  "\<exists>s p ctx. reach (stream_race_step (Server_ctor 0)) stream_race_init s \<and> owns (threads s 1) = Some p \<and>
     holds (threads s 1) = Some ctx \<and> clients_at (shared_world (sys s)) p \<noteq> None \<and> contexts (shared_world (sys s)) ctx \<noteq> None \<and>
     holds (threads s 2) \<noteq> Some ctx \<and> pools_match (sys s)"
proof -
  obtain s p ctx where s: "reach (stream_race_step (Server_ctor 0)) stream_race_init s"
    "threads s 1 = Busy \<lparr>job_ctx = ctx, job_client = p, job_type = IO_ACCEPT, job_received = 0, io_result = False\<rparr> (program IO_ACCEPT)"
    using taken_accept by blast
  have h: "holds (threads s 1) = Some ctx" and o: "owns (threads s 1) = Some p" unfolding s(2) by simp_all
  note c = stream_threads_consistent [OF s(1)]
  have "clients_at (shared_world (sys s)) p \<noteq> None" "contexts (shared_world (sys s)) ctx \<noteq> None" "pools_match (sys s)"
    using c h o by blast+
  moreover have "holds (threads s 2) \<noteq> Some ctx" using c h by (metis one_eq_numeral_iff num.distinct(1))
  ultimately show ?thesis using s(1) h o by blast
qed

end
