(* ===== verification/ClientCount.thy ===== *)
theory ClientCount
  imports ClientManager
begin

section \<open>The count of clients between threads (server/ClientManager.cpp)\<close>

text \<open>
  Theory \<open>ClientManager\<close> runs each member as one step.  \<open>NewClient\<close> takes no lock, while \<open>DeleteClient\<close> runs
  under the lock of \<open>RemoveClient\<close>; both change \<open>current_\<close> by a load and a store.  Here the two are
  cut at these accesses: thread 0 is the one that accepts, every other is a worker, of which the
  lock lets one remove at a time.  \<open>waiting\<close> counts the clients that wait for their connection, \<open>listed\<close>
  those in \<open>clients_\<close>.
\<close>

datatype accept_at = AcceptIdle | Tested | Built | Loaded u32

record count_state =
  current_c :: u32
  limit_c :: u32
  waiting :: nat
  listed :: nat
  accepting :: accept_at
  removing :: "u32 option"      \<comment> \<open>the value a worker has loaded inside the lock\<close>

definition count_init :: "u32 \<Rightarrow> count_state" where
  "count_init limit = \<lparr>current_c = 0, limit_c = limit, waiting = 0, listed = 0, accepting = AcceptIdle,
     removing = None\<rparr>"

inductive count_step :: "count_state \<Rightarrow> nat \<Rightarrow> count_state \<Rightarrow> bool" where
  new_test: "accepting s = AcceptIdle \<Longrightarrow> current_c s < limit_c s \<Longrightarrow> s' = s\<lparr>accepting := Tested\<rparr> \<Longrightarrow>
    count_step s 0 s'"
| new_build: "accepting s = Tested \<Longrightarrow> s' = s\<lparr>waiting := waiting s + 1, accepting := Built\<rparr> \<Longrightarrow> count_step s 0 s'"
| new_load: "accepting s = Built \<Longrightarrow> s' = s\<lparr>accepting := Loaded (current_c s)\<rparr> \<Longrightarrow> count_step s 0 s'"
| new_store: "accepting s = Loaded c \<Longrightarrow> s' = s\<lparr>current_c := c + 1, accepting := AcceptIdle\<rparr> \<Longrightarrow> count_step s 0 s'"
| add_client: "t \<noteq> 0 \<Longrightarrow> 0 < waiting s \<Longrightarrow> s' = s\<lparr>waiting := waiting s - 1, listed := listed s + 1\<rparr> \<Longrightarrow>
    count_step s t s'"
| delete_load: "t \<noteq> 0 \<Longrightarrow> removing s = None \<Longrightarrow> 0 < listed s \<Longrightarrow>
    s' = s\<lparr>listed := listed s - 1, removing := Some (current_c s)\<rparr> \<Longrightarrow> count_step s t s'"
| delete_store: "t \<noteq> 0 \<Longrightarrow> removing s = Some c \<Longrightarrow> s' = s\<lparr>current_c := c - 1, removing := None\<rparr> \<Longrightarrow>
    count_step s t s'"

lemma count_then: "reach count_step s0 s \<Longrightarrow> count_step s t s' \<Longrightarrow> reach count_step s0 s'"
  by (rule reach.reach_step)

text \<open>A resting state with one listed client and the count \<open>c\<close>.\<close>

definition one_client :: "u32 \<Rightarrow> u32 \<Rightarrow> count_state" where
  "one_client limit c = \<lparr>current_c = c, limit_c = limit, waiting = 0, listed = 1, accepting = AcceptIdle,
     removing = None\<rparr>"

lemma first_client: "0 < limit \<Longrightarrow> reach count_step (count_init limit) (one_client limit 1)"
proof -
  assume l: "0 < limit"
  let ?s1 = "(count_init limit)\<lparr>accepting := Tested\<rparr>"
  let ?s2 = "?s1\<lparr>waiting := 1, accepting := Built\<rparr>"
  let ?s3 = "?s2\<lparr>accepting := Loaded 0\<rparr>"
  let ?s4 = "?s3\<lparr>current_c := 1, accepting := AcceptIdle\<rparr>"
  have "reach count_step (count_init limit) ?s1"
    by (rule count_then [OF reach.reach_refl], rule new_test) (use l in \<open>simp_all add: count_init_def\<close>)
  then have "reach count_step (count_init limit) ?s2"
    by (rule count_then) (rule new_build, simp_all add: count_init_def)
  then have "reach count_step (count_init limit) ?s3"
    by (rule count_then) (rule new_load, simp_all add: count_init_def)
  then have "reach count_step (count_init limit) ?s4"
    by (rule count_then) (rule new_store, simp_all add: count_init_def)
  then show ?thesis
    by (rule count_then) (rule add_client [of 1], simp_all add: count_init_def one_client_def)
qed

text \<open>One lost decrement: a worker removes the client while the next one is counted.\<close>

lemma lost_decrement:
  assumes "c < limit"
  shows "reach count_step (one_client limit c) (one_client limit (c + 1))"
proof -
  let ?s0 = "one_client limit c"
  let ?s1 = "?s0\<lparr>accepting := Tested\<rparr>"
  let ?s2 = "?s1\<lparr>waiting := 1, accepting := Built\<rparr>"
  let ?s3 = "?s2\<lparr>accepting := Loaded c\<rparr>"
  let ?s4 = "?s3\<lparr>listed := 0, removing := Some c\<rparr>"
  let ?s5 = "?s4\<lparr>current_c := c - 1, removing := None\<rparr>"
  let ?s6 = "?s5\<lparr>current_c := c + 1, accepting := AcceptIdle\<rparr>"
  have "reach count_step ?s0 ?s1"
    by (rule count_then [OF reach.reach_refl], rule new_test) (use assms in \<open>simp_all add: one_client_def\<close>)
  then have "reach count_step ?s0 ?s2"
    by (rule count_then) (rule new_build, simp_all add: one_client_def)
  then have "reach count_step ?s0 ?s3"
    by (rule count_then) (rule new_load, simp_all add: one_client_def)
  then have "reach count_step ?s0 ?s4"
    by (rule count_then) (rule delete_load [of 1], simp_all add: one_client_def)
  then have "reach count_step ?s0 ?s5"
    by (rule count_then) (rule delete_store [of 1], simp_all add: one_client_def)
  then have "reach count_step ?s0 ?s6"
    by (rule count_then) (rule new_store, simp_all add: one_client_def)
  then show ?thesis
    by (rule count_then) (rule add_client [of 1], simp_all add: one_client_def)
qed

lemma count_drifts:
  assumes "0 < limit"
  shows "n < unat limit \<Longrightarrow> reach count_step (count_init limit) (one_client limit (of_nat n + 1))"
proof (induction n)
  case 0
  show ?case using first_client [OF assms] by simp
next
  case (Suc n)
  have u: "unat limit < 2 ^ 32" using unsigned_less [of limit, where ?'a = nat] by simp
  have "Suc n < 2 ^ 32" using Suc.prems u by simp
  then have "unat (of_nat (Suc n) :: u32) = Suc n" unfolding unat_of_nat by simp
  then have "(of_nat n + 1 :: u32) < limit" using Suc.prems by (simp add: word_less_nat_alt add.commute)
  from lost_decrement [OF this] Suc.IH Suc.prems show ?case
    by (simp add: add.commute reach_trans)
qed

subsection \<open>Properties\<close>

text \<open>
  C31. The server can come to refuse everybody: because \<open>NewClient\<close> counts without the lock, decrements of
  workers get lost, and for every limit there is a run after which a single client exists, no thread is
  inside the two functions, and \<open>current_\<close> has reached the limit; from there \<open>NewClient\<close> hands out nothing.
\<close>

theorem lost_decrements_exhaust:
  assumes "0 < limit"
  shows "\<exists>s. reach count_step (count_init limit) s \<and> waiting s + listed s = 1 \<and>
     accepting s = AcceptIdle \<and> removing s = None \<and> current_c s = limit \<and>
     (\<forall>s'. \<not> count_step s 0 s') \<and>
     (\<forall>W p junk. current_m W = current_c s \<and> limit_m W = limit_c s \<longrightarrow> NewClient p junk W = (Null, W))"
proof -
  have "0 < unat limit" using assms by (simp add: word_less_nat_alt)
  moreover have "(of_nat (unat limit - 1) + 1 :: u32) = of_nat (Suc (unat limit - 1))" by simp
  then have "(of_nat (unat limit - 1) + 1 :: u32) = limit" using calculation by (simp add: of_nat_unat)
  ultimately have r: "reach count_step (count_init limit) (one_client limit limit)"
    using count_drifts [OF assms, of "unat limit - 1"] by simp
  have "\<not> count_step (one_client limit limit) 0 s'" for s'
    by (auto simp: one_client_def elim: count_step.cases)
  then show ?thesis using r by (intro exI [of _ "one_client limit limit"]) (simp add: one_client_def NewClient_def)
qed

theorem lost_decrements_exhaust_witness:
  "\<exists>s. reach count_step (count_init (limit_m world_init)) s \<and> waiting s + listed s = 1 \<and> current_c s = 10000"
  using lost_decrements_exhaust [of "limit_m world_init"] by (auto simp: world_init_def)

end
