(* ===== verification/Spec2Isabelle.thy ===== *)
theory Spec2Isabelle
  imports Spinlock PoolSpec PoolRaceSpec ObjectPoolSpec PoolWrappers ThreadPoolLive Futures Protocol IoPoolsSpec
    UdpServer SessionLife StreamPoolsSpec StreamRaceSpec ClientCount
begin

text \<open>
  A verification library for the C++ server core under src/core: a reader/writer spin lock, a family of
  memory pools, a thread pool, a datagram server with sessions, and a stream server on completion ports.

  \<^bold>\<open>The parts and how they interact.\<close>  Everything that locks uses the spin lock (lock/Spinlock.*).  A pool
  (memory_pool/) is a free list in blocks from \<open>::malloc\<close>; an object pool gives each thread a pool of its own and
  returns a chunk to the pool of the thread that allocated it.  The thread pool (thread_manager/) runs tasks
  from a queue under the lock.  The datagram server (udp_server/) wraps a session manager, whose workers
  take completions, open sessions by a handshake, keep them in two ordered tables and pass data to the
  user; packets, sessions and I/O objects are chunks of object pools.  The stream server (server/) runs
  \<open>IocpWork\<close> on a thread pool; clients own two buffers and are listed by a client manager.

  \<^bold>\<open>Which theory models what.\<close>
  \<^item> \<open>Prelude\<close>: results, sequencing, reachability.  \<open>Memory\<close>: bytes, pointers, \<open>::malloc\<close> and \<open>::free\<close>.
    \<open>Mutex\<close>, \<open>Allocator\<close>, \<open>StdMap\<close>, \<open>Refinement\<close>: the interfaces, as locales.
  \<^item> \<open>Spinlock\<close>: lock/Spinlock.h, Spinlock.cpp: each member run alone (\<open>Lock\<close>, \<open>ReadLock\<close>, ...) and cut at its atomic
    accesses (\<open>lock_step\<close>).
  \<^item> \<open>SegregatedStorage\<close>, \<open>Pool\<close>, \<open>PoolSpec\<close>: segregated_storage.hpp, pool.hpp.  \<open>PoolRace\<close>, \<open>PoolRaceInv\<close>,
    \<open>PoolRaceSpec\<close>: the same code cut at the accesses of what threads share (\<open>race_step\<close>).
  \<^item> \<open>ObjectPool\<close>, \<open>ObjectPoolSpec\<close>: object_pool.hpp.  \<open>PoolWrappers\<close>: singleton_pool.hpp, allocator.hpp,
    null_mutex.hpp.
  \<^item> \<open>ThreadPool\<close>, \<open>ThreadPoolSpec\<close>, \<open>ThreadPoolLive\<close>: ThreadPool.h, ThreadPool.cpp (\<open>tp_step\<close>).
    \<open>Futures\<close>: the packaged tasks and futures of \<open>Enqueue\<close> (\<open>fut_step\<close>).
  \<^item> \<open>Endpoint\<close>, \<open>Packet\<close>, \<open>UdpSocket\<close>: endpoint.hpp, packet.*, socket.*, session.hpp.  \<open>IoPools\<close>, \<open>IoPoolsSpec\<close>:
    the I/O objects and packet blocks at addresses in their pools.
  \<^item> \<open>SessionManager\<close>, \<open>SessionManagerSpec\<close>, \<open>Protocol\<close>: session_manager.*, one thread at a time.  \<open>SessionRace\<close>,
    \<open>SessionRaceInv\<close>, \<open>SessionRaceSpec\<close>, \<open>SessionLife\<close>: its workers, heartbeat thread and destroying thread
    interleaved (\<open>session_step\<close>).  \<open>UdpServer\<close>: udp_server/src/server.*.
  \<^item> \<open>Buffer\<close>, \<open>Client\<close>, \<open>ClientManager\<close>, \<open>ClientCount\<close>, \<open>StreamServer\<close>, \<open>StreamServerSpec\<close>: the files of server/, the
    chunks of new clients and contexts being arguments.  \<open>StreamPools\<close>, \<open>StreamPoolsInv\<close>, \<open>StreamPoolsSpec\<close>: the same
    on the two object pools, for runs whose rounds, accepts, sends and disconnects do not overlap (\<open>stream_step\<close>).
    \<open>StreamRace\<close>, \<open>StreamRaceSpec\<close>: the accepting thread and the workers cut at the calls of a round and at the accesses
    of \<open>current_\<close>, interleaved (\<open>stream_race_step\<close>).

  \<^bold>\<open>Conventions.\<close>  A member \<open>x_\<close> is the record field \<open>x_m\<close>; a function keeps its name where the library of
  Isabelle leaves it free.  \<open>size_t\<close> is a 64-bit word, \<open>long\<close>, \<open>int\<close> and \<open>DWORD\<close> 32, \<open>short\<close> 16 and \<open>char\<close> 8 bits; a
  conversion of the code is \<open>ucast\<close>, \<open>scast\<close>, \<open>unat\<close> or \<open>sint\<close>.  A result is \<open>Inl\<close> of a fault (null
  or wild access, failed assertion, uncaught exception, bad \<open>free\<close>, no return) or \<open>Inr\<close> of a value.  A loop that
  may spin for ever is a \<open>partial_function (option)\<close>, \<open>None\<close> being no return.  Code that several threads run
  is an inductive relation \<open>step s t s'\<close>, one shared access of thread \<open>t\<close> at a time; accesses take effect
  in one order, so what weaker memory orders would add is outside.

  \<^bold>\<open>Interfaces.\<close>  \<open>mutex\<close> (what users of the lock rely on) is interpreted on the lock as \<open>wl\<close>; \<open>allocator\<close> and
  \<open>total_allocator\<close> on the pool (\<open>pl\<close>), the object pool (\<open>shared\<close>) and the singleton (\<open>single\<close>); \<open>std_map\<close> on ordered
  association lists (\<open>om\<close>); \<open>refines\<close> on the thread pool (\<open>ex\<close>), the I/O objects (\<open>io\<close>) and the threads of
  the session manager (\<open>life\<close>).

  \<^bold>\<open>What the lemmas show.\<close>  Lock: writers exclude each other, guarded data are stable, and how a reader can
  overlap a writer.  Pools: no chunk is handed out twice, user writes are harmless, blocks are all given back,
  also between threads and at the level of single accesses; where growth loses a chunk, what a purge does.
  Thread pool: every accepted task runs once, in order; the pool refines an executor; shutting down ends in
  every fair run; a future holds the result of its own callable, and none is left waiting.  Sessions: the tables stay
  consistent in every round, the rounds refine a protocol with one small state per peer, heartbeats age it, a peer
  that is heard of stays unless 32768 of its datagrams come between two heartbeats; and how receives starve, a
  time-out faults, the destructor hangs.  All threads together keep the tables consistent, refine the life of
  sessions, never gain receives, and fault in five ways only, among them the race of two ACKs and the overlap of a
  reader and a writer in one \<open>std::map\<close>.  Packets survive the wire up to size 32767; I/O objects refine their counts,
  the block of a sent packet is never freed, and a late packet handler reads the next receive.  Stream server: in
  every interleaving of the threads the client list, the pools, the operations in flight and what the threads hold
  stay consistent; a round that runs alone and finds its client returns and recycles its context; and how
  the count drifts, refused accepts and sends leave clients, contexts and locks behind, a disconnected
  client is used, and packet sizes are misread.

  \<^bold>\<open>Bounds.\<close>  Memory has \<open>address_space = 2 ^ 47\<close> bytes per block; \<open>::malloc\<close> may refuse any request (a
  parameter).  Packet bodies are 65000 bytes, receive buffers 512, object pools serve 64 threads, clients are
  limited to 10000: the code's numbers.  The only fuel is the list of completions or rounds given to
  \<open>iocp_task\<close>, \<open>IocpWork\<close> and \<open>accept_loop\<close>, of any length.

  \<^bold>\<open>Not modelled.\<close>  The tests and benchmarks; \<open>ReleaseMemory\<close> and \<open>PoolAllocator\<close>, which have no body;
  \<open>PrintError\<close>, which prints; what user handlers do (their calls are recorded); the inside of sockets and
  completion ports (what they answer are arguments).  Each pool has a memory of
  its own; the object pool itself, from \<open>_aligned_malloc\<close>, is taken to be granted.  A call of a member of \<open>Client\<close> is one
  step also in \<open>StreamRace\<close>, so what two calls on one client at a time would do to its buffers is outside.  In
  \<open>SessionManager\<close> the I/O objects are counted; \<open>IoPoolsSpec\<close> shows the counts right.  The results of \<open>WSARecvFrom\<close> and
  \<open>WSASendTo\<close>, which the code drops, are taken as success.  In \<open>SessionRace\<close> a section under an exclusive lock is one
  step, or (the aging loop) excludes the others; a reader that overlaps a writer in a \<open>std::map\<close> is a fault, and what the
  program would do after this undefined behaviour is outside.
\<close>

end
